(* ===== verification/WolfBase.thy ===== *)
theory WolfBase
  imports Main "HOL-Library.Word"
begin

text \<open>
  Shared ground of the development.  Every component of the engine is modelled by functions
  that take its state and return the new one.  Where the C++ code can stop being defined (a
  failed \<open>assert\<close>, a null or dangling pointer, an index outside an array, a signed overflow)
  or can fail to return, the model returns a \<open>fault\<close>: the results are sums
  \<open>fault + 'a\<close>, sequenced with \<open>seqE\<close>.  The theory also holds the reachable states of a step
  relation and the locale that every state machine of the development interprets, the
  bounded iteration of a loop body, and the general lemmas on lists and words the
  components share.
\<close>

section \<open>Faults and results\<close>

datatype fault =
    AssertFail        \<comment> \<open>a failed \<open>assert\<close> (the build type of the repository is Debug)\<close>
  | NullDeref         \<comment> \<open>a member access through \<open>nullptr\<close>\<close>
  | UseAfterFree      \<comment> \<open>an access to an object that was deleted\<close>
  | OutOfBounds       \<comment> \<open>an index outside an array or a string\<close>
  | SignedOverflow    \<comment> \<open>signed \<open>int\<close> arithmetic out of range\<close>
  | Uninitialised     \<comment> \<open>a read of memory nothing was stored in\<close>
  | Diverges          \<comment> \<open>the call does not return\<close>
  | ExitProcess       \<comment> \<open>\<open>exit\<close>, \<open>abort\<close> or an exception nothing catches\<close>
  | InvalidFree       \<comment> \<open>\<open>free\<close> of memory that was not allocated for it\<close>
  | BadConversion     \<comment> \<open>a floating-point number converted to an integer type it does not fit\<close>

type_synonym 'a res = "fault + 'a"

fun seqE :: "'a res \<Rightarrow> ('a \<Rightarrow> 'b res) \<Rightarrow> 'b res" where
  "seqE (Inl e) f = Inl e"
| "seqE (Inr x) f = f x"

definition checkE :: "bool \<Rightarrow> fault \<Rightarrow> unit res" where
  "checkE b e = (if b then Inr () else Inl e)"

named_theorems res_simps \<open>evaluation of fault results\<close>

lemma seqE_Inr_iff [res_simps]:
  "seqE m f = Inr y \<longleftrightarrow> (\<exists>x. m = Inr x \<and> f x = Inr y)"
  by (cases m) auto

lemma seqE_Inl_iff [res_simps]:
  "seqE m f = Inl e \<longleftrightarrow> m = Inl e \<or> (\<exists>x. m = Inr x \<and> f x = Inl e)"
  by (cases m) auto

lemma checkE_simps [simp]: "checkE True e = Inr ()" "checkE False e = Inl e"
  by (simp_all add: checkE_def)

lemma checkE_Inr_iff [simp]: "checkE b e = Inr u \<longleftrightarrow> b"
  by (simp add: checkE_def)

lemma checkE_Inl_iff [simp]: "checkE b e = Inl e' \<longleftrightarrow> \<not> b \<and> e' = e"
  by (auto simp: checkE_def)

section \<open>Reachable states and invariants\<close>

inductive reach :: "('s \<Rightarrow> bool) \<Rightarrow> ('s \<Rightarrow> 's \<Rightarrow> bool) \<Rightarrow> 's \<Rightarrow> bool"
  for init :: "'s \<Rightarrow> bool" and step :: "'s \<Rightarrow> 's \<Rightarrow> bool" where
  reach_init: "init s \<Longrightarrow> reach init step s"
| reach_step: "reach init step s \<Longrightarrow> step s t \<Longrightarrow> reach init step t"

text \<open>
  A state machine with an inductive invariant.  Each machine of the development interprets
  this locale on its own initial states, steps and invariant.
\<close>

locale invariant_machine =
  fixes init :: "'s \<Rightarrow> bool"
    and step :: "'s \<Rightarrow> 's \<Rightarrow> bool"
    and inv :: "'s \<Rightarrow> bool"
  assumes inv_init: "init s \<Longrightarrow> inv s"
    and inv_step: "inv s \<Longrightarrow> step s t \<Longrightarrow> inv t"
begin

lemma reach_inv: "reach init step s \<Longrightarrow> inv s"
  by (induction rule: reach.induct) (auto intro: inv_init inv_step)

lemma steps_inv: "step\<^sup>*\<^sup>* s t \<Longrightarrow> inv s \<Longrightarrow> inv t"
  by (induction rule: rtranclp_induct) (auto intro: inv_step)

end

lemma reach_steps: "step\<^sup>*\<^sup>* s t \<Longrightarrow> reach init step s \<Longrightarrow> reach init step t"
  by (induction rule: rtranclp_induct) (auto intro: reach_step)

section \<open>Lists\<close>

definition hd_opt :: "'a list \<Rightarrow> 'a option" where
  "hd_opt xs = (case xs of [] \<Rightarrow> None | x # _ \<Rightarrow> Some x)"

definition last_opt :: "'a list \<Rightarrow> 'a option" where
  "last_opt xs = (if xs = [] then None else Some (last xs))"

lemma hd_opt_simps [simp]: "hd_opt [] = None" "hd_opt (x # xs) = Some x"
  by (simp_all add: hd_opt_def)

lemma last_opt_simps [simp]:
  "last_opt [] = None" "last_opt (xs @ [x]) = Some x" "last_opt [x] = Some x"
  "last_opt (x # y # ys) = last_opt (y # ys)"
  by (simp_all add: last_opt_def)

lemma hd_opt_append: "hd_opt (xs @ ys) = (case hd_opt xs of None \<Rightarrow> hd_opt ys | Some x \<Rightarrow> Some x)"
  by (cases xs) simp_all

lemma last_opt_append: "last_opt (xs @ ys) = (case last_opt ys of None \<Rightarrow> last_opt xs | Some x \<Rightarrow> Some x)"
  by (simp add: last_opt_def)

lemma last_opt_append_Cons [simp]: "last_opt (xs @ y # ys) = last_opt (y # ys)"
  by (simp add: last_opt_def)

lemma hd_opt_mid: "hd_opt (xs @ y # z # zs) = hd_opt (xs @ [y])"
  by (cases xs) simp_all

lemma hd_opt_None [simp]: "hd_opt xs = None \<longleftrightarrow> xs = []"
  by (cases xs) simp_all

lemma last_opt_None [simp]: "last_opt xs = None \<longleftrightarrow> xs = []"
  by (simp add: last_opt_def)

lemma last_opt_Some: "last_opt xs = Some x \<longleftrightarrow> (\<exists>ys. xs = ys @ [x])"
  by (cases xs rule: rev_cases) (auto simp: last_opt_def)

lemma hd_opt_Some: "hd_opt xs = Some x \<longleftrightarrow> (\<exists>ys. xs = x # ys)"
  by (cases xs) auto

section \<open>Keyed tables\<close>

text \<open>A table in which a later entry replaces an earlier one with its key.\<close>

locale keyed_table =
  fixes look :: "'t \<Rightarrow> 'k \<Rightarrow> 'v option"
    and put :: "'t \<Rightarrow> 'v \<Rightarrow> 't"
    and key :: "'v \<Rightarrow> 'k"
  assumes look_put: "look (put t v) k = (if k = key v then Some v else look t k)"
begin

lemma look_foldl_put:
  "look (foldl put t vs) k =
     (case last_opt (filter (\<lambda>v. key v = k) vs) of Some v \<Rightarrow> Some v | None \<Rightarrow> look t k)"
proof (induction vs rule: rev_induct)
  case (snoc v vs)
  then show ?case by (auto simp: look_put last_opt_append)
qed simp

end

end
