(* ===== verification/RingQueue.thy ===== *)
theory RingQueue
  imports WolfBase
begin

text \<open>
  \<open>util::queue<T>\<close> of \<open>engine/src/util/queue.h\<close>: the growing ring buffer under every mailbox,
  work list and log queue of the engine.  The array is a list of optional cells (\<open>None\<close> is
  memory that \<open>malloc\<close> returned and nothing was stored in); the indices and the capacity are
  C \<open>int\<close>s, kept as integers with the overflow of the doubling written out.  The spin lock
  makes every public operation one atomic step, so it does not appear.  The locale
  \<open>fifo\<close> is the contract the clients of the queue rely on, and it is interpreted on the
  ring buffer.
\<close>

section \<open>State\<close>

definition DEFAULT_SIZE :: int where "DEFAULT_SIZE = 64"
definition EQ_OVERLOAD :: int where "EQ_OVERLOAD = 1024"
definition INT_MAX :: int where "INT_MAX = 2 ^ 31 - 1"

record 'a queue =
  m_cap :: int
  m_head :: int
  m_tail :: int
  m_overload :: int
  m_overload_threshold :: int
  m_arrays :: "'a option list"

definition new_queue :: "'a queue" where
  "new_queue = \<lparr>m_cap = DEFAULT_SIZE, m_head = 0, m_tail = 0, m_overload = 0,
     m_overload_threshold = EQ_OVERLOAD, m_arrays = replicate (nat DEFAULT_SIZE) None\<rparr>"

section \<open>Operations\<close>

definition local_expand :: "'a queue \<Rightarrow> 'a queue res" where
  "local_expand q =
     (if m_cap q * 2 > INT_MAX then Inl SignedOverflow
      else Inr (q\<lparr>m_arrays :=
             map (\<lambda>i. m_arrays q ! nat ((m_head q + int i) mod m_cap q)) [0..<nat (m_cap q)]
             @ replicate (nat (m_cap q)) None,
           m_head := 0, m_tail := m_cap q, m_cap := m_cap q * 2\<rparr>))"

definition local_push :: "'a queue \<Rightarrow> 'a \<Rightarrow> 'a queue res" where
  "local_push q v =
     (if \<not> (0 \<le> m_tail q \<and> m_tail q < int (length (m_arrays q))) then Inl OutOfBounds
      else
       let q1 = q\<lparr>m_arrays := (m_arrays q)[nat (m_tail q) := Some v]\<rparr>;
           t = m_tail q + 1;
           q2 = q1\<lparr>m_tail := (if t \<ge> m_cap q then 0 else t)\<rparr>
       in if m_head q2 = m_tail q2 then local_expand q2 else Inr q2)"

text \<open>\<open>while (length > m_overload_threshold)\<close>: the recorded overload and the new threshold.\<close>

partial_function (option) overload_loop :: "int \<Rightarrow> int \<Rightarrow> int \<Rightarrow> (int \<times> int) option" where
  "overload_loop len ov th =
     (if len > th then overload_loop len len (th * 2) else Some (ov, th))"

definition local_pop :: "'a queue \<Rightarrow> ('a option \<times> 'a queue) res" where
  "local_pop q =
     (if m_head q \<noteq> m_tail q then
        if \<not> (0 \<le> m_head q \<and> m_head q < int (length (m_arrays q))) then Inl OutOfBounds
        else
          case m_arrays q ! nat (m_head q) of
            None \<Rightarrow> Inl Uninitialised
          | Some v \<Rightarrow>
              let h = m_head q + 1;
                  h' = (if h \<ge> m_cap q then 0 else h);
                  l = m_tail q - h';
                  len = (if l < 0 then l + m_cap q else l)
              in case overload_loop len (m_overload q) (m_overload_threshold q) of
                   None \<Rightarrow> Inl Diverges
                 | Some (ov, th) \<Rightarrow>
                     Inr (Some v, q\<lparr>m_head := h', m_overload := ov,
                                    m_overload_threshold := th\<rparr>)
      else Inr (None, q\<lparr>m_overload_threshold := EQ_OVERLOAD\<rparr>))"

definition queue_length :: "'a queue \<Rightarrow> int" where
  "queue_length q =
     (if m_head q \<le> m_tail q then m_tail q - m_head q
      else m_tail q + m_cap q - m_head q)"

definition take_overload :: "'a queue \<Rightarrow> int \<times> 'a queue" where
  "take_overload q =
     (if m_overload q \<noteq> 0 then (m_overload q, q\<lparr>m_overload := 0\<rparr>) else (0, q))"

section \<open>Invariant and abstraction\<close>

text \<open>
  The occupied cells are the \<open>queue_length\<close> cells from \<open>m_head\<close> on, wrapping at the
  capacity; their contents, in that order, are the abstract queue.
\<close>

definition cell :: "'a queue \<Rightarrow> nat \<Rightarrow> 'a option" where
  "cell q i = m_arrays q ! nat ((m_head q + int i) mod m_cap q)"

definition contents :: "'a queue \<Rightarrow> 'a list" where
  "contents q = map (\<lambda>i. the (cell q i)) [0..<nat (queue_length q)]"

definition queue_inv :: "'a queue \<Rightarrow> bool" where
  "queue_inv q \<longleftrightarrow>
     0 < m_cap q \<and> m_cap q \<le> 2 ^ 30 \<and> int (length (m_arrays q)) = m_cap q \<and>
     0 \<le> m_head q \<and> m_head q < m_cap q \<and> 0 \<le> m_tail q \<and> m_tail q < m_cap q \<and>
     0 < m_overload_threshold q \<and>
     (\<forall>i < nat (queue_length q). cell q i \<noteq> None)"

text \<open>The queue can still take an element without doubling past the range of \<open>int\<close>.\<close>

definition queue_room :: "'a queue \<Rightarrow> bool" where
  "queue_room q \<longleftrightarrow> queue_length q + 1 < m_cap q \<or> m_cap q \<le> 2 ^ 29"

lemma queue_length_nonneg: "queue_inv q \<Longrightarrow> 0 \<le> queue_length q"
  by (auto simp: queue_inv_def queue_length_def)

lemma queue_length_bound: "queue_inv q \<Longrightarrow> queue_length q < m_cap q"
  by (auto simp: queue_inv_def queue_length_def)

lemma length_contents: "queue_inv q \<Longrightarrow> int (length (contents q)) = queue_length q"
  using queue_length_nonneg by (simp add: contents_def)

lemma queue_length_mod:
  "queue_inv q \<Longrightarrow> queue_length q = (m_tail q - m_head q) mod m_cap q"
proof -
  assume i: "queue_inv q"
  show ?thesis
  proof (cases "m_head q \<le> m_tail q")
    case True
    then show ?thesis using i by (simp add: queue_length_def queue_inv_def)
  next
    case False
    have "(m_tail q - m_head q) mod m_cap q = (m_tail q - m_head q + m_cap q) mod m_cap q"
      by simp
    also have "\<dots> = m_tail q - m_head q + m_cap q"
      using i False by (intro mod_pos_pos_trivial) (auto simp: queue_inv_def)
    finally show ?thesis using False by (simp add: queue_length_def)
  qed
qed

lemma cell_eqI:
  "m_arrays q' = m_arrays q \<Longrightarrow> m_head q' = m_head q \<Longrightarrow> m_cap q' = m_cap q \<Longrightarrow> cell q' i = cell q i"
  by (simp add: cell_def)

lemma mod_add_neq:
  fixes h :: int
  assumes "0 < c" "i < j" "int j < c"
  shows "(h + int i) mod c \<noteq> (h + int j) mod c"
proof
  assume "(h + int i) mod c = (h + int j) mod c"
  then have "c dvd (h + int j) - (h + int i)" by (metis mod_eq_dvd_iff)
  then have "c dvd int (j - i)" using assms by (simp add: of_nat_diff)
  moreover have "0 < int (j - i)" "int (j - i) < c" using assms by auto
  ultimately show False by (simp add: zdvd_not_zless)
qed

lemma tail_index:
  assumes "queue_inv q"
  shows "(m_head q + queue_length q) mod m_cap q = m_tail q"
proof -
  have "(m_head q + queue_length q) mod m_cap q = (m_head q + (m_tail q - m_head q)) mod m_cap q"
    using queue_length_mod[OF assms] by (simp add: mod_add_right_eq)
  then show ?thesis using assms by (simp add: queue_inv_def)
qed

section \<open>The queue is a FIFO list\<close>

lemma new_queue_inv [intro]: "queue_inv new_queue"
  by (simp add: queue_inv_def new_queue_def DEFAULT_SIZE_def EQ_OVERLOAD_def queue_length_def)

lemma new_queue_contents [simp]: "contents new_queue = []"
  by (simp add: contents_def new_queue_def queue_length_def)

text \<open>Storing at the tail leaves the occupied cells alone and fills the next one.\<close>

lemma cell_store:
  assumes "queue_inv q" "i < nat (queue_length q)"
  shows "cell (q\<lparr>m_arrays := (m_arrays q)[nat (m_tail q) := Some v]\<rparr>) i = cell q i"
proof -
  have "(m_head q + int i) mod m_cap q \<noteq> (m_head q + int (nat (queue_length q))) mod m_cap q"
    using assms queue_length_bound[OF assms(1)] queue_length_nonneg[OF assms(1)]
    by (intro mod_add_neq) (auto simp: queue_inv_def)
  then have "(m_head q + int i) mod m_cap q \<noteq> m_tail q"
    using tail_index[OF assms(1)] queue_length_nonneg[OF assms(1)] by simp
  moreover have "0 \<le> (m_head q + int i) mod m_cap q"
    using assms by (simp add: queue_inv_def)
  ultimately have "nat ((m_head q + int i) mod m_cap q) \<noteq> nat (m_tail q)"
    using assms by (auto simp: queue_inv_def nat_eq_iff2)
  then show ?thesis by (simp add: cell_def)
qed

lemma cell_store_tail:
  assumes "queue_inv q"
  shows "cell (q\<lparr>m_arrays := (m_arrays q)[nat (m_tail q) := Some v]\<rparr>) (nat (queue_length q)) = Some v"
proof -
  have "nat (m_tail q) < length (m_arrays q)"
    using assms by (auto simp: queue_inv_def)
  then show ?thesis
    using tail_index[OF assms] queue_length_nonneg[OF assms] by (simp add: cell_def)
qed

text \<open>The queue after the store and the step of the tail, before a possible expansion.\<close>

definition push_stored :: "'a queue \<Rightarrow> 'a \<Rightarrow> 'a queue" where
  "push_stored q v = q\<lparr>m_arrays := (m_arrays q)[nat (m_tail q) := Some v],
     m_tail := (if m_tail q + 1 \<ge> m_cap q then 0 else m_tail q + 1)\<rparr>"

lemma local_push_stored:
  "queue_inv q \<Longrightarrow> local_push q v =
     (if m_head q = m_tail (push_stored q v) then local_expand (push_stored q v)
      else Inr (push_stored q v))"
  by (simp add: local_push_def push_stored_def Let_def queue_inv_def)

lemma push_full:
  assumes "queue_inv q"
  shows "m_head q = m_tail (push_stored q v) \<longleftrightarrow> queue_length q + 1 = m_cap q"
  using assms by (auto simp: push_stored_def queue_length_def queue_inv_def)

lemma push_stored_fields:
  "m_head (push_stored q v) = m_head q" "m_cap (push_stored q v) = m_cap q"
  "length (m_arrays (push_stored q v)) = length (m_arrays q)"
  "m_overload_threshold (push_stored q v) = m_overload_threshold q"
  by (simp_all add: push_stored_def)

lemma push_stored_cell:
  assumes "queue_inv q"
  shows "i < nat (queue_length q) \<Longrightarrow> cell (push_stored q v) i = cell q i"
    and "cell (push_stored q v) (nat (queue_length q)) = Some v"
  using cell_store[OF assms, of i v] cell_store_tail[OF assms, of v]
  by (simp_all add: cell_def push_stored_def)

lemma push_stored_length:
  assumes "queue_inv q" "queue_length q + 1 < m_cap q"
  shows "queue_length (push_stored q v) = queue_length q + 1"
  using assms by (auto simp: push_stored_def queue_length_def queue_inv_def)

lemma push_stored_inv:
  assumes "queue_inv q" "queue_length q + 1 < m_cap q"
  shows "queue_inv (push_stored q v)"
proof -
  have "cell (push_stored q v) i \<noteq> None" if "i < nat (queue_length (push_stored q v))" for i
  proof (cases "i < nat (queue_length q)")
    case True
    then show ?thesis using assms push_stored_cell(1)[OF assms(1)] by (simp add: queue_inv_def)
  next
    case False
    then have "i = nat (queue_length q)"
      using that push_stored_length[OF assms] by simp
    then show ?thesis using push_stored_cell(2)[OF assms(1)] by simp
  qed
  moreover have "0 \<le> m_tail (push_stored q v)" "m_tail (push_stored q v) < m_cap q"
    using assms by (auto simp: push_stored_def queue_inv_def)
  ultimately show ?thesis
    using assms(1) by (simp add: queue_inv_def push_stored_fields)
qed

lemma contents_snoc:
  assumes "\<And>i. i < nat (queue_length q) \<Longrightarrow> cell q' i = cell q i"
    and "cell q' (nat (queue_length q)) = Some v"
    and "queue_length q' = queue_length q + 1" "0 \<le> queue_length q"
  shows "contents q' = contents q @ [v]"
proof -
  have "nat (queue_length q') = Suc (nat (queue_length q))"
    using assms(3,4) by (simp add: nat_add_distrib)
  then show ?thesis
    using assms(1,2) by (simp add: contents_def)
qed

text \<open>The expansion copies the cells in order to the front of the doubled array.\<close>

lemma expand_ok:
  assumes "0 < m_cap s" "m_cap s \<le> 2 ^ 29" "int (length (m_arrays s)) = m_cap s"
    and "0 < m_overload_threshold s" "\<forall>i < nat (m_cap s). cell s i \<noteq> None"
  obtains s' where "local_expand s = Inr s'" "queue_inv s'" "queue_length s' = m_cap s"
    "\<And>i. i < nat (m_cap s) \<Longrightarrow> cell s' i = cell s i"
proof -
  define s' where "s' = s\<lparr>m_arrays := map (cell s) [0..<nat (m_cap s)]
             @ replicate (nat (m_cap s)) None,
           m_head := 0, m_tail := m_cap s, m_cap := m_cap s * 2\<rparr>"
  have ok: "local_expand s = Inr s'"
    using assms(1,2) by (simp add: local_expand_def s'_def INT_MAX_def cell_def)
  have len: "queue_length s' = m_cap s"
    using assms(1) by (simp add: s'_def queue_length_def)
  have c: "cell s' i = cell s i" if "i < nat (m_cap s)" for i
  proof -
    have "int i mod (m_cap s * 2) = int i"
      using that assms(1) by (intro mod_pos_pos_trivial) auto
    then show ?thesis
      using that by (simp add: cell_def s'_def nth_append)
  qed
  have "queue_inv s'"
    using assms len c by (simp add: queue_inv_def s'_def)
  from ok this len c show thesis by (rule that)
qed

lemma push_refines:
  assumes "queue_inv q" "queue_room q"
  obtains q' where "local_push q v = Inr q'" "queue_inv q'" "contents q' = contents q @ [v]"
proof (cases "queue_length q + 1 = m_cap q")
  case False
  then have l: "queue_length q + 1 < m_cap q"
    using queue_length_bound[OF assms(1)] by simp
  show thesis
  proof (rule that)
    show "local_push q v = Inr (push_stored q v)"
      using False by (simp add: local_push_stored[OF assms(1)] push_full[OF assms(1)])
    show "queue_inv (push_stored q v)" by (rule push_stored_inv[OF assms(1) l])
    show "contents (push_stored q v) = contents q @ [v]"
      by (rule contents_snoc[OF push_stored_cell[OF assms(1)] push_stored_length[OF assms(1) l]
              queue_length_nonneg[OF assms(1)]])
  qed
next
  case True
  let ?s = "push_stored q v"
  have n: "nat (m_cap q) = Suc (nat (queue_length q))"
    using True queue_length_nonneg[OF assms(1)] by (simp add: nat_add_distrib flip: True)
  have cells: "\<forall>i < nat (m_cap ?s). cell ?s i \<noteq> None"
    using push_stored_cell[OF assms(1)] assms(1)
    by (auto simp: push_stored_fields n less_Suc_eq queue_inv_def)
  have "0 < m_cap ?s" "m_cap ?s \<le> 2 ^ 29" "int (length (m_arrays ?s)) = m_cap ?s"
    "0 < m_overload_threshold ?s"
    using assms True by (auto simp: push_stored_fields queue_inv_def queue_room_def)
  then obtain s' where s': "local_expand ?s = Inr s'" "queue_inv s'" "queue_length s' = m_cap ?s"
    "\<And>i. i < nat (m_cap ?s) \<Longrightarrow> cell s' i = cell ?s i"
    using expand_ok[OF _ _ _ _ cells] by blast
  show thesis
  proof (rule that)
    show "local_push q v = Inr s'"
      using True s'(1) by (simp add: local_push_stored[OF assms(1)] push_full[OF assms(1)])
    show "contents s' = contents q @ [v]"
      using s'(3,4) push_stored_cell[OF assms(1)] n True queue_length_nonneg[OF assms(1)]
      by (intro contents_snoc) (auto simp: push_stored_fields)
  qed (rule s'(2))
qed

section \<open>Removing from the head\<close>

lemma overload_loop_returns:
  assumes "0 < th"
  shows "\<exists>ov' th'. overload_loop len ov th = Some (ov', th') \<and> th \<le> th' \<and> len \<le> th' \<and>
           (ov' = (if len > th then len else ov))"
  using assms
proof (induction "nat (len - th)" arbitrary: ov th rule: less_induct)
  case less
  show ?case
  proof (cases "len > th")
    case True
    with less.prems have "nat (len - th * 2) < nat (len - th)" by simp
    from less.hyps[OF this, of len] less.prems obtain ov' th' where
      "overload_loop len len (th * 2) = Some (ov', th')" "th * 2 \<le> th'" "len \<le> th'" "ov' = len"
      by (auto split: if_splits)
    with True less.prems show ?thesis by (subst overload_loop.simps) auto
  next
    case False
    then show ?thesis by (subst overload_loop.simps) auto
  qed
qed

text \<open>The queue with the head moved on, whatever the overload bookkeeping says.\<close>

definition pop_moved :: "'a queue \<Rightarrow> int \<Rightarrow> int \<Rightarrow> 'a queue" where
  "pop_moved q ov th = q\<lparr>m_head := (if m_head q + 1 \<ge> m_cap q then 0 else m_head q + 1),
     m_overload := ov, m_overload_threshold := th\<rparr>"

lemma pop_moved_length:
  assumes "queue_inv q" "m_head q \<noteq> m_tail q"
  shows "queue_length (pop_moved q ov th) = queue_length q - 1"
  using assms by (auto simp: pop_moved_def queue_length_def queue_inv_def)

lemma pop_moved_cell:
  assumes "queue_inv q"
  shows "cell (pop_moved q ov th) i = cell q (Suc i)"
proof -
  have "((m_head q + 1) mod m_cap q + int i) mod m_cap q = (m_head q + int (Suc i)) mod m_cap q"
    using mod_add_left_eq[of "m_head q + 1" "m_cap q" "int i"] by (simp add: ac_simps)
  moreover have "(if m_head q + 1 \<ge> m_cap q then 0 else m_head q + 1) = (m_head q + 1) mod m_cap q"
  proof (cases "m_head q + 1 \<ge> m_cap q")
    case True
    then have "m_head q + 1 = m_cap q" using assms by (simp add: queue_inv_def)
    then show ?thesis by simp
  next
    case False
    then show ?thesis using assms by (simp add: queue_inv_def)
  qed
  ultimately show ?thesis by (simp add: cell_def pop_moved_def)
qed

lemma pop_moved_inv:
  assumes "queue_inv q" "m_head q \<noteq> m_tail q" "0 < th"
  shows "queue_inv (pop_moved q ov th)"
proof -
  have "cell (pop_moved q ov th) i \<noteq> None" if "i < nat (queue_length (pop_moved q ov th))" for i
    using that assms(1) pop_moved_length[OF assms(1,2)]
    by (auto simp: pop_moved_cell[OF assms(1)] queue_inv_def)
  then show ?thesis
    using assms by (auto simp: queue_inv_def pop_moved_def)
qed

lemma contents_Cons:
  assumes "queue_inv q" "m_head q \<noteq> m_tail q" "cell q 0 = Some v"
  shows "contents q = v # contents (pop_moved q ov th)"
proof -
  have "0 < queue_length q" using assms by (auto simp: queue_length_def queue_inv_def)
  then have "nat (queue_length q) = Suc (nat (queue_length (pop_moved q ov th)))"
    using pop_moved_length[OF assms(1,2)] by simp
  then show ?thesis
    using assms(3) pop_moved_cell[OF assms(1)]
    by (simp add: contents_def upt_conv_Cons del: upt_Suc flip: map_Suc_upt)
qed

lemma pop_empty:
  "queue_inv q \<Longrightarrow> contents q = [] \<longleftrightarrow> m_head q = m_tail q"
  by (auto simp: contents_def queue_length_def queue_inv_def)

lemma pop_refines_Nil:
  assumes "queue_inv q" "contents q = []"
  obtains q' where "local_pop q = Inr (None, q')" "queue_inv q'" "contents q' = []"
proof -
  have "m_head q = m_tail q" using assms pop_empty by blast
  then show thesis
    using assms
    by (intro that[of "q\<lparr>m_overload_threshold := EQ_OVERLOAD\<rparr>"])
      (auto simp: local_pop_def queue_inv_def contents_def cell_def EQ_OVERLOAD_def queue_length_def)
qed

lemma pop_refines_Cons:
  assumes "queue_inv q" "contents q = v # vs"
  obtains q' where "local_pop q = Inr (Some v, q')" "queue_inv q'" "contents q' = vs"
proof -
  have ne: "m_head q \<noteq> m_tail q" using assms pop_empty[OF assms(1)] by auto
  have "0 < queue_length q" using assms(1) ne by (auto simp: queue_length_def queue_inv_def)
  then have "cell q 0 \<noteq> None" using assms(1) unfolding queue_inv_def by (metis zero_less_nat_eq)
  then obtain w where w: "cell q 0 = Some w" by blast
  then have "w = v" using contents_Cons[OF assms(1) ne w, of 0 0] assms(2) by simp
  have idx: "m_arrays q ! nat (m_head q) = Some v"
    using w assms(1) \<open>w = v\<close> by (simp add: cell_def queue_inv_def)
  let ?h = "if m_head q + 1 \<ge> m_cap q then 0 else m_head q + 1"
  obtain ov th where ol: "overload_loop (if m_tail q - ?h < 0 then m_tail q - ?h + m_cap q else m_tail q - ?h)
      (m_overload q) (m_overload_threshold q) = Some (ov, th)" and th: "m_overload_threshold q \<le> th"
    using overload_loop_returns[of "m_overload_threshold q"] assms(1)
    unfolding queue_inv_def by blast
  show thesis
  proof (rule that)
    show "local_pop q = Inr (Some v, pop_moved q ov th)"
      using ne idx ol assms(1) by (simp add: local_pop_def queue_inv_def Let_def pop_moved_def)
    show "queue_inv (pop_moved q ov th)"
      using th assms(1) by (intro pop_moved_inv[OF assms(1) ne]) (simp add: queue_inv_def)
    show "contents (pop_moved q ov th) = vs"
      using contents_Cons[OF assms(1) ne w, of ov th] assms(2) by simp
  qed
qed

section \<open>The contract of a FIFO queue\<close>

text \<open>
  The loop \<open>while (q.pop(&v)) f(v)\<close>, which the log thread, the actor dispatcher and the
  destructor of the queue run, over any queue operations; \<open>None\<close> is a loop that never ends.
\<close>

partial_function (option) drain_loop ::
    "('q \<Rightarrow> ('a option \<times> 'q) res) \<Rightarrow> ('a \<Rightarrow> 's \<Rightarrow> 's) \<Rightarrow> 'q \<Rightarrow> 's \<Rightarrow> ('q \<times> 's) res option" where
  "drain_loop deq f q s =
     (case deq q of
        Inl e \<Rightarrow> Some (Inl e)
      | Inr (r, q') \<Rightarrow>
          (case r of None \<Rightarrow> Some (Inr (q', s))
           | Some v \<Rightarrow> drain_loop deq f q' (f v s)))"

fun push_all :: "('q \<Rightarrow> 'a \<Rightarrow> 'q res) \<Rightarrow> 'q \<Rightarrow> 'a list \<Rightarrow> 'q res" where
  "push_all enq q [] = Inr q"
| "push_all enq q (v # vs) = seqE (enq q v) (\<lambda>q'. push_all enq q' vs)"

locale fifo =
  fixes enq :: "'q \<Rightarrow> 'a \<Rightarrow> 'q res"
    and deq :: "'q \<Rightarrow> ('a option \<times> 'q) res"
    and cont :: "'q \<Rightarrow> 'a list"
    and inv :: "'q \<Rightarrow> bool"
    and room :: "'q \<Rightarrow> bool"
    and lim :: nat
  assumes enq_ok: "inv q \<Longrightarrow> room q \<Longrightarrow>
      \<exists>q'. enq q v = Inr q' \<and> inv q' \<and> cont q' = cont q @ [v]"
    and deq_Nil: "inv q \<Longrightarrow> cont q = [] \<Longrightarrow> \<exists>q'. deq q = Inr (None, q') \<and> inv q' \<and> cont q' = []"
    and deq_Cons: "inv q \<Longrightarrow> cont q = v # vs \<Longrightarrow>
      \<exists>q'. deq q = Inr (Some v, q') \<and> inv q' \<and> cont q' = vs"
    and room_lim: "inv q \<Longrightarrow> length (cont q) < lim \<Longrightarrow> room q"
begin

lemma deq_hd_tl: "inv q \<Longrightarrow> \<exists>q'. deq q = Inr (hd_opt (cont q), q') \<and> inv q' \<and> cont q' = tl (cont q)"
  using deq_Nil[of q] deq_Cons[of q] by (cases "cont q") auto

lemma push_all_ok:
  "inv q \<Longrightarrow> length (cont q) + length vs \<le> lim \<Longrightarrow>
     \<exists>q'. push_all enq q vs = Inr q' \<and> inv q' \<and> cont q' = cont q @ vs"
proof (induction vs arbitrary: q)
  case (Cons v vs)
  then obtain q1 where q1: "enq q v = Inr q1" "inv q1" "cont q1 = cont q @ [v]"
    using enq_ok[OF Cons.prems(1) room_lim] by force
  then obtain q2 where "push_all enq q1 vs = Inr q2" "inv q2" "cont q2 = cont q1 @ vs"
    using Cons.IH[of q1] Cons.prems(2) by auto
  with q1 show ?case by simp
qed auto

lemma drain_ok:
  "inv q \<Longrightarrow> \<exists>q'. drain_loop deq f q s = Some (Inr (q', fold f (cont q) s)) \<and> inv q' \<and> cont q' = []"
proof (induction "cont q" arbitrary: q s)
  case Nil
  then obtain q' where "deq q = Inr (None, q')" "inv q'" "cont q' = []" using deq_Nil by metis
  with Nil show ?case by (subst drain_loop.simps) auto
next
  case (Cons v vs)
  then obtain q1 where q1: "deq q = Inr (Some v, q1)" "inv q1" "cont q1 = vs"
    using deq_Cons by metis
  from Cons.hyps(1)[of q1 "f v s"] q1 obtain q' where
    "drain_loop deq f q1 (f v s) = Some (Inr (q', fold f vs (f v s)))" "inv q'" "cont q' = []"
    by auto
  with q1 Cons.hyps(2)[symmetric] show ?case by (subst drain_loop.simps) auto
qed

end

lemma queue_room_lim:
  "queue_inv q \<Longrightarrow> length (contents q) < 2 ^ 29 \<Longrightarrow> queue_room q"
  using length_contents[of q] by (auto simp: queue_room_def)

interpretation rq: fifo local_push local_pop contents queue_inv queue_room "2 ^ 29"
proof
  fix q :: "'a queue" and v vs
  show "queue_inv q \<Longrightarrow> queue_room q \<Longrightarrow>
      \<exists>q'. local_push q v = Inr q' \<and> queue_inv q' \<and> contents q' = contents q @ [v]"
    using push_refines[of q v] by metis
  show "queue_inv q \<Longrightarrow> contents q = [] \<Longrightarrow>
      \<exists>q'. local_pop q = Inr (None, q') \<and> queue_inv q' \<and> contents q' = []"
    using pop_refines_Nil[of q] by metis
  show "queue_inv q \<Longrightarrow> contents q = v # vs \<Longrightarrow>
      \<exists>q'. local_pop q = Inr (Some v, q') \<and> queue_inv q' \<and> contents q' = vs"
    using pop_refines_Cons[of q v vs] by metis
  show "queue_inv q \<Longrightarrow> length (contents q) < 2 ^ 29 \<Longrightarrow> queue_room q"
    by (rule queue_room_lim)
qed

text \<open>The destructor pops every element and hands it to \<open>local_dropevent\<close>, in which only the one of the queue itself can be called: it does nothing.\<close>

definition queue_destroy :: "('a \<Rightarrow> 's \<Rightarrow> 's) \<Rightarrow> 'a queue \<Rightarrow> 's \<Rightarrow> ('a queue \<times> 's) res option" where
  "queue_destroy dropevent q s = drain_loop local_pop dropevent q s"

section \<open>Properties\<close>

text \<open>C1: every operation of the ring buffer refines the FIFO list: \<open>push\<close> appends at the end
  (doubling the array when it is full), \<open>pop\<close> returns and removes the first element, reports
  an empty queue, and its threshold loop always ends; the invariant is kept and no operation
  faults while the capacity is below the range of \<open>int\<close>.\<close>

theorem ring_queue_refines_list:
  assumes "queue_inv q"
  shows "(length (contents q) < 2 ^ 29 \<longrightarrow>
           (\<exists>q'. local_push q v = Inr q' \<and> queue_inv q' \<and> contents q' = contents q @ [v])) \<and>
         (\<exists>q'. local_pop q = Inr (hd_opt (contents q), q') \<and> queue_inv q' \<and>
               contents q' = tl (contents q)) \<and>
         queue_length q = int (length (contents q))"
  using rq.enq_ok[OF assms rq.room_lim[OF assms], of v] rq.deq_hd_tl[OF assms]
    length_contents[OF assms]
  by simp

theorem ring_queue_refines_list_witness:
  "queue_inv (new_queue :: nat queue) \<and>
   (\<exists>q'. local_push new_queue (7::nat) = Inr q' \<and> queue_inv q' \<and> contents q' = [7])"
  using ring_queue_refines_list[OF new_queue_inv, of "7::nat"] new_queue_inv[where 'a = nat] by simp

text \<open>Whatever is pushed into a new queue comes out of the draining loop in the order it
  went in, the loop ends, and the queue is empty after it.\<close>

theorem push_all_then_drain:
  assumes "length vs \<le> 2 ^ 29"
  shows "\<exists>q q'. push_all local_push new_queue vs = Inr q \<and>
           drain_loop local_pop (\<lambda>v out. out @ [v]) q [] = Some (Inr (q', vs)) \<and>
           contents q' = []"
proof -
  obtain q where q: "push_all local_push new_queue vs = Inr q" "queue_inv q" "contents q = vs"
    using rq.push_all_ok[OF new_queue_inv, of vs] assms by auto
  have "fold (\<lambda>v out. out @ [v]) vs out = out @ vs" for out
    by (induction vs arbitrary: out) auto
  then show ?thesis using q rq.drain_ok[OF q(2), of "\<lambda>v out. out @ [v]" "[]"] by auto
qed

theorem push_all_then_drain_witness:
  "\<exists>q q'. push_all local_push new_queue [1, 2, 3 :: nat] = Inr q \<and>
     drain_loop local_pop (\<lambda>v out. out @ [v]) q [] = Some (Inr (q', [1, 2, 3])) \<and> contents q' = []"
  using push_all_then_drain[of "[1, 2, 3 :: nat]"] by simp

end
