(* ===== verification/TaskChain.thy ===== *)
theory TaskChain
  imports WolfBase
begin

text \<open>
  The intrusive doubly linked lists of tasks: \<open>util::list\<close> (\<open>engine/src/util/list.h\<close>) and
  \<open>util::deque\<close> (\<open>engine/src/util/deque.h\<close>), over an explicit store that maps the address of
  a task to its two links and its reference count; a deleted task is not in the store, so
  using it is a fault.  Both classes have the same three fields, one record \<open>chain\<close>.
  \<open>chain_rep\<close> says that a chain represents a list of addresses; \<open>wait_rep\<close> is the weaker fact
  that survives \<open>eraseUnLock\<close>, which does not move \<open>m_head\<close>.
\<close>

type_synonym addr = nat

record tnode =
  n_prev :: "addr option"
  n_next :: "addr option"
  n_ref :: int

type_synonym store = "addr \<Rightarrow> tnode option"

record chain =
  c_head :: "addr option"
  c_tail :: "addr option"
  c_count :: nat

definition empty_chain :: chain where
  "empty_chain = \<lparr>c_head = None, c_tail = None, c_count = 0\<rparr>"

section \<open>The store\<close>

definition derefE :: "store \<Rightarrow> addr option \<Rightarrow> (addr \<times> tnode) res" where
  "derefE h p = (case p of None \<Rightarrow> Inl NullDeref
     | Some a \<Rightarrow> (case h a of None \<Rightarrow> Inl UseAfterFree | Some n \<Rightarrow> Inr (a, n)))"

definition set_next :: "store \<Rightarrow> addr option \<Rightarrow> addr option \<Rightarrow> store res" where
  "set_next h p v = seqE (derefE h p) (\<lambda>(a, n). Inr (h(a \<mapsto> n\<lparr>n_next := v\<rparr>)))"

definition set_prev :: "store \<Rightarrow> addr option \<Rightarrow> addr option \<Rightarrow> store res" where
  "set_prev h p v = seqE (derefE h p) (\<lambda>(a, n). Inr (h(a \<mapsto> n\<lparr>n_prev := v\<rparr>)))"

definition incrementRef :: "store \<Rightarrow> addr \<Rightarrow> store res" where
  "incrementRef h a = seqE (derefE h (Some a)) (\<lambda>(_, n). Inr (h(a \<mapsto> n\<lparr>n_ref := n_ref n + 1\<rparr>)))"

text \<open>
  The last reference runs the releaser, which deletes the task; its destructor asserts that
  the task is in no list.
\<close>

definition decrementRef :: "store \<Rightarrow> addr \<Rightarrow> store res" where
  "decrementRef h a = seqE (derefE h (Some a)) (\<lambda>(_, n).
     if n_ref n - 1 = 0 then
       seqE (checkE (n_prev n = None \<and> n_next n = None) AssertFail) (\<lambda>_. Inr (h(a := None)))
     else Inr (h(a \<mapsto> n\<lparr>n_ref := n_ref n - 1\<rparr>)))"

section \<open>\<open>util::deque\<close>\<close>

definition pushUnlock :: "store \<Rightarrow> chain \<Rightarrow> addr \<Rightarrow> (store \<times> chain) res" where
  "pushUnlock h d a =
     seqE (case c_head d of
             None \<Rightarrow>
               seqE (set_next h (Some a) None) (\<lambda>h1.
               seqE (set_prev h1 (Some a) None) (\<lambda>h2.
               Inr (h2, d\<lparr>c_head := Some a, c_tail := Some a\<rparr>)))
           | Some _ \<Rightarrow>
               seqE (set_next h (c_tail d) (Some a)) (\<lambda>h1.
               seqE (set_prev h1 (Some a) (c_tail d)) (\<lambda>h2.
               seqE (set_next h2 (Some a) None) (\<lambda>h3.
               Inr (h3, d\<lparr>c_tail := Some a\<rparr>)))))
       (\<lambda>(h', d'). seqE (incrementRef h' a) (\<lambda>h''.
          Inr (h'', d'\<lparr>c_count := Suc (c_count d')\<rparr>)))"

definition pushOutUnlock :: "store \<Rightarrow> chain \<Rightarrow> addr \<Rightarrow> (store \<times> chain \<times> nat) res" where
  "pushOutUnlock h d a = seqE (pushUnlock h d a) (\<lambda>(h', d'). Inr (h', d', c_count d'))"

text \<open>\<open>pushUnlock(list<T> &&s)\<close>: the list is spliced to the end and left empty.\<close>

definition pushListUnlock :: "store \<Rightarrow> chain \<Rightarrow> chain \<Rightarrow> (store \<times> chain \<times> chain) res" where
  "pushListUnlock h d s =
     (if c_head s = None then Inr (h, d, s)
      else if c_head d = None then
        Inr (h, \<lparr>c_head = c_head s, c_tail = c_tail s, c_count = c_count s\<rparr>, empty_chain)
      else
        seqE (set_next h (c_tail d) (c_head s)) (\<lambda>h1.
        seqE (set_prev h1 (c_head s) (c_tail d)) (\<lambda>h2.
        Inr (h2, d\<lparr>c_tail := c_tail s, c_count := c_count d + c_count s\<rparr>, empty_chain))))"

definition popUnlock :: "store \<Rightarrow> chain \<Rightarrow> (addr option \<times> store \<times> chain) res" where
  "popUnlock h d =
     (case c_head d of
        None \<Rightarrow> Inr (None, h, d)
      | Some a \<Rightarrow>
          seqE (if c_head d = c_tail d then
                  Inr (h, d\<lparr>c_head := None, c_tail := None\<rparr>)
                else
                  seqE (derefE h (Some a)) (\<lambda>(_, n).
                  seqE (set_prev h (n_next n) None) (\<lambda>h1.
                  seqE (set_next h1 (Some a) None) (\<lambda>h2.
                  seqE (set_prev h2 (Some a) None) (\<lambda>h3.
                  Inr (h3, d\<lparr>c_head := n_next n\<rparr>))))))
            (\<lambda>(h', d'). seqE (decrementRef h' a) (\<lambda>h''.
               Inr (Some a, h'', d'\<lparr>c_count := c_count d' - 1\<rparr>))))"

text \<open>The single element \<open>popBackUnlock()\<close>, which no caller of the engine uses.\<close>

definition popBackOneUnlock :: "store \<Rightarrow> chain \<Rightarrow> (addr option \<times> store \<times> chain) res" where
  "popBackOneUnlock h d =
     (case c_tail d of
        None \<Rightarrow> Inr (None, h, d)
      | Some a \<Rightarrow>
          seqE (derefE h (Some a)) (\<lambda>(_, n).
          seqE (set_next h (n_prev n) None) (\<lambda>h1.
          seqE (set_next h1 (Some a) None) (\<lambda>h2.
          seqE (set_prev h2 (Some a) None) (\<lambda>h3.
          Inr (Some a, h3, d\<lparr>c_tail := n_prev n, c_count := c_count d - 1\<rparr>))))))"

definition popBackAllUnlock :: "chain \<Rightarrow> chain \<times> chain" where
  "popBackAllUnlock d =
     (if c_head d = None then (empty_chain, d)
      else (\<lparr>c_head = c_head d, c_tail = c_tail d, c_count = c_count d\<rparr>, empty_chain))"

text \<open>The loop that walks \<open>n\<close> nodes back from the tail, or up to the head.\<close>

function back_walk :: "store \<Rightarrow> addr option \<Rightarrow> nat \<Rightarrow> nat \<Rightarrow> addr option \<Rightarrow> (nat \<times> addr option) res" where
  "back_walk h hp n c f =
     (if c < n \<and> f \<noteq> hp then
        (case f of None \<Rightarrow> Inl AssertFail
         | Some a \<Rightarrow> (case h a of None \<Rightarrow> Inl UseAfterFree
                      | Some nd \<Rightarrow> back_walk h hp n (Suc c) (n_prev nd)))
      else Inr (c, f))"
  by pat_completeness auto
termination
  by (relation "measure (\<lambda>(h, hp, n, c, f). n - c)") auto

declare back_walk.simps [simp del]

definition popBackUnlock :: "store \<Rightarrow> chain \<Rightarrow> nat \<Rightarrow> (chain \<times> store \<times> chain) res" where
  "popBackUnlock h d n =
     (if c_head d = c_tail d then Inr (empty_chain, h, d)
      else
        seqE (back_walk h (c_head d) n 1 (c_tail d)) (\<lambda>(c, first).
        if first = c_head d then
          Inr (\<lparr>c_head = first, c_tail = c_tail d, c_count = c\<rparr>, h,
               d\<lparr>c_head := None, c_tail := None, c_count := 0\<rparr>)
        else
          seqE (derefE h first) (\<lambda>(_, nf).
          seqE (set_next h (n_prev nf) None) (\<lambda>h1.
          seqE (set_prev h1 first None) (\<lambda>h2.
          Inr (\<lparr>c_head = first, c_tail = c_tail d, c_count = c\<rparr>, h2,
               d\<lparr>c_tail := n_prev nf, c_count := c_count d - c\<rparr>))))))"

definition eraseUnLock :: "store \<Rightarrow> chain \<Rightarrow> addr \<Rightarrow> (store \<times> chain) res" where
  "eraseUnLock h d a =
     seqE (checkE (c_head d \<noteq> None) AssertFail) (\<lambda>_.
     seqE (derefE h (Some a)) (\<lambda>(_, n).
     seqE (case n_prev n of None \<Rightarrow> Inr h | Some p \<Rightarrow> set_next h (Some p) (n_next n)) (\<lambda>h1.
     seqE (case n_next n of
             Some q \<Rightarrow> seqE (set_prev h1 (Some q) (n_prev n)) (\<lambda>h2. Inr (h2, d))
           | None \<Rightarrow>
               if Some a = c_tail d then
                 seqE (derefE h1 (c_tail d)) (\<lambda>(_, t). Inr (h1, d\<lparr>c_tail := n_prev t\<rparr>))
               else Inr (h1, d)) (\<lambda>(h2, d2).
     let d3 = (if c_tail d2 = None \<or> c_head d2 = None
               then d2\<lparr>c_tail := None, c_head := None\<rparr> else d2) in
     seqE (set_prev h2 (Some a) None) (\<lambda>h3.
     seqE (set_next h3 (Some a) None) (\<lambda>h4.
     seqE (checkE (0 < c_count d3) AssertFail) (\<lambda>_.
     seqE (decrementRef h4 a) (\<lambda>h5.
     Inr (h5, d3\<lparr>c_count := c_count d3 - 1\<rparr>)))))))))"

definition front_of :: "chain \<Rightarrow> bool \<times> addr option" where
  "front_of d = (case c_head d of None \<Rightarrow> (False, None) | Some a \<Rightarrow> (True, Some a))"

definition deque_size :: "chain \<Rightarrow> nat" where
  "deque_size d = c_count d"

definition deque_empty :: "chain \<Rightarrow> bool" where
  "deque_empty d = (c_head d = None)"

text \<open>\<open>assertLink\<close> walks from the tail back to the head; the walk may not end on a broken chain.\<close>

partial_function (option) link_walk :: "store \<Rightarrow> addr option \<Rightarrow> addr option \<Rightarrow> unit res option" where
  "link_walk h hp pos =
     (if pos = hp then Some (Inr ())
      else case pos of None \<Rightarrow> Some (Inl NullDeref)
       | Some a \<Rightarrow> (case h a of None \<Rightarrow> Some (Inl UseAfterFree)
           | Some n \<Rightarrow> if n_prev n = None then Some (Inl AssertFail)
                        else link_walk h hp (n_prev n)))"

definition assertLink :: "store \<Rightarrow> chain \<Rightarrow> unit res option" where
  "assertLink h d =
     (case c_head d of None \<Rightarrow> Some (Inr ())
      | Some a \<Rightarrow>
          (case h a of None \<Rightarrow> Some (Inl UseAfterFree)
           | Some n \<Rightarrow>
               if n_prev n \<noteq> None then Some (Inl AssertFail)
               else case c_tail d of None \<Rightarrow> Some (Inl AssertFail)
                 | Some t \<Rightarrow>
                     (case h t of None \<Rightarrow> Some (Inl UseAfterFree)
                      | Some m \<Rightarrow> if n_next m \<noteq> None then Some (Inl AssertFail)
                                   else link_walk h (c_head d) (c_tail d))))"

section \<open>\<open>util::list\<close>\<close>

definition list_append :: "store \<Rightarrow> chain \<Rightarrow> chain \<Rightarrow> (store \<times> chain \<times> chain) res" where
  "list_append h s other =
     (if c_head other = None then Inr (h, s, other)
      else if c_head s = None then Inr (h, other, empty_chain)
      else
        seqE (set_next h (c_tail s) (c_head other)) (\<lambda>h1.
        seqE (set_prev h1 (c_head other) (c_tail s)) (\<lambda>h2.
        Inr (h2, s\<lparr>c_tail := (if c_tail other \<noteq> None then c_tail other else c_tail s),
                   c_count := c_count s + c_count other\<rparr>, empty_chain))))"

fun walk_next :: "store \<Rightarrow> addr option \<Rightarrow> nat \<Rightarrow> addr option res" where
  "walk_next h p 0 = Inr p"
| "walk_next h p (Suc k) = seqE (derefE h p) (\<lambda>(_, n). walk_next h (n_next n) k)"

text \<open>\<open>cut(n)\<close>: the first \<open>n\<close> nodes as a list of their own, and what is left.\<close>

definition list_cut :: "store \<Rightarrow> chain \<Rightarrow> nat \<Rightarrow> (chain \<times> store \<times> chain) res" where
  "list_cut h s n =
     (if c_head s = None then Inr (empty_chain, h, s)
      else if n \<ge> c_count s then Inr (s, h, empty_chain)
      else if n = 0 then Inr (empty_chain, h, s)
      else
        seqE (walk_next h (c_head s) (n - 1)) (\<lambda>pos.
        seqE (derefE h pos) (\<lambda>(_, np).
        seqE (derefE h (n_next np)) (\<lambda>(_, nn).
        seqE (checkE (n_prev nn = pos) AssertFail) (\<lambda>_.
        seqE (set_next h pos None) (\<lambda>h1.
        seqE (set_prev h1 (n_next np) None) (\<lambda>h2.
        Inr (\<lparr>c_head = c_head s, c_tail = pos, c_count = n\<rparr>, h2,
             s\<lparr>c_head := n_next np, c_count := c_count s - n\<rparr>))))))))"

definition list_erase :: "store \<Rightarrow> chain \<Rightarrow> addr \<Rightarrow> (store \<times> chain) res" where
  "list_erase h s a =
     seqE (derefE h (Some a)) (\<lambda>(_, n).
     seqE (case n_prev n of
             Some p \<Rightarrow> seqE (set_next h (Some p) (n_next n)) (\<lambda>h1. Inr (h1, s))
           | None \<Rightarrow> seqE (derefE h (c_head s)) (\<lambda>(_, hn). Inr (h, s\<lparr>c_head := n_next hn\<rparr>))) (\<lambda>(h1, s1).
     seqE (case n_next n of
             Some q \<Rightarrow> seqE (set_prev h1 (Some q) (n_prev n)) (\<lambda>h2. Inr (h2, s1))
           | None \<Rightarrow> seqE (derefE h1 (c_tail s1)) (\<lambda>(_, tn). Inr (h1, s1\<lparr>c_tail := n_prev tn\<rparr>))) (\<lambda>(h2, s2).
     seqE (set_next h2 (Some a) None) (\<lambda>h3.
     seqE (set_prev h3 (Some a) None) (\<lambda>h4.
     seqE (decrementRef h4 a) (\<lambda>h5.
     Inr (h5, s2\<lparr>c_count := c_count s2 - 1\<rparr>)))))))"

text \<open>
  \<open>clear\<close> erases from the front; the iterator reads the next link before the node goes.
\<close>

partial_function (option) clear_loop :: "store \<Rightarrow> chain \<Rightarrow> addr option \<Rightarrow> (store \<times> chain) res option" where
  "clear_loop h s it =
     (case it of
        None \<Rightarrow> Some (Inr (h, s))
      | Some a \<Rightarrow>
          (case h a of None \<Rightarrow> Some (Inl UseAfterFree)
           | Some n \<Rightarrow>
               (case list_erase h s a of Inl e \<Rightarrow> Some (Inl e)
                | Inr (h', s') \<Rightarrow> clear_loop h' s' (n_next n))))"

definition list_clear :: "store \<Rightarrow> chain \<Rightarrow> (store \<times> chain) res option" where
  "list_clear h s =
     map_option (\<lambda>r. seqE r (\<lambda>(h', _). Inr (h', empty_chain))) (clear_loop h s (c_head s))"

section \<open>Segments of the store\<close>

definition or_hd :: "'a list \<Rightarrow> 'a option \<Rightarrow> 'a option" where
  "or_hd xs q = (case xs of [] \<Rightarrow> q | x # _ \<Rightarrow> Some x)"

definition or_last :: "'a option \<Rightarrow> 'a list \<Rightarrow> 'a option" where
  "or_last p xs = (if xs = [] then p else Some (last xs))"

lemma or_simps [simp]:
  "or_hd [] q = q" "or_hd (x # xs) q = Some x" "or_last p [] = p" "or_last p (xs @ [x]) = Some x"
  "or_last p (x # xs) = or_last (Some x) xs"
  by (simp_all add: or_hd_def or_last_def)

lemma or_hd_append [simp]: "or_hd (xs @ ys) q = or_hd xs (or_hd ys q)"
  by (cases xs) simp_all

lemma or_hd_None: "or_hd xs None = hd_opt xs"
  by (cases xs) simp_all

lemma or_last_None: "or_last None xs = last_opt xs"
  by (simp add: or_last_def last_opt_def)

text \<open>
  \<open>seg h p xs q\<close>: the nodes \<open>xs\<close> are linked in order in both directions, the first one back to
  \<open>p\<close> and the last one on to \<open>q\<close>.
\<close>

fun seg :: "store \<Rightarrow> addr option \<Rightarrow> addr list \<Rightarrow> addr option \<Rightarrow> bool" where
  "seg h p [] q = True"
| "seg h p (x # xs) q =
     (\<exists>r. h x = Some \<lparr>n_prev = p, n_next = or_hd xs q, n_ref = r\<rparr> \<and> seg h (Some x) xs q)"

lemma seg_append [simp]:
  "seg h p (xs @ ys) q \<longleftrightarrow> seg h p xs (or_hd ys q) \<and> seg h (or_last p xs) ys q"
  by (induction xs arbitrary: p) auto

lemma seg_frame: "a \<notin> set xs \<Longrightarrow> seg (h(a := v)) p xs q = seg h p xs q"
  by (induction xs arbitrary: p) auto

lemma seg_dom: "seg h p xs q \<Longrightarrow> x \<in> set xs \<Longrightarrow> \<exists>n. h x = Some n"
  by (induction xs arbitrary: p) auto

definition ref_of :: "store \<Rightarrow> addr \<Rightarrow> int" where
  "ref_of h a = (case h a of None \<Rightarrow> 0 | Some n \<Rightarrow> n_ref n)"

definition chain_rep :: "store \<Rightarrow> chain \<Rightarrow> addr list \<Rightarrow> bool" where
  "chain_rep h d xs \<longleftrightarrow> seg h None xs None \<and> distinct xs \<and>
     c_head d = hd_opt xs \<and> c_tail d = last_opt xs \<and> c_count d = length xs"

lemma empty_chain_rep [simp]: "chain_rep h empty_chain xs \<longleftrightarrow> xs = []"
  by (auto simp: chain_rep_def empty_chain_def)

lemmas store_defs = set_next_def set_prev_def derefE_def incrementRef_def decrementRef_def

lemma tnode_eta [simp]: "\<lparr>n_prev = n_prev n, n_next = n_next n, n_ref = n_ref n\<rparr> = n"
  by simp

text \<open>What happens to the reference counts and to the nodes outside a chain.\<close>

definition only_refs :: "store \<Rightarrow> store \<Rightarrow> addr set \<Rightarrow> addr \<Rightarrow> int \<Rightarrow> bool" where
  "only_refs h h' A a k \<longleftrightarrow>
     (\<forall>b. b \<notin> A \<longrightarrow> h' b = h b) \<and> (\<forall>b. ref_of h' b = ref_of h b + (if b = a then k else 0))"

section \<open>The deque refines a list\<close>

lemma pushUnlock_refines:
  assumes "chain_rep h d xs" "a \<notin> set xs" "h a = Some n"
  shows "\<exists>h' d'. pushUnlock h d a = Inr (h', d') \<and> chain_rep h' d' (xs @ [a]) \<and>
           only_refs h h' (insert a (set xs)) a 1"
proof (cases xs rule: rev_cases)
  case Nil
  then show ?thesis
    using assms
    by (cases n) (auto simp: pushUnlock_def chain_rep_def store_defs only_refs_def ref_of_def)
next
  case (snoc ys t)
  then have "c_head d \<noteq> None" "c_tail d = Some t"
    using assms(1) by (auto simp: chain_rep_def)
  with snoc assms show ?thesis
    by (cases n) (auto simp: pushUnlock_def chain_rep_def store_defs only_refs_def ref_of_def seg_frame
        or_hd_def hd_opt_append split: option.splits)
qed

lemma pushListUnlock_refines:
  assumes "chain_rep h d xs" "chain_rep h s ys" "set xs \<inter> set ys = {}"
  shows "\<exists>h' d'. pushListUnlock h d s = Inr (h', d', empty_chain) \<and> chain_rep h' d' (xs @ ys) \<and>
           only_refs h h' (set xs \<union> set ys) a 0"
proof (cases "xs = [] \<or> ys = []")
  case True
  then show ?thesis
    using assms
    by (auto simp: pushListUnlock_def chain_rep_def only_refs_def empty_chain_def)
next
  case False
  then obtain us t v vs where "xs = us @ [t]" "ys = v # vs"
    by (metis list.exhaust rev_exhaust)
  then show ?thesis
    using assms
    by (auto simp: pushListUnlock_def chain_rep_def store_defs only_refs_def ref_of_def seg_frame
        hd_opt_append last_opt_append split: option.splits)
qed

lemma pop_nonlast:
  assumes "chain_rep h d (x # y # zs)"
  shows "c_head d \<noteq> c_tail d"
  using assms by (auto simp: chain_rep_def last_opt_def)

lemma popUnlock_refines:
  assumes "chain_rep h d (x # xs)" "1 < ref_of h x"
  shows "\<exists>h' d'. popUnlock h d = Inr (Some x, h', d') \<and> chain_rep h' d' xs \<and>
           only_refs h h' (set (x # xs)) x (- 1)"
proof (cases xs)
  case Nil
  then show ?thesis
    using assms
    by (auto simp: popUnlock_def chain_rep_def store_defs only_refs_def ref_of_def)
next
  case (Cons y zs)
  then show ?thesis
    using assms pop_nonlast[of h d x y zs]
    by (auto simp: popUnlock_def chain_rep_def store_defs only_refs_def ref_of_def seg_frame)
qed

lemma popUnlock_empty: "chain_rep h d [] \<Longrightarrow> popUnlock h d = Inr (None, h, d)"
  by (simp add: popUnlock_def chain_rep_def)

lemma popBackAllUnlock_refines:
  assumes "chain_rep h d xs"
  shows "\<exists>l d'. popBackAllUnlock d = (l, d') \<and> chain_rep h l xs \<and> chain_rep h d' []"
  using assms by (auto simp: popBackAllUnlock_def chain_rep_def empty_chain_def)

text \<open>The walk from the tail stops at the first of the last \<open>n\<close> nodes.\<close>

lemma back_walk_seg:
  assumes "seg h None (us @ vs) None" "distinct (us @ vs)" "us @ vs \<noteq> []" "vs \<noteq> []" "length vs = c"
    "c \<le> n"
  shows "\<exists>us' vs'. us @ vs = us' @ vs' \<and> length vs' = min n (length (us @ vs)) \<and>
           back_walk h (hd_opt (us @ vs)) n c (hd_opt vs) = Inr (length vs', hd_opt vs')"
  using assms
proof (induction "length us" arbitrary: us vs c)
  case 0
  then show ?case
    by (intro exI[of _ us] exI[of _ vs]) (subst back_walk.simps, auto)
next
  case (Suc k)
  then obtain us0 u where us: "us = us0 @ [u]" by (metis length_0_conv nat.distinct(1) rev_exhaust)
  obtain v vs0 where vs: "vs = v # vs0" using Suc.prems by (cases vs) auto
  have ne: "hd_opt vs \<noteq> hd_opt (us @ vs)"
    using Suc.prems(2) by (cases us0) (auto simp: us vs)
  show ?case
  proof (cases "c < n")
    case True
    obtain r where r: "h v = Some \<lparr>n_prev = Some u, n_next = or_hd vs0 None, n_ref = r\<rparr>"
      using Suc.prems(1) by (auto simp: us vs)
    have "back_walk h (hd_opt (us @ vs)) n c (hd_opt vs) =
        back_walk h (hd_opt (us @ vs)) n (Suc c) (Some u)"
      using True ne r by (subst back_walk.simps) (simp add: vs)
    moreover have "\<exists>us' vs'. us0 @ u # vs = us' @ vs' \<and> length vs' = min n (length (us0 @ u # vs)) \<and>
        back_walk h (hd_opt (us0 @ u # vs)) n (Suc c) (hd_opt (u # vs)) = Inr (length vs', hd_opt vs')"
      using Suc.prems Suc.hyps(2) True by (intro Suc.hyps(1)) (auto simp: us)
    then obtain us' vs' where
      "us0 @ u # vs = us' @ vs'" "length vs' = min n (length (us0 @ u # vs))"
      "back_walk h (hd_opt (us0 @ u # vs)) n (Suc c) (hd_opt (u # vs)) = Inr (length vs', hd_opt vs')"
      by blast
    ultimately show ?thesis
      by (intro exI[of _ us'] exI[of _ vs']) (simp add: us)
  next
    case False
    then show ?thesis
      using Suc.prems ne by (intro exI[of _ us] exI[of _ vs]) (subst back_walk.simps, auto)
  qed
qed

lemma head_eq_tail_iff:
  assumes "distinct xs"
  shows "hd_opt xs = last_opt xs \<longleftrightarrow> length xs \<le> 1"
proof (cases xs)
  case (Cons x ys)
  then show ?thesis using assms by (cases ys rule: rev_cases) (auto simp: last_opt_def)
qed simp

lemma seg_split_tail:
  assumes "seg h None (us @ v # vs) None" "us \<noteq> []" "distinct (us @ v # vs)"
    "h v = Some n" "h (last us) = Some m"
  defines "h' \<equiv> h(last us \<mapsto> m\<lparr>n_next := None\<rparr>, v \<mapsto> n\<lparr>n_prev := None\<rparr>)"
  shows "seg h' None us None" "seg h' None (v # vs) None"
proof -
  obtain us0 u where us: "us = us0 @ [u]" using assms(2) by (metis rev_exhaust)
  have sets: "u \<notin> set us0" "v \<notin> set us0" "u \<noteq> v" "u \<notin> set vs" "v \<notin> set vs"
    using assms(3) by (auto simp: us)
  show "seg h' None us None" "seg h' None (v # vs) None"
    using assms(1,4,5) sets by (auto simp: us h'_def seg_frame)
qed

lemma popBackUnlock_refines:
  assumes "chain_rep h d xs" "2 \<le> length xs" "1 \<le> n"
  shows "\<exists>l h' d'. popBackUnlock h d n = Inr (l, h', d') \<and>
           chain_rep h' d' (take (length xs - n) xs) \<and> chain_rep h' l (drop (length xs - n) xs) \<and>
           only_refs h h' (set xs) a 0"
proof -
  obtain us t where xs: "xs = us @ [t]" using assms(2) by (cases xs rule: rev_cases) auto
  have ht: "c_head d \<noteq> c_tail d"
    using assms(1,2) head_eq_tail_iff[of xs] by (simp add: chain_rep_def)
  have "\<exists>us' vs'. us @ [t] = us' @ vs' \<and> length vs' = min n (length (us @ [t])) \<and>
      back_walk h (hd_opt (us @ [t])) n 1 (hd_opt [t]) = Inr (length vs', hd_opt vs')"
    using assms(1,3) by (intro back_walk_seg) (auto simp: chain_rep_def xs)
  moreover have "c_head d = hd_opt (us @ [t])" "c_tail d = hd_opt [t]"
    using assms(1) by (auto simp: xs chain_rep_def)
  ultimately obtain us' vs' where w: "xs = us' @ vs'" "length vs' = min n (length xs)"
    "back_walk h (c_head d) n 1 (c_tail d) = Inr (length vs', hd_opt vs')"
    unfolding xs by metis
  have td: "take (length xs - n) xs = us'" "drop (length xs - n) xs = vs'"
    using w(1,2) by (auto simp: min_def split: if_splits)
  show ?thesis
  proof (cases us')
    case Nil
    then have "xs = vs'" using w(1) by simp
    moreover have "popBackUnlock h d n = Inr (\<lparr>c_head = c_head d, c_tail = c_tail d, c_count = length vs'\<rparr>, h,
        d\<lparr>c_head := None, c_tail := None, c_count := 0\<rparr>)"
      using ht w(3) assms(1) \<open>xs = vs'\<close> by (simp add: popBackUnlock_def chain_rep_def)
    ultimately show ?thesis
      unfolding td using assms(1) Nil by (auto simp: chain_rep_def only_refs_def)
  next
    case (Cons u0 us0)
    obtain v vs where vs: "vs' = v # vs" using w(2) assms(2,3) by (cases vs') auto
    have dist: "distinct (us' @ v # vs)" and sg: "seg h None (us' @ v # vs) None"
      using assms(1) w(1) by (auto simp: chain_rep_def vs)
    have first: "Some v \<noteq> c_head d"
      using assms(1) dist w(1) by (auto simp: chain_rep_def Cons vs)
    obtain r where hv: "h v = Some \<lparr>n_prev = Some (last us'), n_next = or_hd vs None, n_ref = r\<rparr>"
      using sg Cons by (auto simp: or_last_def)
    have "last us' \<in> set us'" using Cons by (intro last_in_set) simp
    then obtain m where hm: "h (last us') = Some m"
      using seg_dom[OF sg, of "last us'"] by auto
    have ne: "last us' \<noteq> v" using dist \<open>last us' \<in> set us'\<close> by auto
    let ?h = "h(last us' \<mapsto> m\<lparr>n_next := None\<rparr>, v \<mapsto> \<lparr>n_prev = Some (last us'), n_next = or_hd vs None, n_ref = r\<rparr>\<lparr>n_prev := None\<rparr>)"
    have "popBackUnlock h d n = Inr (\<lparr>c_head = Some v, c_tail = c_tail d, c_count = length vs'\<rparr>, ?h,
        d\<lparr>c_tail := Some (last us'), c_count := c_count d - length vs'\<rparr>)"
      using ht w(3) first hv hm ne by (simp add: popBackUnlock_def vs store_defs)
    moreover have "seg ?h None us' None" "seg ?h None (v # vs) None"
      using seg_split_tail[OF sg _ dist hv hm] Cons by auto
    moreover have "only_refs h ?h (set xs) a 0"
      using hv hm w(1) Cons ne by (auto simp: only_refs_def ref_of_def vs)
    ultimately show ?thesis
      unfolding td using assms(1) dist w(1) Cons
      by (auto simp: chain_rep_def vs last_opt_def)
  qed
qed

text \<open>A deque of one task gives nothing to \<open>popBack(n)\<close>: its head and its tail are equal.\<close>

lemma popBackUnlock_single:
  "chain_rep h d xs \<Longrightarrow> length xs \<le> 1 \<Longrightarrow> popBackUnlock h d n = Inr (empty_chain, h, d)"
  using head_eq_tail_iff[of xs] by (simp add: popBackUnlock_def chain_rep_def)

section \<open>Erasing from a deque\<close>

text \<open>
  \<open>eraseUnLock\<close> repairs the links and the tail, but it never moves \<open>m_head\<close> on: after the
  first of several tasks is erased the head still points at the erased one.  What survives,
  and what pushing and erasing need, is the chain read from the tail and a head that is null
  exactly when the deque is empty.
\<close>

definition wait_rep :: "store \<Rightarrow> chain \<Rightarrow> addr list \<Rightarrow> bool" where
  "wait_rep h d xs \<longleftrightarrow> seg h None xs None \<and> distinct xs \<and>
     (c_head d = None \<longleftrightarrow> xs = []) \<and> c_tail d = last_opt xs \<and> c_count d = length xs"

lemma chain_rep_wait: "chain_rep h d xs \<Longrightarrow> wait_rep h d xs"
  by (auto simp: chain_rep_def wait_rep_def)

lemma pushUnlock_wait:
  assumes "wait_rep h d xs" "a \<notin> set xs" "h a = Some n"
  shows "\<exists>h' d'. pushUnlock h d a = Inr (h', d') \<and> wait_rep h' d' (xs @ [a]) \<and>
           only_refs h h' (insert a (set xs)) a 1"
proof (cases xs rule: rev_cases)
  case Nil
  then show ?thesis
    using assms
    by (cases n) (auto simp: pushUnlock_def wait_rep_def store_defs only_refs_def ref_of_def)
next
  case (snoc ys t)
  then obtain f where "c_head d = Some f" "c_tail d = Some t"
    using assms(1) by (auto simp: wait_rep_def)
  with snoc assms show ?thesis
    by (cases n) (auto simp: pushUnlock_def wait_rep_def store_defs only_refs_def ref_of_def seg_frame)
qed

lemma eraseUnLock_wait:
  assumes "wait_rep h d (us @ a # vs)" "0 < ref_of h a"
  shows "\<exists>h' d'. eraseUnLock h d a = Inr (h', d') \<and> wait_rep h' d' (us @ vs) \<and>
           only_refs h h' (set (us @ a # vs)) a (- 1) \<and>
           (c_head d' = (if us @ vs = [] then None else c_head d))"
proof -
  obtain f where f: "c_head d = Some f" using assms(1) by (auto simp: wait_rep_def)
  show ?thesis
  proof (cases us rule: rev_cases)
    case Nil
    then show ?thesis
      using assms f
      by (cases vs) (auto simp: eraseUnLock_def wait_rep_def store_defs only_refs_def ref_of_def
          seg_frame Let_def last_opt_def)
  next
    case (snoc us0 u)
    then show ?thesis
      using assms f
      by (cases vs) (auto simp: eraseUnLock_def wait_rep_def store_defs only_refs_def ref_of_def
          seg_frame Let_def last_opt_def)
  qed
qed

section \<open>The list refines a list\<close>

lemma list_append_refines:
  assumes "chain_rep h d xs" "chain_rep h s ys" "set xs \<inter> set ys = {}"
  shows "\<exists>h' d'. list_append h d s = Inr (h', d', empty_chain) \<and> chain_rep h' d' (xs @ ys) \<and>
           only_refs h h' (set xs \<union> set ys) a 0"
proof (cases "xs = [] \<or> ys = []")
  case True
  then show ?thesis
    using assms
    by (auto simp: list_append_def chain_rep_def only_refs_def empty_chain_def)
next
  case False
  then obtain us t v vs where "xs = us @ [t]" "ys = v # vs"
    by (metis list.exhaust rev_exhaust)
  then show ?thesis
    using assms
    by (auto simp: list_append_def chain_rep_def store_defs only_refs_def ref_of_def seg_frame
        hd_opt_append last_opt_append split: option.splits)
qed

lemma walk_next_seg:
  "seg h p (us @ x # vs) q \<Longrightarrow> walk_next h (hd_opt (us @ x # vs)) (length us) = Inr (Some x)"
proof (induction us arbitrary: p)
  case (Cons u us)
  then have "walk_next h (hd_opt (us @ x # vs)) (length us) = Inr (Some x)" by auto
  moreover have "or_hd (us @ x # vs) q = hd_opt (us @ x # vs)" by (cases us) simp_all
  ultimately show ?case using Cons.prems by (auto simp: derefE_def)
qed simp

lemma list_cut_refines:
  assumes "chain_rep h s xs"
  shows "\<exists>l h' s'. list_cut h s n = Inr (l, h', s') \<and> chain_rep h' l (take n xs) \<and>
           chain_rep h' s' (drop n xs) \<and> only_refs h h' (set xs) a 0"
proof -
  consider "xs = []" | "xs \<noteq> []" "length xs \<le> n" | "xs \<noteq> []" "n = 0" | "0 < n" "n < length xs"
    by linarith
  then show ?thesis
  proof cases
    case 4
    define us where "us = take (n - 1) xs"
    obtain x v vs where xs: "xs = us @ x # v # vs" and n: "n = Suc (length us)"
    proof -
      have "xs = us @ xs ! (n - 1) # xs ! n # drop (Suc n) xs"
        using 4 by (metis Cons_nth_drop_Suc One_nat_def Suc_pred append_take_drop_id less_imp_diff_less us_def)
      then show thesis using 4 by (intro that) (auto simp: us_def)
    qed
    have w: "walk_next h (c_head s) (length us) = Inr (Some x)"
      using assms walk_next_seg[of h None us x "v # vs" None] by (auto simp: chain_rep_def xs)
    have tk: "take n xs = us @ [x]" "drop n xs = v # vs" by (simp_all add: xs n)
    have c: "c_head s \<noteq> None" "\<not> c_count s \<le> n" "n \<noteq> 0" using assms 4 by (auto simp: chain_rep_def)
    show ?thesis
      using assms w c unfolding tk
      by (auto simp: list_cut_def n chain_rep_def xs store_defs only_refs_def ref_of_def seg_frame
          hd_opt_append split: option.splits)
  qed (use assms in \<open>auto simp: list_cut_def chain_rep_def only_refs_def empty_chain_def\<close>)
qed

lemma list_erase_refines:
  assumes "chain_rep h s (us @ a # vs)" "0 < ref_of h a"
  shows "\<exists>h' s'. list_erase h s a = Inr (h', s') \<and> chain_rep h' s' (us @ vs) \<and>
           only_refs h h' (set (us @ a # vs)) a (- 1) \<and> (h' a = None \<longleftrightarrow> ref_of h a = 1)"
proof (cases us rule: rev_cases)
  case Nil
  then show ?thesis
    using assms
    by (cases vs) (auto simp: list_erase_def chain_rep_def store_defs only_refs_def ref_of_def
        seg_frame last_opt_def)
next
  case (snoc us0 u)
  then show ?thesis
    using assms
    by (cases vs) (auto simp: list_erase_def chain_rep_def store_defs only_refs_def ref_of_def
        seg_frame last_opt_def hd_opt_mid)
qed

lemma clear_loop_refines:
  assumes "chain_rep h s xs" "\<forall>x\<in>set xs. 0 < ref_of h x"
  shows "\<exists>h' s'. clear_loop h s (hd_opt xs) = Some (Inr (h', s')) \<and> chain_rep h' s' [] \<and>
    (\<forall>b. b \<notin> set xs \<longrightarrow> h' b = h b) \<and>
    (\<forall>b \<in> set xs. ref_of h' b = ref_of h b - 1 \<and> (h' b = None \<longleftrightarrow> ref_of h b = 1))"
  using assms
proof (induction xs arbitrary: h s)
  case Nil
  then show ?case by (subst clear_loop.simps) auto
next
  case (Cons x xs)
  obtain r where hx: "h x = Some \<lparr>n_prev = None, n_next = hd_opt xs, n_ref = r\<rparr>"
    using Cons.prems(1) by (auto simp: chain_rep_def or_hd_None)
  obtain h1 s1 where e: "list_erase h s x = Inr (h1, s1)" "chain_rep h1 s1 xs"
    "only_refs h h1 (set (x # xs)) x (- 1)" "h1 x = None \<longleftrightarrow> ref_of h x = 1"
    using list_erase_refines[of h s "[]" x xs] Cons.prems by auto
  have x: "x \<notin> set xs" using Cons.prems(1) by (simp add: chain_rep_def)
  have "\<forall>y\<in>set xs. ref_of h1 y = ref_of h y" using e(3) x by (auto simp: only_refs_def)
  with Cons.IH[OF e(2)] Cons.prems(2) obtain h2 s2 where c:
    "clear_loop h1 s1 (hd_opt xs) = Some (Inr (h2, s2))" "chain_rep h2 s2 []"
    "\<forall>b. b \<notin> set xs \<longrightarrow> h2 b = h1 b"
    "\<forall>b \<in> set xs. ref_of h2 b = ref_of h b - 1 \<and> (h2 b = None \<longleftrightarrow> ref_of h b = 1)"
    by auto
  have "clear_loop h s (Some x) = Some (Inr (h2, s2))"
    using e(1) c(1) hx by (subst clear_loop.simps) simp
  moreover have "ref_of h2 x = ref_of h x - 1" "h2 x = None \<longleftrightarrow> ref_of h x = 1"
    using c(3) x e(3,4) by (auto simp: ref_of_def only_refs_def)
  moreover have "h2 b = h b" if "b \<notin> set (x # xs)" for b
    using c(3) e(3) that by (auto simp: only_refs_def)
  ultimately show ?case using c(2,4) by auto
qed

section \<open>The contracts of the two classes\<close>

text \<open>Nodes outside the touched set are untouched, so every other chain survives.\<close>

lemma seg_same: "(\<forall>b \<in> set xs. h' b = h b) \<Longrightarrow> seg h' p xs q = seg h p xs q"
  by (induction xs arbitrary: p) auto

lemma chain_rep_frame:
  "chain_rep h c zs \<Longrightarrow> only_refs h h' A a k \<Longrightarrow> A \<inter> set zs = {} \<Longrightarrow> chain_rep h' c zs"
  using seg_same[of zs h' h None None] by (auto simp: chain_rep_def only_refs_def)

lemma wait_rep_frame:
  "wait_rep h c zs \<Longrightarrow> only_refs h h' A a k \<Longrightarrow> A \<inter> set zs = {} \<Longrightarrow> wait_rep h' c zs"
  using seg_same[of zs h' h None None] by (auto simp: wait_rep_def only_refs_def)

text \<open>
  The contract of a splice: \<open>deque::push(list &&)\<close> and \<open>list::append(list &&)\<close> both promise
  it.  The client moves batches of tasks between workers and relies on nothing else.
\<close>

locale splice_op =
  fixes splice :: "store \<Rightarrow> chain \<Rightarrow> chain \<Rightarrow> (store \<times> chain \<times> chain) res"
  assumes splice_rep:
    "chain_rep h d xs \<Longrightarrow> chain_rep h s ys \<Longrightarrow> set xs \<inter> set ys = {} \<Longrightarrow>
     \<exists>h' d'. splice h d s = Inr (h', d', empty_chain) \<and> chain_rep h' d' (xs @ ys) \<and>
       (\<forall>a. only_refs h h' (set xs \<union> set ys) a 0)"
begin

lemma splice_keeps:
  assumes "chain_rep h d xs" "chain_rep h s ys" "set xs \<inter> set ys = {}"
  shows "\<exists>h' d'. splice h d s = Inr (h', d', empty_chain) \<and> chain_rep h' d' (xs @ ys) \<and>
    (\<forall>c zs. chain_rep h c zs \<and> set zs \<inter> (set xs \<union> set ys) = {} \<longrightarrow> chain_rep h' c zs) \<and>
    ref_of h' = ref_of h"
proof -
  obtain h' d' where s: "splice h d s = Inr (h', d', empty_chain)" "chain_rep h' d' (xs @ ys)"
    "\<forall>a. only_refs h h' (set xs \<union> set ys) a 0"
    using splice_rep[OF assms] by blast
  have "chain_rep h' c zs" if "chain_rep h c zs" "set zs \<inter> (set xs \<union> set ys) = {}" for c zs
    using chain_rep_frame[OF that(1) s(3)[rule_format, of 0]] that(2) by auto
  moreover have "ref_of h' = ref_of h" using s(3) by (auto simp: only_refs_def)
  ultimately show ?thesis using s(1,2) by blast
qed

end

interpretation dq: splice_op pushListUnlock
proof
  fix h d xs s ys assume r: "chain_rep h d xs" "chain_rep h s ys" "set xs \<inter> set ys = {}"
  obtain h' d' where "pushListUnlock h d s = Inr (h', d', empty_chain)" "chain_rep h' d' (xs @ ys)"
    "only_refs h h' (set xs \<union> set ys) 0 0"
    using pushListUnlock_refines[OF r, of 0] by blast
  then show "\<exists>h' d'. pushListUnlock h d s = Inr (h', d', empty_chain) \<and> chain_rep h' d' (xs @ ys) \<and>
       (\<forall>a. only_refs h h' (set xs \<union> set ys) a 0)"
    by (auto simp: only_refs_def)
qed

interpretation ls: splice_op list_append
proof
  fix h d xs s ys assume r: "chain_rep h d xs" "chain_rep h s ys" "set xs \<inter> set ys = {}"
  obtain h' d' where "list_append h d s = Inr (h', d', empty_chain)" "chain_rep h' d' (xs @ ys)"
    "only_refs h h' (set xs \<union> set ys) 0 0"
    using list_append_refines[OF r, of 0] by blast
  then show "\<exists>h' d'. list_append h d s = Inr (h', d', empty_chain) \<and> chain_rep h' d' (xs @ ys) \<and>
       (\<forall>a. only_refs h h' (set xs \<union> set ys) a 0)"
    by (auto simp: only_refs_def)
qed

section \<open>Properties\<close>


definition two_nodes :: store where
  "two_nodes = [1 \<mapsto> \<lparr>n_prev = None, n_next = Some 2, n_ref = 2\<rparr>,
                2 \<mapsto> \<lparr>n_prev = Some 1, n_next = None, n_ref = 2\<rparr>]"

definition two_chain :: chain where
  "two_chain = \<lparr>c_head = Some 1, c_tail = Some 2, c_count = 2\<rparr>"

lemma two_chain_rep: "chain_rep two_nodes two_chain [1, 2]"
  by (simp add: chain_rep_def two_nodes_def two_chain_def)


text \<open>\<open>list::cut(n)\<close> splits a list in two at position \<open>n\<close> and \<open>append\<close> puts the parts
  together again: the original order comes back and no reference count changes.\<close>

theorem cut_append_roundtrip:
  assumes "chain_rep h s xs"
  shows "\<exists>l h1 s1 h2 s2. list_cut h s n = Inr (l, h1, s1) \<and>
           chain_rep h1 l (take n xs) \<and> chain_rep h1 s1 (drop n xs) \<and>
           list_append h1 l s1 = Inr (h2, s2, empty_chain) \<and> chain_rep h2 s2 xs \<and>
           ref_of h2 = ref_of h"
proof -
  obtain l h1 s1 where c: "list_cut h s n = Inr (l, h1, s1)" "chain_rep h1 l (take n xs)"
    "chain_rep h1 s1 (drop n xs)" "only_refs h h1 (set xs) 0 0"
    using list_cut_refines[OF assms, of n 0] by blast
  have "set (take n xs) \<inter> set (drop n xs) = {}"
    using assms by (simp add: chain_rep_def set_take_disj_set_drop_if_distinct)
  then obtain h2 s2 where a: "list_append h1 l s1 = Inr (h2, s2, empty_chain)"
    "chain_rep h2 s2 (take n xs @ drop n xs)" "ref_of h2 = ref_of h1"
    using ls.splice_keeps[OF c(2,3)] by blast
  have "ref_of h2 = ref_of h" using a(3) c(4) by (auto simp: only_refs_def)
  moreover have "chain_rep h2 s2 xs" using a(2) by simp
  ultimately show ?thesis using c(1-3) a(1) by (intro exI conjI)
qed

theorem cut_append_roundtrip_witness:
  "\<exists>l h1 s1 h2 s2. list_cut two_nodes two_chain 1 = Inr (l, h1, s1) \<and>
     chain_rep h1 l (take 1 [1, 2]) \<and> chain_rep h1 s1 (drop 1 [1, 2]) \<and>
     list_append h1 l s1 = Inr (h2, s2, empty_chain) \<and> chain_rep h2 s2 [1, 2] \<and>
     ref_of h2 = ref_of two_nodes"
  by (rule cut_append_roundtrip[OF two_chain_rep])

text \<open>\<open>eraseUnLock\<close> takes the task out of the chain read from the tail, keeps the count and
  gives back the deque's reference, whatever the position; but it never moves \<open>m_head\<close>, so after
  the first of several tasks is erased the deque no longer represents any list from its head:
  \<open>front\<close> still answers the erased task.\<close>

theorem erase_keeps_wait_queue:
  assumes "wait_rep h d (us @ a # vs)" "0 < ref_of h a"
  shows "\<exists>h' d'. eraseUnLock h d a = Inr (h', d') \<and> wait_rep h' d' (us @ vs) \<and>
           ref_of h' a = ref_of h a - 1 \<and>
           (chain_rep h d (us @ a # vs) \<and> us = [] \<and> vs \<noteq> [] \<longrightarrow>
              front_of d' = (True, Some a) \<and> (\<forall>ys. ys \<noteq> [] \<and> hd ys \<noteq> a \<longrightarrow> \<not> chain_rep h' d' ys))"
proof -
  obtain h' d' where e: "eraseUnLock h d a = Inr (h', d')" "wait_rep h' d' (us @ vs)"
    "only_refs h h' (set (us @ a # vs)) a (- 1)"
    "c_head d' = (if us @ vs = [] then None else c_head d)"
    using eraseUnLock_wait[OF assms] by blast
  have "front_of d' = (True, Some a) \<and> (\<forall>ys. ys \<noteq> [] \<and> hd ys \<noteq> a \<longrightarrow> \<not> chain_rep h' d' ys)"
    if "chain_rep h d (us @ a # vs)" "us = []" "vs \<noteq> []"
    using that e(4) by (auto simp: chain_rep_def front_of_def hd_opt_def split: list.splits)
  with e show ?thesis by (auto simp: only_refs_def)
qed

theorem erase_keeps_wait_queue_witness:
  "wait_rep two_nodes two_chain [1, 2] \<and> chain_rep two_nodes two_chain [1, 2] \<and>
   (\<exists>h' d'. eraseUnLock two_nodes two_chain 1 = Inr (h', d') \<and> wait_rep h' d' [2] \<and>
      front_of d' = (True, Some 1) \<and> \<not> chain_rep h' d' [2])"
proof -
  have w: "wait_rep two_nodes two_chain ([] @ 1 # [2])" and r: "0 < ref_of two_nodes 1"
    using chain_rep_wait[OF two_chain_rep] by (simp_all add: ref_of_def two_nodes_def)
  show ?thesis
    using erase_keeps_wait_queue[OF w r] two_chain_rep w by fastforce
qed


section \<open>The end of a chain\<close>

text \<open>
  \<open>~deque\<close> drops the reference of every element, from the tail, and leaves the links of the elements
  as they are; \<open>~list\<close> only asserts that the list is empty.  Moving a list takes its fields; a list
  that is assigned to drops its own elements first.
\<close>

partial_function (option) drop_loop :: "store \<Rightarrow> addr option \<Rightarrow> store res option" where
  "drop_loop h t =
     (case t of
        None \<Rightarrow> Some (Inr h)
      | Some a \<Rightarrow>
          (case h a of None \<Rightarrow> Some (Inl UseAfterFree)
           | Some n \<Rightarrow> (case decrementRef h a of Inl e \<Rightarrow> Some (Inl e) | Inr h' \<Rightarrow> drop_loop h' (n_prev n))))"

definition deque_destroy :: "store \<Rightarrow> chain \<Rightarrow> (store \<times> chain) res option" where
  "deque_destroy h d = map_option (\<lambda>r. seqE r (\<lambda>h'. Inr (h', d\<lparr>c_head := None, c_tail := None\<rparr>))) (drop_loop h (c_tail d))"

definition list_destroy :: "chain \<Rightarrow> unit res" where
  "list_destroy s = checkE (c_count s = 0) AssertFail"

definition list_move :: "chain \<Rightarrow> chain \<times> chain" where
  "list_move other = (other, empty_chain)"

definition list_move_assign :: "store \<Rightarrow> chain \<Rightarrow> chain \<Rightarrow> (store \<times> chain \<times> chain) res option" where
  "list_move_assign h s other =
     map_option (\<lambda>r. seqE r (\<lambda>(h', _). Inr (h', list_move other))) (list_clear h s)"

lemma drop_kept:
  assumes "seg h None xs q" and "distinct xs" and "\<And>x. x \<in> set xs \<Longrightarrow> 1 < ref_of h x"
  shows "\<exists>h'. drop_loop h (last_opt xs) = Some (Inr h') \<and> seg h' None xs q \<and>
    (\<forall>b. ref_of h' b = ref_of h b - (if b \<in> set xs then 1 else 0)) \<and> (\<forall>b. b \<notin> set xs \<longrightarrow> h' b = h b)"
  using assms
proof (induction xs arbitrary: h q rule: rev_induct)
  case Nil
  then show ?case by (simp add: drop_loop.simps)
next
  case (snoc x xs)
  obtain r where x: "h x = Some \<lparr>n_prev = last_opt xs, n_next = q, n_ref = r\<rparr>" and xs: "seg h None xs (Some x)"
    using snoc.prems(1) by (auto simp: or_last_None)
  have r: "1 < r" using snoc.prems(3)[of x] x by (simp add: ref_of_def)
  let ?h = "h(x \<mapsto> \<lparr>n_prev = last_opt xs, n_next = q, n_ref = r - 1\<rparr>)"
  have dec: "decrementRef h x = Inr ?h" using x r by (simp add: store_defs)
  have seg: "seg ?h None xs (Some x)" using xs snoc.prems(2) by (simp add: seg_frame)
  have dist: "distinct xs" using snoc.prems(2) by simp
  have refs: "\<And>y. y \<in> set xs \<Longrightarrow> 1 < ref_of ?h y" using snoc.prems(2,3) by (auto simp: ref_of_def)
  obtain h' where h': "drop_loop ?h (last_opt xs) = Some (Inr h')" "seg h' None xs (Some x)"
      "\<forall>b. ref_of h' b = ref_of ?h b - (if b \<in> set xs then 1 else 0)" "\<forall>b. b \<notin> set xs \<longrightarrow> h' b = ?h b"
    using snoc.IH[OF seg dist refs] by blast
  have "drop_loop h (last_opt (xs @ [x])) = Some (Inr h')"
    using x dec h'(1) by (simp add: drop_loop.simps[of h])
  moreover have "h' x = ?h x" using h'(4) snoc.prems(2) by simp
  ultimately show ?case
    using h'(2-4) snoc.prems(2) x by (intro exI[of _ h']) (auto simp: or_last_None ref_of_def)
qed

text \<open>A deque that holds the last reference to one of several elements cannot be destroyed: the
  destructor of the element asserts that it is in no list, and \<open>~deque\<close> has not unlinked it.  With
  the references of others every element survives, linked to its neighbours as before.\<close>

lemma drop_linked:
  assumes "seg h None xs q" and "distinct xs" and "x \<in> set xs" and "ref_of h x = 1" and "\<And>y. y \<in> set xs \<Longrightarrow> 1 \<le> ref_of h y"
    and "q \<noteq> None"
  shows "drop_loop h (last_opt xs) = Some (Inl AssertFail)"
  using assms
proof (induction xs arbitrary: h q rule: rev_induct)
  case (snoc z xs)
  obtain r where z: "h z = Some \<lparr>n_prev = last_opt xs, n_next = q, n_ref = r\<rparr>" and xs: "seg h None xs (Some z)"
    using snoc.prems(1) by (auto simp: or_last_None)
  show ?case
  proof (cases "r = 1")
    case True
    then show ?thesis using z snoc.prems(6) by (auto simp: drop_loop.simps[of h] store_defs checkE_def)
  next
    case False
    define g where "g = h(z \<mapsto> \<lparr>n_prev = last_opt xs, n_next = q, n_ref = r - 1\<rparr>)"
    have dec: "decrementRef h z = Inr g" using z False by (simp add: store_defs g_def)
    have "x \<noteq> z" using snoc.prems(4) z False by (auto simp: ref_of_def)
    moreover have frame: "seg g None xs (Some z)" using xs snoc.prems(2) by (simp add: seg_frame g_def)
    have "\<And>y. y \<in> set xs \<Longrightarrow> ref_of g y = ref_of h y" using snoc.prems(2) by (auto simp: ref_of_def g_def)
    ultimately have "drop_loop g (last_opt xs) = Some (Inl AssertFail)"
      using snoc.prems(2-5) by (intro snoc.IH[OF frame]) auto
    then show ?thesis using z dec by (simp add: drop_loop.simps[of h])
  qed
qed simp

lemma deque_destroyed:
  assumes "chain_rep h d xs" and "\<And>x. x \<in> set xs \<Longrightarrow> 1 \<le> ref_of h x"
  shows "xs = ys @ [y, z] \<Longrightarrow> x \<in> set xs \<Longrightarrow> ref_of h x = 1 \<Longrightarrow> deque_destroy h d = Some (Inl AssertFail)"
    and "(\<And>x. x \<in> set xs \<Longrightarrow> ref_of h x \<noteq> 1) \<Longrightarrow> \<exists>h' d'. deque_destroy h d = Some (Inr (h', d')) \<and> seg h' None xs None \<and>
      (\<forall>b. ref_of h' b = ref_of h b - (if b \<in> set xs then 1 else 0))"
proof -
  have seg: "seg h None xs None" and dist: "distinct xs" and tail: "c_tail d = last_opt xs"
    using assms(1) by (auto simp: chain_rep_def)
  show "deque_destroy h d = Some (Inl AssertFail)" if xs: "xs = ys @ [y, z]" "x \<in> set xs" "ref_of h x = 1"
  proof -
    obtain r where z: "h z = Some \<lparr>n_prev = Some y, n_next = None, n_ref = r\<rparr>" and rest: "seg h None (ys @ [y]) (Some z)"
      using seg xs(1) by (auto simp: or_last_None)
    have "drop_loop h (Some z) = Some (Inl AssertFail)"
    proof (cases "r = 1")
      case False
      define g where "g = h(z \<mapsto> \<lparr>n_prev = Some y, n_next = None, n_ref = r - 1\<rparr>)"
      have dec: "decrementRef h z = Inr g" using z False by (simp add: store_defs g_def)
      have "x \<noteq> z" using xs(3) z False by (auto simp: ref_of_def)
      moreover have frame: "seg g None (ys @ [y]) (Some z)" unfolding g_def using rest dist xs(1) by (subst seg_frame) auto
      have "\<And>u. u \<in> set (ys @ [y]) \<Longrightarrow> ref_of g u = ref_of h u" using dist xs(1) by (auto simp: ref_of_def g_def)
      ultimately have "drop_loop g (last_opt (ys @ [y])) = Some (Inl AssertFail)"
        using dist xs assms(2) by (intro drop_linked[OF frame]) auto
      then show ?thesis using z dec by (simp add: drop_loop.simps[of h])
    qed (use z in \<open>simp add: drop_loop.simps[of h] store_defs checkE_def\<close>)
    then show ?thesis using tail xs(1) by (simp add: deque_destroy_def)
  qed
  show "\<exists>h' d'. deque_destroy h d = Some (Inr (h', d')) \<and> seg h' None xs None \<and>
      (\<forall>b. ref_of h' b = ref_of h b - (if b \<in> set xs then 1 else 0))" if "\<And>x. x \<in> set xs \<Longrightarrow> ref_of h x \<noteq> 1"
    using drop_kept[OF seg dist] assms(2) that tail by (fastforce simp: deque_destroy_def)
qed

text \<open>A list that was moved from can be destroyed.\<close>

lemma moved_list: "list_destroy (snd (list_move s)) = Inr ()" "fst (list_move s) = s"
  by (simp_all add: list_destroy_def list_move_def empty_chain_def checkE_def)

end
