(* ===== verification/RefCount.thy ===== *)
theory RefCount
  imports WolfBase
begin

text \<open>
  The intrusive reference counts of \<open>engine/src/util/shared_ptr.h\<close>: the counted object
  (\<open>shared_ref\<close>), its counter block (\<open>object_ref_impl\<close>), the strong pointer \<open>incursivePtr\<close> and
  the weak pointer \<open>weakPtr\<close>.  An object and its block share one identity; both can be alive
  or deleted, and touching a deleted one is a fault.  Every atomic operation of the code is
  one step of the machine \<open>rc_step\<close>, whose state also counts who holds a pointer.
\<close>

record counted =
  r_reference :: int   \<comment> \<open>\<open>object_ref_impl::_reference\<close>\<close>
  r_weak :: int        \<comment> \<open>\<open>object_ref_impl::_weak\<close>\<close>
  r_object :: bool     \<comment> \<open>the object is not deleted\<close>
  r_block :: bool      \<comment> \<open>the counter block is not deleted\<close>

type_synonym rc_heap = "nat \<Rightarrow> counted"

definition new_shared_ref :: counted where
  "new_shared_ref = \<lparr>r_reference = 1, r_weak = 1, r_object = True, r_block = True\<rparr>"

definition incrementWeak :: "counted \<Rightarrow> counted res" where
  "incrementWeak c = (if r_block c then Inr (c\<lparr>r_weak := r_weak c + 1\<rparr>) else Inl UseAfterFree)"

definition decrementWeak :: "counted \<Rightarrow> counted res" where
  "decrementWeak c =
     (if r_block c then
        Inr (c\<lparr>r_weak := r_weak c - 1, r_block := (r_weak c - 1 \<noteq> 0)\<rparr>)
      else Inl UseAfterFree)"

text \<open>\<open>object_ref_impl::lock\<close>: the compare-and-swap loop adds a reference unless there is none.\<close>

definition impl_lock :: "counted \<Rightarrow> (bool \<times> counted) res" where
  "impl_lock c =
     (if \<not> r_block c then Inl UseAfterFree
      else if r_reference c = 0 then Inr (False, c)
      else Inr (True, c\<lparr>r_reference := r_reference c + 1\<rparr>))"

definition object_increment :: "counted \<Rightarrow> counted res" where
  "object_increment c =
     (if r_object c \<and> r_block c then Inr (c\<lparr>r_reference := r_reference c + 1\<rparr>)
      else Inl UseAfterFree)"

text \<open>\<open>shared_ref::decrementRef\<close>: the last reference deletes the object, then drops the
  object's own weak reference on its block.\<close>

definition object_decrement :: "counted \<Rightarrow> (bool \<times> counted) res" where
  "object_decrement c =
     (if r_object c \<and> r_block c then
        if r_reference c - 1 = 0 then
          seqE (decrementWeak (c\<lparr>r_reference := 0, r_object := False\<rparr>)) (\<lambda>c'. Inr (True, c'))
        else Inr (False, c\<lparr>r_reference := r_reference c - 1\<rparr>)
      else Inl UseAfterFree)"

text \<open>Lifting an operation to one object of the heap.\<close>

definition at_obj :: "rc_heap \<Rightarrow> nat \<Rightarrow> (counted \<Rightarrow> counted res) \<Rightarrow> rc_heap res" where
  "at_obj h a f = seqE (f (h a)) (\<lambda>c. Inr (h(a := c)))"

section \<open>\<open>incursivePtr\<close>\<close>

type_synonym ptr = "nat option"

definition ip_of :: "rc_heap \<Rightarrow> ptr \<Rightarrow> (rc_heap \<times> ptr) res" where
  "ip_of h p = (case p of None \<Rightarrow> Inr (h, None)
     | Some a \<Rightarrow> seqE (at_obj h a object_increment) (\<lambda>h'. Inr (h', Some a)))"

definition ip_reset :: "rc_heap \<Rightarrow> ptr \<Rightarrow> (rc_heap \<times> ptr) res" where
  "ip_reset h p = (case p of None \<Rightarrow> Inr (h, None)
     | Some a \<Rightarrow> seqE (object_decrement (h a)) (\<lambda>(_, c). Inr (h(a := c), None)))"

definition ip_copy_assign :: "rc_heap \<Rightarrow> ptr \<Rightarrow> ptr \<Rightarrow> (rc_heap \<times> ptr) res" where
  "ip_copy_assign h p other = seqE (ip_reset h p) (\<lambda>(h1, _). ip_of h1 other)"

definition ip_move_assign :: "rc_heap \<Rightarrow> ptr \<Rightarrow> ptr \<Rightarrow> (rc_heap \<times> ptr \<times> ptr) res" where
  "ip_move_assign h p other = seqE (ip_reset h p) (\<lambda>(h1, p1). Inr (h1, other, p1))"

definition ip_useCount :: "rc_heap \<Rightarrow> ptr \<Rightarrow> int" where
  "ip_useCount h p = (case p of None \<Rightarrow> 0 | Some a \<Rightarrow> r_reference (h a))"

section \<open>\<open>weakPtr\<close>\<close>

definition wp_of_weak :: "rc_heap \<Rightarrow> ptr \<Rightarrow> (rc_heap \<times> ptr) res" where
  "wp_of_weak h w = (case w of None \<Rightarrow> Inr (h, None)
     | Some a \<Rightarrow> seqE (at_obj h a incrementWeak) (\<lambda>h'. Inr (h', Some a)))"

definition wp_reset :: "rc_heap \<Rightarrow> ptr \<Rightarrow> (rc_heap \<times> ptr) res" where
  "wp_reset h w = (case w of None \<Rightarrow> Inr (h, None)
     | Some a \<Rightarrow> seqE (at_obj h a decrementWeak) (\<lambda>h'. Inr (h', None)))"

text \<open>\<open>reset(T *ptr)\<close> and the constructor from a pointer, for a \<open>shared_ref\<close>.\<close>

definition wp_of_ptr :: "rc_heap \<Rightarrow> ptr \<Rightarrow> ptr \<Rightarrow> (rc_heap \<times> ptr) res" where
  "wp_of_ptr h w p =
     seqE (wp_reset h w) (\<lambda>(h1, _).
       case p of None \<Rightarrow> Inr (h1, None)
       | Some a \<Rightarrow>
           if \<not> r_object (h1 a) then Inl UseAfterFree
           else seqE (at_obj h1 a incrementWeak) (\<lambda>h2. Inr (h2, Some a)))"

definition wp_copy_assign :: "rc_heap \<Rightarrow> ptr \<Rightarrow> ptr \<Rightarrow> (rc_heap \<times> ptr) res" where
  "wp_copy_assign h w other = seqE (wp_reset h w) (\<lambda>(h1, _). wp_of_weak h1 other)"

text \<open>\<open>lock\<close> takes a reference on the block, builds the strong pointer and gives the
  reference back.\<close>

definition wp_lock :: "rc_heap \<Rightarrow> ptr \<Rightarrow> (rc_heap \<times> ptr) res" where
  "wp_lock h w = (case w of None \<Rightarrow> Inr (h, None)
     | Some a \<Rightarrow>
         seqE (impl_lock (h a)) (\<lambda>(ok, c).
           if \<not> ok then Inr (h(a := c), None)
           else seqE (ip_of (h(a := c)) (Some a)) (\<lambda>(h1, p).
                seqE (object_decrement (h1 a)) (\<lambda>(_, c1). Inr (h1(a := c1), p)))))"

section \<open>The holders of pointers\<close>

text \<open>
  \<open>strong a\<close> and \<open>weak a\<close> count the pointers to object \<open>a\<close> that exist: the reference the
  creator starts with, the references the queues take, the \<open>incursivePtr\<close>s, and the
  \<open>weakPtr\<close>s.  Whoever acts holds the pointer it acts through.
\<close>

record rc_state =
  rc_heap :: rc_heap
  strong :: "nat \<Rightarrow> nat"
  weak :: "nat \<Rightarrow> nat"

inductive rc_step :: "rc_state \<Rightarrow> rc_state \<Rightarrow> bool" where
  rc_copy: "0 < strong s a \<Longrightarrow> ip_of (rc_heap s) (Some a) = Inr (h, p) \<Longrightarrow>
     rc_step s (s\<lparr>rc_heap := h, strong := (strong s)(a := strong s a + 1)\<rparr>)"
| rc_drop: "0 < strong s a \<Longrightarrow> ip_reset (rc_heap s) (Some a) = Inr (h, p) \<Longrightarrow>
     rc_step s (s\<lparr>rc_heap := h, strong := (strong s)(a := strong s a - 1)\<rparr>)"
| rc_weaken: "0 < strong s a \<Longrightarrow> wp_of_ptr (rc_heap s) None (Some a) = Inr (h, p) \<Longrightarrow>
     rc_step s (s\<lparr>rc_heap := h, weak := (weak s)(a := weak s a + 1)\<rparr>)"
| rc_weak_copy: "0 < weak s a \<Longrightarrow> wp_of_weak (rc_heap s) (Some a) = Inr (h, p) \<Longrightarrow>
     rc_step s (s\<lparr>rc_heap := h, weak := (weak s)(a := weak s a + 1)\<rparr>)"
| rc_weak_drop: "0 < weak s a \<Longrightarrow> wp_reset (rc_heap s) (Some a) = Inr (h, p) \<Longrightarrow>
     rc_step s (s\<lparr>rc_heap := h, weak := (weak s)(a := weak s a - 1)\<rparr>)"
| rc_lock: "0 < weak s a \<Longrightarrow> wp_lock (rc_heap s) (Some a) = Inr (h, p) \<Longrightarrow>
     rc_step s (s\<lparr>rc_heap := h,
       strong := (strong s)(a := strong s a + (if p = None then 0 else 1))\<rparr>)"

definition rc_init :: "rc_state \<Rightarrow> bool" where
  "rc_init s \<longleftrightarrow> rc_heap s = (\<lambda>_. new_shared_ref) \<and> strong s = (\<lambda>_. 1) \<and> weak s = (\<lambda>_. 0)"

definition counted_inv :: "counted \<Rightarrow> nat \<Rightarrow> nat \<Rightarrow> bool" where
  "counted_inv c n w \<longleftrightarrow>
     r_reference c = int n \<and> r_weak c = int w + (if 0 < n then 1 else 0) \<and>
     r_object c = (0 < n) \<and> r_block c = (0 < n \<or> 0 < w)"

definition rc_inv :: "rc_state \<Rightarrow> bool" where
  "rc_inv s \<longleftrightarrow> (\<forall>a. counted_inv (rc_heap s a) (strong s a) (weak s a))"

lemmas rc_defs = ip_of_def ip_reset_def wp_of_ptr_def wp_of_weak_def wp_reset_def wp_lock_def
  at_obj_def object_increment_def object_decrement_def incrementWeak_def decrementWeak_def
  impl_lock_def

lemma rc_invD: "rc_inv s \<Longrightarrow> counted_inv (rc_heap s a) (strong s a) (weak s a)"
  by (simp add: rc_inv_def)

lemma rc_inv_local:
  assumes "rc_inv s" "counted_inv (rc_heap t a) (strong t a) (weak t a)"
    and "\<And>b. b \<noteq> a \<Longrightarrow> rc_heap t b = rc_heap s b \<and> strong t b = strong s b \<and> weak t b = weak s b"
  shows "rc_inv t"
  unfolding rc_inv_def by (metis assms rc_invD)

text \<open>What each operation does to the one object it touches, for a holder of a pointer to it.\<close>

lemma holder_ops:
  assumes "counted_inv (h a) n w"
  shows "0 < n \<Longrightarrow> ip_of h (Some a) = Inr (h(a := (h a)\<lparr>r_reference := int n + 1\<rparr>), Some a)"
    and "1 < n \<Longrightarrow> ip_reset h (Some a) = Inr (h(a := (h a)\<lparr>r_reference := int n - 1\<rparr>), None)"
    and "n = 1 \<Longrightarrow> ip_reset h (Some a) = Inr (h(a := (h a)\<lparr>r_reference := 0, r_object := False,
           r_weak := int w, r_block := (0 < w)\<rparr>), None)"
    and "0 < n \<Longrightarrow> wp_of_ptr h None (Some a) = Inr (h(a := (h a)\<lparr>r_weak := int w + 2\<rparr>), Some a)"
    and "0 < w \<Longrightarrow> wp_of_weak h (Some a) =
           Inr (h(a := (h a)\<lparr>r_weak := r_weak (h a) + 1\<rparr>), Some a)"
    and "0 < w \<Longrightarrow> wp_reset h (Some a) =
           Inr (h(a := (h a)\<lparr>r_weak := r_weak (h a) - 1, r_block := (r_weak (h a) \<noteq> 1)\<rparr>), None)"
    and "0 < w \<Longrightarrow> 0 < n \<Longrightarrow> wp_lock h (Some a) =
           Inr (h(a := (h a)\<lparr>r_reference := int n + 1\<rparr>), Some a)"
    and "0 < w \<Longrightarrow> n = 0 \<Longrightarrow> wp_lock h (Some a) = Inr (h, None)"
  using assms by (simp_all add: rc_defs counted_inv_def add.commute)

lemma rc_step_inv:
  assumes "rc_step s t" "rc_inv s"
  shows "rc_inv t"
proof -
  note c = rc_invD[OF assms(2)]
  note ops = holder_ops[of "rc_heap s", OF c]
  from assms(1) obtain a where
    "counted_inv (rc_heap t a) (strong t a) (weak t a) \<and>
     (\<forall>b. b \<noteq> a \<longrightarrow> rc_heap t b = rc_heap s b \<and> strong t b = strong s b \<and> weak t b = weak s b)"
  proof cases
    case (rc_copy a h p)
    then show ?thesis using that[of a] c[of a] by (simp add: ops(1) counted_inv_def) auto
  next
    case (rc_drop a h p)
    then show ?thesis using that[of a] c[of a]
      by (cases "strong s a = 1") (auto simp: ops(2,3) counted_inv_def)
  next
    case (rc_weaken a h p)
    then show ?thesis using that[of a] c[of a] by (simp add: ops(4) counted_inv_def) auto
  next
    case (rc_weak_copy a h p)
    then show ?thesis using that[of a] c[of a] by (simp add: ops(5) counted_inv_def) auto
  next
    case (rc_weak_drop a h p)
    then show ?thesis using that[of a] c[of a] by (cases "weak s a = 1") (auto simp: ops(6) counted_inv_def)
  next
    case (rc_lock a h p)
    then show ?thesis using that[of a] c[of a]
      by (cases "strong s a = 0") (auto simp: ops(7,8) counted_inv_def)
  qed
  then show ?thesis using rc_inv_local[OF assms(2), of t a] by blast
qed

interpretation rc: invariant_machine rc_init rc_step rc_inv
proof
  show "rc_init s \<Longrightarrow> rc_inv s" for s
    by (simp add: rc_init_def rc_inv_def counted_inv_def new_shared_ref_def)
  show "rc_inv s \<Longrightarrow> rc_step s t \<Longrightarrow> rc_inv t" for s t
    using rc_step_inv by blast
qed

section \<open>Properties\<close>

text \<open>In every reachable state no holder of a strong or weak pointer can touch deleted
  memory: copying, dropping, weakening and locking all return; the object is alive exactly
  while somebody holds it, the counter block exactly while anybody holds either kind, and
  \<open>lock\<close> answers a pointer exactly when the object is alive.\<close>

theorem refcount_safe:
  assumes "reach rc_init rc_step s"
  shows "(r_object (rc_heap s a) \<longleftrightarrow> 0 < strong s a) \<and>
         (r_block (rc_heap s a) \<longleftrightarrow> 0 < strong s a \<or> 0 < weak s a) \<and>
         (0 < strong s a \<longrightarrow> (\<exists>h. ip_of (rc_heap s) (Some a) = Inr (h, Some a)) \<and>
            (\<exists>h. ip_reset (rc_heap s) (Some a) = Inr (h, None)) \<and>
            (\<exists>h. wp_of_ptr (rc_heap s) None (Some a) = Inr (h, Some a))) \<and>
         (0 < weak s a \<longrightarrow> (\<exists>h. wp_of_weak (rc_heap s) (Some a) = Inr (h, Some a)) \<and>
            (\<exists>h. wp_reset (rc_heap s) (Some a) = Inr (h, None)) \<and>
            (\<exists>h. wp_lock (rc_heap s) (Some a) =
                   Inr (h, if 0 < strong s a then Some a else None)))"
proof -
  note d = rc_invD[OF rc.reach_inv[OF assms], of a]
  show ?thesis
    using holder_ops[of "rc_heap s" a, OF d] d by (cases "strong s a = 1") (auto simp: counted_inv_def)
qed

definition rc_start :: rc_state where
  "rc_start = \<lparr>rc_heap = (\<lambda>_. new_shared_ref), strong = (\<lambda>_. 1), weak = (\<lambda>_. 0)\<rparr>"

theorem refcount_safe_witness:
  "reach rc_init rc_step rc_start \<and> r_object (rc_heap rc_start 0) \<and>
   (\<exists>h. ip_of (rc_heap rc_start) (Some 0) = Inr (h, Some 0))"
proof -
  have r: "reach rc_init rc_step rc_start"
    by (rule reach_init) (simp add: rc_init_def rc_start_def)
  show ?thesis using refcount_safe[OF r, of 0] r by (simp add: rc_start_def)
qed

end
