(* ===== verification/RwMutex.thy ===== *)
theory RwMutex
  imports WolfBase
begin

text \<open>
  The locks of the engine: \<open>util::spinlock\<close> (\<open>engine/src/util/spinlock.h\<close>) and the
  writer-preferring read/write mutex \<open>util::wrMutex\<close> (\<open>engine/src/util/mutex.h\<close>).  The bodies
  of the four methods of \<open>wrMutex\<close> run under one \<open>std::mutex\<close>, so each is one atomic step;
  a wait on a condition variable ends the step and the thread re-checks its predicate when it
  is woken, by a notification or spuriously.
\<close>

section \<open>The spin lock\<close>

definition spin_test_and_set :: "bool \<Rightarrow> bool \<times> bool" where
  "spin_test_and_set flag = (flag, True)"

definition spin_try_lock :: "bool \<Rightarrow> bool \<times> bool" where
  "spin_try_lock flag = (let (old, flag') = spin_test_and_set flag in (\<not> old, flag'))"

definition spin_unlock :: "bool \<Rightarrow> bool" where
  "spin_unlock flag = False"

text \<open>\<open>lock\<close> repeats \<open>test_and_set\<close>; one round either takes the lock or leaves it taken.\<close>

definition spin_lock_round :: "bool \<Rightarrow> bool \<times> bool" where
  "spin_lock_round flag = (let (old, flag') = spin_test_and_set flag in (\<not> old, flag'))"

section \<open>The methods of \<open>wrMutex\<close>\<close>

record rwmutex =
  m_readCount :: nat
  m_writeCount :: nat
  m_inWriteFlag :: bool

datatype notification = NoNotify | NotifyOneWriter | NotifyAllReaders

text \<open>The wait of \<open>lock_read\<close>: \<open>True\<close> when the predicate holds and the reader is in.\<close>

definition lock_read_try :: "rwmutex \<Rightarrow> bool \<times> rwmutex" where
  "lock_read_try m =
     (if m_writeCount m = 0 then (True, m\<lparr>m_readCount := m_readCount m + 1\<rparr>) else (False, m))"

definition lock_write_announce :: "rwmutex \<Rightarrow> rwmutex" where
  "lock_write_announce m = m\<lparr>m_writeCount := m_writeCount m + 1\<rparr>"

definition lock_write_try :: "rwmutex \<Rightarrow> bool \<times> rwmutex" where
  "lock_write_try m =
     (if m_readCount m = 0 \<and> \<not> m_inWriteFlag m then (True, m\<lparr>m_inWriteFlag := True\<rparr>)
      else (False, m))"

definition release_read :: "rwmutex \<Rightarrow> notification \<times> rwmutex" where
  "release_read m =
     (let r = m_readCount m - 1
      in (if r = 0 \<and> 0 < m_writeCount m then NotifyOneWriter else NoNotify,
          m\<lparr>m_readCount := r\<rparr>))"

definition release_write :: "rwmutex \<Rightarrow> notification \<times> rwmutex" where
  "release_write m =
     (let w = m_writeCount m - 1
      in (if w = 0 then NotifyAllReaders else NotifyOneWriter,
          m\<lparr>m_writeCount := w, m_inWriteFlag := False\<rparr>))"

section \<open>Threads\<close>

datatype rw_pc = Outside | RWait | RWoken | Reading | WWait | WWoken | Writing

record rw_sys =
  rw_m :: rwmutex
  pc :: "nat \<Rightarrow> rw_pc"

text \<open>
  The effect of a notification on the waiting threads: \<open>notify_one\<close> wakes one of the threads
  waiting on the condition, if there is any.
\<close>

inductive notified :: "notification \<Rightarrow> (nat \<Rightarrow> rw_pc) \<Rightarrow> (nat \<Rightarrow> rw_pc) \<Rightarrow> bool" where
  notified_none: "notified NoNotify f f"
| notified_all: "notified NotifyAllReaders f (\<lambda>t. if f t = RWait then RWoken else f t)"
| notified_one: "f u = WWait \<Longrightarrow> notified NotifyOneWriter f (f(u := WWoken))"
| notified_nobody: "\<forall>u. f u \<noteq> WWait \<Longrightarrow> notified NotifyOneWriter f f"

inductive rw_step :: "rw_sys \<Rightarrow> rw_sys \<Rightarrow> bool" where
  rw_read: "pc s t = Outside \<or> pc s t = RWoken \<Longrightarrow> lock_read_try (rw_m s) = (ok, m) \<Longrightarrow>
     rw_step s (s\<lparr>rw_m := m, pc := (pc s)(t := if ok then Reading else RWait)\<rparr>)"
| rw_write: "pc s t = Outside \<Longrightarrow> lock_write_try (lock_write_announce (rw_m s)) = (ok, m) \<Longrightarrow>
     rw_step s (s\<lparr>rw_m := m, pc := (pc s)(t := if ok then Writing else WWait)\<rparr>)"
| rw_write_woken: "pc s t = WWoken \<Longrightarrow> lock_write_try (rw_m s) = (ok, m) \<Longrightarrow>
     rw_step s (s\<lparr>rw_m := m, pc := (pc s)(t := if ok then Writing else WWait)\<rparr>)"
| rw_read_release: "pc s t = Reading \<Longrightarrow> release_read (rw_m s) = (n, m) \<Longrightarrow>
     notified n ((pc s)(t := Outside)) f \<Longrightarrow> rw_step s (s\<lparr>rw_m := m, pc := f\<rparr>)"
| rw_write_release: "pc s t = Writing \<Longrightarrow> release_write (rw_m s) = (n, m) \<Longrightarrow>
     notified n ((pc s)(t := Outside)) f \<Longrightarrow> rw_step s (s\<lparr>rw_m := m, pc := f\<rparr>)"
| rw_spurious_read: "pc s t = RWait \<Longrightarrow> rw_step s (s\<lparr>pc := (pc s)(t := RWoken)\<rparr>)"
| rw_spurious_write: "pc s t = WWait \<Longrightarrow> rw_step s (s\<lparr>pc := (pc s)(t := WWoken)\<rparr>)"

definition rw_init :: "rw_sys \<Rightarrow> bool" where
  "rw_init s \<longleftrightarrow> rw_m s = \<lparr>m_readCount = 0, m_writeCount = 0, m_inWriteFlag = False\<rparr> \<and>
     pc s = (\<lambda>_. Outside)"

definition writerish :: "rw_pc \<Rightarrow> bool" where
  "writerish p \<longleftrightarrow> p = WWait \<or> p = WWoken \<or> p = Writing"

text \<open>Threads in a class of program points.\<close>

definition who :: "(rw_pc \<Rightarrow> bool) \<Rightarrow> (nat \<Rightarrow> rw_pc) \<Rightarrow> nat set" where
  "who P f = {t. P (f t)}"

definition rw_inv :: "rw_sys \<Rightarrow> bool" where
  "rw_inv s \<longleftrightarrow>
     finite (who (\<lambda>p. p \<noteq> Outside) (pc s)) \<and>
     m_readCount (rw_m s) = card (who (\<lambda>p. p = Reading) (pc s)) \<and>
     m_writeCount (rw_m s) = card (who writerish (pc s)) \<and>
     m_inWriteFlag (rw_m s) = (\<exists>t. pc s t = Writing) \<and>
     (\<forall>t u. pc s t = Writing \<longrightarrow> pc s u = Writing \<longrightarrow> t = u) \<and>
     (\<forall>t u. pc s t = Writing \<longrightarrow> pc s u \<noteq> Reading) \<and>
     (\<forall>t. pc s t = RWait \<longrightarrow> (\<exists>u. writerish (pc s u))) \<and>
     (\<forall>t. pc s t = WWait \<longrightarrow> (\<exists>u. pc s u = WWoken \<or> pc s u = Writing \<or> pc s u = Reading))"

lemma who_upd:
  "who P (f(t := p)) = (if P p then insert t (who P f) else who P f - {t})"
  by (auto simp: who_def)

lemma who_finite: "finite (who (\<lambda>p. p \<noteq> Outside) f) \<Longrightarrow> \<not> P Outside \<Longrightarrow> finite (who P f)"
  by (erule rev_finite_subset) (auto simp: who_def)

lemma who_mem [simp]: "t \<in> who P f \<longleftrightarrow> P (f t)"
  by (simp add: who_def)

lemma card_who_0: "finite (who P f) \<Longrightarrow> card (who P f) = 0 \<longleftrightarrow> (\<forall>t. \<not> P (f t))"
  by (auto simp: who_def)

text \<open>How one thread's move changes the number of threads in a class.\<close>

lemma card_who_upd:
  assumes "finite (who P f)"
  shows "card (who P (f(t := p))) =
    (if P p then if P (f t) then card (who P f) else Suc (card (who P f))
     else if P (f t) then card (who P f) - 1 else card (who P f))"
proof (cases "P (f t)")
  case True
  then have "insert t (who P f) = who P f" by auto
  then show ?thesis using True by (simp add: who_upd card_Diff_singleton_if)
next
  case False
  then have "who P f - {t} = who P f" by auto
  then show ?thesis using False assms by (simp add: who_upd)
qed

lemma writerish_simps [simp]:
  "\<not> writerish Outside" "\<not> writerish RWait" "\<not> writerish RWoken" "\<not> writerish Reading"
  "writerish WWait" "writerish WWoken" "writerish Writing"
  by (simp_all add: writerish_def)

lemma rw_finite:
  assumes "rw_inv s"
  shows "finite (who writerish (pc s))" "finite (who (\<lambda>p. p = Reading) (pc s))"
  using assms by (auto simp: rw_inv_def intro!: who_finite)

lemma rw_counts:
  assumes "rw_inv s"
  shows "m_readCount (rw_m s) = 0 \<longleftrightarrow> (\<forall>t. pc s t \<noteq> Reading)"
    and "m_writeCount (rw_m s) = 0 \<longleftrightarrow> (\<forall>t. \<not> writerish (pc s t))"
  using card_who_0[OF rw_finite(1)[OF assms]] card_who_0[OF rw_finite(2)[OF assms]] assms
  by (simp_all add: rw_inv_def)

lemma notified_classes:
  "notified n g f \<Longrightarrow> (writerish (f u) \<longleftrightarrow> writerish (g u)) \<and> (f u = Reading \<longleftrightarrow> g u = Reading) \<and>
     (f u = Writing \<longleftrightarrow> g u = Writing) \<and> (f u = Outside \<longleftrightarrow> g u = Outside)"
  by (induction rule: notified.induct) auto

lemma notified_who:
  assumes "notified n g f"
  shows "who writerish f = who writerish g" "who (\<lambda>p. p = Reading) f = who (\<lambda>p. p = Reading) g"
    "who (\<lambda>p. p \<noteq> Outside) f = who (\<lambda>p. p \<noteq> Outside) g"
  using notified_classes[OF assms] by (auto simp: who_def)

text \<open>A step that moves one thread and sends no notification.\<close>

lemma rw_inv_move:
  assumes i: "rw_inv s" and q: "q = (pc s)(t := p)" and t: "s' = s\<lparr>rw_m := m, pc := q\<rparr>"
    and rc: "m_readCount m = card (who (\<lambda>p. p = Reading) q)"
    and wc: "m_writeCount m = card (who writerish q)"
    and wf: "m_inWriteFlag m = (\<exists>t. q t = Writing)"
    and excl: "\<forall>t u. q t = Writing \<longrightarrow> q u = Writing \<longrightarrow> t = u"
      "\<forall>t u. q t = Writing \<longrightarrow> q u \<noteq> Reading"
    and wake: "\<forall>t. q t = RWait \<longrightarrow> (\<exists>u. writerish (q u))"
      "\<forall>t. q t = WWait \<longrightarrow> (\<exists>u. q u = WWoken \<or> q u = Writing \<or> q u = Reading)"
  shows "rw_inv s'"
proof -
  have "finite (who (\<lambda>p. p \<noteq> Outside) q)"
    using i by (simp add: rw_inv_def q who_upd)
  then show ?thesis using rc wc wf excl wake by (simp add: rw_inv_def t)
qed

lemma rw_read_inv:
  assumes i: "rw_inv s" and p: "pc s t = Outside \<or> pc s t = RWoken"
    and l: "lock_read_try (rw_m s) = (ok, m)"
  shows "rw_inv (s\<lparr>rw_m := m, pc := (pc s)(t := if ok then Reading else RWait)\<rparr>)"
proof (rule rw_inv_move[OF i refl refl])
  let ?q = "(pc s)(t := if ok then Reading else RWait)"
  note c = rw_counts[OF i]
  have cards: "card (who writerish ?q) = card (who writerish (pc s))"
    "card (who (\<lambda>p. p = Reading) ?q) = (if ok then Suc (card (who (\<lambda>p. p = Reading) (pc s)))
       else card (who (\<lambda>p. p = Reading) (pc s)))"
    using p rw_finite[OF i] by (auto simp: card_who_upd)
  show "m_readCount m = card (who (\<lambda>p. p = Reading) ?q)" "m_writeCount m = card (who writerish ?q)"
    using l i cards by (auto simp: lock_read_try_def rw_inv_def split: if_splits)
  have ok: "ok \<longleftrightarrow> (\<forall>u. \<not> writerish (pc s u))" "m_inWriteFlag m = m_inWriteFlag (rw_m s)"
    using l c by (auto simp: lock_read_try_def split: if_splits)
  have flag: "m_inWriteFlag (rw_m s) = (\<exists>t. pc s t = Writing)" using i by (simp add: rw_inv_def)
  have "(?q v = Writing) = (pc s v = Writing)" for v using p by auto
  then show "m_inWriteFlag m = (\<exists>t. ?q t = Writing)" using flag ok(2) by simp
  show "\<forall>t u. ?q t = Writing \<longrightarrow> ?q u = Writing \<longrightarrow> t = u"
    "\<forall>t u. ?q t = Writing \<longrightarrow> ?q u \<noteq> Reading"
    using i ok(1) by (auto simp: rw_inv_def writerish_def)
  show "\<forall>u. ?q u = RWait \<longrightarrow> (\<exists>v. writerish (?q v))"
  proof (intro allI impI)
    fix u assume "?q u = RWait"
    then have "\<exists>v. writerish (pc s v)"
      using ok(1) i by (auto simp: rw_inv_def split: if_splits)
    then obtain v where v: "writerish (pc s v)" by blast
    with p have "v \<noteq> t" by auto
    with v show "\<exists>v. writerish (?q v)" by (intro exI[of _ v]) simp
  qed
  show "\<forall>u. ?q u = WWait \<longrightarrow> (\<exists>v. ?q v = WWoken \<or> ?q v = Writing \<or> ?q v = Reading)"
  proof (intro allI impI)
    fix u assume "?q u = WWait"
    then have "pc s u = WWait" by (auto split: if_splits)
    then obtain v where v: "pc s v = WWoken \<or> pc s v = Writing \<or> pc s v = Reading"
      using i by (auto simp: rw_inv_def)
    with p have "v \<noteq> t" by auto
    with v show "\<exists>v. ?q v = WWoken \<or> ?q v = Writing \<or> ?q v = Reading"
      by (intro exI[of _ v]) simp
  qed
qed

text \<open>A writer that announces itself, or that was woken, tries to get in.\<close>

lemma rw_try_write_inv:
  assumes i: "rw_inv s" and p: "pc s t = Outside \<and> m0 = lock_write_announce (rw_m s) \<or>
      pc s t = WWoken \<and> m0 = rw_m s"
    and l: "lock_write_try m0 = (ok, m)"
  shows "rw_inv (s\<lparr>rw_m := m, pc := (pc s)(t := if ok then Writing else WWait)\<rparr>)"
proof (rule rw_inv_move[OF i refl refl])
  let ?q = "(pc s)(t := if ok then Writing else WWait)"
  note c = rw_counts[OF i]
  have cards: "card (who writerish ?q) = (if pc s t = Outside then Suc (card (who writerish (pc s)))
       else card (who writerish (pc s)))"
    "card (who (\<lambda>p. p = Reading) ?q) = card (who (\<lambda>p. p = Reading) (pc s))"
    using p rw_finite[OF i] by (auto simp: card_who_upd)
  show "m_readCount m = card (who (\<lambda>p. p = Reading) ?q)" "m_writeCount m = card (who writerish ?q)"
    using l i p cards
    by (auto simp: lock_write_try_def lock_write_announce_def rw_inv_def split: if_splits)
  have ok: "ok \<longleftrightarrow> (\<forall>u. pc s u \<noteq> Reading) \<and> (\<forall>u. pc s u \<noteq> Writing)"
    "m_inWriteFlag m = (ok \<or> m_inWriteFlag (rw_m s))"
  proof -
    have "m_inWriteFlag (rw_m s) = (\<exists>t. pc s t = Writing)" using i by (simp add: rw_inv_def)
    moreover have "m_readCount m0 = m_readCount (rw_m s)" "m_inWriteFlag m0 = m_inWriteFlag (rw_m s)"
      using p by (auto simp: lock_write_announce_def)
    ultimately show "ok \<longleftrightarrow> (\<forall>u. pc s u \<noteq> Reading) \<and> (\<forall>u. pc s u \<noteq> Writing)"
      "m_inWriteFlag m = (ok \<or> m_inWriteFlag (rw_m s))"
      using l c(1) unfolding lock_write_try_def by (auto split: if_splits)
  qed
  have old: "pc s t \<noteq> Writing" "pc s t \<noteq> Reading" using p by auto
  show "m_inWriteFlag m = (\<exists>t. ?q t = Writing)"
    using i old ok(2) by (auto simp: rw_inv_def)
  show "\<forall>t u. ?q t = Writing \<longrightarrow> ?q u = Writing \<longrightarrow> t = u"
    "\<forall>t u. ?q t = Writing \<longrightarrow> ?q u \<noteq> Reading"
    using i ok(1) by (auto simp: rw_inv_def)
  show "\<forall>u. ?q u = RWait \<longrightarrow> (\<exists>v. writerish (?q v))"
    by (intro allI impI exI[of _ t]) simp
  show "\<forall>u. ?q u = WWait \<longrightarrow> (\<exists>v. ?q v = WWoken \<or> ?q v = Writing \<or> ?q v = Reading)"
  proof (cases ok)
    case True
    then show ?thesis by (intro allI impI exI[of _ t]) simp
  next
    case False
    then obtain v where v: "pc s v = Reading \<or> pc s v = Writing" using ok(1) by blast
    then have "v \<noteq> t" using old by auto
    then show ?thesis using v by (intro allI impI exI[of _ v]) auto
  qed
qed

text \<open>A reader or a writer that leaves and notifies.\<close>

lemma rw_release_inv:
  assumes i: "rw_inv s" and n: "notified n ((pc s)(t := Outside)) f"
    and p: "pc s t = Reading \<and> release_read (rw_m s) = (n, m) \<or>
            pc s t = Writing \<and> release_write (rw_m s) = (n, m)"
  shows "rw_inv (s\<lparr>rw_m := m, pc := f\<rparr>)"
proof -
  let ?g = "(pc s)(t := Outside)"
  note cl = notified_classes[OF n] and w = notified_who[OF n]
  note c = rw_counts[OF i] and fin = rw_finite[OF i]
  have cards: "card (who writerish f) = (if pc s t = Writing then card (who writerish (pc s)) - 1
       else card (who writerish (pc s)))"
    "card (who (\<lambda>p. p = Reading) f) = (if pc s t = Reading then card (who (\<lambda>p. p = Reading) (pc s)) - 1
       else card (who (\<lambda>p. p = Reading) (pc s)))"
    unfolding w using p fin by (auto simp: card_who_upd)
  have ex: "\<not> (pc s t = Reading \<and> (\<exists>u. pc s u = Writing))" "pc s t = Writing \<longrightarrow> (\<forall>u. ?g u \<noteq> Writing \<and> ?g u \<noteq> Reading)"
    using i by (auto simp: rw_inv_def)
  have rcount: "m_readCount m = card (who (\<lambda>p. p = Reading) f)"
    and wcount: "m_writeCount m = card (who writerish f)"
    using p i cards by (auto simp: release_read_def release_write_def Let_def rw_inv_def)
  have fin': "finite (who writerish f)" "finite (who (\<lambda>p. p = Reading) f)"
    unfolding w using fin by (auto simp: who_upd)
  have w0: "m_writeCount m = 0 \<longleftrightarrow> (\<forall>u. \<not> writerish (f u))" and r0: "m_readCount m = 0 \<longleftrightarrow> (\<forall>u. f u \<noteq> Reading)"
    unfolding rcount wcount using card_who_0[OF fin'(1)] card_who_0[OF fin'(2)] by auto
  have flag: "m_inWriteFlag m = (\<exists>u. f u = Writing)"
    using p i ex cl by (auto simp: release_read_def release_write_def Let_def rw_inv_def)
  have wwake: "\<exists>v. f v = WWoken \<or> f v = Writing \<or> f v = Reading" if "f u = WWait" for u
  proof -
    have "m_writeCount m \<noteq> 0" using that w0 by (metis writerish_simps(5))
    then have "n = NotifyOneWriter \<or> m_readCount m \<noteq> 0"
      using p by (auto simp: release_read_def release_write_def Let_def split: if_splits)
    then show ?thesis
    proof
      assume "n = NotifyOneWriter"
      with n show ?thesis
      proof cases
        case (notified_one v)
        then show ?thesis by (intro exI[of _ v]) simp
      next
        case notified_nobody
        then show ?thesis using that by blast
      qed simp_all
    next
      assume "m_readCount m \<noteq> 0"
      then obtain v where "f v = Reading" using r0 by auto
      then show ?thesis by blast
    qed
  qed
  have rwake: "\<exists>v. writerish (f v)" if "f u = RWait" for u
  proof (rule ccontr)
    assume none: "\<nexists>v. writerish (f v)"
    then have z: "m_writeCount m = 0" using w0 by blast
    show False
    proof (cases "pc s t = Writing")
      case True
      then have "n = NotifyAllReaders" using p z by (auto simp: release_write_def Let_def)
      with n that show False by cases (auto split: if_splits)
    next
      case False
      then have r: "pc s t = Reading" "n = NoNotify"
        using p z by (auto simp: release_read_def Let_def split: if_splits)
      from n r(2) have "f = ?g" by cases auto
      then have "pc s u = RWait" using that by (auto split: if_splits)
      moreover have "\<not> writerish (pc s v)" for v
      proof (cases "v = t")
        case False
        then have "f v = pc s v" using \<open>f = ?g\<close> by simp
        then show ?thesis using none by metis
      qed (simp add: r(1))
      ultimately show False using i by (auto simp: rw_inv_def)
    qed
  qed
  have "finite (who (\<lambda>p. p \<noteq> Outside) f)"
    unfolding w using i by (simp add: rw_inv_def who_upd)
  moreover have "\<forall>t u. f t = Writing \<longrightarrow> f u = Writing \<longrightarrow> t = u" "\<forall>t u. f t = Writing \<longrightarrow> f u \<noteq> Reading"
    using i cl by (auto simp: rw_inv_def split: if_splits)
  ultimately show ?thesis
    using rcount wcount flag rwake wwake by (simp add: rw_inv_def)
qed

lemma rw_step_inv: "rw_step s s' \<Longrightarrow> rw_inv s \<Longrightarrow> rw_inv s'"
proof (induction rule: rw_step.induct)
  case (rw_read s t ok m)
  then show ?case by (intro rw_read_inv)
next
  case (rw_write s t ok m)
  then show ?case by (intro rw_try_write_inv[where t = t]) auto
next
  case (rw_write_woken s t ok m)
  then show ?case by (intro rw_try_write_inv[where t = t]) auto
next
  case (rw_read_release s t n m f)
  then show ?case by (intro rw_release_inv[where t = t]) auto
next
  case (rw_write_release s t n m f)
  then show ?case by (intro rw_release_inv[where t = t]) auto
next
  case (rw_spurious_read s t)
  let ?q = "(pc s)(t := RWoken)"
  note i = rw_spurious_read(2)
  have same: "(?q v = x) = (pc s v = x)" "writerish (?q v) = writerish (pc s v)"
    if "x \<noteq> RWait" "x \<noteq> RWoken" for v x
    using rw_spurious_read(1) that by auto
  have "rw_inv (s\<lparr>rw_m := rw_m s, pc := ?q\<rparr>)"
  proof (rule rw_inv_move[OF i refl refl])
    show "m_inWriteFlag (rw_m s) = (\<exists>t. ?q t = Writing)" using i same by (simp add: rw_inv_def)
    show "\<forall>u. ?q u = RWait \<longrightarrow> (\<exists>v. writerish (?q v))"
      using i same(2)[of Writing] by (auto simp: rw_inv_def)
  qed (use i same rw_finite[OF i] rw_spurious_read(1) in \<open>simp_all add: card_who_upd rw_inv_def\<close>)
  then show ?case by simp
next
  case (rw_spurious_write s t)
  let ?q = "(pc s)(t := WWoken)"
  note i = rw_spurious_write(2)
  have same: "(?q v = x) = (pc s v = x)" "writerish (?q v) = writerish (pc s v)"
    if "x \<noteq> WWait" "x \<noteq> WWoken" for v x
    using rw_spurious_write(1) that by auto
  have "rw_inv (s\<lparr>rw_m := rw_m s, pc := ?q\<rparr>)"
  proof (rule rw_inv_move[OF i refl refl])
    show "\<forall>u. ?q u = RWait \<longrightarrow> (\<exists>v. writerish (?q v))" by (intro allI impI exI[of _ t]) simp
    show "\<forall>u. ?q u = WWait \<longrightarrow> (\<exists>v. ?q v = WWoken \<or> ?q v = Writing \<or> ?q v = Reading)"
      by (intro allI impI exI[of _ t]) simp
    show "m_inWriteFlag (rw_m s) = (\<exists>t. ?q t = Writing)" using i same by (simp add: rw_inv_def)
  qed (use i same rw_finite[OF i] rw_spurious_write(1) in \<open>simp_all add: card_who_upd rw_inv_def\<close>)
  then show ?case by simp
qed

lemma rw_init_inv: "rw_init s \<Longrightarrow> rw_inv s"
  by (simp add: rw_init_def rw_inv_def who_def)

interpretation rw: invariant_machine rw_init rw_step rw_inv
  using rw_init_inv rw_step_inv by unfold_locales blast+

section \<open>Properties\<close>

text \<open>C10: in every reachable state of any number of threads a writer excludes readers and other
  writers, the counters agree with the threads, and no wake-up is lost: while a thread waits,
  some thread is inside the lock or has been woken and is about to retry.\<close>

theorem rwmutex_exclusion_and_wakeup:
  assumes "reach rw_init rw_step s"
  shows "(\<forall>t u. pc s t = Writing \<longrightarrow> pc s u = Writing \<longrightarrow> t = u) \<and>
         (\<forall>t u. pc s t = Writing \<longrightarrow> pc s u \<noteq> Reading) \<and>
         m_readCount (rw_m s) = card {t. pc s t = Reading} \<and>
         ((\<exists>t. pc s t = RWait \<or> pc s t = WWait) \<longrightarrow>
            (\<exists>u. pc s u = Reading \<or> pc s u = Writing \<or> pc s u = WWoken))"
proof -
  have i: "rw_inv s" by (rule rw.reach_inv[OF assms])
  have wait: "\<exists>u. pc s u = Reading \<or> pc s u = Writing \<or> pc s u = WWoken" if "pc s t = WWait" for t
    using i that by (auto simp: rw_inv_def)
  have "\<exists>u. pc s u = Reading \<or> pc s u = Writing \<or> pc s u = WWoken" if r: "pc s t = RWait" for t
  proof -
    obtain u where "writerish (pc s u)" using i r by (auto simp: rw_inv_def)
    then show ?thesis using wait[of u] by (auto simp: writerish_def)
  qed
  with i wait show ?thesis by (auto simp: rw_inv_def who_def)
qed

definition rw_start :: rw_sys where
  "rw_start = \<lparr>rw_m = \<lparr>m_readCount = 0, m_writeCount = 0, m_inWriteFlag = False\<rparr>,
     pc = (\<lambda>_. Outside)\<rparr>"

theorem rwmutex_exclusion_and_wakeup_witness:
  "\<exists>s. reach rw_init rw_step s \<and> pc s 0 = Writing \<and> pc s 1 \<noteq> Reading"
proof -
  have r: "reach rw_init rw_step rw_start"
    by (rule reach_init) (simp add: rw_init_def rw_start_def)
  let ?s = "rw_start\<lparr>rw_m := \<lparr>m_readCount = 0, m_writeCount = 1, m_inWriteFlag = True\<rparr>,
     pc := (pc rw_start)(0 := Writing)\<rparr>"
  have "rw_step rw_start ?s"
    using rw_step.rw_write[of rw_start 0 True "\<lparr>m_readCount = 0, m_writeCount = 1, m_inWriteFlag = True\<rparr>"]
    by (simp add: rw_start_def lock_write_try_def lock_write_announce_def)
  then have q: "reach rw_init rw_step ?s" by (rule reach_step[OF r])
  show ?thesis
    using rwmutex_exclusion_and_wakeup[OF q] q by (intro exI[of _ ?s]) (simp add: rw_start_def)
qed

end
