(* ===== verification/PostThread.thy ===== *)
theory PostThread
  imports RingQueue
begin

text \<open>
  \<open>util::post\<close> (\<open>engine/src/util/post.cc\<close>), the thread that sleeps on a condition variable and
  runs a function each time it is posted, together with one of its two clients, the actor dispatcher
  \<open>actorWorker\<close> (\<open>engine/src/module/actorWorker.cc\<close>, \<open>.h\<close>); the other, the log, is in \<open>LogThread\<close>.
  Both clients push into a \<open>util::queue\<close> and then post, and the posted function drains the queue.  The blocks under \<open>m_mtx\<close> are atomic steps; the check of
  \<open>m_shutdown\<close> outside the mutex, each \<open>pop\<close> and each \<open>push\<close> are steps of their own.
\<close>

section \<open>The thread\<close>

record post =
  m_sleep :: nat
  m_shutdown :: bool

definition new_post :: post where
  "new_post = \<lparr>m_sleep = 0, m_shutdown = False\<rparr>"

datatype post_pc =
    PTop        \<comment> \<open>at \<open>while (!m_shutdown)\<close>\<close>
  | PEnter      \<comment> \<open>about to take the mutex\<close>
  | PWaiting    \<comment> \<open>in \<open>m_cv.wait\<close>, the mutex released\<close>
  | PWoken      \<comment> \<open>woken, about to take the mutex back\<close>
  | PCheck      \<comment> \<open>at \<open>if (!m_shutdown)\<close>, outside the mutex\<close>
  | PRun        \<comment> \<open>in \<open>m_func\<close>\<close>
  | PDone

text \<open>The block of \<open>defaultExecute\<close> under the mutex, up to the wait or to its end.\<close>

definition post_enter :: "post \<Rightarrow> post \<times> post_pc" where
  "post_enter m =
     (if \<not> m_shutdown m then (m\<lparr>m_sleep := m_sleep m + 1\<rparr>, PWaiting) else (m, PCheck))"

definition post_wake :: "post \<Rightarrow> post \<times> post_pc" where
  "post_wake m = (m\<lparr>m_sleep := m_sleep m - 1\<rparr>, PCheck)"

definition notify_one :: "post_pc \<Rightarrow> post_pc" where
  "notify_one p = (if p = PWaiting then PWoken else p)"

definition doPost :: "post \<Rightarrow> post_pc \<Rightarrow> post_pc" where
  "doPost m p = (if 0 < m_sleep m then notify_one p else p)"

definition post_doShutdown :: "post \<Rightarrow> post_pc \<Rightarrow> post \<times> post_pc" where
  "post_doShutdown m p = (m\<lparr>m_shutdown := True\<rparr>, notify_one p)"

section \<open>The posted function\<close>

text \<open>
  \<open>actorWorker::doDispatch\<close> pops handles and creates one coroutine task for each, and stops
  early when the thread is shut down.  One round of its loop, with the handed-out item and whether
  the function goes on.  The function of the log, which does not look at the shutdown, is in \<open>LogThread\<close>.
\<close>

definition dispatch_round :: "'a queue \<Rightarrow> bool \<Rightarrow> ('a option \<times> 'a queue \<times> bool) res" where
  "dispatch_round q shutdown =
     seqE (local_pop q) (\<lambda>(r, q').
       case r of None \<Rightarrow> Inr (None, q', False) | Some v \<Rightarrow> Inr (Some v, q', \<not> shutdown))"

definition actorWorker_doDispatch ::
    "('a \<Rightarrow> 's \<Rightarrow> 's) \<Rightarrow> 'a queue \<Rightarrow> 's \<Rightarrow> ('a queue \<times> 's) res option" where
  "actorWorker_doDispatch createTask q s = drain_loop local_pop createTask q s"

section \<open>The system: one thread, its queue, and clients\<close>

text \<open>
  \<open>jobs\<close> is the queue, \<open>posting\<close> the number of clients between their \<open>push\<close> and their
  \<open>doPost\<close>, \<open>handed\<close> the items given to the posted function so far.
\<close>

record 'a post_sys =
  ps_m :: post
  ps_pc :: post_pc
  jobs :: "'a queue"
  posting :: nat
  handed :: "'a list"

inductive post_step :: "'a post_sys \<Rightarrow> 'a post_sys \<Rightarrow> bool" where
  ps_top: "ps_pc s = PTop \<Longrightarrow>
     post_step s (s\<lparr>ps_pc := (if m_shutdown (ps_m s) then PDone else PEnter)\<rparr>)"
| ps_enter: "ps_pc s = PEnter \<Longrightarrow> post_enter (ps_m s) = (m, p) \<Longrightarrow>
     post_step s (s\<lparr>ps_m := m, ps_pc := p\<rparr>)"
| ps_wake: "ps_pc s = PWoken \<Longrightarrow> post_wake (ps_m s) = (m, p) \<Longrightarrow>
     post_step s (s\<lparr>ps_m := m, ps_pc := p\<rparr>)"
| ps_spurious: "ps_pc s = PWaiting \<Longrightarrow> post_step s (s\<lparr>ps_pc := PWoken\<rparr>)"
| ps_check: "ps_pc s = PCheck \<Longrightarrow>
     post_step s (s\<lparr>ps_pc := (if m_shutdown (ps_m s) then PTop else PRun)\<rparr>)"
| ps_run: "ps_pc s = PRun \<Longrightarrow> dispatch_round (jobs s) (m_shutdown (ps_m s)) = Inr (r, q, go) \<Longrightarrow>
     post_step s (s\<lparr>jobs := q, handed := handed s @ (case r of None \<Rightarrow> [] | Some v \<Rightarrow> [v]),
       ps_pc := (if go then PRun else PTop)\<rparr>)"
| ps_push: "local_push (jobs s) v = Inr q \<Longrightarrow>
     post_step s (s\<lparr>jobs := q, posting := posting s + 1\<rparr>)"
| ps_post: "0 < posting s \<Longrightarrow>
     post_step s (s\<lparr>posting := posting s - 1, ps_pc := doPost (ps_m s) (ps_pc s)\<rparr>)"
| ps_shutdown: "post_doShutdown (ps_m s) (ps_pc s) = (m, p) \<Longrightarrow>
     post_step s (s\<lparr>ps_m := m, ps_pc := p\<rparr>)"

definition post_start :: "'a post_sys" where
  "post_start = \<lparr>ps_m = new_post, ps_pc = PTop, jobs = new_queue, posting = 0, handed = []\<rparr>"

definition post_init :: "'a post_sys \<Rightarrow> bool" where
  "post_init s \<longleftrightarrow> s = post_start"

text \<open>The thread sleeps exactly between its two increments, and never once it is shut down.\<close>

definition post_inv :: "'a post_sys \<Rightarrow> bool" where
  "post_inv s \<longleftrightarrow>
     m_sleep (ps_m s) = (if ps_pc s = PWaiting \<or> ps_pc s = PWoken then 1 else 0) \<and>
     (m_shutdown (ps_m s) \<longrightarrow> ps_pc s \<noteq> PWaiting) \<and>
     (ps_pc s = PDone \<longrightarrow> m_shutdown (ps_m s))"

lemmas post_defs = post_enter_def post_wake_def doPost_def notify_one_def post_doShutdown_def

lemma post_step_inv: "post_step s t \<Longrightarrow> post_inv s \<Longrightarrow> post_inv t"
  by (induction rule: post_step.induct)
    (auto simp: post_inv_def post_defs split: if_splits)

interpretation post: invariant_machine post_init post_step post_inv
proof
  show "post_init s \<Longrightarrow> post_inv s" for s :: "'a post_sys"
    by (simp add: post_init_def post_start_def post_inv_def new_post_def)
  show "post_inv s \<Longrightarrow> post_step s t \<Longrightarrow> post_inv t" for s t :: "'a post_sys"
    by (rule post_step_inv)
qed

text \<open>The items: everything handed out or still queued, in order, while the queue has room.\<close>

definition items :: "'a post_sys \<Rightarrow> 'a list" where
  "items s = handed s @ contents (jobs s)"

definition jobs_ok :: "'a post_sys \<Rightarrow> bool" where
  "jobs_ok s \<longleftrightarrow> queue_inv (jobs s)"

lemma dispatch_round_cases:
  assumes "queue_inv q"
  shows "\<exists>q'. dispatch_round q sd = Inr (hd_opt (contents q), q', contents q \<noteq> [] \<and> \<not> sd) \<and>
           queue_inv q' \<and> contents q' = tl (contents q)"
  using rq.deq_hd_tl[OF assms] by (cases "contents q") (auto simp: dispatch_round_def)

text \<open>One step hands items out in queue order and loses none; a push adds one at the end.\<close>

lemma post_step_items:
  assumes "post_step s t" "jobs_ok s" "length (contents (jobs s)) < 2 ^ 29"
  shows "jobs_ok t \<and> (items t = items s \<or> (\<exists>v. items t = items s @ [v])) \<and>
         (\<exists>zs. handed t = handed s @ zs)"
  using assms
proof cases
  case (ps_run r q go)
  then show ?thesis
    using dispatch_round_cases[of "jobs s" "m_shutdown (ps_m s)"] assms(2)
    by (cases "contents (jobs s)") (auto simp: jobs_ok_def items_def)
next
  case (ps_push v q)
  then show ?thesis
    using rq.enq_ok[of "jobs s" v] rq.room_lim[of "jobs s"] assms(2,3)
    by (auto simp: jobs_ok_def items_def)
qed (auto simp: jobs_ok_def items_def)

section \<open>Properties\<close>

text \<open>A run of steps of the thread alone.\<close>

inductive thread_step :: "'a post_sys \<Rightarrow> 'a post_sys \<Rightarrow> bool" where
  thread_stepI: "post_step s t \<Longrightarrow> posting t = posting s \<Longrightarrow>
     m_shutdown (ps_m t) = m_shutdown (ps_m s) \<Longrightarrow> ps_pc s \<noteq> PDone \<Longrightarrow> thread_step s t"

definition shutdown_rank :: "post_pc \<Rightarrow> nat" where
  "shutdown_rank p = (case p of PDone \<Rightarrow> 0 | PTop \<Rightarrow> 1 | PCheck \<Rightarrow> 2 | PRun \<Rightarrow> 2 | PEnter \<Rightarrow> 3
     | PWoken \<Rightarrow> 3 | PWaiting \<Rightarrow> 4)"

lemma shutdown_progress:
  assumes "post_inv s" "jobs_ok s" "m_shutdown (ps_m s)" "ps_pc s \<noteq> PDone"
  shows "\<exists>t. thread_step s t \<and> jobs_ok t \<and> m_shutdown (ps_m t) \<and>
             shutdown_rank (ps_pc t) < shutdown_rank (ps_pc s)"
proof (cases "ps_pc s")
  case PTop
  then show ?thesis
    using assms ps_top[OF PTop]
    by (intro exI[of _ "s\<lparr>ps_pc := PDone\<rparr>"]) (auto intro!: thread_stepI simp: shutdown_rank_def jobs_ok_def)
next
  case PEnter
  then show ?thesis
    using assms ps_enter[OF PEnter, of "ps_m s" PCheck]
    by (intro exI[of _ "s\<lparr>ps_m := ps_m s, ps_pc := PCheck\<rparr>"])
      (auto intro!: thread_stepI simp: shutdown_rank_def jobs_ok_def post_defs)
next
  case PWoken
  then show ?thesis
    using assms ps_wake[OF PWoken, of "(ps_m s)\<lparr>m_sleep := m_sleep (ps_m s) - 1\<rparr>" PCheck]
    by (intro exI[of _ "s\<lparr>ps_m := (ps_m s)\<lparr>m_sleep := m_sleep (ps_m s) - 1\<rparr>, ps_pc := PCheck\<rparr>"])
      (auto intro!: thread_stepI simp: shutdown_rank_def jobs_ok_def post_defs)
next
  case PCheck
  then show ?thesis
    using assms ps_check[OF PCheck]
    by (intro exI[of _ "s\<lparr>ps_pc := PTop\<rparr>"]) (auto intro!: thread_stepI simp: shutdown_rank_def jobs_ok_def)
next
  case PRun
  obtain q where q: "dispatch_round (jobs s) (m_shutdown (ps_m s)) =
      Inr (hd_opt (contents (jobs s)), q, False)" "queue_inv q"
    using dispatch_round_cases[of "jobs s" True] assms by (auto simp: jobs_ok_def)
  then show ?thesis
    using assms PRun ps_run[OF PRun q(1)]
    by (intro exI[of _ "s\<lparr>jobs := q, handed := handed s @ (case hd_opt (contents (jobs s)) of
            None \<Rightarrow> [] | Some v \<Rightarrow> [v]), ps_pc := PTop\<rparr>"])
      (auto intro!: thread_stepI simp: shutdown_rank_def jobs_ok_def)
next
  case PWaiting
  then show ?thesis using assms by (simp add: post_inv_def)
qed (use assms in simp)

text \<open>C14: a shutdown is never lost: once \<open>m_shutdown\<close> is set the thread is not left waiting on
  the condition variable, and whatever it was doing its own steps take it out of the loop.\<close>

theorem shutdown_reaches_end:
  assumes "reach post_init post_step s" "jobs_ok s" "m_shutdown (ps_m s)"
  shows "ps_pc s \<noteq> PWaiting \<and> (\<exists>t. thread_step\<^sup>*\<^sup>* s t \<and> ps_pc t = PDone)"
proof -
  have "\<exists>t. thread_step\<^sup>*\<^sup>* s t \<and> ps_pc t = PDone"
    if "post_inv s" "jobs_ok s" "m_shutdown (ps_m s)" for s :: "'a post_sys"
    using that
  proof (induction "shutdown_rank (ps_pc s)" arbitrary: s rule: less_induct)
    case less
    show ?case
    proof (cases "ps_pc s = PDone")
      case False
      then obtain t where t: "thread_step s t" "jobs_ok t" "m_shutdown (ps_m t)"
        "shutdown_rank (ps_pc t) < shutdown_rank (ps_pc s)"
        using shutdown_progress less.prems by blast
      have "post_inv t" using t(1) less.prems(1) by (auto elim: thread_step.cases intro: post_step_inv)
      then obtain u where "thread_step\<^sup>*\<^sup>* t u" "ps_pc u = PDone"
        using less.hyps[OF t(4) _ t(2,3)] by blast
      then show ?thesis using t(1) by (blast intro: converse_rtranclp_into_rtranclp)
    qed blast
  qed
  moreover have "post_inv s" by (rule post.reach_inv[OF assms(1)])
  ultimately show ?thesis using assms by (auto simp: post_inv_def)
qed

theorem shutdown_reaches_end_witness:
  "\<exists>(s :: nat post_sys). reach post_init post_step s \<and> m_shutdown (ps_m s) \<and>
     (\<exists>t. thread_step\<^sup>*\<^sup>* s t \<and> ps_pc t = PDone)"
proof -
  let ?s = "(post_start :: nat post_sys)\<lparr>ps_m := new_post\<lparr>m_shutdown := True\<rparr>, ps_pc := PTop\<rparr>"
  have "reach post_init post_step (post_start :: nat post_sys)"
    by (rule reach_init) (simp add: post_init_def)
  moreover have "post_step post_start ?s"
    by (rule ps_shutdown) (simp add: post_start_def post_defs)
  ultimately have r: "reach post_init post_step ?s" by (rule reach_step)
  have j: "jobs_ok ?s" by (simp add: jobs_ok_def post_start_def new_queue_inv)
  show ?thesis using shutdown_reaches_end[OF r j] r by (intro exI[of _ ?s]) simp
qed

end
