(* ===== verification/Clock.thy ===== *)
theory Clock
  imports WolfBase "HOL-Library.Multiset"
begin

unbundle bit_operations_syntax

text \<open>
  The timer wheel of the engine (\<open>engine/src/operation/clock.h\<close>, \<open>clock.cc\<close>): one row of 256
  slots for the timers that are close and four levels of 64 lists for the others.  A handle is
  an address in the heap \<open>handles\<close>; the lists hold the only shared pointers to it, so an entry
  that leaves its list is freed and the weak pointer of a \<open>timeEntery\<close> no longer locks.  The
  time is the 32-bit counter of the code and wraps.  The callbacks are a parameter that may
  change the clock and a world of their own; the loops that may not end are partial functions.
\<close>

section \<open>State\<close>

record 'd timer =
  t_id :: "64 word"
  t_expire :: "32 word"
  t_cancel :: "32 word"
  t_data :: 'd

record 'd clock =
  handles :: "nat \<Rightarrow> 'd timer option"
  fresh :: nat
  m_slots :: "nat \<Rightarrow> nat list"
  m_ts :: "nat \<times> nat \<Rightarrow> nat list"
  m_time :: "32 word"
  m_starttime :: "32 word"
  m_current :: "64 word"
  m_current_point :: "64 word"
  m_timeId :: "64 word"

text \<open>The constructor reads the system time in seconds and hundredths, and the running time.\<close>

definition new_clock :: "32 word \<Rightarrow> 32 word \<Rightarrow> 64 word \<Rightarrow> 'd clock" where
  "new_clock secs cent now =
     \<lparr>handles = (\<lambda>_. None), fresh = 0, m_slots = (\<lambda>_. []), m_ts = (\<lambda>_. []), m_time = 0,
      m_starttime = secs, m_current = ucast cent, m_current_point = now, m_timeId = 1\<rparr>"

definition expire_of :: "'d clock \<Rightarrow> nat \<Rightarrow> 32 word" where
  "expire_of c a = (case handles c a of Some t \<Rightarrow> t_expire t | None \<Rightarrow> 0)"

section \<open>Placing a timer\<close>

datatype place = Near nat | Far nat nat

text \<open>The loop of \<open>local_append\<close> that looks for the level, \<open>i < 3\<close>, the mask growing by 6 bits.\<close>

function level_loop :: "32 word \<Rightarrow> 32 word \<Rightarrow> nat \<Rightarrow> 32 word \<Rightarrow> nat" where
  "level_loop now time i msk =
     (if i < 3 then
        if (time OR (msk - 1)) = (now OR (msk - 1)) then i
        else level_loop now time (i + 1) (push_bit 6 msk)
      else i)"
  by pat_completeness auto
termination by (relation "measure (\<lambda>(now, time, i, msk). 3 - i)") auto

declare level_loop.simps [simp del]

text \<open>
  Where \<open>local_append\<close> puts a timer.  The comparison uses \<open>CLOCK_SLOT\<close>, which is 256, on the
  left and \<open>CLOCK_SLOT_MASK\<close>, which is 255, on the right; the slot index is masked with
  \<open>CLOCK_LEVEL_MASK\<close>, which is 63.
\<close>

definition place_of :: "32 word \<Rightarrow> 32 word \<Rightarrow> place" where
  "place_of now time =
     (if (time OR 256) = (now OR 255) then Near (unat (time AND 63))
      else let i = level_loop now time 0 (push_bit 6 256)
           in Far i (unat (drop_bit (8 + i * 6) time AND 63)))"

definition local_append :: "'d clock \<Rightarrow> nat \<Rightarrow> 'd clock" where
  "local_append c a =
     (case place_of (m_time c) (expire_of c a) of
        Near s \<Rightarrow> c\<lparr>m_slots := (m_slots c)(s := m_slots c s @ [a])\<rparr>
      | Far i k \<Rightarrow> c\<lparr>m_ts := (m_ts c)((i, k) := m_ts c (i, k) @ [a])\<rparr>)"

text \<open>\<open>local_move\<close> pops the head of a list and appends it again until the list is empty.\<close>

partial_function (option) local_move :: "nat \<Rightarrow> nat \<Rightarrow> 'd clock \<Rightarrow> 'd clock option" where
  "local_move l k c =
     (case m_ts c (l, k) of
        [] \<Rightarrow> Some c
      | a # as \<Rightarrow> local_move l k (local_append (c\<lparr>m_ts := (m_ts c)((l, k) := as)\<rparr>) a))"

section \<open>The tick\<close>

text \<open>The loop of \<open>local_shift\<close>: the level and list to move, or nothing.\<close>

partial_function (option) shift_loop ::
    "32 word \<Rightarrow> 32 word \<Rightarrow> 32 word \<Rightarrow> nat \<Rightarrow> (nat \<times> nat) option option" where
  "shift_loop ct msk time i =
     (if ct AND (msk - 1) = 0 then
        (let idx = unat (time AND 63)
         in if idx \<noteq> 0 then Some (Some (i, idx))
            else shift_loop ct (push_bit 6 msk) (drop_bit 6 time) (i + 1))
      else Some None)"

definition local_shift :: "'d clock \<Rightarrow> 'd clock option" where
  "local_shift c =
     (let ct = m_time c + 1; c' = c\<lparr>m_time := ct\<rparr>
      in if ct = 0 then local_move 3 0 c'
         else case shift_loop ct 256 (drop_bit 8 ct) 0 of
                None \<Rightarrow> None
              | Some None \<Rightarrow> Some c'
              | Some (Some (i, k)) \<Rightarrow> local_move i k c')"

text \<open>
  \<open>local_dispatch\<close> runs the callback of a handle that is not cancelled, without the lock, so
  the callback may use the clock; \<open>local_process\<close> then drops the last shared pointer to it.
\<close>

definition local_dispatch ::
    "('d \<Rightarrow> 'd clock \<times> 'w \<Rightarrow> 'd clock \<times> 'w) \<Rightarrow> nat \<Rightarrow> 'd clock \<times> 'w \<Rightarrow> 'd clock \<times> 'w" where
  "local_dispatch cb a cw =
     (case handles (fst cw) a of
        None \<Rightarrow> cw
      | Some t \<Rightarrow> if t_cancel t = 0 then cb (t_data t) cw else cw)"

definition drop_handle :: "nat \<Rightarrow> 'd clock \<times> 'w \<Rightarrow> 'd clock \<times> 'w" where
  "drop_handle a cw = ((fst cw)\<lparr>handles := (handles (fst cw))(a := None)\<rparr>, snd cw)"

partial_function (option) local_process ::
    "('d \<Rightarrow> 'd clock \<times> 'w \<Rightarrow> 'd clock \<times> 'w) \<Rightarrow> nat \<Rightarrow> 'd clock \<times> 'w \<Rightarrow> ('d clock \<times> 'w) option" where
  "local_process cb idx cw =
     (case m_slots (fst cw) idx of
        [] \<Rightarrow> Some cw
      | a # as \<Rightarrow> local_process cb idx
          (drop_handle a (local_dispatch cb a
            ((fst cw)\<lparr>m_slots := (m_slots (fst cw))(idx := as)\<rparr>, snd cw))))"

definition local_execute ::
    "('d \<Rightarrow> 'd clock \<times> 'w \<Rightarrow> 'd clock \<times> 'w) \<Rightarrow> 'd clock \<times> 'w \<Rightarrow> ('d clock \<times> 'w) option" where
  "local_execute cb cw = local_process cb (unat (m_time (fst cw) AND 255)) cw"

definition update ::
    "('d \<Rightarrow> 'd clock \<times> 'w \<Rightarrow> 'd clock \<times> 'w) \<Rightarrow> 'd clock \<times> 'w \<Rightarrow> ('d clock \<times> 'w) option" where
  "update cb cw =
     (case local_execute cb cw of
        None \<Rightarrow> None
      | Some cw1 \<Rightarrow>
          (case local_shift (fst cw1) of
             None \<Rightarrow> None
           | Some c2 \<Rightarrow> local_execute cb (c2, snd cw1)))"

fun updates ::
    "nat \<Rightarrow> ('d \<Rightarrow> 'd clock \<times> 'w \<Rightarrow> 'd clock \<times> 'w) \<Rightarrow> 'd clock \<times> 'w \<Rightarrow> ('d clock \<times> 'w) option" where
  "updates 0 cb cw = Some cw"
| "updates (Suc n) cb cw =
     (case update cb cw of None \<Rightarrow> None | Some cw' \<Rightarrow> updates n cb cw')"

text \<open>\<open>tick\<close> with the running time \<open>ct\<close>; the difference is cut to 32 bits.\<close>

definition tick ::
    "('d \<Rightarrow> 'd clock \<times> 'w \<Rightarrow> 'd clock \<times> 'w) \<Rightarrow> 64 word \<Rightarrow> 'd clock \<times> 'w \<Rightarrow> ('d clock \<times> 'w) option" where
  "tick cb ct cw =
     (let c = fst cw in
      if ct < m_current_point c then Some (c\<lparr>m_current_point := ct\<rparr>, snd cw)
      else if ct \<noteq> m_current_point c then
        (let diff = (ucast (ct - m_current_point c) :: 32 word)
         in updates (unat diff) cb
              (c\<lparr>m_current_point := ct, m_current := m_current c + ucast diff\<rparr>, snd cw))
      else Some cw)"

section \<open>Setting and cancelling a timer\<close>

text \<open>A \<open>timeEntery\<close>: the weak pointer and the id.\<close>

type_synonym timeEntery = "nat option \<times> 64 word"

definition timeOut ::
    "('d \<Rightarrow> 'd clock \<times> 'w \<Rightarrow> 'd clock \<times> 'w) \<Rightarrow> 32 word \<Rightarrow> 'd \<Rightarrow> 'd clock \<times> 'w \<Rightarrow> timeEntery \<times> 'd clock \<times> 'w" where
  "timeOut cb time d cw =
     (if time = 0 then
        (let cw' = cb d cw; i = m_timeId (fst cw') + 1
         in ((None, i), (fst cw')\<lparr>m_timeId := i\<rparr>, snd cw'))
      else
        (let c = fst cw; i = m_timeId c + 1; a = fresh c;
             t = \<lparr>t_id = i, t_expire = time + m_time c, t_cancel = 0, t_data = d\<rparr>
         in ((Some a, i),
             local_append (c\<lparr>m_timeId := i, fresh := a + 1, handles := (handles c)(a \<mapsto> t)\<rparr>) a,
             snd cw)))"

definition timeCancel :: "timeEntery \<Rightarrow> 'd clock \<Rightarrow> 'd clock" where
  "timeCancel e c =
     (case fst e of
        None \<Rightarrow> c
      | Some a \<Rightarrow>
          (case handles c a of
             None \<Rightarrow> c
           | Some t \<Rightarrow> c\<lparr>handles := (handles c)(a \<mapsto> t\<lparr>t_cancel := 1\<rparr>)\<rparr>))"

text \<open>The destructor clears every list, which drops every handle.\<close>

definition clock_clear :: "'d clock \<Rightarrow> 'd clock" where
  "clock_clear c =
     c\<lparr>m_slots := (\<lambda>i. if i < 256 then [] else m_slots c i),
       m_ts := (\<lambda>(l, k). if l < 4 \<and> k < 64 then [] else m_ts c (l, k)), handles := (\<lambda>_. None)\<rparr>"

section \<open>Where timers go\<close>

lemma level_loop_bound: "i \<le> 3 \<Longrightarrow> level_loop now time i msk \<le> 3"
  by (induction now time i msk rule: level_loop.induct) (subst level_loop.simps, auto)

lemma unat_AND_63: "unat (w AND 63 :: 32 word) < 64"
proof -
  have "w AND 63 \<le> (63 :: 32 word)" by (rule word_and_le1)
  then show ?thesis by (simp add: word_le_nat_alt)
qed

lemma unat_AND_255: "unat (w AND 255 :: 32 word) < 256"
proof -
  have "w AND 255 \<le> (255 :: 32 word)" by (rule word_and_le1)
  then show ?thesis by (simp add: word_le_nat_alt)
qed

lemma near_bits:
  fixes t now :: "32 word"
  assumes "t OR 256 = now OR 255"
  shows "t AND 255 = 255" "t AND 63 = 63"
proof -
  have low: "t AND 255 = (t OR 256) AND 255"
    by (simp add: bit.conj_disj_distrib2)
  show *: "t AND 255 = 255" unfolding low assms
    by (simp add: bit.conj_disj_distrib2 or.commute)
  have "t AND 63 = (t AND 255) AND 63"
    by (simp add: and.assoc)
  then show "t AND 63 = 63" unfolding * by simp
qed

text \<open>
  A timer is put in the near row only when the low byte of its expiry is 255, and then in slot
  63; the other lists are indexed inside the 4 levels of 64.
\<close>

lemma place_of_cases:
  "(\<exists>i k. place_of now t = Far i k \<and> i < 4 \<and> k < 64) \<or>
   place_of now t = Near 63 \<and> t AND 255 = 255"
proof (cases "t OR 256 = now OR 255")
  case True
  then show ?thesis using near_bits[OF True] by (simp add: place_of_def)
next
  case False
  have "level_loop now t 0 (push_bit 6 256) < 4"
    using level_loop_bound[of 0 now t "push_bit 6 256"] by simp
  then show ?thesis using False by (auto simp: place_of_def Let_def unat_AND_63)
qed

section \<open>Moving a list\<close>

lemma expire_of_more [simp]:
  "expire_of (c\<lparr>m_ts := x\<rparr>) = expire_of c" "expire_of (c\<lparr>m_slots := y\<rparr>) = expire_of c"
  "expire_of (c\<lparr>m_time := z\<rparr>) = expire_of c"
  by (simp_all add: expire_of_def fun_eq_iff)

text \<open>What an append leaves alone.\<close>

lemma local_append_frame [simp]:
  "m_time (local_append c a) = m_time c" "handles (local_append c a) = handles c"
  "fresh (local_append c a) = fresh c" "expire_of (local_append c a) = expire_of c"
  "m_timeId (local_append c a) = m_timeId c"
  by (simp_all add: local_append_def expire_of_def fun_eq_iff split: place.splits)

lemma local_append_list:
  "m_ts (local_append c a) (l, k) =
     (if place_of (m_time c) (expire_of c a) = Far l k then m_ts c (l, k) @ [a] else m_ts c (l, k))"
  by (auto simp: local_append_def split: place.splits)

definition goes_back :: "'d clock \<Rightarrow> nat \<Rightarrow> nat \<Rightarrow> nat \<Rightarrow> bool" where
  "goes_back c l k a \<longleftrightarrow> place_of (m_time c) (expire_of c a) = Far l k"

lemma goes_back_append [simp]:
  "goes_back (local_append (c\<lparr>m_ts := x\<rparr>) b) l k a = goes_back c l k a"
  by (simp add: goes_back_def)

lemma local_move_returns:
  "\<forall>a \<in> set (m_ts c (l, k)). \<not> goes_back c l k a \<Longrightarrow> \<exists>c'. local_move l k c = Some c'"
proof (induction "m_ts c (l, k)" arbitrary: c)
  case Nil
  then show ?case by (subst local_move.simps) simp
next
  case (Cons a as)
  let ?c = "local_append (c\<lparr>m_ts := (m_ts c)((l, k) := as)\<rparr>) a"
  have "\<not> goes_back c l k a" using Cons.prems Cons.hyps(2)[symmetric] by simp
  then have "m_ts ?c (l, k) = as" by (simp add: local_append_list goes_back_def)
  moreover have "\<forall>x \<in> set as. \<not> goes_back ?c l k x"
    using Cons.prems Cons.hyps(2)[symmetric] by simp
  ultimately obtain c' where "local_move l k ?c = Some c'"
    using Cons.hyps(1)[of ?c] by auto
  then show ?case using Cons.hyps(2)[symmetric] by (subst local_move.simps) simp
qed

lemma local_move_step_goes_back:
  assumes Cons: "m_ts c (l, k) = a # as"
    and IH: "\<forall>x \<in> set (m_ts (local_append (c\<lparr>m_ts := (m_ts c)((l, k) := as)\<rparr>) a) (l, k)).
      \<not> goes_back (local_append (c\<lparr>m_ts := (m_ts c)((l, k) := as)\<rparr>) a) l k x"
  shows "\<forall>x \<in> set (m_ts c (l, k)). \<not> goes_back c l k x"
proof -
  let ?c = "local_append (c\<lparr>m_ts := (m_ts c)((l, k) := as)\<rparr>) a"
  have sub: "set as \<subseteq> set (m_ts ?c (l, k))"
    by (auto simp: local_append_list)
  have "\<not> goes_back c l k a"
  proof
    assume g: "goes_back c l k a"
    then have "a \<in> set (m_ts ?c (l, k))" by (simp add: local_append_list goes_back_def)
    then show False using IH g by auto
  qed
  then show ?thesis using IH sub Cons by auto
qed

lemma local_move_only_returns:
  "local_move l k c = Some c' \<Longrightarrow> \<forall>a \<in> set (m_ts c (l, k)). \<not> goes_back c l k a"
proof (rule local_move.raw_induct[where P = "\<lambda>l k c c'. \<forall>a \<in> set (m_ts c (l, k)). \<not> goes_back c l k a"])
  fix mv l k and c y :: "'a clock"
  assume IH: "\<And>l k (c :: 'a clock) y. mv l k c = Some y \<Longrightarrow>
      \<forall>a \<in> set (m_ts c (l, k)). \<not> goes_back c l k a"
    and st: "(case m_ts c (l, k) of [] \<Rightarrow> Some c
      | a # as \<Rightarrow> mv l k (local_append (c\<lparr>m_ts := (m_ts c)((l, k) := as)\<rparr>) a)) = Some y"
  show "\<forall>a \<in> set (m_ts c (l, k)). \<not> goes_back c l k a"
  proof (cases "m_ts c (l, k)")
    case (Cons a as)
    have "mv l k (local_append (c\<lparr>m_ts := (m_ts c)((l, k) := as)\<rparr>) a) = Some y"
      using st Cons by simp
    from local_move_step_goes_back[OF Cons IH[OF this]] show ?thesis .
  qed simp
qed

text \<open>When nothing goes back, moving a list appends its timers one after the other.\<close>

lemma local_move_eq:
  "\<forall>a \<in> set (m_ts c (l, k)). \<not> goes_back c l k a \<Longrightarrow>
   local_move l k c = Some (foldl local_append (c\<lparr>m_ts := (m_ts c)((l, k) := [])\<rparr>) (m_ts c (l, k)))"
proof (induction "m_ts c (l, k)" arbitrary: c)
  case Nil
  then show ?case by (subst local_move.simps) (simp add: fun_upd_idem)
next
  case (Cons a as)
  let ?c = "local_append (c\<lparr>m_ts := (m_ts c)((l, k) := as)\<rparr>) a"
  let ?e = "c\<lparr>m_ts := (m_ts c)((l, k) := [])\<rparr>"
  have a: "\<not> goes_back c l k a" using Cons.prems Cons.hyps(2)[symmetric] by simp
  then have ts: "m_ts ?c (l, k) = as" by (simp add: local_append_list goes_back_def)
  have "\<forall>x \<in> set (m_ts ?c (l, k)). \<not> goes_back ?c l k x"
    using Cons.prems Cons.hyps(2)[symmetric] ts by simp
  from Cons.hyps(1)[OF ts[symmetric] this]
  have m: "local_move l k ?c = Some (foldl local_append (?c\<lparr>m_ts := (m_ts ?c)((l, k) := [])\<rparr>) as)"
    using ts by simp
  have "?c\<lparr>m_ts := (m_ts ?c)((l, k) := [])\<rparr> = local_append ?e a"
    using a by (auto simp: local_append_def goes_back_def fun_eq_iff split: place.splits)
  then show ?case using m Cons.hyps(2)[symmetric] by (subst local_move.simps) simp
qed

lemma local_move_iff:
  "local_move l k c \<noteq> None \<longleftrightarrow> (\<forall>a \<in> set (m_ts c (l, k)). \<not> goes_back c l k a)"
  using local_move_only_returns local_move_returns by blast

section \<open>The timers held by the wheel\<close>

definition wheel_keys :: "(nat \<times> nat) list" where
  "wheel_keys = List.product [0..<4] [0..<64]"

definition held :: "'d clock \<Rightarrow> nat multiset" where
  "held c = mset (concat (map (m_slots c) [0..<256])) + mset (concat (map (m_ts c) wheel_keys))"

lemma mset_concat_upd:
  "distinct ks \<Longrightarrow> k \<in> set ks \<Longrightarrow>
   mset (concat (map (f(k := xs)) ks)) + mset (f k) = mset (concat (map f ks)) + mset xs"
proof (induction ks)
  case (Cons j ks)
  show ?case
  proof (cases "j = k")
    case True
    then have "map (f(k := xs)) ks = map f ks" using Cons.prems by (metis distinct.simps(2) fun_upd_other map_cong)
    then have "mset (concat (map (f(k := xs)) ks)) = mset (concat (map f ks))" by (rule arg_cong)
    then show ?thesis using True by (simp del: fun_upd_apply add: fun_upd_same ac_simps)
  next
    case False
    then show ?thesis using Cons by (simp add: ac_simps)
  qed
qed simp

lemma wheel_keys: "distinct wheel_keys" "(l, k) \<in> set wheel_keys \<longleftrightarrow> l < 4 \<and> k < 64"
  by (auto simp: wheel_keys_def distinct_product)

lemma held_set_list:
  "l < 4 \<Longrightarrow> k < 64 \<Longrightarrow>
   held (c\<lparr>m_ts := (m_ts c)((l, k) := xs)\<rparr>) + mset (m_ts c (l, k)) = held c + mset xs"
  using mset_concat_upd[of wheel_keys "(l, k)" "m_ts c" xs] wheel_keys
  by (simp add: held_def ac_simps)

lemma held_set_slot:
  "s < 256 \<Longrightarrow>
   held (c\<lparr>m_slots := (m_slots c)(s := xs)\<rparr>) + mset (m_slots c s) = held c + mset xs"
  using mset_concat_upd[of "[0..<256]" s "m_slots c" xs]
  by (simp add: held_def ac_simps)

lemma held_frame [simp]:
  "held (c\<lparr>m_time := t\<rparr>) = held c" "held (c\<lparr>handles := h\<rparr>) = held c"
  "held (c\<lparr>fresh := n\<rparr>) = held c" "held (c\<lparr>m_timeId := i\<rparr>) = held c"
  "held (c\<lparr>m_current := x\<rparr>) = held c" "held (c\<lparr>m_current_point := y\<rparr>) = held c"
  by (simp_all add: held_def)

lemma local_append_held: "held (local_append c a) = held c + {#a#}"
proof (cases "place_of (m_time c) (expire_of c a)")
  case (Near s)
  then show ?thesis
    using place_of_cases[of "m_time c" "expire_of c a"]
      held_set_slot[of 63 c "m_slots c 63 @ [a]"]
    by (auto simp: local_append_def)
next
  case (Far i k)
  then show ?thesis
    using place_of_cases[of "m_time c" "expire_of c a"]
      held_set_list[of i k c "m_ts c (i, k) @ [a]"]
    by (auto simp: local_append_def)
qed

lemma local_append_slots:
  "m_slots (local_append c a) =
     (m_slots c)(63 := m_slots c 63 @
       (if place_of (m_time c) (expire_of c a) = Near 63 then [a] else []))"
  using place_of_cases[of "m_time c" "expire_of c a"]
  by (auto simp: local_append_def fun_eq_iff)

lemma foldl_append_held: "held (foldl local_append c as) = held c + mset as"
  by (induction as arbitrary: c) (simp_all add: local_append_held ac_simps)

definition near_of :: "'d clock \<Rightarrow> nat list \<Rightarrow> nat list" where
  "near_of c as = filter (\<lambda>a. place_of (m_time c) (expire_of c a) = Near 63) as"

lemma foldl_append_frame:
  "m_time (foldl local_append c as) = m_time c" "handles (foldl local_append c as) = handles c"
  "fresh (foldl local_append c as) = fresh c"
  "m_slots (foldl local_append c as) = (m_slots c)(63 := m_slots c 63 @ near_of c as)"
  "set (m_ts c (l, k)) \<subseteq> set (m_ts (foldl local_append c as) (l, k))"
proof -
  show "m_time (foldl local_append c as) = m_time c" "handles (foldl local_append c as) = handles c"
    "fresh (foldl local_append c as) = fresh c"
    by (induction as arbitrary: c) simp_all
  show "m_slots (foldl local_append c as) = (m_slots c)(63 := m_slots c 63 @ near_of c as)"
  proof (induction as arbitrary: c)
    case (Cons a as)
    have "near_of (local_append c a) as = near_of c as" by (simp add: near_of_def)
    then have "m_slots (foldl local_append c (a # as)) = (m_slots (local_append c a))
        (63 := m_slots (local_append c a) 63 @ near_of c as)"
      by (simp only: foldl_Cons Cons.IH)
    then show ?case by (simp add: local_append_slots near_of_def fun_eq_iff)
  qed (simp add: near_of_def)
  show "set (m_ts c (l, k)) \<subseteq> set (m_ts (foldl local_append c as) (l, k))"
  proof (induction as arbitrary: c)
    case (Cons a as)
    have "set (m_ts c (l, k)) \<subseteq> set (m_ts (local_append c a) (l, k))"
      by (auto simp: local_append_list)
    then show ?case using Cons.IH[of "local_append c a"] by simp
  qed simp
qed

section \<open>Callbacks that leave the clock alone\<close>

text \<open>
  The callbacks of the engine push a message to an actor; they change the world and not the
  clock.  \<open>quiet g\<close> is such a callback.
\<close>

definition quiet :: "('d \<Rightarrow> 'w \<Rightarrow> 'w) \<Rightarrow> 'd \<Rightarrow> 'd clock \<times> 'w \<Rightarrow> 'd clock \<times> 'w" where
  "quiet g d cw = (fst cw, g d (snd cw))"

text \<open>The data of the handles that are not cancelled.\<close>

fun live_data :: "(nat \<Rightarrow> 'd timer option) \<Rightarrow> nat list \<Rightarrow> 'd list" where
  "live_data h [] = []"
| "live_data h (a # as) =
     (case h a of
        None \<Rightarrow> live_data h as
      | Some t \<Rightarrow> if t_cancel t = 0 then t_data t # live_data h as else live_data h as)"

lemma live_data_upd: "a \<notin> set as \<Longrightarrow> live_data (h(a := v)) as = live_data h as"
  by (induction as) (auto split: option.splits)

lemma local_process_quiet:
  "distinct (m_slots c i) \<Longrightarrow>
   local_process (quiet g) i (c, w) =
     Some (c\<lparr>m_slots := (m_slots c)(i := []),
             handles := (\<lambda>a. if a \<in> set (m_slots c i) then None else handles c a)\<rparr>,
           fold g (live_data (handles c) (m_slots c i)) w)"
proof (induction "m_slots c i" arbitrary: c w)
  case Nil
  then show ?case by (subst local_process.simps) (simp add: fun_upd_idem)
next
  case (Cons a as)
  let ?c = "c\<lparr>m_slots := (m_slots c)(i := as), handles := (handles c)(a := None)\<rparr>"
  let ?w = "case handles c a of None \<Rightarrow> w | Some t \<Rightarrow> if t_cancel t = 0 then g (t_data t) w else w"
  have a: "a \<notin> set as" "distinct as" using Cons.prems Cons.hyps(2)[symmetric] by auto
  have step: "local_process (quiet g) i (c, w) = local_process (quiet g) i (?c, ?w)"
    using Cons.hyps(2)[symmetric]
    by (subst local_process.simps)
      (auto simp: local_dispatch_def drop_handle_def quiet_def split: option.splits)
  have "local_process (quiet g) i (?c, ?w) =
     Some (?c\<lparr>m_slots := (m_slots ?c)(i := []),
             handles := (\<lambda>x. if x \<in> set as then None else handles ?c x)\<rparr>,
           fold g (live_data (handles ?c) as) ?w)"
    using Cons.hyps(1)[of ?c ?w] a(2) by simp
  moreover have "?c\<lparr>m_slots := (m_slots ?c)(i := []),
        handles := (\<lambda>x. if x \<in> set as then None else handles ?c x)\<rparr> =
      c\<lparr>m_slots := (m_slots c)(i := []),
        handles := (\<lambda>x. if x \<in> set (m_slots c i) then None else handles c x)\<rparr>"
    using Cons.hyps(2)[symmetric] by (auto simp: fun_eq_iff)
  moreover have "fold g (live_data (handles ?c) as) ?w = fold g (live_data (handles c) (m_slots c i)) w"
    using Cons.hyps(2)[symmetric] a(1) by (simp add: live_data_upd split: option.splits)
  ultimately show ?case unfolding step by simp
qed

text \<open>The list that the next shift moves.\<close>

lemma shift_loop_step:
  "shift_loop ct msk time i =
     (if ct AND (msk - 1) = 0 then
        if unat (time AND 63) \<noteq> 0 then Some (Some (i, unat (time AND 63)))
        else shift_loop ct (push_bit 6 msk) (drop_bit 6 time) (i + 1)
      else Some None)"
  by (subst shift_loop.simps) (simp add: Let_def)

lemma low_bits_zero:
  fixes ct :: "32 word"
  assumes "ct AND mask n = 0" "drop_bit n ct AND mask 6 = 0"
  shows "ct AND mask (n + 6) = 0"
proof (rule bit_word_eqI)
  fix m assume "m < LENGTH(32)"
  have "bit ct m \<Longrightarrow> m < n \<Longrightarrow> False"
    using arg_cong[OF assms(1), of "\<lambda>w. bit w m"] \<open>m < LENGTH(32)\<close>
    by (simp add: bit_simps)
  moreover have "\<not> bit ct m" if "n \<le> m" "m < n + 6"
  proof -
    have "m - n < 6" "m - n < 32" using that \<open>m < LENGTH(32)\<close> by simp_all
    then show ?thesis using arg_cong[OF assms(2), of "\<lambda>w. bit w (m - n)"] that(1)
      by (simp add: bit_simps)
  qed
  ultimately show "bit (ct AND mask (n + 6)) m = bit (0 :: 32 word) m"
    using \<open>m < LENGTH(32)\<close> by (cases "n \<le> m") (auto simp: bit_simps not_le)
qed

lemma low_bits_steps:
  fixes ct :: "32 word"
  shows "ct AND 255 = 0 \<Longrightarrow> drop_bit 8 ct AND 63 = 0 \<Longrightarrow> ct AND 16383 = 0"
    and "ct AND 16383 = 0 \<Longrightarrow> drop_bit 14 ct AND 63 = 0 \<Longrightarrow> ct AND 1048575 = 0"
    and "ct AND 1048575 = 0 \<Longrightarrow> drop_bit 20 ct AND 63 = 0 \<Longrightarrow> ct AND 67108863 = 0"
    and "ct AND 67108863 = 0 \<Longrightarrow> drop_bit 26 ct AND 63 = 0 \<Longrightarrow> ct = 0"
proof -
  show "ct AND 255 = 0 \<Longrightarrow> drop_bit 8 ct AND 63 = 0 \<Longrightarrow> ct AND 16383 = 0"
    using low_bits_zero[of ct 8] by (simp add: mask_eq_exp_minus_1)
  show "ct AND 16383 = 0 \<Longrightarrow> drop_bit 14 ct AND 63 = 0 \<Longrightarrow> ct AND 1048575 = 0"
    using low_bits_zero[of ct 14] by (simp add: mask_eq_exp_minus_1)
  show "ct AND 1048575 = 0 \<Longrightarrow> drop_bit 20 ct AND 63 = 0 \<Longrightarrow> ct AND 67108863 = 0"
    using low_bits_zero[of ct 20] by (simp add: mask_eq_exp_minus_1)
  have m: "(mask (26 + 6) :: 32 word) = -1" "67108863 = (mask 26 :: 32 word)"
    "63 = (mask 6 :: 32 word)"
    by (simp_all add: mask_eq_exp_minus_1)
  show "ct AND 67108863 = 0 \<Longrightarrow> drop_bit 26 ct AND 63 = 0 \<Longrightarrow> ct = 0"
    using low_bits_zero[of ct 26] unfolding m by (simp only: m(1) and.right_neutral)
qed

text \<open>One round of the loop at level \<open>i\<close>, where the low bits are known to be zero.\<close>

definition shift_pick :: "32 word \<Rightarrow> nat \<Rightarrow> nat" where
  "shift_pick ct i = unat (drop_bit (8 + 6 * i) ct AND 63)"

lemma shift_loop_round:
  assumes "ct AND (msk - 1) = 0"
  shows "shift_loop ct msk (drop_bit (8 + 6 * i) ct) i =
     (if shift_pick ct i \<noteq> 0 then Some (Some (i, shift_pick ct i))
      else shift_loop ct (push_bit 6 msk) (drop_bit (8 + 6 * (i + 1)) ct) (i + 1))"
proof -
  have "drop_bit 6 (drop_bit (8 + 6 * i) ct) = drop_bit (8 + 6 * (i + 1)) ct"
    by (simp add: ac_simps)
  then show ?thesis using assms by (subst shift_loop_step) (simp only: shift_pick_def if_True simp_thms)
qed

lemma shift_pick_0: "shift_pick ct i = 0 \<longleftrightarrow> drop_bit (8 + 6 * i) ct AND 63 = 0"
  unfolding shift_pick_def by (rule unat_eq_zero)

lemma shift_loop_bounds:
  assumes "ct \<noteq> 0"
  shows "\<exists>r. shift_loop ct 256 (drop_bit 8 ct) 0 = Some r \<and>
     (r = None \<longleftrightarrow> ct AND 255 \<noteq> 0) \<and>
     (\<forall>i k. r = Some (i, k) \<longrightarrow> i < 4 \<and> 0 < k \<and> k < 64)"
proof (cases "ct AND 255 = 0")
  case True
  have r0: "shift_loop ct 256 (drop_bit 8 ct) 0 = (if shift_pick ct 0 \<noteq> 0 then Some (Some (0, shift_pick ct 0))
      else shift_loop ct 16384 (drop_bit 14 ct) 1)"
    using shift_loop_round[of ct 256 0] True by simp
  have r1: "shift_loop ct 16384 (drop_bit 14 ct) 1 = (if shift_pick ct 1 \<noteq> 0 then Some (Some (1, shift_pick ct 1))
      else shift_loop ct 1048576 (drop_bit 20 ct) 2)" if "ct AND 16383 = 0"
    using shift_loop_round[of ct 16384 1] that by (simp add: numeral_2_eq_2)
  have r2: "shift_loop ct 1048576 (drop_bit 20 ct) 2 = (if shift_pick ct 2 \<noteq> 0 then Some (Some (2, shift_pick ct 2))
      else shift_loop ct 67108864 (drop_bit 26 ct) 3)" if "ct AND 1048575 = 0"
    using shift_loop_round[of ct 1048576 2] that by simp
  have r3: "shift_loop ct 67108864 (drop_bit 26 ct) 3 = Some (Some (3, shift_pick ct 3))"
    if "ct AND 67108863 = 0" "shift_pick ct 3 \<noteq> 0"
    using shift_loop_round[of ct 67108864 3] that by simp
  have p: "shift_pick ct 0 = 0 \<Longrightarrow> ct AND 16383 = 0"
    "ct AND 16383 = 0 \<Longrightarrow> shift_pick ct 1 = 0 \<Longrightarrow> ct AND 1048575 = 0"
    "ct AND 1048575 = 0 \<Longrightarrow> shift_pick ct 2 = 0 \<Longrightarrow> ct AND 67108863 = 0"
    "ct AND 67108863 = 0 \<Longrightarrow> shift_pick ct 3 \<noteq> 0"
    using True assms low_bits_steps[of ct] by (auto simp: shift_pick_0)
  have "\<exists>i < 4. shift_loop ct 256 (drop_bit 8 ct) 0 = Some (Some (i, shift_pick ct i)) \<and> shift_pick ct i \<noteq> 0"
  proof (cases "shift_pick ct 0 = 0")
    case z0: True
    note p1 = p(1)[OF z0]
    show ?thesis
    proof (cases "shift_pick ct 1 = 0")
      case z1: True
      note p2 = p(2)[OF p1 z1]
      show ?thesis
      proof (cases "shift_pick ct 2 = 0")
        case z2: True
        note p3 = p(3)[OF p2 z2]
        show ?thesis
          by (intro exI[of _ 3]) (simp add: r0 r1[OF p1, simplified] r2[OF p2] r3[OF p3 p(4)[OF p3]] p(4)[OF p3, simplified] z0 z1[simplified] z2)
      next
        case False
        then show ?thesis by (intro exI[of _ 2]) (simp add: r0 r1[OF p1, simplified] r2[OF p2] z0 z1[simplified])
      qed
    next
      case False
      then show ?thesis by (intro exI[of _ 1]) (simp add: r0 r1[OF p1, simplified] z0)
    qed
  next
    case False
    then show ?thesis by (intro exI[of _ 0]) (simp add: r0)
  qed
  moreover have "shift_pick ct i < 64" for i unfolding shift_pick_def by (rule unat_AND_63)
  ultimately show ?thesis using True by auto
next
  case False
  then show ?thesis by (subst shift_loop_step) simp
qed

section \<open>The invariant of the wheel\<close>

text \<open>
  Every handle is in exactly one list, the heap holds exactly the handles in the lists, and,
  because of the masks of \<open>local_append\<close>, the near row uses slot 63 alone.
\<close>

definition wheel_inv :: "'d clock \<Rightarrow> bool" where
  "wheel_inv c \<longleftrightarrow>
     (\<forall>a. count (held c) a \<le> 1) \<and>
     (\<forall>a. a \<in># held c \<longleftrightarrow> handles c a \<noteq> None) \<and>
     (\<forall>a. handles c a \<noteq> None \<longrightarrow> a < fresh c) \<and>
     (\<forall>s. s \<noteq> 63 \<longrightarrow> m_slots c s = []) \<and>
     (\<forall>a \<in> set (m_slots c 63). expire_of c a AND 255 = 255)"

lemma wheel_invD:
  assumes "wheel_inv c"
  shows "count (held c) a \<le> 1" "a \<in># held c \<longleftrightarrow> handles c a \<noteq> None"
    "handles c a \<noteq> None \<Longrightarrow> a < fresh c" "s \<noteq> 63 \<Longrightarrow> m_slots c s = []"
    "a \<in> set (m_slots c 63) \<Longrightarrow> expire_of c a AND 255 = 255"
  using assms unfolding wheel_inv_def by simp_all

lemma slot_in_held: "s < 256 \<Longrightarrow> mset (m_slots c s) \<subseteq># held c"
  using held_set_slot[of s c "[]"] by (metis add.right_neutral mset.simps(1) mset_subset_eq_add_right)

lemma wheel_slot_distinct: "wheel_inv c \<Longrightarrow> s < 256 \<Longrightarrow> distinct (m_slots c s)"
proof -
  assume a: "wheel_inv c" "s < 256"
  have "count (mset (m_slots c s)) x \<le> 1" for x
    using mset_subset_eq_count[OF slot_in_held[OF a(2)]] wheel_invD(1)[OF a(1)] by (rule order_trans)
  then show ?thesis by (auto simp: distinct_count_atmost_1 le_Suc_eq)
qed

lemma concat_map_Nil [simp]: "concat (map (\<lambda>_. []) ks) = []"
  by (induction ks) simp_all

lemma new_clock_inv: "wheel_inv (new_clock a b p)"
  by (simp add: wheel_inv_def new_clock_def held_def)

lemma wheel_inv_frame [simp]:
  "wheel_inv (c\<lparr>m_time := t\<rparr>) = wheel_inv c"
  "wheel_inv (c\<lparr>m_timeId := i\<rparr>) = wheel_inv c"
  "wheel_inv (c\<lparr>m_current := x\<rparr>) = wheel_inv c"
  "wheel_inv (c\<lparr>m_current_point := y\<rparr>) = wheel_inv c"
  by (simp_all add: wheel_inv_def expire_of_def)

text \<open>The clock after slot \<open>i\<close> was run.\<close>

definition slot_run :: "nat \<Rightarrow> 'd clock \<Rightarrow> 'd clock" where
  "slot_run i c = c\<lparr>m_slots := (m_slots c)(i := []),
     handles := (\<lambda>a. if a \<in> set (m_slots c i) then None else handles c a)\<rparr>"

lemma slot_run_held: "i < 256 \<Longrightarrow> held c = held (slot_run i c) + mset (m_slots c i)"
  using held_set_slot[of i c "[]"] by (simp add: slot_run_def)

lemma slot_run_inv:
  assumes "wheel_inv c" "i < 256"
  shows "wheel_inv (slot_run i c)"
proof -
  note h = slot_run_held[OF assms(2), of c]
  have cnt: "count (held c) a = count (held (slot_run i c)) a + count (mset (m_slots c i)) a" for a
    by (subst h) simp
  have "count (held (slot_run i c)) a \<le> 1" for a
    using cnt[of a] wheel_invD(1)[OF assms(1), of a] by linarith
  moreover have "a \<in># held (slot_run i c) \<longleftrightarrow> handles (slot_run i c) a \<noteq> None" for a
  proof (cases "a \<in> set (m_slots c i)")
    case True
    then have "count (mset (m_slots c i)) a \<ge> 1" by (simp add: Suc_leI)
    then have "count (held (slot_run i c)) a = 0"
      using cnt[of a] wheel_invD(1)[OF assms(1), of a] by linarith
    then show ?thesis using True by (simp add: slot_run_def not_in_iff)
  next
    case False
    then have "a \<in># held (slot_run i c) \<longleftrightarrow> a \<in># held c"
      using cnt[of a] by (metis False add.right_neutral count_mset_0_iff not_in_iff)
    then show ?thesis using False wheel_invD(2)[OF assms(1)] by (simp add: slot_run_def)
  qed
  moreover have "handles (slot_run i c) a \<noteq> None \<Longrightarrow> a < fresh (slot_run i c)" for a
    using wheel_invD(3)[OF assms(1), of a] by (simp add: slot_run_def split: if_splits)
  moreover have "s \<noteq> 63 \<Longrightarrow> m_slots (slot_run i c) s = []" for s
    using wheel_invD(4)[OF assms(1)] by (simp add: slot_run_def)
  moreover have "a \<in> set (m_slots (slot_run i c) 63) \<Longrightarrow> expire_of (slot_run i c) a AND 255 = 255" for a
    using wheel_invD(5)[OF assms(1), of a] wheel_invD(4)[OF assms(1), of i]
    by (auto simp: slot_run_def expire_of_def split: if_splits)
  ultimately show ?thesis unfolding wheel_inv_def by blast
qed

lemma local_execute_quiet:
  assumes "wheel_inv c"
  defines "i \<equiv> unat (m_time c AND 255)"
  shows "local_execute (quiet g) (c, w) =
    Some (slot_run i c, fold g (live_data (handles c) (m_slots c i)) w)"
  using local_process_quiet[OF wheel_slot_distinct[OF assms(1) unat_AND_255]]
  by (simp add: local_execute_def slot_run_def i_def)

lemma local_move_inv:
  assumes "wheel_inv c" "l < 4" "k < 64" "local_move l k c = Some c'"
  shows "wheel_inv c' \<and> held c' = held c \<and> handles c' = handles c \<and> m_time c' = m_time c \<and>
    m_slots c' = (m_slots c)(63 := m_slots c 63 @ near_of c (m_ts c (l, k)))"
proof -
  let ?e = "c\<lparr>m_ts := (m_ts c)((l, k) := [])\<rparr>"
  have c': "c' = foldl local_append ?e (m_ts c (l, k))"
    using local_move_eq[OF local_move_only_returns[OF assms(4)]] assms(4) by simp
  have h: "held c' = held c"
    using held_set_list[OF assms(2,3), of c "[]"] by (simp add: c' foldl_append_held)
  have s: "m_slots c' = (m_slots c)(63 := m_slots c 63 @ near_of c (m_ts c (l, k)))"
    by (simp add: c' foldl_append_frame near_of_def)
  have f: "handles c' = handles c" "fresh c' = fresh c" "m_time c' = m_time c"
    by (simp_all add: c' foldl_append_frame)
  have e: "expire_of c' = expire_of c" by (simp add: expire_of_def f fun_eq_iff)
  have "expire_of c a AND 255 = 255" if "a \<in> set (near_of c as)" for a as
    using that place_of_cases[of "m_time c" "expire_of c a"] by (auto simp: near_of_def)
  then have "wheel_inv c'"
    using assms(1) unfolding wheel_inv_def h f e s by auto
  then show ?thesis using h f s by blast
qed

lemma local_shift_inv:
  assumes "wheel_inv c" "local_shift c = Some c'"
  shows "wheel_inv c' \<and> held c' = held c \<and> handles c' = handles c \<and> m_time c' = m_time c + 1"
proof (cases "m_time c + 1 = 0")
  case True
  then show ?thesis
    using assms local_move_inv[of "c\<lparr>m_time := 0\<rparr>" 3 0 c'] by (simp add: local_shift_def)
next
  case False
  then obtain r where r: "shift_loop (m_time c + 1) 256 (drop_bit 8 (m_time c + 1)) 0 = Some r"
    "\<forall>i k. r = Some (i, k) \<longrightarrow> i < 4 \<and> 0 < k \<and> k < 64"
    using shift_loop_bounds by blast
  show ?thesis
  proof (cases r)
    case None
    then show ?thesis using assms r False by (auto simp: local_shift_def Let_def)
  next
    case (Some p)
    then obtain i k where "r = Some (i, k)" by (cases p) auto
    then show ?thesis
      using assms r False local_move_inv[of "c\<lparr>m_time := m_time c + 1\<rparr>" i k c']
      by (simp add: local_shift_def Let_def)
  qed
qed

section \<open>The wheel as a state machine\<close>

lemma live_data_append: "live_data h (as @ bs) = live_data h as @ live_data h bs"
  by (induction as) (auto split: option.splits)

lemma live_data_cong: "(\<forall>a \<in> set as. h a = h' a) \<Longrightarrow> live_data h as = live_data h' as"
  by (induction as) (auto split: option.splits)

lemma update_quiet:
  assumes inv: "wheel_inv c" and up: "update (quiet g) (c, w) = Some (c', w')"
  shows "\<exists>fs. held c = held c' + mset fs \<and> wheel_inv c' \<and> m_time c' = m_time c + 1 \<and>
    w' = fold g (live_data (handles c) fs) w \<and>
    (m_time c AND 255 \<noteq> 63 \<and> (m_time c + 1) AND 255 \<noteq> 63 \<longrightarrow> fs = [])"
proof -
  let ?i = "unat (m_time c AND 255)" and ?j = "unat ((m_time c + 1) AND 255)"
  let ?c1 = "slot_run ?i c"
  note inv1 = slot_run_inv[OF inv unat_AND_255, of "m_time c"]
  obtain c2 where c2: "local_shift ?c1 = Some c2"
    using up by (auto simp: update_def local_execute_quiet[OF inv] split: option.splits)
  have sh: "wheel_inv c2" "held c2 = held ?c1" "handles c2 = handles ?c1" "m_time c2 = m_time c + 1"
    using local_shift_inv[OF inv1 c2] by (simp_all add: slot_run_def)
  have res: "c' = slot_run ?j c2"
    "w' = fold g (live_data (handles c2) (m_slots c2 ?j)) (fold g (live_data (handles c) (m_slots c ?i)) w)"
    using up c2 local_execute_quiet[OF sh(1), of g] sh(4)
    by (auto simp: update_def local_execute_quiet[OF inv])
  let ?fs = "m_slots c ?i @ m_slots c2 ?j"
  have h2: "held c2 = held c' + mset (m_slots c2 ?j)"
    unfolding res(1) by (rule slot_run_held[OF unat_AND_255])
  have h1: "held c = held ?c1 + mset (m_slots c ?i)"
    by (rule slot_run_held[OF unat_AND_255])
  have held: "held c = held c' + mset ?fs"
    using h1 h2 sh(2) by (simp add: ac_simps)
  have "\<forall>a \<in> set (m_slots c2 ?j). handles c2 a = handles c a"
  proof
    fix a assume "a \<in> set (m_slots c2 ?j)"
    then have "a \<in># held ?c1" using h2 sh(2) by simp
    then have "handles ?c1 a \<noteq> None" using wheel_invD(2)[OF inv1] by simp
    then show "handles c2 a = handles c a" unfolding sh(3) by (simp add: slot_run_def split: if_splits)
  qed
  then have w: "w' = fold g (live_data (handles c) ?fs) w"
    unfolding res(2) by (simp add: live_data_append live_data_cong[of "m_slots c2 ?j" "handles c2" "handles c"])
  have none: "?fs = []" if "m_time c AND 255 \<noteq> 63" "(m_time c + 1) AND 255 \<noteq> 63"
  proof -
    have "?i \<noteq> 63" "?j \<noteq> 63" using that by (simp_all add: word_unat_eq_iff)
    then show ?thesis using wheel_invD(4)[OF inv] wheel_invD(4)[OF sh(1)] by simp
  qed
  have "wheel_inv c'" "m_time c' = m_time c + 1"
    unfolding res(1) using slot_run_inv[OF sh(1) unat_AND_255] sh(4) by (simp_all add: slot_run_def)
  then show ?thesis using held w none by blast
qed

lemma local_append_fresh_inv:
  assumes "wheel_inv c" "a = fresh c"
  shows "wheel_inv (local_append (c\<lparr>m_timeId := i, fresh := a + 1, handles := (handles c)(a \<mapsto> t)\<rparr>) a)"
    (is "wheel_inv (local_append ?c a)")
proof -
  have new: "handles c a = None" using wheel_invD(3)[OF assms(1)] assms(2) by blast
  then have out: "a \<notin># held c" using wheel_invD(2)[OF assms(1)] by blast
  have h: "held (local_append ?c a) = add_mset a (held c)" by (simp add: local_append_held)
  have s: "m_slots (local_append ?c a) = (m_slots c)(63 := m_slots c 63 @
      (if place_of (m_time ?c) (expire_of ?c a) = Near 63 then [a] else []))"
    by (simp add: local_append_slots)
  have "count (held (local_append ?c a)) x \<le> 1" for x
    unfolding h using wheel_invD(1)[OF assms(1), of x] out
    by (cases "x = a") (simp_all add: not_in_iff)
  moreover have "x \<in># held (local_append ?c a) \<longleftrightarrow> handles (local_append ?c a) x \<noteq> None" for x
    unfolding h using wheel_invD(2)[OF assms(1), of x] by simp
  moreover have "handles (local_append ?c a) x \<noteq> None \<Longrightarrow> x < fresh (local_append ?c a)" for x
    using wheel_invD(3)[OF assms(1), of x] assms(2) by (auto split: if_splits)
  moreover have "m_slots (local_append ?c a) x = []" if "x \<noteq> 63" for x
    unfolding s using wheel_invD(4)[OF assms(1)] that by simp
  moreover have "expire_of (local_append ?c a) x AND 255 = 255"
    if "x \<in> set (m_slots (local_append ?c a) 63)" for x
  proof (cases "x = a")
    case True
    then have "place_of (m_time ?c) (expire_of ?c a) = Near 63"
      using that out slot_in_held[of 63 c] unfolding s by (auto split: if_splits dest: mset_subset_eqD)
    then show ?thesis using True place_of_cases[of "m_time ?c" "expire_of ?c a"] by auto
  next
    case False
    then have "x \<in> set (m_slots c 63)" using that unfolding s by (auto split: if_splits)
    then show ?thesis using wheel_invD(5)[OF assms(1), of x] False by (simp add: expire_of_def)
  qed
  ultimately show ?thesis unfolding wheel_inv_def by blast
qed

lemma timeOut_inv:
  assumes "wheel_inv c" "timeOut (quiet g) time d (c, w) = (e, cw')"
  shows "wheel_inv (fst cw')"
  using assms local_append_fresh_inv[OF assms(1) refl]
  by (auto simp: timeOut_def Let_def quiet_def split: if_splits)

lemma timeCancel_inv:
  assumes "wheel_inv c"
  shows "wheel_inv (timeCancel e c)"
proof (cases "fst e")
  case (Some a)
  show ?thesis
  proof (cases "handles c a")
    case t: (Some t)
    let ?c = "c\<lparr>handles := (handles c)(a \<mapsto> t\<lparr>t_cancel := 1\<rparr>)\<rparr>"
    have x: "expire_of ?c = expire_of c" using t by (auto simp: expire_of_def fun_eq_iff)
    have "wheel_inv ?c"
      using assms t unfolding wheel_inv_def x by (auto split: if_splits)
    then show ?thesis using t Some by (simp add: timeCancel_def)
  qed (use assms Some in \<open>simp add: timeCancel_def\<close>)
qed (use assms in \<open>simp add: timeCancel_def\<close>)

lemma updates_inv: "wheel_inv (fst cw) \<Longrightarrow> updates n (quiet g) cw = Some cw' \<Longrightarrow> wheel_inv (fst cw')"
proof (induction n arbitrary: cw)
  case (Suc n)
  then obtain cw1 where u: "update (quiet g) cw = Some cw1" "updates n (quiet g) cw1 = Some cw'"
    by (auto split: option.splits)
  then have "wheel_inv (fst cw1)"
    using update_quiet[of "fst cw" g "snd cw" "fst cw1" "snd cw1"] Suc.prems(1) by auto
  then show ?case using Suc.IH u(2) by blast
qed simp

lemma tick_inv:
  assumes "wheel_inv c" "tick (quiet g) ct (c, w) = Some cw'"
  shows "wheel_inv (fst cw')"
  using assms updates_inv[of "(c\<lparr>m_current_point := ct, m_current := m_current c + _\<rparr>, w)"]
  by (auto simp: tick_def Let_def split: if_splits)

inductive clock_step :: "('d \<Rightarrow> 'w \<Rightarrow> 'w) \<Rightarrow> 'd clock \<times> 'w \<Rightarrow> 'd clock \<times> 'w \<Rightarrow> bool" for g where
  cs_timeOut: "timeOut (quiet g) time d cw = (e, cw') \<Longrightarrow> clock_step g cw cw'"
| cs_cancel: "clock_step g cw (timeCancel e (fst cw), snd cw)"
| cs_tick: "tick (quiet g) ct cw = Some cw' \<Longrightarrow> clock_step g cw cw'"

inductive clock_init :: "'d clock \<times> 'w \<Rightarrow> bool" where
  "clock_init (new_clock a b p, w)"

interpretation ck: invariant_machine clock_init "clock_step g" "\<lambda>cw. wheel_inv (fst cw)"
  for g :: "'d \<Rightarrow> 'w \<Rightarrow> 'w"
proof
  show "clock_init cw \<Longrightarrow> wheel_inv (fst cw)" for cw :: "'d clock \<times> 'w"
    by (erule clock_init.cases) (simp add: new_clock_inv)
  show "wheel_inv (fst cw) \<Longrightarrow> clock_step g cw cw' \<Longrightarrow> wheel_inv (fst cw')" for cw cw' :: "'d clock \<times> 'w"
    by (erule clock_step.cases)
      (metis prod.collapse timeOut_inv, simp add: timeCancel_inv, metis prod.collapse tick_inv)
qed

section \<open>What the masks do to ordinary timers\<close>

lemma unat_bits:
  fixes w :: "32 word"
  shows "unat (drop_bit 8 w AND 63) = unat w div 256 mod 64" "unat (w AND 255) = unat w mod 256"
proof -
  have m: "63 = (mask 6 :: 32 word)" "255 = (mask 8 :: 32 word)" by (simp_all add: mask_eq_exp_minus_1)
  show "unat (drop_bit 8 w AND 63) = unat w div 256 mod 64" "unat (w AND 255) = unat w mod 256"
    unfolding m take_bit_eq_mask[symmetric]
    by (simp_all only: unsigned_take_bit_eq unat_drop_bit_eq) (simp_all add: take_bit_eq_mod drop_bit_eq_div)
qed

lemma or_16383:
  fixes w :: "32 word"
  assumes "unat w < 16384"
  shows "w OR 16383 = 16383"
proof -
  have m: "16383 = (mask 14 :: 32 word)" by (simp add: mask_eq_exp_minus_1)
  have "take_bit 14 w = w" using assms by (simp only: word_unat_eq_iff unsigned_take_bit_eq) (simp add: take_bit_eq_mod)
  then have "w AND mask 14 = w" by (simp add: take_bit_eq_mask)
  then have "bit w n \<Longrightarrow> n < 14" for n
    by (metis bit_and_iff bit_mask_iff)
  then show ?thesis unfolding m by (intro bit_word_eqI) (auto simp: bit_simps)
qed

lemma place_first_level:
  assumes "unat t < 16384" "unat now < 16384" "t OR 256 \<noteq> now OR 255"
  shows "place_of now t = Far 0 (unat t div 256)"
proof -
  have "level_loop now t 0 (push_bit 6 256) = 0"
    by (subst level_loop.simps) (simp add: or_16383 assms)
  then show ?thesis using assms by (simp add: place_of_def unat_bits)
qed

lemma place_first_level_at:
  assumes "unat t < 16384" "t AND 255 \<noteq> 255" "unat now < 16384"
  shows "place_of now t = Far 0 (unat t div 256)"
  using assms near_bits(1)[of t now] by (intro place_first_level) auto

text \<open>With nothing in the near row and nothing to move, an update only counts the time.\<close>

lemma local_process_empty: "m_slots (fst cw) i = [] \<Longrightarrow> local_process cb i cw = Some cw"
  by (subst local_process.simps) simp

lemma update_idle:
  assumes "\<And>s. m_slots c s = []" "local_shift c = Some (c\<lparr>m_time := m_time c + 1\<rparr>)"
  shows "update cb (c, w) = Some (c\<lparr>m_time := m_time c + 1\<rparr>, w)"
  using assms by (simp add: update_def local_execute_def local_process_empty)

lemma local_shift_first_level:
  assumes ct: "unat (m_time c + 1) < 16384" "m_time c + 1 \<noteq> 0"
  shows "local_shift c =
    (if unat (m_time c + 1) mod 256 = 0
     then local_move 0 (unat (m_time c + 1) div 256) (c\<lparr>m_time := m_time c + 1\<rparr>)
     else Some (c\<lparr>m_time := m_time c + 1\<rparr>))"
proof -
  let ?t = "m_time c + 1"
  have z: "?t AND 255 = 0 \<longleftrightarrow> unat ?t mod 256 = 0" by (metis unat_bits(2) unat_eq_zero)
  have p: "unat (drop_bit 8 ?t AND 63) = unat ?t div 256" using ct by (simp add: unat_bits)
  have "0 < unat ?t div 256" if "unat ?t mod 256 = 0"
    using that ct(2) by (metis div_mult_mod_eq add_0_right gr0I mult_0 unat_eq_zero)
  then show ?thesis using ct(2) z p
    by (simp add: local_shift_def Let_def shift_loop_step[of ?t 256])
qed

lemma move_goes_back_diverges:
  "a \<in> set (m_ts c (l, k)) \<Longrightarrow> place_of (m_time c) (expire_of c a) = Far l k \<Longrightarrow>
   local_move l k c = None"
  using local_move_iff[of l k c] by (auto simp: goes_back_def)

text \<open>The clock with one timer of \<open>t\<close> hundredths set when it is new.\<close>

definition one_timer :: "32 word \<Rightarrow> 'd \<Rightarrow> 'd clock" where
  "one_timer t d = fst (snd (timeOut (quiet (\<lambda>_ w. w)) t d (new_clock 0 0 0, ())))"

lemma one_timer_fields:
  assumes "unat t < 16384" "t \<noteq> 0" "t AND 255 \<noteq> 255"
  shows "m_slots (one_timer t d) s = []" "m_time (one_timer t d) = 0"
    "m_ts (one_timer t d) p = (if p = (0, unat t div 256) then [0] else [])"
    "expire_of (one_timer t d) 0 = t"
proof -
  have "place_of 0 t = Far 0 (unat t div 256)"
    using place_first_level_at[of t 0] assms by simp
  then show "m_slots (one_timer t d) s = []" "m_time (one_timer t d) = 0"
    "m_ts (one_timer t d) p = (if p = (0, unat t div 256) then [0] else [])"
    "expire_of (one_timer t d) 0 = t"
    using assms(2)
    by (auto simp: one_timer_def timeOut_def Let_def new_clock_def local_append_def expire_of_def)
qed

lemma updates_Suc:
  "updates (Suc n) cb cw = (case updates n cb cw of None \<Rightarrow> None | Some cw' \<Rightarrow> update cb cw')"
proof (induction n arbitrary: cw)
  case (Suc n)
  have "updates (Suc (Suc n)) cb cw =
      (case update cb cw of None \<Rightarrow> None | Some x \<Rightarrow> updates (Suc n) cb x)"
    by (rule updates.simps(2))
  also have "\<dots> = (case update cb cw of None \<Rightarrow> None
      | Some x \<Rightarrow> (case updates n cb x of None \<Rightarrow> None | Some cw' \<Rightarrow> update cb cw'))"
    by (simp only: Suc.IH)
  also have "\<dots> = (case updates (Suc n) cb cw of None \<Rightarrow> None | Some cw' \<Rightarrow> update cb cw')"
    by (cases "update cb cw") simp_all
  finally show ?case .
qed (simp split: option.split)

lemma unat_of_nat_small: "n < 16384 \<Longrightarrow> unat (of_nat n :: 32 word) = n"
  by (simp add: unat_of_nat take_bit_eq_mod)

lemma one_timer_idle:
  assumes t: "unat t < 16384" "t \<noteq> 0" "t AND 255 \<noteq> 255"
    and n: "Suc n < 16384" "Suc n mod 256 = 0 \<longrightarrow> Suc n div 256 \<noteq> unat t div 256"
  shows "update cb ((one_timer t d)\<lparr>m_time := of_nat n\<rparr>, w) =
    Some ((one_timer t d)\<lparr>m_time := of_nat (Suc n)\<rparr>, w)"
proof -
  let ?c = "(one_timer t d)\<lparr>m_time := of_nat n\<rparr>"
  have ct: "m_time ?c + 1 = of_nat (Suc n)" by simp
  have u: "unat (m_time ?c + 1) = Suc n" unfolding ct by (rule unat_of_nat_small[OF n(1)])
  then have nz: "m_time ?c + 1 \<noteq> 0" by (metis nat.distinct(1) unat_0)
  have "local_shift ?c = Some (?c\<lparr>m_time := m_time ?c + 1\<rparr>)"
  proof (cases "Suc n mod 256 = 0")
    case True
    then have "m_ts (?c\<lparr>m_time := m_time ?c + 1\<rparr>) (0, Suc n div 256) = []"
      using n(2) one_timer_fields(3)[OF t, of d "(0, Suc n div 256)"] by simp
    then have "local_move 0 (Suc n div 256) (?c\<lparr>m_time := m_time ?c + 1\<rparr>) = Some (?c\<lparr>m_time := m_time ?c + 1\<rparr>)"
      by (subst local_move.simps) simp
    then show ?thesis using local_shift_first_level[of ?c] u nz n(1) True by simp
  next
    case False
    then show ?thesis using local_shift_first_level[of ?c] u nz n(1) by simp
  qed
  then show ?thesis
    using update_idle[of ?c cb w] one_timer_fields(1)[OF t, of d] by (simp add: add.commute)
qed

lemma one_timer_waits:
  assumes t: "unat t < 16384" "t \<noteq> 0" "t AND 255 \<noteq> 255"
    and n: "n < 16384" "unat t < 256 \<or> n < 256 * (unat t div 256)"
  shows "updates n cb (one_timer t d, w) = Some ((one_timer t d)\<lparr>m_time := of_nat n\<rparr>, w)"
  using n
proof (induction n)
  case 0
  have "(one_timer t d)\<lparr>m_time := 0\<rparr> = one_timer t d"
    using one_timer_fields(2)[OF t, of d] by (cases "one_timer t d") simp
  then show ?case by simp
next
  case (Suc n)
  have "Suc n mod 256 = 0 \<longrightarrow> Suc n div 256 \<noteq> unat t div 256"
    using Suc.prems(2) mult_div_mod_eq[of 256 "Suc n"] by (auto simp: div_less)
  moreover have "updates n cb (one_timer t d, w) = Some ((one_timer t d)\<lparr>m_time := of_nat n\<rparr>, w)"
    using Suc by auto
  ultimately show ?case
    using one_timer_idle[OF t Suc.prems(1), where d = d and w = w and cb = cb]
    unfolding updates_Suc by simp
qed

lemma one_timer_diverges:
  assumes t: "unat t < 16384" "t \<noteq> 0" "t AND 255 \<noteq> 255" and big: "256 \<le> unat t"
  shows "updates (256 * (unat t div 256)) cb (one_timer t d, w) = None"
proof -
  define k where "k = unat t div 256"
  have k: "0 < k" "k < 64" "256 * k \<le> unat t" using big t(1) by (auto simp: k_def)
  define n where "n = 256 * k - 1"
  have n: "Suc n = 256 * k" "Suc n < 16384" using k t(1) by (simp_all add: n_def)
  let ?c = "(one_timer t d)\<lparr>m_time := of_nat n\<rparr>" and ?w = w
  have at: "updates n cb (one_timer t d, w) = Some (?c, w)"
    using one_timer_waits[OF t, of n cb d w] n by (simp add: k_def)
  have ct: "m_time ?c + 1 = of_nat (Suc n)" by simp
  have u: "unat (m_time ?c + 1) = 256 * k" unfolding ct using unat_of_nat_small[OF n(2)] n(1) by simp
  then have nz: "m_time ?c + 1 \<noteq> 0" using k(1) by (metis mult_eq_0_iff neq0_conv unat_0 zero_neq_numeral)
  have "local_move 0 k (?c\<lparr>m_time := m_time ?c + 1\<rparr>) = None"
  proof (rule move_goes_back_diverges)
    show "0 \<in> set (m_ts (?c\<lparr>m_time := m_time ?c + 1\<rparr>) (0, k))"
      by (simp add: one_timer_fields[OF t] k_def)
    show "place_of (m_time (?c\<lparr>m_time := m_time ?c + 1\<rparr>)) (expire_of (?c\<lparr>m_time := m_time ?c + 1\<rparr>) 0) = Far 0 k"
      using place_first_level_at[OF t(1,3), of "m_time ?c + 1"] u k
      by (simp add: one_timer_fields[OF t] k_def)
  qed
  then have "local_shift ?c = None"
    using local_shift_first_level[of ?c] u nz n by simp
  then have "update cb (?c, w) = None"
    by (simp add: update_def local_execute_def local_process_empty one_timer_fields[OF t])
  then show "updates (256 * (unat t div 256)) cb (one_timer t d, w) = None"
    using at n(1) updates_Suc[of n cb "(one_timer t d, w)"] by (simp add: k_def)
qed

section \<open>The properties\<close>

text \<open>C15: an update of a reachable clock loses and invents no timer: what was in the wheel is
  what is in it afterwards together with the timers whose turn came, the callbacks that run are
  those of the latter that were not cancelled, in list order, and they run only around a time
  whose low byte is 63.\<close>

theorem clock_update_conserves:
  assumes "reach clock_init (clock_step g) (c, w)" "update (quiet g) (c, w) = Some (c', w')"
  shows "\<exists>fs. held c = held c' + mset fs \<and> w' = fold g (live_data (handles c) fs) w \<and>
    m_time c' = m_time c + 1 \<and>
    (m_time c AND 255 \<noteq> 63 \<and> (m_time c + 1) AND 255 \<noteq> 63 \<longrightarrow> fs = [])"
  using update_quiet[OF _ assms(2)] ck.reach_inv[OF assms(1)] by auto

theorem clock_update_conserves_witness:
  "\<exists>fs. held (one_timer 300 ''a'') =
     held ((one_timer 300 ''a'')\<lparr>m_time := 1\<rparr>) + mset fs \<and> fs = []"
proof -
  let ?g = "\<lambda>_ (w :: unit). w"
  have b: "unat (300 :: 32 word) < 16384" "(300 :: 32 word) \<noteq> 0" "(300 :: 32 word) AND 255 \<noteq> 255"
    by simp_all
  have "reach clock_init (clock_step ?g) (new_clock 0 0 0 :: string clock, ())"
    by (intro reach_init clock_init.intros)
  moreover have "clock_step ?g (new_clock 0 0 0, ()) (one_timer 300 ''a'', ())"
    by (rule cs_timeOut[of _ 300 "''a''" _ "(Some 0, 2)"])
      (simp add: one_timer_def timeOut_def Let_def new_clock_def)
  ultimately have r: "reach clock_init (clock_step ?g) (one_timer 300 ''a'', ())"
    by (rule reach_step)
  have "update (quiet ?g) (one_timer 300 ''a'', ()) = Some ((one_timer 300 ''a'')\<lparr>m_time := 1\<rparr>, ())"
    using one_timer_waits[OF b, of 1 "quiet ?g" "''a''" "()"] by (simp split: option.splits)
  from clock_update_conserves[OF r this] show ?thesis
    using one_timer_fields(2)[OF b, of "''a''"] by auto
qed

text \<open>What the wrong masks make of an ordinary timer, one of less than 16384 hundredths
  whose low byte is not 255, set on a new clock: a timer below 256 is never run while the
  first 16383 updates are, and any other makes the update that reaches its block loop for ever,
  because \<open>local_move\<close> appends it to the very list it is emptying.\<close>

theorem clock_ordinary_timer:
  assumes "unat t < 16384" "t \<noteq> 0" "t AND 255 \<noteq> 255"
  shows "(unat t < 256 \<and> n < 16384 \<longrightarrow>
      updates n (quiet g) (one_timer t d, w) = Some ((one_timer t d)\<lparr>m_time := of_nat n\<rparr>, w)) \<and>
    (256 \<le> unat t \<longrightarrow> updates (256 * (unat t div 256)) (quiet g) (one_timer t d, w) = None)"
  using one_timer_waits[OF assms, of n "quiet g" d w] one_timer_diverges[OF assms, of "quiet g" d w] by blast

theorem clock_ordinary_timer_witness:
  "updates 256 (quiet (\<lambda>_ (w :: unit). w)) (one_timer 300 (0 :: nat), ()) = None"
  using clock_ordinary_timer[of 300 0 "\<lambda>_ w. w" "0 :: nat" "()"] by simp

end
