(* ===== verification/ActorTable.thy ===== *)
theory ActorTable
  imports WolfBase
begin

unbundle bit_operations_syntax

text \<open>
  The actor table of \<open>actorSystem\<close> (\<open>engine/src/module/actorSystem.cc\<close>, \<open>.h\<close>): a vector of
  shared pointers, open addressed by the low bits of a 24-bit handle, with a serial that gives
  the next handle to try.  An actor object is a natural number; \<open>hnd\<close> is its \<open>m_handle\<close>, which
  \<open>actor::doInit\<close> stores after \<open>doRegister\<close> has returned.  The operations run under the write
  lock of the table, or under its read lock for \<open>getGrab\<close>.  The growth of a full table is
  modelled as it is written: the capacity is set only when an entry moves and the entry stays
  in its old slot as well.
\<close>

section \<open>State\<close>

definition ACOTR_ID_MARK :: nat where "ACOTR_ID_MARK = 0xffffff"

record actor_table =
  m_actorSer :: nat
  m_actorCap :: nat
  m_actors :: "nat option list"
  hnd :: "nat \<Rightarrow> nat"
  m_entryId :: "64 word"

definition new_table :: actor_table where
  "new_table = \<lparr>m_actorSer = 1, m_actorCap = 4, m_actors = replicate 4 None, hnd = (\<lambda>_. 0),
     m_entryId = 0\<rparr>"

definition local_addr :: "actor_table \<Rightarrow> nat \<Rightarrow> nat" where
  "local_addr t handle = handle AND (m_actorCap t - 1)"

text \<open>\<open>m_actors[i]\<close>, a null pointer outside the vector (the indices of the code are inside).\<close>

definition slot :: "nat option list \<Rightarrow> nat \<Rightarrow> nat option" where
  "slot as i = (if i < length as then as ! i else None)"

section \<open>Registering\<close>

text \<open>The scan for a free slot: the handle and the slot found, or \<open>None\<close>.\<close>

function scan :: "actor_table \<Rightarrow> nat \<Rightarrow> (nat \<times> nat) option" where
  "scan t i =
     (if i < m_actorCap t then
        (let handle = (i + m_actorSer t) AND ACOTR_ID_MARK;
             hash = handle AND (m_actorCap t - 1)
         in if slot (m_actors t) hash = None then Some (handle, hash) else scan t (i + 1))
      else None)"
  by pat_completeness auto
termination by (relation "measure (\<lambda>(t, i). m_actorCap t - i)") auto

declare scan.simps [simp del]

text \<open>The loop over the resized vector; the capacity so far and the vector.\<close>

function grow_loop ::
    "(nat \<Rightarrow> nat) \<Rightarrow> nat \<Rightarrow> nat \<Rightarrow> nat \<times> nat option list \<Rightarrow> nat \<times> nat option list" where
  "grow_loop h nwcap i (cap, as) =
     (if i < nwcap then
        (case slot as i of
           None \<Rightarrow> grow_loop h nwcap (i + 1) (cap, as)
         | Some obj \<Rightarrow>
             (let nwpos = h obj AND (nwcap - 1)
              in if nwpos = i then grow_loop h nwcap (i + 1) (cap, as)
                 else grow_loop h nwcap (i + 1) (nwcap, as[nwpos := Some obj])))
      else (cap, as))"
  by pat_completeness auto
termination by (relation "measure (\<lambda>(h, nwcap, i, p). nwcap - i)") auto

declare grow_loop.simps [simp del]

text \<open>\<open>std::vector::resize(n, nullptr)\<close>.\<close>

definition resize :: "nat option list \<Rightarrow> nat \<Rightarrow> nat option list" where
  "resize as n = take n as @ replicate (n - length as) None"

definition grow :: "actor_table \<Rightarrow> actor_table res" where
  "grow t =
     seqE (checkE (m_actorCap t * 2 - 1 \<le> ACOTR_ID_MARK) AssertFail) (\<lambda>_.
       let nwcap = m_actorCap t * 2;
           (cap, as) = grow_loop (hnd t) nwcap 0 (m_actorCap t, resize (m_actors t) nwcap)
       in Inr (t\<lparr>m_actorCap := cap, m_actors := as\<rparr>))"

text \<open>\<open>doRegister(obj)\<close>: \<open>None\<close> is the endless loop.\<close>

partial_function (option) doRegister :: "actor_table \<Rightarrow> nat \<Rightarrow> (nat \<times> actor_table) res option" where
  "doRegister t obj =
     (case scan t 0 of
        Some (handle, hash) \<Rightarrow>
          Some (Inr (handle, t\<lparr>m_actors := (m_actors t)[hash := Some obj], m_actorSer := handle + 1\<rparr>))
      | None \<Rightarrow>
          (case grow t of
             Inl e \<Rightarrow> Some (Inl e)
           | Inr t' \<Rightarrow> doRegister t' obj))"

text \<open>The two lines of \<open>actor::doInit\<close>: \<open>m_handle = doRegister(this)\<close>.\<close>

definition register_actor :: "actor_table \<Rightarrow> nat \<Rightarrow> (nat \<times> actor_table) res option" where
  "register_actor t obj =
     (case doRegister t obj of
        None \<Rightarrow> None
      | Some (Inl e) \<Rightarrow> Some (Inl e)
      | Some (Inr (handle, t')) \<Rightarrow> Some (Inr (handle, t'\<lparr>hnd := (hnd t')(obj := handle)\<rparr>)))"

section \<open>Lookup and removal\<close>

definition getGrab :: "actor_table \<Rightarrow> nat \<Rightarrow> nat option" where
  "getGrab t handle =
     (case slot (m_actors t) (local_addr t handle) of
        None \<Rightarrow> None
      | Some obj \<Rightarrow> if hnd t obj = handle then Some obj else None)"

definition doUnRegister :: "actor_table \<Rightarrow> nat \<Rightarrow> bool \<times> actor_table" where
  "doUnRegister t handle =
     (case slot (m_actors t) (local_addr t handle) of
        None \<Rightarrow> (False, t)
      | Some obj \<Rightarrow>
          if hnd t obj = handle
          then (True, t\<lparr>m_actors := (m_actors t)[local_addr t handle := None]\<rparr>)
          else (False, t))"

text \<open>\<open>clear\<close>: from slot \<open>i\<close> on, every actor with a handle other than 0 is unregistered.\<close>

function clear_from :: "actor_table \<Rightarrow> nat \<Rightarrow> nat \<Rightarrow> actor_table" where
  "clear_from t cap i =
     (if i < cap then
        (let handle = (case slot (m_actors t) i of None \<Rightarrow> 0 | Some obj \<Rightarrow> hnd t obj)
         in clear_from (if handle = 0 then t else snd (doUnRegister t handle)) cap (i + 1))
      else t)"
  by pat_completeness auto
termination by (relation "measure (\<lambda>(t, cap, i). cap - i)") auto

declare clear_from.simps [simp del]

definition clear :: "actor_table \<Rightarrow> actor_table" where
  "clear t = clear_from t (m_actorCap t) 0"

definition doGenEntryId :: "actor_table \<Rightarrow> 64 word \<times> actor_table" where
  "doGenEntryId t = (m_entryId t + 1, t\<lparr>m_entryId := m_entryId t + 1\<rparr>)"

section \<open>Masks and slots\<close>

lemma and_pow2: "(n :: nat) AND (2 ^ k - 1) = n mod 2 ^ k"
  by (metis mask_eq_exp_minus_1 take_bit_eq_mask take_bit_eq_mod)

lemma MARK_pow2: "n AND ACOTR_ID_MARK = n mod 2 ^ 24"
  using and_pow2[of n 24] by (simp add: ACOTR_ID_MARK_def)

lemma MARK_bound: "n AND ACOTR_ID_MARK \<le> ACOTR_ID_MARK"
  using mod_less_divisor[of "2 ^ 24" n] unfolding MARK_pow2 by (simp add: ACOTR_ID_MARK_def)

definition pow2_cap :: "nat \<Rightarrow> bool" where
  "pow2_cap c \<longleftrightarrow> (\<exists>k \<le> 24. c = 2 ^ k)"

lemma pow2_capE:
  assumes "pow2_cap c"
  shows "0 < c" "n AND (c - 1) = n mod c" "(n AND ACOTR_ID_MARK) mod c = n mod c"
proof -
  obtain k where k: "k \<le> 24" "c = 2 ^ k" using assms by (auto simp: pow2_cap_def)
  show "0 < c" "n AND (c - 1) = n mod c" unfolding k(2) by (simp, rule and_pow2)
  have "(2 :: nat) ^ k dvd 2 ^ 24" using k(1) by (rule le_imp_power_dvd)
  then show "(n AND ACOTR_ID_MARK) mod c = n mod c"
    unfolding MARK_pow2 k(2) by (rule mod_mod_cancel)
qed

lemma slot_update [simp]: "slot (as[j := v]) i = (if i = j \<and> j < length as then v else slot as i)"
  by (auto simp: slot_def)

lemma slot_resize [simp]: "length as \<le> n \<Longrightarrow> slot (resize as n) i = slot as i"
  by (auto simp: slot_def resize_def nth_append)

lemma length_resize [simp]: "length (resize as n) = n"
  by (simp add: resize_def)

section \<open>The scan\<close>

lemma scan_Some:
  "scan t i = Some (handle, hash) \<Longrightarrow>
   \<exists>j. i \<le> j \<and> j < m_actorCap t \<and> handle = (j + m_actorSer t) AND ACOTR_ID_MARK \<and>
     hash = handle AND (m_actorCap t - 1) \<and> slot (m_actors t) hash = None"
proof (induction t i rule: scan.induct)
  case (1 t i)
  show ?case
  proof (cases "i < m_actorCap t \<and> slot (m_actors t) (((i + m_actorSer t) AND ACOTR_ID_MARK) AND (m_actorCap t - 1)) = None")
    case True
    then show ?thesis using 1(2) by (subst (asm) scan.simps) (auto simp: Let_def)
  next
    case False
    then have "i < m_actorCap t" "scan t (i + 1) = Some (handle, hash)"
      using 1(2) by (subst (asm) scan.simps, auto simp: Let_def split: if_splits)+
    with False obtain j where "i + 1 \<le> j \<and> j < m_actorCap t \<and> handle = (j + m_actorSer t) AND ACOTR_ID_MARK \<and>
     hash = handle AND (m_actorCap t - 1) \<and> slot (m_actors t) hash = None"
      using 1(1)[OF _ refl refl] by auto
    then show ?thesis by (intro exI[of _ j]) auto
  qed
qed

lemma scan_None:
  "scan t i = None \<Longrightarrow> i \<le> j \<Longrightarrow> j < m_actorCap t \<Longrightarrow>
   slot (m_actors t) (((j + m_actorSer t) AND ACOTR_ID_MARK) AND (m_actorCap t - 1)) \<noteq> None"
proof (induction t i rule: scan.induct)
  case (1 t i)
  have i: "i < m_actorCap t" using 1 by linarith
  have here: "slot (m_actors t) (((i + m_actorSer t) AND ACOTR_ID_MARK) AND (m_actorCap t - 1)) \<noteq> None"
    and rest: "scan t (i + 1) = None"
    using 1(2) i by (subst (asm) scan.simps, auto simp: Let_def split: if_splits)+
  show ?case
  proof (cases "i = j")
    case False
    then show ?thesis using 1(1)[OF i refl refl] here rest 1(3,4) by auto
  qed (use here in simp)
qed

lemma mod_shift_onto: "0 < c \<Longrightarrow> s < c \<Longrightarrow> \<exists>j < c. (j + m) mod c = (s :: nat)"
proof -
  assume c: "0 < c" "s < c"
  let ?j = "(s + (c - m mod c)) mod c"
  have "(?j + m) mod c = (s + (c - m mod c) + m mod c) mod c" by (simp add: mod_simps)
  also have "s + (c - m mod c) + m mod c = s + c"
    using mod_less_divisor[OF c(1), of m] by linarith
  also have "(s + c) mod c = s" using c by simp
  finally show ?thesis using c by (intro exI[of _ ?j]) simp
qed

lemma scan_full_iff:
  assumes "pow2_cap (m_actorCap t)"
  shows "scan t 0 = None \<longleftrightarrow> (\<forall>s < m_actorCap t. slot (m_actors t) s \<noteq> None)"
proof
  assume n: "scan t 0 = None"
  show "\<forall>s < m_actorCap t. slot (m_actors t) s \<noteq> None"
  proof (intro allI impI)
    fix s assume s: "s < m_actorCap t"
    obtain j where j: "j < m_actorCap t" "(j + m_actorSer t) mod m_actorCap t = s"
      using mod_shift_onto[OF pow2_capE(1)[OF assms] s] by blast
    then show "slot (m_actors t) s \<noteq> None"
      using scan_None[OF n, of j] pow2_capE[OF assms] by simp
  qed
next
  assume full: "\<forall>s < m_actorCap t. slot (m_actors t) s \<noteq> None"
  show "scan t 0 = None"
  proof (cases "scan t 0")
    case (Some p)
    obtain h s where "p = (h, s)" by (cases p)
    then have "s = h AND (m_actorCap t - 1)" "slot (m_actors t) s = None"
      using scan_Some[of t 0 h s] Some by auto
    moreover from this have "s < m_actorCap t" using pow2_capE[OF assms] by simp
    ultimately show ?thesis using full by blast
  qed simp
qed

text \<open>Whether the object is in some slot of the vector.\<close>

definition in_table :: "actor_table \<Rightarrow> nat \<Rightarrow> bool" where
  "in_table t obj \<longleftrightarrow> (\<exists>i. slot (m_actors t) i = Some obj)"

lemma register_free:
  assumes cap: "pow2_cap (m_actorCap t)" "m_actorCap t \<le> length (m_actors t)"
    and sc: "scan t 0 = Some (handle, hash)" and new: "\<not> in_table t obj"
  shows "\<exists>t'. register_actor t obj = Some (Inr (handle, t')) \<and> getGrab t handle = None \<and>
     handle \<le> ACOTR_ID_MARK \<and> getGrab t' = (getGrab t)(handle \<mapsto> obj) \<and>
     m_actorCap t' = m_actorCap t \<and> length (m_actors t') = length (m_actors t)"
proof -
  let ?t = "t\<lparr>m_actors := (m_actors t)[hash := Some obj], m_actorSer := handle + 1,
    hnd := (hnd t)(obj := handle)\<rparr>"
  from scan_Some[OF sc] have h: "hash = local_addr t handle" "slot (m_actors t) hash = None"
      "\<exists>n. handle = n AND ACOTR_ID_MARK"
    by (auto simp: local_addr_def)
  have lt: "hash < length (m_actors t)"
    using h(1) pow2_capE[OF cap(1)] less_le_trans[OF mod_less_divisor cap(2), of handle]
    by (simp add: local_addr_def)
  have r: "register_actor t obj = Some (Inr (handle, ?t))"
    using sc by (simp add: register_actor_def doRegister.simps[of t obj])
  have g: "getGrab t handle = None" using h by (simp add: getGrab_def)
  have "getGrab ?t x = ((getGrab t)(handle \<mapsto> obj)) x" for x
  proof (cases "local_addr t x = hash")
    case True
    then show ?thesis using lt h(2) by (auto simp: getGrab_def local_addr_def)
  next
    case False
    moreover have "slot (m_actors t) (local_addr t x) \<noteq> Some obj"
      using new by (auto simp: in_table_def)
    ultimately show ?thesis using h(1)
      by (auto simp: getGrab_def local_addr_def split: option.splits)
  qed
  then have "getGrab ?t = (getGrab t)(handle \<mapsto> obj)" by blast
  moreover have "handle \<le> ACOTR_ID_MARK"
    using h(3) MARK_bound by auto
  ultimately show ?thesis using r g by simp
qed

section \<open>Growth\<close>

text \<open>Every entry is in the slot of its own handle; nothing lies beyond the capacity.\<close>

definition placed :: "actor_table \<Rightarrow> bool" where
  "placed t \<longleftrightarrow> pow2_cap (m_actorCap t) \<and> m_actorCap t \<le> length (m_actors t) \<and>
     length (m_actors t) \<le> 2 * m_actorCap t \<and>
     (\<forall>i obj. slot (m_actors t) i = Some obj \<longrightarrow> i < m_actorCap t \<and> hnd t obj mod m_actorCap t = i)"

definition full :: "actor_table \<Rightarrow> bool" where
  "full t \<longleftrightarrow> (\<forall>i < m_actorCap t. slot (m_actors t) i \<noteq> None)"

text \<open>An entry that has to move when the capacity doubles.\<close>

definition moves :: "actor_table \<Rightarrow> nat \<Rightarrow> bool" where
  "moves t obj \<longleftrightarrow> hnd t obj mod (2 * m_actorCap t) \<noteq> hnd t obj mod m_actorCap t"

lemma mod_double:
  fixes x c :: nat
  assumes "0 < c"
  shows "x mod (2 * c) = x mod c \<or> x mod (2 * c) = x mod c + c"
proof -
  have "x mod (2 * c) = c * (x div c mod 2) + x mod c"
    using mod_mult2_eq[of x c 2] by (simp add: mult.commute)
  moreover have "x div c mod 2 = 0 \<or> x div c mod 2 = 1" by auto
  ultimately show ?thesis by (metis add.commute add_0 mult.right_neutral mult_0_right)
qed

text \<open>The vector after the loop has passed the old part below \<open>i\<close>.\<close>

definition grown :: "actor_table \<Rightarrow> nat \<Rightarrow> nat option list \<Rightarrow> bool" where
  "grown t i as \<longleftrightarrow> length as = 2 * m_actorCap t \<and>
     (\<forall>p < m_actorCap t. slot as p = slot (m_actors t) p) \<and>
     (\<forall>p < m_actorCap t. slot as (p + m_actorCap t) =
        (if p < i then (case slot (m_actors t) p of None \<Rightarrow> None
                        | Some obj \<Rightarrow> if moves t obj then Some obj else None) else None))"

definition moved_below :: "actor_table \<Rightarrow> nat \<Rightarrow> bool" where
  "moved_below t i \<longleftrightarrow> (\<exists>p < i. \<exists>obj. slot (m_actors t) p = Some obj \<and> moves t obj)"

lemma grow_loop_upper:
  assumes "placed t" "grown t (m_actorCap t) as" "m_actorCap t \<le> i"
  shows "grow_loop (hnd t) (2 * m_actorCap t) i (cap, as) = (cap, as)"
  using assms(3)
proof (induction "2 * m_actorCap t - i" arbitrary: i rule: less_induct)
  case less
  show ?case
  proof (cases "i < 2 * m_actorCap t")
    case True
    define p where "p = i - m_actorCap t"
    have p: "p < m_actorCap t" "i = p + m_actorCap t" using True less.prems by (auto simp: p_def)
    have c: "pow2_cap (m_actorCap t)" using assms(1) by (simp add: placed_def)
    have next_eq: "grow_loop (hnd t) (2 * m_actorCap t) (i + 1) (cap, as) = (cap, as)"
      using less.hyps[of "i + 1"] less.prems True by simp
    show ?thesis
    proof (cases "slot as i")
      case None
      then show ?thesis using True next_eq by (subst grow_loop.simps) simp
    next
      case (Some obj)
      then have obj: "slot (m_actors t) p = Some obj" "moves t obj"
        using assms(2) p by (auto simp: grown_def split: option.splits if_splits)
      then have "hnd t obj mod m_actorCap t = p" using assms(1) by (auto simp: placed_def)
      then have at: "hnd t obj mod (2 * m_actorCap t) = i"
        using obj(2) p(2) mod_double[OF pow2_capE(1)[OF c], of "hnd t obj"] by (simp add: moves_def)
      obtain k where "m_actorCap t = 2 ^ k" using c by (auto simp: pow2_cap_def)
      then have "hnd t obj AND (2 * m_actorCap t - 1) = i"
        using at and_pow2[of "hnd t obj" "Suc k"] by simp
      then show ?thesis using Some True next_eq by (subst grow_loop.simps) simp
    qed
  qed (subst grow_loop.simps, simp)
qed

lemma grow_loop_lower:
  assumes "placed t" "grown t i as" "i \<le> m_actorCap t"
    "cap = (if moved_below t i then 2 * m_actorCap t else m_actorCap t)"
  shows "\<exists>as'. grow_loop (hnd t) (2 * m_actorCap t) i (cap, as) =
      (if moved_below t (m_actorCap t) then 2 * m_actorCap t else m_actorCap t, as') \<and>
     grown t (m_actorCap t) as'"
  using assms(2-)
proof (induction "m_actorCap t - i" arbitrary: i cap as)
  case 0
  then have "i = m_actorCap t" by simp
  then show ?case using 0 grow_loop_upper[OF assms(1), of as i cap] by auto
next
  case (Suc n)
  have i: "i < m_actorCap t" "n = m_actorCap t - (i + 1)" using Suc(2) by auto
  have c: "pow2_cap (m_actorCap t)" using assms(1) by (simp add: placed_def)
  obtain k where k: "m_actorCap t = 2 ^ k" using c by (auto simp: pow2_cap_def)
  have s: "slot as i = slot (m_actors t) i" using Suc.prems(1) i by (simp add: grown_def)
  show ?case
  proof (cases "slot as i")
    case None
    have "grown t (i + 1) as" using Suc.prems(1) None s
      by (auto simp: grown_def less_Suc_eq split: option.splits)
    moreover have "moved_below t (i + 1) = moved_below t i"
      using None s by (auto simp: moved_below_def less_Suc_eq)
    moreover have "grow_loop (hnd t) (2 * m_actorCap t) i (cap, as) =
        grow_loop (hnd t) (2 * m_actorCap t) (i + 1) (cap, as)"
      using None i by (subst grow_loop.simps) simp
    ultimately show ?thesis using Suc.hyps(1)[OF i(2), of as cap] Suc.prems(3) i(1) by simp
  next
    case (Some obj)
    have at: "hnd t obj mod m_actorCap t = i" using assms(1) Some s by (simp add: placed_def)
    have pos: "hnd t obj AND (2 * m_actorCap t - 1) = hnd t obj mod (2 * m_actorCap t)"
      using and_pow2[of "hnd t obj" "Suc k"] k by simp
    show ?thesis
    proof (cases "moves t obj")
      case True
      then have np: "hnd t obj mod (2 * m_actorCap t) = i + m_actorCap t"
        using mod_double[OF pow2_capE(1)[OF c], of "hnd t obj"] at by (simp add: moves_def)
      let ?as = "as[i + m_actorCap t := Some obj]"
      have "grown t (i + 1) ?as" using Suc.prems(1) i Some s True
        by (auto simp: grown_def less_Suc_eq split: option.splits)
      moreover have "moved_below t (i + 1)"
        using Some s True by (auto simp: moved_below_def)
      moreover have "grow_loop (hnd t) (2 * m_actorCap t) i (cap, as) =
          grow_loop (hnd t) (2 * m_actorCap t) (i + 1) (2 * m_actorCap t, ?as)"
        using Some i pos np pow2_capE(1)[OF c] by (subst grow_loop.simps) simp
      ultimately show ?thesis using Suc.hyps(1)[OF i(2), of ?as "2 * m_actorCap t"] i(1) by simp
    next
      case False
      have "grown t (i + 1) as" using Suc.prems(1) Some s False
        by (auto simp: grown_def less_Suc_eq split: option.splits)
      moreover have "moved_below t (i + 1) = moved_below t i"
        using Some s False by (auto simp: moved_below_def less_Suc_eq)
      moreover have "grow_loop (hnd t) (2 * m_actorCap t) i (cap, as) =
          grow_loop (hnd t) (2 * m_actorCap t) (i + 1) (cap, as)"
        using Some i pos at False by (subst grow_loop.simps) (simp add: moves_def)
      ultimately show ?thesis using Suc.hyps(1)[OF i(2), of as cap] Suc.prems(3) i(1) by simp
    qed
  qed
qed

lemma getGrab_iff:
  "pow2_cap (m_actorCap t) \<Longrightarrow>
   getGrab t h = Some obj \<longleftrightarrow> hnd t obj = h \<and> slot (m_actors t) (h mod m_actorCap t) = Some obj"
  unfolding getGrab_def local_addr_def
  by (simp only: pow2_capE(2)) (auto split: option.splits)

lemma pow2_cap_double: "pow2_cap c \<Longrightarrow> c * 2 - 1 \<le> ACOTR_ID_MARK \<Longrightarrow> pow2_cap (2 * c)"
proof -
  assume a: "pow2_cap c" "c * 2 - 1 \<le> ACOTR_ID_MARK"
  then obtain k where k: "c = 2 ^ k" by (auto simp: pow2_cap_def)
  have "(2 :: nat) ^ Suc k \<le> 2 ^ 24" using a(2) by (simp add: k ACOTR_ID_MARK_def)
  then have "Suc k \<le> 24" by (rule power_le_imp_le_exp[rotated]) simp
  then show ?thesis unfolding pow2_cap_def k by (intro exI[of _ "Suc k"]) simp
qed

definition any_moves :: "actor_table \<Rightarrow> bool" where
  "any_moves t \<longleftrightarrow> moved_below t (m_actorCap t)"

lemma grow_placed:
  assumes "placed t" "m_actorCap t * 2 - 1 \<le> ACOTR_ID_MARK"
  shows "\<exists>t'. grow t = Inr t' \<and> hnd t' = hnd t \<and> m_actorSer t' = m_actorSer t \<and>
    m_actorCap t' = (if any_moves t then 2 * m_actorCap t else m_actorCap t) \<and>
    grown t (m_actorCap t) (m_actors t')"
proof -
  have "grown t 0 (resize (m_actors t) (2 * m_actorCap t))"
    using assms(1) unfolding grown_def placed_def
    by (auto simp: not_less) (metis (no_types, opaque_lifting) add.commute not_add_less1 not_Some_eq)
  from grow_loop_lower[OF assms(1) this, of "m_actorCap t"]
  obtain as where "grow_loop (hnd t) (2 * m_actorCap t) 0
      (m_actorCap t, resize (m_actors t) (2 * m_actorCap t)) =
      (if any_moves t then 2 * m_actorCap t else m_actorCap t, as)" "grown t (m_actorCap t) as"
    by (auto simp: moved_below_def any_moves_def)
  then show ?thesis using assms(2) by (simp add: grow_def Let_def mult.commute)
qed

lemma grown_lookup:
  assumes "placed t" "grown t (m_actorCap t) (m_actors t')" "hnd t' = hnd t" "any_moves t"
    "m_actorCap t' = 2 * m_actorCap t" "m_actorCap t * 2 - 1 \<le> ACOTR_ID_MARK"
  shows "getGrab t' = getGrab t"
proof -
  have c: "pow2_cap (m_actorCap t)" using assms(1) by (simp add: placed_def)
  have c': "pow2_cap (m_actorCap t')" using pow2_cap_double[OF c assms(6)] assms(5) by simp
  have "getGrab t' h = Some obj \<longleftrightarrow> getGrab t h = Some obj" for h obj
  proof -
    let ?q = "h mod (2 * m_actorCap t)" and ?p = "h mod m_actorCap t"
    have p: "?p < m_actorCap t" using pow2_capE(1)[OF c] by simp
    from mod_double[OF pow2_capE(1)[OF c], of h]
    have "hnd t obj = h \<Longrightarrow>
        slot (m_actors t') ?q = Some obj \<longleftrightarrow> slot (m_actors t) ?p = Some obj"
    proof
      assume q: "?q = ?p"
      then show "slot (m_actors t') ?q = Some obj \<longleftrightarrow> slot (m_actors t) ?p = Some obj"
        using assms(2) p by (simp add: grown_def)
    next
      assume q: "?q = ?p + m_actorCap t" and h: "hnd t obj = h"
      have "moves t obj" using q p pow2_capE(1)[OF c] by (simp add: moves_def h)
      then show "slot (m_actors t') ?q = Some obj \<longleftrightarrow> slot (m_actors t) ?p = Some obj"
        using assms(2) p unfolding q by (auto simp: grown_def split: option.splits)
    qed
    then show ?thesis unfolding getGrab_iff[OF c] getGrab_iff[OF c'] assms(3,5) by auto
  qed
  then show ?thesis by (metis not_Some_eq ext)
qed

text \<open>With nothing to move the capacity stays, and growing again changes nothing that helps.\<close>

definition stuck :: "actor_table \<Rightarrow> bool" where
  "stuck t \<longleftrightarrow> placed t \<and> full t \<and> \<not> any_moves t \<and> m_actorCap t * 2 - 1 \<le> ACOTR_ID_MARK"

lemma stuck_grow:
  assumes "stuck t"
  shows "scan t 0 = None \<and> (\<exists>t'. grow t = Inr t' \<and> stuck t')"
proof -
  have p: "placed t" "full t" "\<not> any_moves t" "m_actorCap t * 2 - 1 \<le> ACOTR_ID_MARK"
    using assms by (simp_all add: stuck_def)
  have sc: "scan t 0 = None" using scan_full_iff[of t] p by (simp add: full_def placed_def)
  obtain t' where t': "grow t = Inr t'" "hnd t' = hnd t" "m_actorCap t' = m_actorCap t"
    "grown t (m_actorCap t) (m_actors t')"
    using grow_placed[OF p(1,4)] p(3) by auto
  have low: "slot (m_actors t') i = slot (m_actors t) i" if "i < m_actorCap t" for i
    using t'(4) that by (simp add: grown_def)
  have high: "slot (m_actors t') i = None" if "m_actorCap t \<le> i" for i
  proof (cases "i < 2 * m_actorCap t")
    case True
    define q where "q = i - m_actorCap t"
    have q: "q < m_actorCap t" "i = q + m_actorCap t" using True that by (auto simp: q_def)
    show ?thesis
      using t'(4) q p(3)
      by (auto simp: grown_def any_moves_def moved_below_def split: option.splits)
  next
    case False
    then show ?thesis using t'(4) by (simp add: grown_def slot_def)
  qed
  have same: "slot (m_actors t') i = slot (m_actors t) i" for i
  proof (cases "i < m_actorCap t")
    case False
    then have "slot (m_actors t) i = None"
      using p(1) by (cases "slot (m_actors t) i") (auto simp: placed_def)
    then show ?thesis using high[of i] False by simp
  qed (rule low)
  have "length (m_actors t') = 2 * m_actorCap t" using t'(4) by (simp add: grown_def)
  then have "placed t'" using p(1) t' by (auto simp: placed_def same)
  moreover have "full t'" using p(2) t' by (simp add: full_def same)
  moreover have "\<not> any_moves t'"
    using p(3) t' by (simp add: any_moves_def moved_below_def moves_def same)
  ultimately have "stuck t'" using p(4) t'(3) by (simp add: stuck_def)
  then show ?thesis using sc t'(1) by blast
qed

lemma stuck_diverges: "stuck t \<Longrightarrow> doRegister t obj = None"
proof -
  have "doRegister t obj = Some r \<Longrightarrow> \<not> stuck t" for r
  proof (rule doRegister.raw_induct[where P = "\<lambda>t obj r. \<not> stuck t"])
    fix dr t obj and y :: "(nat \<times> actor_table) res"
    assume IH: "\<And>t obj y. dr t obj = Some y \<Longrightarrow> \<not> stuck t"
      and st: "(case scan t 0 of
        None \<Rightarrow> (case grow t of Inl e \<Rightarrow> Some (Inl e) | Inr t' \<Rightarrow> dr t' obj)
      | Some (handle, hash) \<Rightarrow>
          Some (Inr (handle, t\<lparr>m_actors := (m_actors t)[hash := Some obj], m_actorSer := handle + 1\<rparr>))) = Some y"
    show "\<not> stuck t"
    proof
      assume s: "stuck t"
      then obtain t' where "scan t 0 = None" "grow t = Inr t'" "stuck t'"
        using stuck_grow by blast
      then show False using st IH by simp
    qed
  qed
  moreover assume "stuck t"
  ultimately show ?thesis by (cases "doRegister t obj") auto
qed

text \<open>Growth with an entry that moves and one that stays leaves room for the new actor.\<close>

lemma register_grows:
  assumes t: "placed t" "full t" "m_actorCap t * 2 - 1 \<le> ACOTR_ID_MARK"
    and mv: "any_moves t" and st: "i < m_actorCap t" "slot (m_actors t) i = Some o1" "\<not> moves t o1"
    and new: "\<not> in_table t obj"
  shows "\<exists>handle t'. register_actor t obj = Some (Inr (handle, t')) \<and> getGrab t handle = None \<and>
     getGrab t' = (getGrab t)(handle \<mapsto> obj) \<and> m_actorCap t' = 2 * m_actorCap t"
proof -
  have c: "pow2_cap (m_actorCap t)" using t(1) by (simp add: placed_def)
  obtain t1 where t1: "grow t = Inr t1" "hnd t1 = hnd t" "m_actorCap t1 = 2 * m_actorCap t"
    "grown t (m_actorCap t) (m_actors t1)"
    using grow_placed[OF t(1,3)] mv by auto
  have c1: "pow2_cap (m_actorCap t1)" using pow2_cap_double[OF c t(3)] t1(3) by simp
  have same: "getGrab t1 = getGrab t" by (rule grown_lookup[OF t(1) t1(4,2) mv t1(3) t(3)])
  have "slot (m_actors t1) (i + m_actorCap t) = None"
    using t1(4) st by (simp add: grown_def)
  moreover have "i + m_actorCap t < m_actorCap t1" using st(1) t1(3) by simp
  ultimately have "scan t1 0 \<noteq> None" using scan_full_iff[OF c1] by blast
  then obtain h s where sc: "scan t1 0 = Some (h, s)" by auto
  have "\<not> in_table t1 obj"
  proof
    assume "in_table t1 obj"
    then obtain p where p: "slot (m_actors t1) p = Some obj" by (auto simp: in_table_def)
    then have "p < 2 * m_actorCap t" using t1(4) by (auto simp: slot_def grown_def split: if_splits)
    then have "\<exists>q. slot (m_actors t) q = Some obj"
    proof (cases "p < m_actorCap t")
      case False
      define q where "q = p - m_actorCap t"
      have "q < m_actorCap t" "p = q + m_actorCap t"
        using False \<open>p < 2 * m_actorCap t\<close> by (auto simp: q_def)
      then show ?thesis using p t1(4) by (auto simp: grown_def split: option.splits if_splits)
    qed (use p t1(4) in \<open>auto simp: grown_def\<close>)
    then show False using new by (auto simp: in_table_def)
  qed
  from register_free[OF c1 _ sc this] t1 obtain t' where
    t': "register_actor t1 obj = Some (Inr (h, t'))" "getGrab t1 h = None"
      "getGrab t' = (getGrab t1)(h \<mapsto> obj)" "m_actorCap t' = m_actorCap t1"
    by (auto simp: grown_def)
  have "scan t 0 = None" using scan_full_iff[OF c] t(2) by (simp add: full_def)
  then have "register_actor t obj = register_actor t1 obj"
    using t1(1) by (simp add: register_actor_def doRegister.simps[of t obj])
  then show ?thesis using t' same t1(3) by auto
qed

lemma unregister_refines:
  assumes "pow2_cap (m_actorCap t)" "m_actorCap t \<le> length (m_actors t)"
  shows "fst (doUnRegister t h) \<longleftrightarrow> getGrab t h \<noteq> None"
    "getGrab (snd (doUnRegister t h)) = (getGrab t)(h := None)"
proof -
  show "fst (doUnRegister t h) \<longleftrightarrow> getGrab t h \<noteq> None"
    by (simp add: doUnRegister_def getGrab_def split: option.splits)
  have "getGrab (snd (doUnRegister t h)) x = ((getGrab t)(h := None)) x" for x
    by (auto simp: doUnRegister_def getGrab_def local_addr_def split: option.splits if_splits)
      (auto simp: slot_def)
  then show "getGrab (snd (doUnRegister t h)) = (getGrab t)(h := None)" by blast
qed

section \<open>The properties\<close>

text \<open>C8: the actor table refines a map from handles to actors: a lookup reads the map,
  \<open>doUnRegister\<close> removes the handle and says whether it was there, and with a free slot
  \<open>doRegister\<close> gives a new handle of 24 bits, maps it to the actor and changes no other
  lookup.\<close>

theorem actor_table_refines_map:
  assumes "pow2_cap (m_actorCap t)" "m_actorCap t \<le> length (m_actors t)"
  shows "(fst (doUnRegister t h) \<longleftrightarrow> getGrab t h \<noteq> None) \<and>
    getGrab (snd (doUnRegister t h)) = (getGrab t)(h := None) \<and>
    (\<not> full t \<longrightarrow> \<not> in_table t obj \<longrightarrow>
      (\<exists>handle t'. register_actor t obj = Some (Inr (handle, t')) \<and> getGrab t handle = None \<and>
         handle \<le> ACOTR_ID_MARK \<and> getGrab t' = (getGrab t)(handle \<mapsto> obj)))"
proof (intro conjI impI)
  assume f: "\<not> full t" "\<not> in_table t obj"
  then obtain handle hash where "scan t 0 = Some (handle, hash)"
    using scan_full_iff[OF assms(1)] by (auto simp: full_def)
  from register_free[OF assms this f(2)]
  show "\<exists>handle t'. register_actor t obj = Some (Inr (handle, t')) \<and> getGrab t handle = None \<and>
     handle \<le> ACOTR_ID_MARK \<and> getGrab t' = (getGrab t)(handle \<mapsto> obj)" by blast
qed (simp_all add: unregister_refines[OF assms])

lemma new_table_cap: "pow2_cap (m_actorCap new_table)" "m_actorCap new_table \<le> length (m_actors new_table)"
  "\<not> full new_table" "\<not> in_table new_table obj"
  by (auto simp: new_table_def pow2_cap_def full_def in_table_def slot_def intro: exI[of _ 2])

theorem actor_table_refines_map_witness:
  "\<exists>handle t'. register_actor new_table 7 = Some (Inr (handle, t')) \<and>
     getGrab t' = (getGrab new_table)(handle \<mapsto> 7)"
  using actor_table_refines_map[OF new_table_cap(1,2)] new_table_cap(3,4) by blast


text \<open>A run of registrations and removals on the table.\<close>

datatype table_op = Reg nat | Unreg nat

fun run_ops :: "table_op list \<Rightarrow> actor_table \<Rightarrow> actor_table option" where
  "run_ops [] t = Some t"
| "run_ops (Reg obj # ops) t =
     (case register_actor t obj of
        Some (Inr (_, t')) \<Rightarrow> run_ops ops t'
      | _ \<Rightarrow> None)"
| "run_ops (Unreg h # ops) t = run_ops ops (snd (doUnRegister t h))"

lemmas table_eval = register_actor_def doRegister.simps scan.simps grow_def grow_loop.simps
  slot_def resize_def doUnRegister_def local_addr_def getGrab_def new_table_def ACOTR_ID_MARK_def

definition tab :: "nat \<Rightarrow> nat \<Rightarrow> nat option list \<Rightarrow> (nat \<Rightarrow> nat) \<Rightarrow> actor_table" where
  "tab ser cap as h = \<lparr>m_actorSer = ser, m_actorCap = cap, m_actors = as, hnd = h, m_entryId = 0\<rparr>"

lemma replicate_numeral_simp: "replicate (numeral k) x = x # replicate (pred_numeral k) x"
  by (simp add: numeral_eq_Suc)

lemmas tab_eval = table_eval tab_def replicate_numeral_simp

lemma new_table_tab: "new_table = tab 1 4 [None, None, None, None] (\<lambda>_. 0)"
  by (simp add: tab_eval del: add_2_eq_Suc add_2_eq_Suc')

text \<open>The first four registrations: handles 1 to 4, the last one in slot 0.\<close>

definition four :: "nat \<Rightarrow> nat" where
  "four = (\<lambda>_. 0)(1 := 1, 2 := 2, 3 := 3, 4 := 4)"

lemma four_registered:
  "run_ops (Reg 1 # Reg 2 # Reg 3 # Reg 4 # ops) new_table =
   run_ops ops (tab 5 4 [Some 4, Some 1, Some 2, Some 3] four)"
proof -
  have "register_actor (tab 1 4 [None, None, None, None] h) 1 =
      Some (Inr (1, tab 2 4 [None, Some 1, None, None] (h(1 := 1))))" for h
    by (simp add: tab_eval del: add_2_eq_Suc add_2_eq_Suc')
  moreover have "register_actor (tab 2 4 [None, Some 1, None, None] h) 2 =
      Some (Inr (2, tab 3 4 [None, Some 1, Some 2, None] (h(2 := 2))))" for h
    by (simp add: tab_eval del: add_2_eq_Suc add_2_eq_Suc')
  moreover have "register_actor (tab 3 4 [None, Some 1, Some 2, None] h) 3 =
      Some (Inr (3, tab 4 4 [None, Some 1, Some 2, Some 3] (h(3 := 3))))" for h
    by (simp add: tab_eval del: add_2_eq_Suc add_2_eq_Suc')
  moreover have "register_actor (tab 4 4 [None, Some 1, Some 2, Some 3] h) 4 =
      Some (Inr (4, tab 5 4 [Some 4, Some 1, Some 2, Some 3] (h(4 := 4))))" for h
    by (simp add: tab_eval del: add_2_eq_Suc add_2_eq_Suc')
  ultimately show ?thesis by (simp add: new_table_tab four_def)
qed

lemma four_simps [simp]: "four (Suc 0) = 1" "four 2 = 2" "four 3 = 3" "four 4 = 4"
  by (simp_all add: four_def)

definition hang_table :: actor_table where
  "hang_table = tab 9 4 [Some 5, Some 1, Some 2, Some 3] (four(5 := 8))"

lemma hang_table_reached:
  "run_ops [Reg 1, Reg 2, Reg 3, Reg 4, Unreg 4, Reg 5] new_table = Some hang_table"
proof -
  have "doUnRegister (tab 5 4 [Some 4, Some 1, Some 2, Some 3] four) 4 =
      (True, tab 5 4 [None, Some 1, Some 2, Some 3] four)"
    by (simp add: tab_eval del: add_2_eq_Suc add_2_eq_Suc')
  moreover have "register_actor (tab 5 4 [None, Some 1, Some 2, Some 3] four) 5 =
      Some (Inr (8, hang_table))"
    by (simp add: tab_eval hang_table_def del: add_2_eq_Suc add_2_eq_Suc')
  ultimately show ?thesis unfolding four_registered by simp
qed

lemma less_4_cases: "(i :: nat) < 4 \<longleftrightarrow> i = 0 \<or> i = 1 \<or> i = 2 \<or> i = 3"
  by arith

lemma hang_table_stuck: "placed hang_table" "full hang_table" "\<not> in_table hang_table 6"
  "\<not> any_moves hang_table"
proof -
  have cap: "m_actorCap hang_table = 4" by (simp add: hang_table_def tab_def)
  have sl: "slot (m_actors hang_table) i = (if i < 4 then Some ([5, 1, 2, 3] ! i) else None)" for i
    by (auto simp: hang_table_def tab_def slot_def less_4_cases)
  have h: "hnd hang_table = four(5 := 8)" by (simp add: hang_table_def tab_def)
  show "placed hang_table"
    unfolding placed_def cap sl h pow2_cap_def
    by (auto simp: hang_table_def tab_def less_4_cases split: if_splits intro: exI[of _ 2])
  show "full hang_table" unfolding full_def cap sl by simp
  show "\<not> in_table hang_table 6" unfolding in_table_def sl by (auto simp: less_4_cases)
  show "\<not> any_moves hang_table"
    unfolding any_moves_def moved_below_def moves_def cap sl h by (auto simp: less_4_cases)
qed


text \<open>After a growth the moved actor also stays in its old slot, and the next growth takes
  it from there: in this run actor 4 is unregistered and comes back under its old handle, and
  actor 8, registered under handle 12 in its place, can no longer be found.\<close>

theorem unregistered_actor_returns:
  "\<exists>t1 t2 t3.
     run_ops [Reg 1, Reg 2, Reg 3, Reg 4, Reg 5, Unreg 4, Reg 6, Reg 7] new_table = Some t1 \<and>
     getGrab t1 4 = None \<and>
     register_actor t1 8 = Some (Inr (12, t2)) \<and> getGrab t2 12 = Some 8 \<and>
     register_actor t2 9 = Some (Inr (13, t3)) \<and> getGrab t3 4 = Some 4 \<and> getGrab t3 12 = None"
proof -
  have a: "register_actor (tab 5 4 [Some 4, Some 1, Some 2, Some 3] four) 5 =
      Some (Inr (5, tab 6 8 [Some 4, Some 1, Some 2, Some 3, Some 4, Some 5, None, None] (four(5 := 5))))"
    by (simp add: tab_eval del: add_2_eq_Suc add_2_eq_Suc')
  have b: "doUnRegister (tab 6 8 [Some 4, Some 1, Some 2, Some 3, Some 4, Some 5, None, None] (four(5 := 5))) 4 =
      (True, tab 6 8 [Some 4, Some 1, Some 2, Some 3, None, Some 5, None, None] (four(5 := 5)))"
    by (simp add: tab_eval del: add_2_eq_Suc add_2_eq_Suc')
  have c: "register_actor (tab 6 8 [Some 4, Some 1, Some 2, Some 3, None, Some 5, None, None] h) 6 =
      Some (Inr (6, tab 7 8 [Some 4, Some 1, Some 2, Some 3, None, Some 5, Some 6, None] (h(6 := 6))))" for h
    by (simp add: tab_eval del: add_2_eq_Suc add_2_eq_Suc')
  have d: "register_actor (tab 7 8 [Some 4, Some 1, Some 2, Some 3, None, Some 5, Some 6, None] h) 7 =
      Some (Inr (7, tab 8 8 [Some 4, Some 1, Some 2, Some 3, None, Some 5, Some 6, Some 7] (h(7 := 7))))" for h
    by (simp add: tab_eval del: add_2_eq_Suc add_2_eq_Suc')
  let ?h = "four(5 := 5, 6 := 6, 7 := 7)"
  let ?t1 = "tab 8 8 [Some 4, Some 1, Some 2, Some 3, None, Some 5, Some 6, Some 7] ?h"
  let ?t2 = "tab 13 8 [Some 4, Some 1, Some 2, Some 3, Some 8, Some 5, Some 6, Some 7] (?h(8 := 12))"
  let ?t3 = "tab 14 16 [Some 4, Some 1, Some 2, Some 3, Some 4, Some 5, Some 6, Some 7,
    None, None, None, None, None, Some 9, None, None] (?h(8 := 12, 9 := 13))"
  have e: "register_actor ?t1 8 = Some (Inr (12, ?t2))" by (simp add: tab_eval del: add_2_eq_Suc add_2_eq_Suc')
  have f: "register_actor ?t2 9 = Some (Inr (13, ?t3))" by (simp add: tab_eval del: add_2_eq_Suc add_2_eq_Suc')
  have "run_ops [Reg 1, Reg 2, Reg 3, Reg 4, Reg 5, Unreg 4, Reg 6, Reg 7] new_table = Some ?t1"
    unfolding four_registered using a b c[of "four(5 := 5)"] d[of "four(5 := 5, 6 := 6)"] by simp
  moreover have "getGrab ?t1 4 = None" "getGrab ?t2 12 = Some 8" "getGrab ?t3 4 = Some 4"
    "getGrab ?t3 12 = None"
    by (simp_all add: tab_eval)
  ultimately show ?thesis using e f by blast
qed

end
