(* ===== verification/ActorMail.thy ===== *)
theory ActorMail
  imports ActorTable "HOL-Library.Multiset"
begin

unbundle bit_operations_syntax

text \<open>
  Messages and actors: \<open>engine/src/module/message.h\<close>, the sending functions of
  \<open>actorSystem.cc\<close>, the mailbox, the dispatch and the exit of an actor (\<open>actor.cc\<close>, \<open>actor.h\<close>,
  with the coroutine body of \<open>actorWorker.cc\<close>) and the collector of dead actors
  (\<open>actorGcc.cc\<close>).  A \<open>util::queue\<close> is the list it refines (theory RingQueue); an actor is
  found by its handle (theory ActorTable).  A \<open>void *\<close> with its heap block is the list of the
  bytes of the block, and \<open>None\<close> is the null pointer.
\<close>

section \<open>Messages\<close>

record message =
  msg_src :: "32 word"
  msg_dst :: "32 word"
  msg_session :: "32 word"
  msg_data :: "8 word list option"
  msg_ext :: "8 word list"

definition le32 :: "32 word \<Rightarrow> 8 word list" where
  "le32 w = [ucast w, ucast (drop_bit 8 w), ucast (drop_bit 16 w), ucast (drop_bit 24 w)]"

definition of_le32 :: "8 word list \<Rightarrow> 32 word" where
  "of_le32 bs = ucast (bs ! 0) OR push_bit 8 (ucast (bs ! 1)) OR push_bit 16 (ucast (bs ! 2)) OR
     push_bit 24 (ucast (bs ! 3))"

text \<open>
  \<open>getMessage\<close> copies 31 bytes out of the 4-byte \<open>tmpsize\<close>; \<open>junk\<close> are the 27 bytes behind it,
  which nothing in the code determines.  \<open>getMessageSize\<close> copies the 31 bytes back over its own
  4-byte \<open>msgSize\<close>, of which the first four are the value.
\<close>

definition getMessage ::
    "8 word list \<Rightarrow> 8 word \<Rightarrow> 32 word \<Rightarrow> 32 word \<Rightarrow> 32 word \<Rightarrow> 8 word list option \<Rightarrow> 64 word \<Rightarrow> message" where
  "getMessage junk msgId src dst session data sz =
     (let tmpsize = push_bit 1 (ucast (sz AND 0xFFFFF) :: 32 word)
      in \<lparr>msg_src = src, msg_dst = dst, msg_session = session, msg_data = data,
          msg_ext = msgId # le32 tmpsize @ take 27 junk\<rparr>)"

definition getMessageId :: "message \<Rightarrow> int" where
  "getMessageId msg = uint (msg_ext msg ! 0)"

definition getMessageSize :: "message \<Rightarrow> 32 word" where
  "getMessageSize msg = drop_bit 1 (of_le32 (take 4 (drop 1 (msg_ext msg))))"

section \<open>Sending\<close>

text \<open>The C string in a buffer: the bytes before the first null byte.\<close>

definition c_string :: "8 word list \<Rightarrow> 8 word list" where
  "c_string bs = takeWhile (\<lambda>b. b \<noteq> 0) bs"

text \<open>A size of 0 makes \<open>doSendMessage\<close> copy the data as a string, the empty one as 4 zero bytes.\<close>

definition send_data :: "8 word list option \<Rightarrow> 64 word \<Rightarrow> 8 word list option \<times> 64 word" where
  "send_data data sz =
     (case data of
        Some bs \<Rightarrow>
          if sz = 0 then
            (if c_string bs = [] then (Some (replicate 4 0), 4)
             else (Some (c_string bs @ [0]), of_nat (length (c_string bs))))
          else (data, sz)
      | None \<Rightarrow> (data, sz))"

text \<open>\<open>doSendMessage(msg)\<close> with \<open>push\<close> as a parameter; the result is 0 or -1.\<close>

definition doSendMessage ::
    "actor_table \<Rightarrow> (nat \<Rightarrow> message \<Rightarrow> 's \<Rightarrow> 's) \<Rightarrow> message \<Rightarrow> 's \<Rightarrow> (int \<times> 's) res" where
  "doSendMessage t push msg s =
     seqE (checkE (msg_dst msg \<noteq> 0) AssertFail) (\<lambda>_.
       case getGrab t (unat (msg_dst msg)) of
         None \<Rightarrow> Inr (-1, s)
       | Some obj \<Rightarrow> Inr (0, push obj msg s))"

text \<open>The overload that builds the message; \<open>msgId\<close> is cut to a byte by \<open>getMessage\<close>.\<close>

definition doSendMessageTo ::
    "actor_table \<Rightarrow> (nat \<Rightarrow> message \<Rightarrow> 's \<Rightarrow> 's) \<Rightarrow> 8 word list \<Rightarrow> 32 word \<Rightarrow> 32 word \<Rightarrow> 32 word \<Rightarrow>
     32 word \<Rightarrow> 8 word list option \<Rightarrow> 64 word \<Rightarrow> 's \<Rightarrow> (int \<times> 's) res" where
  "doSendMessageTo t push junk src dst msgId session data sz s =
     (let (data', tmpsz) = send_data data sz
      in doSendMessage t push (getMessage junk (ucast msgId) src dst session data' tmpsz) s)"

section \<open>The actor\<close>

record 'm actor =
  m_inglobal :: bool
  m_indeath :: bool
  m_death_us :: "32 word"
  m_mqs :: "'m list"
  m_cpt :: bool

definition new_actor :: "'m actor" where
  "new_actor = \<lparr>m_inglobal = False, m_indeath = False, m_death_us = 0, m_mqs = [], m_cpt = False\<rparr>"

text \<open>\<open>push\<close>: the message enters the queue; then, under the lock of the queue, the flag is looked at.\<close>

definition push_message :: "'m actor \<Rightarrow> 'm \<Rightarrow> 'm actor" where
  "push_message a m = a\<lparr>m_mqs := m_mqs a @ [m]\<rparr>"

definition push_register :: "'m actor \<Rightarrow> bool \<times> 'm actor" where
  "push_register a = (if \<not> m_inglobal a then (True, a\<lparr>m_inglobal := True\<rparr>) else (False, a))"

text \<open>\<open>dispatch\<close>: the loop drops the messages of an actor without a component, or takes one to run.\<close>

fun dispatch_loop :: "bool \<Rightarrow> 'm list \<Rightarrow> 'm option \<times> 'm list" where
  "dispatch_loop cpt [] = (None, [])"
| "dispatch_loop cpt (m # ms) = (if \<not> cpt then dispatch_loop cpt ms else (Some m, ms))"

definition dispatch_take :: "'m actor \<Rightarrow> 'm option \<times> 'm actor" where
  "dispatch_take a = (let (r, ms) = dispatch_loop (m_cpt a) (m_mqs a) in (r, a\<lparr>m_mqs := ms\<rparr>))"

text \<open>\<open>doExit\<close>: whether the actor enters the collector.\<close>

definition actor_doExit :: "'m actor \<Rightarrow> bool \<times> 'm actor" where
  "actor_doExit a = (if m_indeath a then (False, a) else (True, a\<lparr>m_indeath := True\<rparr>))"

definition isSuspedEmpty :: "nat option \<Rightarrow> bool" where
  "isSuspedEmpty suspended = (case suspended of None \<Rightarrow> True | Some n \<Rightarrow> n = 0)"

text \<open>The destructor releases the component when it and its library are there.\<close>

definition actor_destroy :: "bool \<Rightarrow> 'm actor \<Rightarrow> bool \<times> 'm actor" where
  "actor_destroy dll a = (if m_cpt a \<and> dll then (True, a\<lparr>m_cpt := False\<rparr>) else (False, a))"

text \<open>
  \<open>doInit\<close>: \<open>found\<close> and \<open>created\<close> say whether the library and the component are there, \<open>launch\<close>
  is the result of the component's \<open>doInit\<close> for the handle.  The result is the handle or 0, the
  table, and whether the component was released.
\<close>

definition actor_doInit ::
    "bool \<Rightarrow> bool \<Rightarrow> (nat \<Rightarrow> int) \<Rightarrow> actor_table \<Rightarrow> nat \<Rightarrow> (nat \<times> actor_table \<times> bool) res option" where
  "actor_doInit found created launch t obj =
     (if \<not> found \<or> \<not> created then Some (Inr (0, t, False))
      else case register_actor t obj of
        None \<Rightarrow> None
      | Some (Inl e) \<Rightarrow> Some (Inl e)
      | Some (Inr (handle, t')) \<Rightarrow>
          if handle = 0 then Some (Inr (0, t', True))
          else if launch handle = 0 then Some (Inr (handle, t', False))
          else Some (Inr (0, snd (doUnRegister t' handle), False)))"

section \<open>The collector\<close>

record 'm gcc_state =
  m_qGcc :: "nat list"
  g_actors :: "nat \<Rightarrow> 'm actor option"
  g_quit :: "nat list"

definition enterGcc :: "'m gcc_state \<Rightarrow> nat \<Rightarrow> 'm gcc_state" where
  "enterGcc g h = g\<lparr>m_qGcc := m_qGcc g @ [h]\<rparr>"

text \<open>
  One round of the inner loop of \<open>doLoop\<close>: \<open>susp h\<close> is the number of suspended sessions of the
  component of \<open>h\<close>, \<open>g_quit\<close> collects the handles a quit message is sent to.  With an empty
  queue the handle would be read uninitialised; the loop condition excludes it.
\<close>

definition gcc_visit ::
    "32 word \<Rightarrow> 32 word \<Rightarrow> (nat \<Rightarrow> nat option) \<Rightarrow> 'm gcc_state \<Rightarrow> 'm gcc_state" where
  "gcc_visit sleep timeout susp g =
     (case m_qGcc g of
        [] \<Rightarrow> g
      | h # hs \<Rightarrow>
          let g0 = g\<lparr>m_qGcc := hs\<rparr> in
          case g_actors g h of
            None \<Rightarrow> g0
          | Some a \<Rightarrow>
              if \<not> m_indeath a then g0
              else let us = m_death_us a + sleep;
                       g1 = g0\<lparr>g_actors := (g_actors g)(h \<mapsto> a\<lparr>m_death_us := us\<rparr>)\<rparr>
                   in if isSuspedEmpty (susp h) \<and> us > timeout
                      then g1\<lparr>g_quit := g_quit g @ [h]\<rparr>
                      else g1\<lparr>m_qGcc := hs @ [h]\<rparr>)"

lemma gcc_visit_length: "length (m_qGcc (gcc_visit sl ti su g)) \<le> length (m_qGcc g)"
  by (simp add: gcc_visit_def Let_def split: list.splits option.splits)

text \<open>\<open>for (int i = 0; i < m_qGcc.length(); i++)\<close>, the length read again in every round.\<close>

function gcc_pass ::
    "32 word \<Rightarrow> 32 word \<Rightarrow> (nat \<Rightarrow> nat option) \<Rightarrow> nat \<Rightarrow> 'm gcc_state \<Rightarrow> 'm gcc_state" where
  "gcc_pass sleep timeout susp i g =
     (if i < length (m_qGcc g) then gcc_pass sleep timeout susp (i + 1) (gcc_visit sleep timeout susp g)
      else g)"
  by pat_completeness auto
termination
proof (relation "measure (\<lambda>(sl, ti, su, i, g). length (m_qGcc g) - i)")
  fix sl ti :: "32 word" and su :: "nat \<Rightarrow> nat option" and i and g :: "'m gcc_state"
  assume "i < length (m_qGcc g)"
  then show "((sl, ti, su, i + 1, gcc_visit sl ti su g), (sl, ti, su, i, g))
      \<in> measure (\<lambda>(sl, ti, su, i, g). length (m_qGcc g) - i)"
    using gcc_visit_length[of sl ti su g] by simp
qed simp

declare gcc_pass.simps [simp del]

section \<open>Message round trip\<close>

lemma bit_of_le32:
  "bit (of_le32 [a, b, c, d]) n \<longleftrightarrow>
     (if n < 8 then bit a n else if n < 16 then bit b (n - 8)
      else if n < 24 then bit c (n - 16) else n < 32 \<and> bit d (n - 24))"
proof -
  have "bit a n \<Longrightarrow> n < 8" "bit b m \<Longrightarrow> m < 8" "bit c m \<Longrightarrow> m < 8" "bit d m \<Longrightarrow> m < 8" for m
    by (auto dest: bit_imp_le_length)
  then show ?thesis
    by (auto simp: of_le32_def bit_simps not_less intro: ccontr) (force dest: bit_imp_le_length)+
qed

lemma of_le32_le32: "of_le32 (le32 w) = w"
proof (rule bit_word_eqI)
  fix n assume "n < LENGTH(32)"
  then show "bit (of_le32 (le32 w)) n = bit w n"
    unfolding le32_def bit_of_le32 by (auto simp: bit_simps not_less)
qed

lemma drop_push_bit:
  fixes w :: "32 word"
  assumes "\<And>n. bit w n \<Longrightarrow> n + k < 32"
  shows "drop_bit k (push_bit k w) = w"
  by (rule bit_word_eqI) (auto simp: bit_simps dest: assms)

lemma size_fits: "drop_bit 1 (push_bit 1 (ucast ((sz :: 64 word) AND 0xFFFFF) :: 32 word)) = ucast (sz AND 0xFFFFF)"
proof (rule drop_push_bit)
  have m: "(0xFFFFF :: 64 word) = mask 20" by (simp add: mask_eq_exp_minus_1)
  show "bit (ucast (sz AND 0xFFFFF) :: 32 word) n \<Longrightarrow> n + 1 < 32" for n
    unfolding m by (auto simp: bit_simps)
qed

section \<open>The collector\<close>

text \<open>An actor in the collector's sight: registered and asked to exit.\<close>

definition dying :: "'m gcc_state \<Rightarrow> nat \<Rightarrow> bool" where
  "dying g h \<longleftrightarrow> (\<exists>a. g_actors g h = Some a \<and> m_indeath a)"

lemma gcc_visit_dying: "dying (gcc_visit sl ti su g) h = dying g h"
  by (auto simp: gcc_visit_def dying_def Let_def split: list.splits option.splits)

lemma gcc_visit_quit:
  "h \<in> set (g_quit (gcc_visit sl ti su g)) \<Longrightarrow>
   h \<in> set (g_quit g) \<or> h \<in> set (m_qGcc g) \<and> dying g h \<and> isSuspedEmpty (su h)"
  by (auto simp: gcc_visit_def dying_def Let_def split: list.splits option.splits if_splits)

lemma gcc_visit_keeps:
  "h \<in> set (m_qGcc g) \<union> set (g_quit g) \<Longrightarrow> dying g h \<Longrightarrow>
   h \<in> set (m_qGcc (gcc_visit sl ti su g)) \<union> set (g_quit (gcc_visit sl ti su g))"
  by (auto simp: gcc_visit_def dying_def Let_def split: list.splits option.splits)

lemma gcc_visit_queue: "set (m_qGcc (gcc_visit sl ti su g)) \<subseteq> set (m_qGcc g)"
  by (auto simp: gcc_visit_def Let_def split: list.splits option.splits if_splits)

lemma gcc_pass_effect:
  "(h \<in> set (g_quit (gcc_pass sl ti su i g)) \<longrightarrow>
      h \<in> set (g_quit g) \<or> h \<in> set (m_qGcc g) \<and> dying g h \<and> isSuspedEmpty (su h)) \<and>
   (h \<in> set (m_qGcc g) \<union> set (g_quit g) \<longrightarrow> dying g h \<longrightarrow>
      h \<in> set (m_qGcc (gcc_pass sl ti su i g)) \<union> set (g_quit (gcc_pass sl ti su i g)))"
proof (induction sl ti su i g rule: gcc_pass.induct)
  case (1 sl ti su i g)
  show ?case
  proof (cases "i < length (m_qGcc g)")
    case True
    show ?thesis
      using 1[OF True] gcc_visit_quit[of h sl ti su g] gcc_visit_keeps[of h g sl ti su]
        gcc_visit_queue[of sl ti su g] gcc_visit_dying[of sl ti su g h] True
      by (subst (1 2 3) gcc_pass.simps) auto
  qed (subst (1 2 3) gcc_pass.simps, simp)
qed

section \<open>Mailboxes, the work queue and the coroutines\<close>

text \<open>
  The running system: the actors by handle, which handles are registered, the handles posted to
  the worker, the coroutines it created that have not run yet, the handles whose message is in
  \<open>doRun\<close>, and the clients between the two halves of \<open>push\<close>.  \<open>sent\<close> and \<open>dispatched\<close> record, for each
  actor, the messages in the order they entered the mailbox and were taken out to run.  A
  coroutine may yield inside \<open>doRun\<close>, so that is a state of its own.
\<close>

record 'm actor_sys =
  boxes :: "nat \<Rightarrow> 'm actor"
  registered :: "nat set"
  works :: "nat list"
  tasks :: "nat list"
  running :: "nat list"
  pushing :: "nat \<Rightarrow> nat"
  sent :: "nat \<Rightarrow> 'm list"
  dispatched :: "nat \<Rightarrow> 'm list"

inductive actor_step :: "'m actor_sys \<Rightarrow> 'm actor_sys \<Rightarrow> bool" where
  as_push: "actor_step s (s\<lparr>boxes := (boxes s)(h := push_message (boxes s h) m),
     pushing := (pushing s)(h := pushing s h + 1), sent := (sent s)(h := sent s h @ [m])\<rparr>)"
| as_flag: "0 < pushing s h \<Longrightarrow> push_register (boxes s h) = (post, a) \<Longrightarrow>
     actor_step s (s\<lparr>boxes := (boxes s)(h := a), pushing := (pushing s)(h := pushing s h - 1),
       works := (if post then works s @ [h] else works s)\<rparr>)"
| as_create: "works s = h # hs \<Longrightarrow> actor_step s (s\<lparr>works := hs, tasks := h # tasks s\<rparr>)"
| as_lost: "h \<in> set (tasks s) \<Longrightarrow> h \<notin> registered s \<Longrightarrow>
     actor_step s (s\<lparr>tasks := remove1 h (tasks s)\<rparr>)"
| as_idle: "h \<in> set (tasks s) \<Longrightarrow> h \<in> registered s \<Longrightarrow> dispatch_take (boxes s h) = (None, a) \<Longrightarrow>
     actor_step s (s\<lparr>tasks := remove1 h (tasks s), boxes := (boxes s)(h := a)\<rparr>)"
| as_take: "h \<in> set (tasks s) \<Longrightarrow> h \<in> registered s \<Longrightarrow> dispatch_take (boxes s h) = (Some m, a) \<Longrightarrow>
     actor_step s (s\<lparr>tasks := remove1 h (tasks s), boxes := (boxes s)(h := a),
       running := h # running s, dispatched := (dispatched s)(h := dispatched s h @ [m])\<rparr>)"
| as_done: "h \<in> set (running s) \<Longrightarrow>
     actor_step s (s\<lparr>running := remove1 h (running s), works := works s @ [h]\<rparr>)"
| as_exit: "actor_doExit (boxes s h) = (enter, a) \<Longrightarrow>
     actor_step s (s\<lparr>boxes := (boxes s)(h := a)\<rparr>)"
| as_unregister: "actor_step s (s\<lparr>registered := registered s - {h}\<rparr>)"

text \<open>Actors whose component is there, nothing sent yet.\<close>

definition actor_start :: "nat set \<Rightarrow> 'm actor_sys" where
  "actor_start hs = \<lparr>boxes = (\<lambda>_. new_actor\<lparr>m_cpt := True\<rparr>), registered = hs, works = [], tasks = [],
     running = [], pushing = (\<lambda>_. 0), sent = (\<lambda>_. []), dispatched = (\<lambda>_. [])\<rparr>"

definition actor_init :: "'m actor_sys \<Rightarrow> bool" where
  "actor_init s \<longleftrightarrow> (\<exists>hs. s = actor_start hs)"

text \<open>How often an actor is on its way from the work queue to the end of \<open>doRun\<close>.\<close>

definition activity :: "'m actor_sys \<Rightarrow> nat \<Rightarrow> nat" where
  "activity s h = count_list (works s) h + count_list (tasks s) h + count_list (running s) h"

definition actor_inv :: "'m actor_sys \<Rightarrow> bool" where
  "actor_inv s \<longleftrightarrow> (\<forall>h. m_cpt (boxes s h) \<and> activity s h \<le> 1 \<and>
     (activity s h = 1 \<longrightarrow> m_inglobal (boxes s h)) \<and>
     sent s h = dispatched s h @ m_mqs (boxes s h) \<and>
     (\<not> m_inglobal (boxes s h) \<longrightarrow> length (m_mqs (boxes s h)) \<le> pushing s h))"

lemma count_list_remove1:
  "count_list (remove1 x xs) y = (if x = y \<and> x \<in> set xs then count_list xs y - 1 else count_list xs y)"
  by (induction xs) (auto simp: Suc_diff_le dest: count_list_0_iff[THEN iffD1] intro!: gr0I)

lemma count_list_mem: "x \<in> set xs \<Longrightarrow> 0 < count_list xs x"
  using count_list_0_iff[of xs x] by auto

lemma dispatch_take_cpt:
  "m_cpt a \<Longrightarrow> dispatch_take a =
     (case m_mqs a of [] \<Rightarrow> (None, a) | m # ms \<Rightarrow> (Some m, a\<lparr>m_mqs := ms\<rparr>))"
  by (simp add: dispatch_take_def split: list.splits)

lemma activity_le: "actor_inv s \<Longrightarrow> activity s h \<le> 1"
  by (simp add: actor_inv_def)

lemma activity_drop:
  assumes "actor_inv s"
  shows "count_list (works s) h + (count_list (tasks s) h - Suc 0) + count_list (running s) h \<le> Suc 0"
proof -
  have "activity s h \<le> 1" using assms by (simp add: actor_inv_def)
  then show ?thesis unfolding activity_def by linarith
qed

lemmas actor_op_defs = push_message_def push_register_def actor_doExit_def

lemma actor_step_inv: "actor_step s t \<Longrightarrow> actor_inv s \<Longrightarrow> actor_inv t"
proof (induction rule: actor_step.induct)
  case (as_idle h s a)
  moreover have "count_list (works s) h + (count_list (tasks s) h - Suc 0) + count_list (running s) h \<le> Suc 0"
    by (rule activity_drop[OF as_idle(4)])
  ultimately show ?case
    by (auto simp: actor_inv_def activity_def dispatch_take_cpt count_list_remove1 split: list.splits)
next
  case (as_take h s m a)
  have c: "count_list (works s) h = 0" "count_list (tasks s) h = 1" "count_list (running s) h = 0"
    using count_list_mem[OF as_take(1)] activity_le[OF as_take(4), of h] by (simp_all add: activity_def)
  have a: "m_mqs (boxes s h) = m # m_mqs a" "m_cpt a" "m_inglobal a = m_inglobal (boxes s h)"
    using as_take(3,4) dispatch_take_cpt[of "boxes s h"]
    by (auto simp: actor_inv_def split: list.splits)
  then show ?case using as_take(1,4) c
    by (auto simp: actor_inv_def activity_def count_list_remove1)
next
  case (as_done h s)
  have c: "count_list (works s) h = 0" "count_list (tasks s) h = 0" "count_list (running s) h = 1"
    using count_list_mem[OF as_done(1)] activity_le[OF as_done(2), of h] by (simp_all add: activity_def)
  then show ?case using as_done
    by (auto simp: actor_inv_def activity_def count_list_remove1)
next
  case (as_lost h s)
  moreover have "count_list (works s) h + (count_list (tasks s) h - Suc 0) + count_list (running s) h \<le> Suc 0"
    by (rule activity_drop[OF as_lost(3)])
  ultimately show ?case by (auto simp: actor_inv_def activity_def count_list_remove1)
next
  case (as_flag s h post a)
  then show ?case
    by (auto simp: actor_inv_def activity_def push_register_def split: if_splits)
next
  case (as_create s h hs)
  have "activity (s\<lparr>works := hs, tasks := h # tasks s\<rparr>) x = activity s x" for x
    using as_create(1) by (simp add: activity_def)
  then show ?case using as_create(2) by (simp add: actor_inv_def)
next
  case (as_push s h m)
  then show ?case by (simp add: actor_inv_def activity_def push_message_def)
next
  case (as_exit s h enter a)
  then have "m_inglobal a = m_inglobal (boxes s h)" "m_mqs a = m_mqs (boxes s h)" "m_cpt a = m_cpt (boxes s h)"
    by (auto simp: actor_doExit_def split: if_splits)
  then show ?case using as_exit(2) by (simp add: actor_inv_def activity_def)
next
  case (as_unregister s h)
  then show ?case by (simp add: actor_inv_def activity_def)
qed

interpretation act: invariant_machine actor_init actor_step actor_inv
proof
  show "actor_init s \<Longrightarrow> actor_inv s" for s :: "'m actor_sys"
    by (auto simp: actor_init_def actor_start_def actor_inv_def activity_def new_actor_def)
  show "actor_inv s \<Longrightarrow> actor_step s t \<Longrightarrow> actor_inv t" for s t :: "'m actor_sys"
    by (rule actor_step_inv)
qed

text \<open>An actor that is marked as posted but is nowhere on its way never runs again.\<close>

lemma asleep_step:
  "actor_step s t \<Longrightarrow> m_inglobal (boxes s h) \<Longrightarrow> activity s h = 0 \<Longrightarrow>
   m_inglobal (boxes t h) \<and> activity t h = 0 \<and> dispatched t h = dispatched s h"
  by (induction rule: actor_step.induct)
    (auto simp: activity_def actor_op_defs dispatch_take_def count_list_0_iff
       split: if_splits prod.splits dest: in_set_remove1[THEN iffD1, rotated] set_remove1_subset[THEN subsetD])

lemma asleep_steps:
  "actor_step\<^sup>*\<^sup>* s t \<Longrightarrow> m_inglobal (boxes s h) \<Longrightarrow> activity s h = 0 \<Longrightarrow>
   m_inglobal (boxes t h) \<and> activity t h = 0 \<and> dispatched t h = dispatched s h"
  by (induction rule: rtranclp_induct) (use asleep_step in \<open>fastforce+\<close>)

section \<open>The properties\<close>

text \<open>Whatever bytes lie behind the size on the stack, a message gives back the identifier it
  was built with and the size modulo 2^20, and keeps source, destination, session and data.\<close>

theorem message_roundtrip:
  "getMessageId (getMessage junk i src dst se da sz) = uint i \<and>
   getMessageSize (getMessage junk i src dst se da sz) = ucast (sz AND 0xFFFFF) \<and>
   msg_src (getMessage junk i src dst se da sz) = src \<and>
   msg_dst (getMessage junk i src dst se da sz) = dst \<and>
   msg_session (getMessage junk i src dst se da sz) = se \<and>
   msg_data (getMessage junk i src dst se da sz) = da"
proof -
  let ?w = "push_bit 1 (ucast (sz AND 0xFFFFF) :: 32 word)"
  have "take 4 (drop 1 (msg_ext (getMessage junk i src dst se da sz))) = le32 ?w"
    by (simp add: getMessage_def Let_def le32_def)
  then have "getMessageSize (getMessage junk i src dst se da sz) = drop_bit 1 ?w"
    by (simp only: getMessageSize_def of_le32_le32)
  then show ?thesis
    by (simp only: size_fits) (simp add: getMessage_def getMessageId_def Let_def)
qed

text \<open>C11: the dispatching is serial and in order: in every reachable state an actor is at most
  once between the work queue and the end of its \<open>doRun\<close>, the messages taken out to run
  followed by those in the mailbox are the messages sent in their order, and as long as the
  actor was never posted some client still has its second half of \<open>push\<close> to do for each
  message.\<close>

theorem actor_runs_serially:
  assumes "reach actor_init actor_step s"
  shows "activity s h \<le> 1 \<and> sent s h = dispatched s h @ m_mqs (boxes s h) \<and>
    (\<not> m_inglobal (boxes s h) \<longrightarrow> length (m_mqs (boxes s h)) \<le> pushing s h)"
  using act.reach_inv[OF assms] by (simp add: actor_inv_def)

theorem actor_runs_serially_witness:
  "activity (actor_start {7} :: message actor_sys) 7 \<le> 1 \<and>
   sent (actor_start {7} :: message actor_sys) 7 =
     dispatched (actor_start {7}) 7 @ m_mqs (boxes (actor_start {7}) 7)"
proof -
  have "reach actor_init actor_step (actor_start {7} :: message actor_sys)"
    by (rule reach_init) (auto simp: actor_init_def)
  from actor_runs_serially[OF this, of 7] show ?thesis by simp
qed

text \<open>C2: a message sent to an actor that has run out of messages is never run: \<open>m_inglobal\<close> is
  set by the first \<open>push\<close> and cleared nowhere, so once the coroutine of an actor finds its
  mailbox empty nobody posts the actor again, whatever happens afterwards.\<close>

theorem idle_actor_never_runs:
  assumes "reach actor_init actor_step s" "m_inglobal (boxes s h)" "activity s h = 0"
    "actor_step\<^sup>*\<^sup>* s t"
  shows "dispatched t h = dispatched s h \<and> length (m_mqs (boxes s h)) \<le> length (m_mqs (boxes t h))"
proof -
  have same: "dispatched t h = dispatched s h" using asleep_steps[OF assms(4,2,3)] by blast
  have "reach actor_init actor_step t" by (rule reach_steps[OF assms(4,1)])
  then have t: "sent t h = dispatched t h @ m_mqs (boxes t h)"
    using act.reach_inv by (auto simp: actor_inv_def)
  have s: "sent s h = dispatched s h @ m_mqs (boxes s h)"
    using act.reach_inv[OF assms(1)] by (simp add: actor_inv_def)
  have "length (sent s h) \<le> length (sent t h)"
    using assms(4)
  proof (induction rule: rtranclp_induct)
    case (step y z)
    have "length (sent y h) \<le> length (sent z h)" using step(2) by cases simp_all
    then show ?case using step(3) by simp
  qed simp
  then show ?thesis using same s t by simp
qed

text \<open>The run: two messages to actor 7, the second one after the first was handled.\<close>

definition late_message :: "nat actor_sys" where
  "late_message = (actor_start {7})\<lparr>boxes := (\<lambda>_. new_actor\<lparr>m_cpt := True\<rparr>)
      (7 := \<lparr>m_inglobal = True, m_indeath = False, m_death_us = 0, m_mqs = [2], m_cpt = True\<rparr>),
     pushing := (\<lambda>_. 0)(7 := 0), sent := (\<lambda>_. [])(7 := [1, 2]),
     dispatched := (\<lambda>_. [])(7 := [1])\<rparr>"

lemma late_message_reached: "reach actor_init actor_step late_message"
proof -
  let ?a = "\<lparr>m_inglobal = False, m_indeath = False, m_death_us = 0, m_mqs = [], m_cpt = True\<rparr> :: nat actor"
  let ?s0 = "actor_start {7} :: nat actor_sys"
  let ?b = "\<lambda>a. (\<lambda>_. new_actor\<lparr>m_cpt := True\<rparr>)(7 := a)"
  let ?s1 = "?s0\<lparr>boxes := ?b (?a\<lparr>m_mqs := [1]\<rparr>), pushing := (\<lambda>_. 0)(7 := 1), sent := (\<lambda>_. [])(7 := [1])\<rparr>"
  let ?s2 = "?s1\<lparr>boxes := ?b (?a\<lparr>m_mqs := [1], m_inglobal := True\<rparr>), pushing := (\<lambda>_. 0)(7 := 0), works := [7]\<rparr>"
  let ?s3 = "?s2\<lparr>works := [], tasks := [7]\<rparr>"
  let ?s4 = "?s3\<lparr>tasks := [], boxes := ?b (?a\<lparr>m_inglobal := True\<rparr>), running := [7], dispatched := (\<lambda>_. [])(7 := [1])\<rparr>"
  let ?s5 = "?s4\<lparr>running := [], works := [7]\<rparr>"
  let ?s6 = "?s5\<lparr>works := [], tasks := [7]\<rparr>"
  let ?s7 = "?s6\<lparr>tasks := []\<rparr>"
  let ?s8 = "?s7\<lparr>boxes := ?b (?a\<lparr>m_inglobal := True, m_mqs := [2]\<rparr>), pushing := (\<lambda>_. 0)(7 := 1),
    sent := (\<lambda>_. [])(7 := [1, 2])\<rparr>"
  note d = actor_start_def new_actor_def push_message_def push_register_def dispatch_take_def fun_eq_iff
  have "reach actor_init actor_step ?s0" by (rule reach_init) (auto simp: actor_init_def)
  moreover have "actor_step ?s0 ?s1" using as_push[of ?s0 7 1] by (simp add: d cong: if_cong)
  ultimately have "reach actor_init actor_step ?s1" by (rule reach_step)
  moreover have "actor_step ?s1 ?s2"
    using as_flag[of ?s1 7 True "?a\<lparr>m_mqs := [1], m_inglobal := True\<rparr>"] by (simp add: d)
  ultimately have "reach actor_init actor_step ?s2" by (rule reach_step)
  moreover have "actor_step ?s2 ?s3" using as_create[of ?s2 7 "[]"] by (simp add: d)
  ultimately have "reach actor_init actor_step ?s3" by (rule reach_step)
  moreover have "actor_step ?s3 ?s4"
    using as_take[of 7 ?s3 1 "?a\<lparr>m_inglobal := True\<rparr>"] by (simp add: d)
  ultimately have "reach actor_init actor_step ?s4" by (rule reach_step)
  moreover have "actor_step ?s4 ?s5" using as_done[of 7 ?s4] by (simp add: d)
  ultimately have "reach actor_init actor_step ?s5" by (rule reach_step)
  moreover have "actor_step ?s5 ?s6" using as_create[of ?s5 7 "[]"] by (simp add: d)
  ultimately have "reach actor_init actor_step ?s6" by (rule reach_step)
  moreover have "actor_step ?s6 ?s7"
    using as_idle[of 7 ?s6 "?a\<lparr>m_inglobal := True\<rparr>"] by (simp add: d)
  ultimately have "reach actor_init actor_step ?s7" by (rule reach_step)
  moreover have "actor_step ?s7 ?s8" using as_push[of ?s7 7 2] by (simp add: d)
  ultimately have "reach actor_init actor_step ?s8" by (rule reach_step)
  moreover have "actor_step ?s8 late_message"
    using as_flag[of ?s8 7 False "?a\<lparr>m_inglobal := True, m_mqs := [2]\<rparr>"]
    by (simp add: d late_message_def)
  ultimately show ?thesis by (rule reach_step)
qed

theorem idle_actor_never_runs_witness:
  "\<exists>s :: nat actor_sys. reach actor_init actor_step s \<and> m_mqs (boxes s 7) = [2] \<and>
     (\<forall>t. actor_step\<^sup>*\<^sup>* s t \<longrightarrow> dispatched t 7 = [1])"
proof -
  have l: "m_inglobal (boxes late_message 7)" "activity late_message 7 = 0"
    "m_mqs (boxes late_message 7) = [2]" "dispatched late_message 7 = [1]"
    by (simp_all add: late_message_def activity_def actor_start_def)
  have "dispatched t 7 = [1]" if "actor_step\<^sup>*\<^sup>* late_message t" for t
    using idle_actor_never_runs[OF late_message_reached l(1,2) that] l(4) by simp
  then show ?thesis using late_message_reached l(3) by blast
qed

text \<open>A pass of the collector sends the quit message only to registered actors of its queue
  that were asked to exit and have no suspended session, and loses no such actor: each one is
  in the queue again or was sent the message.\<close>

theorem gcc_pass_quits_idle_dead:
  "set (g_quit (gcc_pass sleep timeout susp 0 g)) \<subseteq>
     set (g_quit g) \<union> {h \<in> set (m_qGcc g). dying g h \<and> isSuspedEmpty (susp h)} \<and>
   {h \<in> set (m_qGcc g). dying g h} \<subseteq>
     set (m_qGcc (gcc_pass sleep timeout susp 0 g)) \<union> set (g_quit (gcc_pass sleep timeout susp 0 g))"
  using gcc_pass_effect[of _ sleep timeout susp 0 g] by blast

end
