(* ===== verification/Worker.thy ===== *)
theory Worker
  imports WolfBase "HOL-Library.Multiset" "HOL-Library.Option_ord"
begin

text \<open>
  The workers of the coroutine scheduler (\<open>engine/src/operation/worker.cc\<close>, \<open>.h\<close>, \<open>task.cc\<close>,
  \<open>task.h\<close>): the queues of a worker, adding and stealing tasks, the suspension of a coroutine and
  its wake-up, the loop of the worker thread.  A \<open>util::deque\<close> is the list of tasks it refines
  (theory TaskChain), its end the tail; a task is its address.  What a coroutine does between
  \<open>SwapIn\<close> and the switch back is a step of its own, so that other threads may act meanwhile.
\<close>

section \<open>Tasks and entries\<close>

datatype task_state = Runnable | Block | Done

record task =
  tk_yieldCount :: "64 word"
  tk_supperId :: "64 word"
  tk_worker :: "nat option"
  tk_state :: task_state

definition new_task :: task where
  "new_task = \<lparr>tk_yieldCount = 0, tk_supperId = 0, tk_worker = None, tk_state = Runnable\<rparr>"

text \<open>A suspend entry: the weak pointer to the task, by its address, and the id of the suspension.\<close>

datatype suspend_entry = SuspendEntry (se_tk: "nat option") (se_id: "64 word")

text \<open>\<open>operator<\<close> compares the ids first and then the pointers.\<close>

instantiation suspend_entry :: linorder
begin

definition less_suspend_entry :: "suspend_entry \<Rightarrow> suspend_entry \<Rightarrow> bool" where
  "less_suspend_entry lhs rhs \<longleftrightarrow>
     (if se_id lhs = se_id rhs then se_tk lhs < se_tk rhs else se_id lhs < se_id rhs)"

definition less_eq_suspend_entry :: "suspend_entry \<Rightarrow> suspend_entry \<Rightarrow> bool" where
  "less_eq_suspend_entry lhs rhs \<longleftrightarrow> lhs < rhs \<or> lhs = rhs"

instance
proof
  fix x y z :: suspend_entry
  show "(x < y) = (x \<le> y \<and> \<not> y \<le> x)"
    by (cases x; cases y) (auto simp: less_eq_suspend_entry_def less_suspend_entry_def split: if_splits)
  show "x \<le> x" by (simp add: less_eq_suspend_entry_def)
  show "x \<le> y \<Longrightarrow> y \<le> z \<Longrightarrow> x \<le> z"
    by (cases x; cases y; cases z)
      (auto simp: less_eq_suspend_entry_def less_suspend_entry_def split: if_splits)
  show "x \<le> y \<Longrightarrow> y \<le> x \<Longrightarrow> x = y"
    by (cases x; cases y) (auto simp: less_eq_suspend_entry_def less_suspend_entry_def split: if_splits)
  show "x \<le> y \<or> y \<le> x"
    by (cases x; cases y) (auto simp: less_eq_suspend_entry_def less_suspend_entry_def split: if_splits)
qed

end

section \<open>The worker\<close>

text \<open>
  \<open>m_woken\<close> says that the thread, waiting in \<open>m_cv.wait\<close>, was notified.
\<close>

record worker =
  m_waiting :: bool
  m_notified :: bool
  m_woken :: bool
  m_ntsTick :: "64 word"
  m_ntsMark :: "64 word"
  m_nts :: "64 word"
  m_runnable :: "nat option"
  m_runnableQueue :: "nat list"
  m_newQueue :: "nat list"
  m_waitQueue :: "nat list"
  m_gccQueue :: "nat list"

definition new_worker :: worker where
  "new_worker = \<lparr>m_waiting = False, m_notified = False, m_woken = False, m_ntsTick = 0,
     m_ntsMark = 0, m_nts = 0, m_runnable = None, m_runnableQueue = [], m_newQueue = [],
     m_waitQueue = [], m_gccQueue = []\<rparr>"

text \<open>The lines that \<open>addTask\<close> and \<open>notifyCondition\<close> share.\<close>

definition notifyCondition :: "worker \<Rightarrow> worker" where
  "notifyCondition w = (if m_waiting w then w\<lparr>m_woken := True\<rparr> else w\<lparr>m_notified := True\<rparr>)"

definition addTask :: "worker \<Rightarrow> nat \<Rightarrow> worker" where
  "addTask w t = notifyCondition (w\<lparr>m_newQueue := m_newQueue w @ [t]\<rparr>)"

definition addTasks :: "worker \<Rightarrow> nat list \<Rightarrow> worker" where
  "addTasks w ts = notifyCondition (w\<lparr>m_newQueue := m_newQueue w @ ts\<rparr>)"

definition isBusy :: "64 word \<Rightarrow> 64 word \<Rightarrow> worker \<Rightarrow> bool" where
  "isBusy timeout now w \<longleftrightarrow> m_ntsMark w \<noteq> m_nts w \<and> now > m_ntsTick w + timeout"

definition restBusy :: "64 word \<Rightarrow> worker \<Rightarrow> worker" where
  "restBusy now w = w\<lparr>m_ntsMark := m_nts w, m_ntsTick := now\<rparr>"

definition isWaiting :: "worker \<Rightarrow> bool" where
  "isWaiting w = m_waiting w"

definition getRunnableNum :: "worker \<Rightarrow> nat" where
  "getRunnableNum w = length (m_runnableQueue w) + length (m_newQueue w)"

text \<open>\<open>popBack(n)\<close> of a deque, which gives nothing when there is a single element.\<close>

definition popBack :: "nat list \<Rightarrow> nat \<Rightarrow> nat list \<times> nat list" where
  "popBack q n =
     (if length q \<le> 1 then ([], q)
      else (drop (length q - max 1 n) q, take (length q - max 1 n) q))"

text \<open>
  \<open>steal\<close>: for \<open>n > 0\<close> the test \<open>steal_list.size() >= 0\<close> on an unsigned size always returns, so
  the lines after it are never reached; \<open>n = 0\<close> takes both queues.
\<close>

definition steal :: "worker \<Rightarrow> nat \<Rightarrow> nat list \<times> worker" where
  "steal w n =
     (if n > 0 then
        (let (steal_list, rest) = popBack (m_newQueue w) n in (steal_list, w\<lparr>m_newQueue := rest\<rparr>))
      else (m_runnableQueue w @ m_newQueue w, w\<lparr>m_newQueue := [], m_runnableQueue := []\<rparr>))"

definition moveRunnable :: "worker \<Rightarrow> worker" where
  "moveRunnable w = w\<lparr>m_runnableQueue := m_runnableQueue w @ m_newQueue w, m_newQueue := []\<rparr>"

text \<open>\<open>gc\<close> drops the last references of the tasks that are done.\<close>

definition worker_gc :: "worker \<Rightarrow> nat list \<times> worker" where
  "worker_gc w = (m_gccQueue w, w\<lparr>m_gccQueue := []\<rparr>)"

section \<open>Suspension\<close>

definition suspendBySelf ::
    "worker \<Rightarrow> (nat \<Rightarrow> task) \<Rightarrow> nat \<Rightarrow> (suspend_entry \<times> worker \<times> (nat \<Rightarrow> task)) res" where
  "suspendBySelf w ts tk =
     seqE (checkE (m_runnable w = Some tk) AssertFail) (\<lambda>_.
     seqE (checkE (tk_state (ts tk) = Runnable) AssertFail) (\<lambda>_.
       let i = tk_supperId (ts tk) + 1
       in Inr (SuspendEntry (Some tk) i, w\<lparr>m_waitQueue := m_waitQueue w @ [tk]\<rparr>,
               ts(tk := (ts tk)\<lparr>tk_state := Block, tk_supperId := i\<rparr>))))"

text \<open>
  \<open>wakeupBySelf\<close>: the second test of the id, under the lock, is the one that counts; \<open>remove1\<close> is
  what \<open>eraseUnLock\<close> does to the list read from the tail (theory TaskChain, for a task of the
  queue; it asserts that the deque is not empty, and a task outside it is a fault here too).
  The caller is another thread when \<open>other\<close> holds.
\<close>

definition wakeupBySelf ::
    "bool \<Rightarrow> worker \<Rightarrow> (nat \<Rightarrow> task) \<Rightarrow> nat \<Rightarrow> 64 word \<Rightarrow> (bool \<times> worker \<times> (nat \<Rightarrow> task)) res" where
  "wakeupBySelf other w ts tk i =
     (if i \<noteq> tk_supperId (ts tk) then Inr (False, w, ts)
      else seqE (checkE (tk \<in> set (m_waitQueue w)) AssertFail) (\<lambda>_.
        let ts' = ts(tk := (ts tk)\<lparr>tk_supperId := tk_supperId (ts tk) + 1\<rparr>);
            w' = w\<lparr>m_waitQueue := remove1 tk (m_waitQueue w),
                   m_runnableQueue := m_runnableQueue w @ [tk]\<rparr>
        in Inr (True, (if length (m_runnableQueue w') = 1 \<and> other then notifyCondition w' else w'), ts')))"

text \<open>The static functions lock the weak pointer first; \<open>alive\<close> tells whether the task still is.\<close>

definition wakeup ::
    "(nat \<Rightarrow> bool) \<Rightarrow> bool \<Rightarrow> worker \<Rightarrow> (nat \<Rightarrow> task) \<Rightarrow> suspend_entry \<Rightarrow> (bool \<times> worker \<times> (nat \<Rightarrow> task)) res" where
  "wakeup alive other w ts e =
     (case se_tk e of
        None \<Rightarrow> Inr (False, w, ts)
      | Some tk \<Rightarrow>
          if \<not> alive tk then Inr (False, w, ts)
          else (case tk_worker (ts tk) of
                  None \<Rightarrow> Inr (False, w, ts)
                | Some _ \<Rightarrow> wakeupBySelf other w ts tk (se_id e)))"

definition isExpire :: "(nat \<Rightarrow> bool) \<Rightarrow> (nat \<Rightarrow> task) \<Rightarrow> suspend_entry \<Rightarrow> bool" where
  "isExpire alive ts e =
     (case se_tk e of
        None \<Rightarrow> False
      | Some tk \<Rightarrow> alive tk \<and> se_id e \<noteq> tk_supperId (ts tk))"

definition coYield :: "worker \<Rightarrow> (nat \<Rightarrow> task) \<Rightarrow> (nat \<Rightarrow> task) res" where
  "coYield w ts =
     (case m_runnable w of
        None \<Rightarrow> Inl AssertFail
      | Some tk \<Rightarrow> Inr (ts(tk := (ts tk)\<lparr>tk_yieldCount := tk_yieldCount (ts tk) + 1\<rparr>)))"

section \<open>The loop of the worker thread\<close>

text \<open>The head of the loop: pop a task and make it the running one.\<close>

definition process_pop :: "nat \<Rightarrow> worker \<Rightarrow> (nat \<Rightarrow> task) \<Rightarrow> nat option \<times> worker \<times> (nat \<Rightarrow> task)" where
  "process_pop me w ts =
     (case m_runnableQueue w of
        [] \<Rightarrow> (None, w\<lparr>m_runnable := None\<rparr>, ts)
      | tk # q \<Rightarrow>
          (Some tk, w\<lparr>m_runnableQueue := q, m_runnable := Some tk, m_nts := m_nts w + 1\<rparr>,
           ts(tk := (ts tk)\<lparr>tk_state := Runnable, tk_worker := Some me\<rparr>)))"

text \<open>The switch after the coroutine gave up the thread; a task that is done goes to the collector.\<close>

definition process_after :: "worker \<Rightarrow> (nat \<Rightarrow> task) \<Rightarrow> worker" where
  "process_after w ts =
     (case m_runnable w of
        None \<Rightarrow> w
      | Some tk \<Rightarrow>
          (case tk_state (ts tk) of
             Runnable \<Rightarrow> w\<lparr>m_runnable := None\<rparr>
           | Block \<Rightarrow> w\<lparr>m_runnable := None\<rparr>
           | Done \<Rightarrow>
               (let w' = (if length (m_gccQueue w) > 16 then snd (worker_gc w) else w)
                in w'\<lparr>m_gccQueue := m_gccQueue w' @ [tk], m_runnable := None\<rparr>)))"

text \<open>The first half of \<open>waitCondition\<close>, up to \<open>m_waiting = true\<close>: whether the thread goes on to wait.\<close>

definition wait_check :: "worker \<Rightarrow> bool \<times> worker" where
  "wait_check w = (if m_notified w then (False, w\<lparr>m_notified := False\<rparr>) else (True, w))"

definition wait_enter :: "worker \<Rightarrow> worker" where
  "wait_enter w = w\<lparr>m_waiting := True, m_woken := False\<rparr>"

definition wait_leave :: "worker \<Rightarrow> worker" where
  "wait_leave w = w\<lparr>m_waiting := False, m_woken := False\<rparr>"

section \<open>The thread and its clients\<close>

datatype worker_pc = WTop | WRun | WMove | WCheck | WEnter | WAsleep | WEnd

text \<open>
  One worker with its tasks.  \<open>enqueued\<close> collects every task ever put into its queues, by a client or
  by a wake-up, \<open>taken\<close> those the thread took out and \<open>stolen\<close> those the dispatcher took.
\<close>

record worker_sys =
  ws_w :: worker
  ws_ts :: "nat \<Rightarrow> task"
  ws_pc :: worker_pc
  ws_shutdown :: bool
  enqueued :: "nat multiset"
  taken :: "nat multiset"
  stolen :: "nat multiset"

inductive worker_step :: "worker_sys \<Rightarrow> worker_sys \<Rightarrow> bool" where
  w_end: "ws_pc s = WTop \<Longrightarrow> ws_shutdown s \<Longrightarrow> worker_step s (s\<lparr>ws_pc := WEnd\<rparr>)"
| w_none: "ws_pc s = WTop \<Longrightarrow> \<not> ws_shutdown s \<Longrightarrow> process_pop 0 (ws_w s) (ws_ts s) = (None, w, ts) \<Longrightarrow>
     worker_step s (s\<lparr>ws_pc := WMove, ws_w := w, ws_ts := ts\<rparr>)"
| w_pop: "ws_pc s = WTop \<Longrightarrow> \<not> ws_shutdown s \<Longrightarrow> process_pop 0 (ws_w s) (ws_ts s) = (Some tk, w, ts) \<Longrightarrow>
     worker_step s (s\<lparr>ws_pc := WRun, ws_w := w, ws_ts := ts, taken := taken s + {#tk#}\<rparr>)"
| w_suspend: "ws_pc s = WRun \<Longrightarrow> m_runnable (ws_w s) = Some tk \<Longrightarrow>
     suspendBySelf (ws_w s) (ws_ts s) tk = Inr (e, w, ts) \<Longrightarrow>
     worker_step s (s\<lparr>ws_w := w, ws_ts := ts\<rparr>)"
| w_done: "ws_pc s = WRun \<Longrightarrow> m_runnable (ws_w s) = Some tk \<Longrightarrow>
     worker_step s (s\<lparr>ws_ts := (ws_ts s)(tk := (ws_ts s tk)\<lparr>tk_state := Done\<rparr>)\<rparr>)"
| w_yield: "ws_pc s = WRun \<Longrightarrow> coYield (ws_w s) (ws_ts s) = Inr ts \<Longrightarrow>
     worker_step s (s\<lparr>ws_pc := WMove, ws_w := process_after (ws_w s) ts, ws_ts := ts\<rparr>)"
| w_move: "ws_pc s = WMove \<Longrightarrow>
     w = (if m_runnableQueue (ws_w s) = [] then moveRunnable (ws_w s) else ws_w s) \<Longrightarrow>
     worker_step s (s\<lparr>ws_w := w, ws_pc := (if m_runnableQueue w \<noteq> [] then WTop else WCheck)\<rparr>)"
| w_check: "ws_pc s = WCheck \<Longrightarrow> wait_check (ws_w s) = (wait, w) \<Longrightarrow>
     worker_step s (s\<lparr>ws_w := w, ws_pc := (if wait then WEnter else WTop)\<rparr>)"
| w_enter: "ws_pc s = WEnter \<Longrightarrow> worker_step s (s\<lparr>ws_w := wait_enter (ws_w s), ws_pc := WAsleep\<rparr>)"
| w_wake: "ws_pc s = WAsleep \<Longrightarrow> m_woken (ws_w s) \<or> spurious \<Longrightarrow>
     worker_step s (s\<lparr>ws_w := wait_leave (ws_w s), ws_pc := WTop\<rparr>)"
| c_add: "worker_step s (s\<lparr>ws_w := addTask (ws_w s) t, enqueued := enqueued s + {#t#}\<rparr>)"
| c_adds: "worker_step s (s\<lparr>ws_w := addTasks (ws_w s) ts, enqueued := enqueued s + mset ts\<rparr>)"
| c_wakeup: "wakeup alive True (ws_w s) (ws_ts s) e = Inr (ok, w, ts) \<Longrightarrow>
     worker_step s (s\<lparr>ws_w := w, ws_ts := ts,
       enqueued := (if ok then enqueued s + {#the (se_tk e)#} else enqueued s)\<rparr>)"
| c_steal: "steal (ws_w s) n = (ts, w) \<Longrightarrow>
     worker_step s (s\<lparr>ws_w := w, stolen := stolen s + mset ts\<rparr>)"
| c_notify: "worker_step s (s\<lparr>ws_w := notifyCondition (ws_w s)\<rparr>)"
| c_shutdown: "worker_step s (s\<lparr>ws_shutdown := True, ws_w := notifyCondition (ws_w s)\<rparr>)"

definition worker_start :: worker_sys where
  "worker_start = \<lparr>ws_w = new_worker, ws_ts = (\<lambda>_. new_task), ws_pc = WTop, ws_shutdown = False,
     enqueued = {#}, taken = {#}, stolen = {#}\<rparr>"

definition worker_init :: "worker_sys \<Rightarrow> bool" where
  "worker_init s \<longleftrightarrow> s = worker_start"

definition queued :: "worker \<Rightarrow> nat multiset" where
  "queued w = mset (m_runnableQueue w) + mset (m_newQueue w)"

text \<open>
  The notification protocol: the waiting flag is set while the thread sleeps, and a thread on its
  way to sleep or asleep has work only when a notification is recorded.
\<close>

definition worker_inv :: "worker_sys \<Rightarrow> bool" where
  "worker_inv s \<longleftrightarrow>
     enqueued s = taken s + stolen s + queued (ws_w s) \<and>
     (m_waiting (ws_w s) \<longleftrightarrow> ws_pc s = WAsleep) \<and>
     (ws_pc s \<in> {WCheck, WEnter, WAsleep} \<and> queued (ws_w s) \<noteq> {#} \<longrightarrow>
        m_woken (ws_w s) \<or> m_notified (ws_w s)) \<and>
     (ws_pc s \<noteq> WAsleep \<longrightarrow> \<not> m_woken (ws_w s))"

lemmas worker_defs = notifyCondition_def addTask_def addTasks_def moveRunnable_def wait_check_def
  wait_enter_def wait_leave_def queued_def

lemma popBack_split: "popBack q n = (a, b) \<Longrightarrow> b @ a = q"
  by (auto simp: popBack_def split: if_splits)

lemma steal_queued: "steal w n = (ts, w') \<Longrightarrow>
  queued w = mset ts + queued w' \<and> m_waiting w' = m_waiting w \<and> m_woken w' = m_woken w \<and>
  m_notified w' = m_notified w"
  by (auto simp: steal_def queued_def Let_def split: if_splits prod.splits dest!: popBack_split)
    (simp add: ac_simps flip: mset_append)

text \<open>What each operation does to the queued tasks and to the three flags.\<close>

lemma notify_flags:
  "queued (notifyCondition w) = queued w" "m_waiting (notifyCondition w) = m_waiting w"
  "m_woken (notifyCondition w) \<or> m_notified (notifyCondition w)"
  "\<not> m_waiting w \<Longrightarrow> m_woken (notifyCondition w) = m_woken w"
  by (simp_all add: notifyCondition_def queued_def)

lemma add_flags:
  "queued (addTask w t) = queued w + {#t#}" "m_waiting (addTask w t) = m_waiting w"
  "m_woken (addTask w t) \<or> m_notified (addTask w t)"
  "\<not> m_waiting w \<Longrightarrow> m_woken (addTask w t) = m_woken w"
  "queued (addTasks w ts) = queued w + mset ts" "m_waiting (addTasks w ts) = m_waiting w"
  "m_woken (addTasks w ts) \<or> m_notified (addTasks w ts)"
  "\<not> m_waiting w \<Longrightarrow> m_woken (addTasks w ts) = m_woken w"
  by (simp_all add: addTask_def addTasks_def notifyCondition_def queued_def)

lemma process_pop_flags:
  "process_pop me w ts = (r, w', ts') \<Longrightarrow>
   queued w = queued w' + (case r of None \<Rightarrow> {#} | Some tk \<Rightarrow> {#tk#}) \<and> m_waiting w' = m_waiting w \<and>
     m_woken w' = m_woken w"
  by (auto simp: process_pop_def queued_def split: list.splits)

lemma process_after_flags:
  "queued (process_after w ts) = queued w" "m_waiting (process_after w ts) = m_waiting w"
  "m_woken (process_after w ts) = m_woken w"
  by (simp_all add: process_after_def queued_def worker_gc_def Let_def split: option.split task_state.split)

lemma suspend_flags:
  "suspendBySelf w ts tk = Inr (e, w', ts') \<Longrightarrow> queued w' = queued w \<and> m_waiting w' = m_waiting w \<and> m_woken w' = m_woken w"
  by (auto simp: suspendBySelf_def seqE_Inr_iff queued_def Let_def)

lemma wakeup_flags:
  assumes "wakeup alive other w ts e = Inr (ok, w', ts')"
  shows "queued w' = queued w + (if ok then {#the (se_tk e)#} else {#}) \<and> m_waiting w' = m_waiting w \<and>
    (\<not> m_waiting w \<longrightarrow> m_woken w' = m_woken w) \<and>
    (m_woken w \<or> m_notified w \<longrightarrow> m_woken w' \<or> m_notified w') \<and>
    (other \<and> queued w = {#} \<and> ok \<longrightarrow> m_woken w' \<or> m_notified w')"
  using assms
  by (auto simp: wakeup_def wakeupBySelf_def seqE_Inr_iff queued_def notifyCondition_def Let_def
      split: option.splits if_splits)

lemma worker_step_inv: "worker_step s t \<Longrightarrow> worker_inv s \<Longrightarrow> worker_inv t"
proof (induction rule: worker_step.induct)
  case (w_none s w ts)
  then show ?case using process_pop_flags[of 0 "ws_w s" "ws_ts s" None w ts]
    by (simp add: worker_inv_def)
next
  case (w_pop s tk w ts)
  then show ?case using process_pop_flags[of 0 "ws_w s" "ws_ts s" "Some tk" w ts]
    by (simp add: worker_inv_def)
next
  case (w_suspend s tk e w ts)
  then show ?case using suspend_flags[of "ws_w s" "ws_ts s" tk e w ts]
    by (simp add: worker_inv_def)
next
  case (w_yield s ts)
  then show ?case by (simp add: worker_inv_def process_after_flags)
next
  case (w_move s w)
  then show ?case by (auto simp: worker_inv_def moveRunnable_def queued_def)
next
  case (w_check s wait w)
  then show ?case by (auto simp: worker_inv_def wait_check_def queued_def split: if_splits)
next
  case (w_enter s)
  then show ?case by (auto simp: worker_inv_def wait_enter_def queued_def)
next
  case (w_wake s spurious)
  then show ?case by (auto simp: worker_inv_def wait_leave_def queued_def)
next
  case (c_add s t)
  then show ?case by (auto simp: worker_inv_def add_flags)
next
  case (c_adds s ts)
  then show ?case by (auto simp: worker_inv_def add_flags)
next
  case (c_wakeup alive s e ok w ts)
  note f = wakeup_flags[OF c_wakeup(1)]
  show ?case using f c_wakeup(2) by (cases ok; cases "queued (ws_w s) = {#}") (auto simp: worker_inv_def)
next
  case (c_steal s n ts w)
  note f = steal_queued[OF c_steal(1)]
  show ?case using f c_steal(2) by (auto simp: worker_inv_def)
next
  case (c_notify s)
  then show ?case by (auto simp: worker_inv_def notify_flags)
next
  case (c_shutdown s)
  then show ?case by (auto simp: worker_inv_def notify_flags)
qed (auto simp: worker_inv_def)

interpretation wrk: invariant_machine worker_init worker_step worker_inv
proof
  show "worker_init s \<Longrightarrow> worker_inv s" for s
    by (simp add: worker_init_def worker_start_def worker_inv_def new_worker_def queued_def)
  show "worker_inv s \<Longrightarrow> worker_step s t \<Longrightarrow> worker_inv t" for s t by (rule worker_step_inv)
qed

section \<open>The properties\<close>



text \<open>The second half of that is not enough: \<open>waitCondition\<close> looks at \<open>m_notified\<close> under the
  lock of the run queue while \<open>addTask\<close> sets it under the lock of the new queue, so a task can
  arrive after the look and before \<open>m_waiting\<close> is set; the thread then sleeps with work in its
  queue and nobody has woken it.  The same holds for the notification of a shutdown.\<close>

theorem worker_lost_wakeup:
  "(\<exists>s. reach worker_init worker_step s \<and> ws_pc s = WAsleep \<and> m_newQueue (ws_w s) = [5] \<and>
      \<not> m_woken (ws_w s)) \<and>
   (\<exists>s. reach worker_init worker_step s \<and> ws_pc s = WAsleep \<and> ws_shutdown s \<and> \<not> m_woken (ws_w s))"
proof -
  let ?e = "worker_start\<lparr>ws_pc := WEnter\<rparr>"
  have "reach worker_init worker_step worker_start" by (rule reach_init) (simp add: worker_init_def)
  moreover have "worker_step worker_start (worker_start\<lparr>ws_pc := WMove\<rparr>)"
    using w_none[of worker_start new_worker "\<lambda>_. new_task"]
    by (simp add: worker_start_def process_pop_def new_worker_def)
  ultimately have "reach worker_init worker_step (worker_start\<lparr>ws_pc := WMove\<rparr>)" by (rule reach_step)
  moreover have "worker_step (worker_start\<lparr>ws_pc := WMove\<rparr>) (worker_start\<lparr>ws_pc := WCheck\<rparr>)"
    using w_move[of "worker_start\<lparr>ws_pc := WMove\<rparr>" new_worker]
    by (simp add: worker_start_def moveRunnable_def new_worker_def)
  ultimately have "reach worker_init worker_step (worker_start\<lparr>ws_pc := WCheck\<rparr>)" by (rule reach_step)
  moreover have "worker_step (worker_start\<lparr>ws_pc := WCheck\<rparr>) ?e"
    using w_check[of "worker_start\<lparr>ws_pc := WCheck\<rparr>" True new_worker]
    by (simp add: worker_start_def wait_check_def new_worker_def)
  ultimately have e: "reach worker_init worker_step ?e" by (rule reach_step)
  let ?a = "?e\<lparr>ws_w := addTask new_worker 5, enqueued := {#5#}\<rparr>"
  have "worker_step ?e ?a" using c_add[of ?e 5] by (simp add: worker_start_def)
  with e have a: "reach worker_init worker_step ?a" by (rule reach_step)
  have "worker_step ?a (?a\<lparr>ws_w := wait_enter (addTask new_worker 5), ws_pc := WAsleep\<rparr>)"
    using w_enter[of ?a] by simp
  with a have "reach worker_init worker_step (?a\<lparr>ws_w := wait_enter (addTask new_worker 5), ws_pc := WAsleep\<rparr>)"
    by (rule reach_step)
  moreover have "m_newQueue (wait_enter (addTask new_worker 5)) = [5]"
    by (simp add: wait_enter_def addTask_def notifyCondition_def new_worker_def)
  ultimately have one: "\<exists>s. reach worker_init worker_step s \<and> ws_pc s = WAsleep \<and> m_newQueue (ws_w s) = [5] \<and>
      \<not> m_woken (ws_w s)"
    by (intro exI[of _ "?a\<lparr>ws_w := wait_enter (addTask new_worker 5), ws_pc := WAsleep\<rparr>"])
      (simp add: wait_enter_def)
  let ?d = "?e\<lparr>ws_shutdown := True, ws_w := notifyCondition new_worker\<rparr>"
  have "worker_step ?e ?d" using c_shutdown[of ?e] by (simp add: worker_start_def)
  with e have d: "reach worker_init worker_step ?d" by (rule reach_step)
  have "worker_step ?d (?d\<lparr>ws_w := wait_enter (notifyCondition new_worker), ws_pc := WAsleep\<rparr>)"
    using w_enter[of ?d] by simp
  with d have "reach worker_init worker_step (?d\<lparr>ws_w := wait_enter (notifyCondition new_worker), ws_pc := WAsleep\<rparr>)"
    by (rule reach_step)
  then have "\<exists>s. reach worker_init worker_step s \<and> ws_pc s = WAsleep \<and> ws_shutdown s \<and> \<not> m_woken (ws_w s)"
    by (intro exI[of _ "?d\<lparr>ws_w := wait_enter (notifyCondition new_worker), ws_pc := WAsleep\<rparr>"])
      (simp add: wait_enter_def)
  with one show ?thesis by blast
qed

text \<open>An entry given by \<open>suspendBySelf\<close> wakes its task exactly once: the first \<open>wakeup\<close> moves
  the task from the wait queue to the run queue, and from then on the entry is expired and a
  second \<open>wakeup\<close> with it does nothing.\<close>

theorem entry_wakes_once:
  assumes "suspendBySelf w ts tk = Inr (e, w1, ts1)" "alive tk" "tk_worker (ts tk) = Some me"
    "tk \<notin> set (m_waitQueue w)"
  shows "\<not> isExpire alive ts1 e \<and>
    (\<exists>w2 ts2. wakeup alive other w1 ts1 e = Inr (True, w2, ts2) \<and>
      m_waitQueue w2 = m_waitQueue w \<and> m_runnableQueue w2 = m_runnableQueue w @ [tk] \<and>
      isExpire alive ts2 e \<and> wakeup alive other w2 ts2 e = Inr (False, w2, ts2))"
  using assms
  by (auto simp: suspendBySelf_def seqE_Inr_iff isExpire_def wakeup_def wakeupBySelf_def Let_def
      notifyCondition_def remove1_append)

theorem entry_wakes_once_witness:
  "\<exists>e w1 ts1. suspendBySelf (new_worker\<lparr>m_runnable := Some 5\<rparr>) (\<lambda>_. new_task\<lparr>tk_worker := Some 0\<rparr>) 5 = Inr (e, w1, ts1) \<and>
     (\<exists>w2 ts2. wakeup (\<lambda>_. True) True w1 ts1 e = Inr (True, w2, ts2) \<and> m_runnableQueue w2 = [5])"
proof -
  let ?w = "new_worker\<lparr>m_runnable := Some 5\<rparr>" and ?ts = "\<lambda>_. new_task\<lparr>tk_worker := Some 0\<rparr>"
  obtain e w1 ts1 where s: "suspendBySelf ?w ?ts 5 = Inr (e, w1, ts1)"
    by (simp add: suspendBySelf_def new_task_def Let_def)
  from entry_wakes_once[OF s, of "\<lambda>_. True" 0 True] s show ?thesis
    by (auto simp: new_worker_def)
qed

end
