(* ===== verification/ActorComponent.thy ===== *)
theory ActorComponent
  imports ActorMail Worker
begin

text \<open>
  The component of an actor (\<open>engine/src/module/actorComponent.cc\<close>, \<open>.h\<close>): its table of message
  protocols, the sessions of suspended coroutines and of timers, and the dispatch of one
  message.  What a dispatch does to the rest of the system is a list of actions in order; the
  virtual functions and the callbacks are parameters.  A suspended coroutine is the number of
  its task; whether the task still lives and its state come from the scheduler, so they are
  parameters of the dispatch too.
\<close>

section \<open>State\<close>

record 'f co_entry =
  co_id :: "64 word"
  co_task :: "nat option"
  co_func :: "'f option"

record 'd protocol =
  p_msgId :: "8 word"
  p_dispatch :: "'d option"
  p_pack :: "'d option"
  p_unpack :: "'d option"

record ('d, 'f) component =
  m_session :: int
  m_proto :: "'d protocol list"
  m_suspedSession :: "int \<rightharpoonup> 'f co_entry"
  m_suspedSleep :: "64 word \<rightharpoonup> int"

definition new_component :: "('d, 'f) component" where
  "new_component = \<lparr>m_session = 0, m_proto = [], m_suspedSession = Map.empty, m_suspedSleep = Map.empty\<rparr>"

text \<open>The destructor asserts that no session is suspended.\<close>

definition component_destroy :: "('d, 'f) component \<Rightarrow> ('d, 'f) component res" where
  "component_destroy c =
     seqE (checkE (m_suspedSession c = Map.empty) AssertFail) (\<lambda>_. Inr (c\<lparr>m_proto := []\<rparr>))"

definition getSuspedSize :: "('d, 'f) component \<Rightarrow> nat" where
  "getSuspedSize c = card (dom (m_suspedSession c)) + card (dom (m_suspedSleep c))"

section \<open>Sessions\<close>

text \<open>\<open>++m_session\<close> on a signed 32-bit integer; the test for wrap-around comes after it.\<close>

definition genSession :: "('d, 'f) component \<Rightarrow> (int \<times> ('d, 'f) component) res" where
  "genSession c =
     (if m_session c = 2 ^ 31 - 1 then Inl SignedOverflow
      else let session = m_session c + 1
           in if session \<le> 0 then Inr (1, c\<lparr>m_session := 1\<rparr>)
              else Inr (session, c\<lparr>m_session := session\<rparr>))"

definition getSusped :: "('d, 'f) component \<Rightarrow> int \<Rightarrow> 'f co_entry option" where
  "getSusped c session = m_suspedSession c session"

definition insertSusped :: "('d, 'f) component \<Rightarrow> int \<Rightarrow> 'f co_entry \<Rightarrow> bool \<times> ('d, 'f) component" where
  "insertSusped c session co =
     (if m_suspedSession c session \<noteq> None then (False, c)
      else (True, c\<lparr>m_suspedSession := (m_suspedSession c)(session \<mapsto> co)\<rparr>))"

definition removeSusped :: "('d, 'f) component \<Rightarrow> int \<Rightarrow> ('d, 'f) component" where
  "removeSusped c session = c\<lparr>m_suspedSession := (m_suspedSession c)(session := None)\<rparr>"

definition getSleepSusped :: "('d, 'f) component \<Rightarrow> 'f co_entry \<Rightarrow> int" where
  "getSleepSusped c co = (case m_suspedSleep c (co_id co) of None \<Rightarrow> -1 | Some s \<Rightarrow> s)"

definition insertSleepSusped :: "('d, 'f) component \<Rightarrow> int \<Rightarrow> 'f co_entry \<Rightarrow> ('d, 'f) component" where
  "insertSleepSusped c session co = c\<lparr>m_suspedSleep := (m_suspedSleep c)(co_id co \<mapsto> session)\<rparr>"

definition removeSleepSusped :: "('d, 'f) component \<Rightarrow> 64 word \<Rightarrow> ('d, 'f) component" where
  "removeSleepSusped c i = c\<lparr>m_suspedSleep := (m_suspedSleep c)(i := None)\<rparr>"

text \<open>\<open>suspendSleep\<close> up to the yield, which it reaches when the result is true.\<close>

definition suspendSleep :: "('d, 'f) component \<Rightarrow> int \<Rightarrow> 'f co_entry \<Rightarrow> bool \<times> ('d, 'f) component" where
  "suspendSleep c session co =
     (let (ok, c') = insertSusped c session co
      in if ok then (True, insertSleepSusped c' session co) else (False, c))"

text \<open>\<open>doWait\<close> before the yield, with the session, and after it.\<close>

definition doWait_begin :: "('d, 'f) component \<Rightarrow> 'f co_entry \<Rightarrow> (bool \<times> int \<times> ('d, 'f) component) res" where
  "doWait_begin c co =
     seqE (genSession c) (\<lambda>(session, c'). let (ok, c'') = suspendSleep c' session co in Inr (ok, session, c''))"

definition doWait_end :: "('d, 'f) component \<Rightarrow> int \<Rightarrow> 'f co_entry \<Rightarrow> ('d, 'f) component" where
  "doWait_end c session co = removeSusped (removeSleepSusped c (co_id co)) session"

text \<open>\<open>doWakeup\<close>: whether the coroutine was asleep, and then its task is woken.\<close>

definition doWakeup :: "('d, 'f) component \<Rightarrow> 'f co_entry \<Rightarrow> bool" where
  "doWakeup c co \<longleftrightarrow> getSleepSusped c co \<noteq> -1"

text \<open>\<open>doTimeout\<close>: the session the timer is set for, or \<open>None\<close> after the error message.\<close>

definition doTimeout ::
    "('d, 'f) component \<Rightarrow> 64 word \<Rightarrow> 'f \<Rightarrow> (int option \<times> ('d, 'f) component) res" where
  "doTimeout c i f =
     seqE (genSession c) (\<lambda>(session, c').
       let (ok, c'') = insertSusped c' session \<lparr>co_id = i, co_task = None, co_func = Some f\<rparr>
       in Inr (if ok then (Some session, c'') else (None, c'')))"

section \<open>Protocols\<close>

fun find_proto :: "'d protocol list \<Rightarrow> int \<Rightarrow> 'd protocol option" where
  "find_proto [] msgId = None"
| "find_proto (p # ps) msgId = (if sint (p_msgId p) = msgId then Some p else find_proto ps msgId)"

definition getProtocol :: "('d, 'f) component \<Rightarrow> int \<Rightarrow> 'd protocol option" where
  "getProtocol c msgId = find_proto (m_proto c) msgId"

text \<open>The first entry with the identifier is overwritten in place.\<close>

fun replace_proto :: "'d protocol list \<Rightarrow> 'd protocol \<Rightarrow> 'd protocol list" where
  "replace_proto [] p = []"
| "replace_proto (q # qs) p = (if p_msgId q = p_msgId p then p # qs else q # replace_proto qs p)"

definition doRegisterProtocol :: "('d, 'f) component \<Rightarrow> 'd protocol \<Rightarrow> ('d, 'f) component" where
  "doRegisterProtocol c p =
     (case getProtocol c (sint (p_msgId p)) of
        Some _ \<Rightarrow> c\<lparr>m_proto := replace_proto (m_proto c) p\<rparr>
      | None \<Rightarrow> c\<lparr>m_proto := m_proto c @ [p]\<rparr>)"

text \<open>The message identifiers of \<open>message.h\<close>.\<close>

definition M_ID_ERROR :: int where "M_ID_ERROR = 1"
definition M_ID_TIMEOUT :: int where "M_ID_TIMEOUT = 2"
definition M_ID_RESOUE :: int where "M_ID_RESOUE = 3"
definition M_ID_QUIT :: int where "M_ID_QUIT = 6"

definition component_doInit :: "'d \<Rightarrow> 'd \<Rightarrow> ('d, 'f) component \<Rightarrow> ('d, 'f) component" where
  "component_doInit errDispatch errUnPack c =
     doRegisterProtocol
       (doRegisterProtocol c \<lparr>p_msgId = 3, p_dispatch = None, p_pack = None, p_unpack = None\<rparr>)
       \<lparr>p_msgId = 1, p_dispatch = Some errDispatch, p_pack = None, p_unpack = Some errUnPack\<rparr>"

text \<open>What \<open>doSend\<close> does: an error line, or the packed data to send.\<close>

datatype send_result = NoProtocol | NoPack | SendPacked "8 word list option \<times> 64 word"

definition doSend_pack ::
    "('d \<Rightarrow> 8 word list option \<times> 64 word) \<Rightarrow> ('d, 'f) component \<Rightarrow> int \<Rightarrow> send_result" where
  "doSend_pack pack c msgId =
     (case getProtocol c msgId of
        None \<Rightarrow> NoProtocol
      | Some p \<Rightarrow> (case p_pack p of None \<Rightarrow> NoPack | Some f \<Rightarrow> SendPacked (pack f)))"

section \<open>Dispatch\<close>

datatype ('d, 'f) action =
    UnknownResponse int "32 word"
  | UnknownRequest int int "32 word"
  | Wakeup "nat option"
  | RunFunc 'f
  | UnRegister "32 word"
  | SendError "32 word" int
  | CallDispatch 'd int "32 word"
  | LogError "32 word"

text \<open>How a dispatch ends: \<open>return 0\<close>, or the end of the function without a return.\<close>

datatype ending = Returns | NoReturn

text \<open>\<open>std::string(msg, sz)\<close> throws for a null pointer with a size.\<close>

definition text_ok :: "message \<Rightarrow> bool" where
  "text_ok msg \<longleftrightarrow> msg_data msg \<noteq> None \<or> getMessageSize msg = 0"

definition unknownRequest :: "message \<Rightarrow> ('d, 'f) action list res" where
  "unknownRequest msg =
     seqE (checkE (text_ok msg) ExitProcess) (\<lambda>_.
       Inr [UnknownRequest (getMessageId msg) (sint (msg_session msg)) (msg_src msg)])"

definition unknownResponse :: "message \<Rightarrow> ('d, 'f) action list res" where
  "unknownResponse msg =
     seqE (checkE (text_ok msg) ExitProcess) (\<lambda>_.
       Inr [UnknownResponse (sint (msg_session msg)) (msg_src msg)])"

definition unknownDispatch :: "message \<Rightarrow> ('d, 'f) action list res" where
  "unknownDispatch msg =
     (if msg_session msg \<noteq> 0 then Inr [SendError (msg_src msg) (sint (msg_session msg))]
      else unknownRequest msg)"

definition dispatch_resoue ::
    "(nat \<Rightarrow> task_state option) \<Rightarrow> ('d, 'f) component \<Rightarrow> message \<Rightarrow> (('d, 'f) component \<times> ('d, 'f) action list) res" where
  "dispatch_resoue tstate c msg =
     (let session = sint (msg_session msg) in
      case getSusped c session of
        None \<Rightarrow> seqE (unknownResponse msg) (\<lambda>as. Inr (c, as))
      | Some co \<Rightarrow>
          (case Option.bind (co_task co) tstate of
             None \<Rightarrow> seqE (unknownResponse msg) (\<lambda>as. Inr (removeSusped c session, as))
           | Some st \<Rightarrow>
               if st = Runnable \<or> st = Done then Inr (removeSusped c session, [])
               else Inr (removeSusped c session, [Wakeup (co_task co)])))"

definition dispatch_timeout ::
    "('f \<Rightarrow> ('d, 'f) component \<Rightarrow> ('d, 'f) component) \<Rightarrow> ('d, 'f) component \<Rightarrow> message \<Rightarrow>
     (('d, 'f) component \<times> ('d, 'f) action list) res" where
  "dispatch_timeout run c msg =
     (let session = sint (msg_session msg) in
      case Option.bind (getSusped c session) co_func of
        None \<Rightarrow> seqE (unknownResponse msg) (\<lambda>as. Inr (c, as))
      | Some f \<Rightarrow> Inr (removeSusped (run f c) session, [RunFunc f]))"

definition dispatch_other :: "('d, 'f) component \<Rightarrow> message \<Rightarrow> (ending \<times> ('d, 'f) action list) res" where
  "dispatch_other c msg =
     (case getProtocol c (getMessageId msg) of
        None \<Rightarrow>
          if msg_session msg \<noteq> 0 then Inr (Returns, [SendError (msg_src msg) (sint (msg_session msg))])
          else seqE (unknownRequest msg) (\<lambda>as. Inr (Returns, as))
      | Some p \<Rightarrow>
          (case p_dispatch p of
             Some f \<Rightarrow>
               seqE (checkE (p_unpack p \<noteq> None) NullDeref) (\<lambda>_.
                 Inr (NoReturn, [CallDispatch f (sint (msg_session msg)) (msg_src msg)]))
           | None \<Rightarrow> seqE (unknownDispatch msg) (\<lambda>as. Inr (NoReturn, as))))"

definition dispatchMessage ::
    "(nat \<Rightarrow> task_state option) \<Rightarrow> ('f \<Rightarrow> ('d, 'f) component \<Rightarrow> ('d, 'f) component) \<Rightarrow>
     ('d, 'f) component \<Rightarrow> message \<Rightarrow> (ending \<times> ('d, 'f) component \<times> ('d, 'f) action list) res" where
  "dispatchMessage tstate run c msg =
     (if getMessageId msg = M_ID_RESOUE then
        seqE (dispatch_resoue tstate c msg) (\<lambda>(c', as). Inr (Returns, c', as))
      else if getMessageId msg = M_ID_TIMEOUT then
        seqE (dispatch_timeout run c msg) (\<lambda>(c', as). Inr (Returns, c', as))
      else if getMessageId msg = M_ID_QUIT then Inr (Returns, c, [UnRegister (msg_dst msg)])
      else seqE (dispatch_other c msg) (\<lambda>(e, as). Inr (e, c, as)))"

text \<open>
  \<open>errorDispatch\<close>, the handler of \<open>M_ID_ERROR\<close>, with the message text of the unpacked result.
  Without a suspended session the text is compared with the empty string; a null text is an
  access through a null pointer.
\<close>

definition errorDispatch ::
    "('d, 'f) component \<Rightarrow> int \<Rightarrow> 32 word \<Rightarrow> 8 word list option \<Rightarrow> (('d, 'f) component \<times> ('d, 'f) action list) res" where
  "errorDispatch c session src data =
     (case getSusped c session of
        None \<Rightarrow>
          (case data of
             None \<Rightarrow> Inl NullDeref
           | Some bs \<Rightarrow> if c_string bs \<noteq> [] then Inr (c, [LogError src]) else Inr (c, []))
      | Some co \<Rightarrow>
          Inr (removeSusped (removeSleepSusped c (co_id co)) session, [Wakeup (co_task co)]))"

section \<open>Keyed tables\<close>

lemma sint_8_eq: "sint (a :: 8 word) = sint b \<longleftrightarrow> a = b"
proof
  assume "sint a = sint b"
  then have "(of_int (sint a) :: 8 word) = of_int (sint b)" by simp
  then show "a = b" by simp
qed simp

lemma find_proto_append:
  "find_proto (ps @ [p]) i =
     (case find_proto ps i of Some q \<Rightarrow> Some q | None \<Rightarrow> if sint (p_msgId p) = i then Some p else None)"
  by (induction ps) auto

lemma find_proto_replace:
  "find_proto ps (sint (p_msgId p)) \<noteq> None \<Longrightarrow>
   find_proto (replace_proto ps p) i = (if i = sint (p_msgId p) then Some p else find_proto ps i)"
  by (induction ps) (auto simp: sint_8_eq)

interpretation proto: keyed_table
  "getProtocol :: ('d, 'f) component \<Rightarrow> int \<Rightarrow> 'd protocol option" doRegisterProtocol "\<lambda>p. sint (p_msgId p)"
proof
  fix c :: "('d, 'f) component" and p i
  show "getProtocol (doRegisterProtocol c p) i = (if i = sint (p_msgId p) then Some p else getProtocol c i)"
    by (auto simp: getProtocol_def doRegisterProtocol_def find_proto_append
        find_proto_replace[of "m_proto c" p] split: option.splits)
qed

definition add_session :: "('d, 'f) component \<Rightarrow> int \<times> 'f co_entry \<Rightarrow> ('d, 'f) component" where
  "add_session c e = snd (insertSusped (removeSusped c (fst e)) (fst e) (snd e))"

interpretation sess: keyed_table
  "\<lambda>(c :: ('d, 'f) component) s. map_option (Pair s) (getSusped c s)" add_session fst
  by unfold_locales (auto simp: add_session_def getSusped_def insertSusped_def removeSusped_def)

section \<open>The session invariant\<close>

text \<open>Every live session was generated, so the next one is new until the counter overflows.\<close>

definition sess_inv :: "('d, 'f) component \<Rightarrow> bool" where
  "sess_inv c \<longleftrightarrow> 0 \<le> m_session c \<and> m_session c < 2 ^ 31 \<and>
     (\<forall>s \<in> dom (m_suspedSession c). 0 < s \<and> s \<le> m_session c) \<and>
     (\<forall>i s. m_suspedSleep c i = Some s \<longrightarrow> 0 < s)"

lemmas session_defs = genSession_def suspendSleep_def insertSusped_def insertSleepSusped_def
  removeSusped_def removeSleepSusped_def getSusped_def getSleepSusped_def doWait_begin_def
  doWait_end_def doWakeup_def Let_def

lemma new_component_inv [simp]: "sess_inv new_component"
  by (simp add: sess_inv_def new_component_def)

lemma genSession_fresh:
  assumes "sess_inv c" "m_session c < 2 ^ 31 - 1"
  shows "genSession c = Inr (m_session c + 1, c\<lparr>m_session := m_session c + 1\<rparr>)"
    "m_suspedSession c (m_session c + 1) = None"
proof -
  show "genSession c = Inr (m_session c + 1, c\<lparr>m_session := m_session c + 1\<rparr>)"
    using assms by (auto simp: genSession_def sess_inv_def Let_def)
  show "m_suspedSession c (m_session c + 1) = None"
    using assms(1) unfolding sess_inv_def dom_def
    by (cases "m_suspedSession c (m_session c + 1)") fastforce+
qed

lemma removeSusped_inv: "sess_inv c \<Longrightarrow> sess_inv (removeSusped c s)"
  by (auto simp: sess_inv_def removeSusped_def)

lemma removeSleepSusped_inv: "sess_inv c \<Longrightarrow> sess_inv (removeSleepSusped c i)"
  by (auto simp: sess_inv_def removeSleepSusped_def)

lemma sess_inv_insert:
  assumes "sess_inv c" "m_session c < 2 ^ 31 - 1"
  shows "sess_inv (c\<lparr>m_session := m_session c + 1,
    m_suspedSession := (m_suspedSession c)(m_session c + 1 \<mapsto> co)\<rparr>)"
proof -
  have a: "0 \<le> m_session c" "\<forall>i s. m_suspedSleep c i = Some s \<longrightarrow> 0 < s"
    "\<And>s. s \<in> dom (m_suspedSession c) \<Longrightarrow> 0 < s \<and> s \<le> m_session c"
    using assms(1) unfolding sess_inv_def by blast+
  have "0 < s \<and> s \<le> m_session c + 1" if "s \<in> dom ((m_suspedSession c)(m_session c + 1 \<mapsto> co))" for s
  proof (cases "s = m_session c + 1")
    case False
    then have "s \<in> dom (m_suspedSession c)" using that by (simp add: dom_def)
    from a(3)[OF this] show ?thesis by linarith
  qed (use a(1) in linarith)
  then show ?thesis unfolding sess_inv_def using a(1,2) assms(2) by (simp del: dom_fun_upd)
qed

lemma doTimeout_inv:
  assumes "sess_inv c" "m_session c < 2 ^ 31 - 1"
  shows "\<exists>c'. doTimeout c i f = Inr (Some (m_session c + 1), c') \<and> sess_inv c'"
  using genSession_fresh[OF assms] sess_inv_insert[OF assms]
  by (simp add: doTimeout_def insertSusped_def Let_def)

lemma dispatch_inv:
  assumes inv: "sess_inv c" and run: "\<And>f c. sess_inv c \<Longrightarrow> sess_inv (run f c)"
    and d: "dispatchMessage tst run c msg = Inr (e, c', as)"
  shows "sess_inv c'"
  using d inv run removeSusped_inv[of c] removeSusped_inv[OF run[OF inv]]
  by (auto simp: dispatchMessage_def dispatch_resoue_def dispatch_timeout_def Let_def seqE_Inr_iff
      split: if_splits option.splits)

section \<open>The properties\<close>

text \<open>Of the protocols registered for an identifier the last one is found, and a protocol
  registered before keeps its place for every other identifier.\<close>

theorem last_registered_protocol:
  "getProtocol (foldl doRegisterProtocol c ps) i =
     (case last_opt (filter (\<lambda>p. sint (p_msgId p) = i) ps) of
        Some p \<Rightarrow> Some p
      | None \<Rightarrow> getProtocol c i)"
  by (rule proto.look_foldl_put)

text \<open>A coroutine that waits gets a session no other suspended one has, \<open>doWakeup\<close> finds it
  while it waits, and when it goes on both tables are what they were before.\<close>

theorem wait_roundtrip:
  assumes "sess_inv c" "m_session c < 2 ^ 31 - 1" "m_suspedSleep c (co_id co) = None"
  shows "\<exists>c'. doWait_begin c co = Inr (True, m_session c + 1, c') \<and> sess_inv c' \<and>
    getSusped c (m_session c + 1) = None \<and> getSusped c' (m_session c + 1) = Some co \<and> doWakeup c' co \<and>
    m_suspedSession (doWait_end c' (m_session c + 1) co) = m_suspedSession c \<and>
    m_suspedSleep (doWait_end c' (m_session c + 1) co) = m_suspedSleep c \<and>
    \<not> doWakeup (doWait_end c' (m_session c + 1) co) co"
proof -
  note g = genSession_fresh[OF assms(1,2)]
  let ?c = "c\<lparr>m_session := m_session c + 1,
    m_suspedSession := (m_suspedSession c)(m_session c + 1 \<mapsto> co),
    m_suspedSleep := (m_suspedSleep c)(co_id co \<mapsto> m_session c + 1)\<rparr>"
  have b: "doWait_begin c co = Inr (True, m_session c + 1, ?c)"
    using g by (simp add: doWait_begin_def suspendSleep_def insertSusped_def insertSleepSusped_def)
  have "sess_inv ?c" using sess_inv_insert[OF assms(1,2), of co] by (auto simp: sess_inv_def)
  moreover have "0 \<le> m_session c" using assms(1) by (simp add: sess_inv_def)
  ultimately show ?thesis using b g(2) assms(3)
    by (auto simp: session_defs fun_upd_idem)
qed

theorem wait_roundtrip_witness:
  "\<exists>c'. doWait_begin (new_component :: (unit, unit) component)
       \<lparr>co_id = 5, co_task = Some 3, co_func = None\<rparr> = Inr (True, 1, c') \<and> sess_inv c'"
  using wait_roundtrip[of "new_component :: (unit, unit) component" "\<lparr>co_id = 5, co_task = Some 3, co_func = None\<rparr>"]
  by (auto simp: new_component_def sess_inv_def)

text \<open>A resume message for a blocked coroutine wakes exactly its task and ends its session,
  leaving every other session alone; the same message once more wakes nothing.\<close>

theorem resume_wakes_once:
  assumes "getMessageId msg = M_ID_RESOUE" "getSusped c (sint (msg_session msg)) = Some co"
    "co_task co = Some t" "tst t = Some Block" "text_ok msg"
  shows "\<exists>c'. dispatchMessage tst run c msg = Inr (Returns, c', [Wakeup (Some t)]) \<and>
    (\<forall>s. getSusped c' s = (if s = sint (msg_session msg) then None else getSusped c s)) \<and>
    dispatchMessage tst run c' msg =
      Inr (Returns, c', [UnknownResponse (sint (msg_session msg)) (msg_src msg)])"
  using assms
  by (auto simp: dispatchMessage_def dispatch_resoue_def unknownResponse_def removeSusped_def
      getSusped_def Let_def)

definition resume_message :: message where
  "resume_message = \<lparr>msg_src = 1, msg_dst = 2, msg_session = 1, msg_data = None, msg_ext = [3, 0, 0, 0, 0]\<rparr>"

theorem resume_wakes_once_witness:
  "\<exists>c'. dispatchMessage (\<lambda>_. Some Block) (\<lambda>_ c. c)
      ((new_component :: (unit, unit) component)\<lparr>m_suspedSession := [1 \<mapsto> \<lparr>co_id = 5, co_task = Some 3, co_func = None\<rparr>]\<rparr>)
      resume_message = Inr (Returns, c', [Wakeup (Some 3)])"
proof -
  let ?c = "(new_component :: (unit, unit) component)\<lparr>m_suspedSession := [1 \<mapsto> \<lparr>co_id = 5, co_task = Some 3, co_func = None\<rparr>]\<rparr>"
  have i: "getMessageId resume_message = M_ID_RESOUE" "text_ok resume_message"
    by (simp_all add: resume_message_def getMessageId_def M_ID_RESOUE_def text_ok_def
        getMessageSize_def of_le32_def)
  have g: "getSusped ?c (sint (msg_session resume_message)) = Some \<lparr>co_id = 5, co_task = Some 3, co_func = None\<rparr>"
    by (simp add: getSusped_def resume_message_def)
  show ?thesis using resume_wakes_once[OF i(1) g, of 3 "\<lambda>_. Some Block" "\<lambda>_ c. c"] i(2) by auto
qed

text \<open>Whatever message is dispatched, live sessions stay sessions that were generated, so a
  new session never collides with one of them.\<close>

theorem dispatch_keeps_sessions_fresh:
  assumes "sess_inv c" "\<And>f c. sess_inv c \<Longrightarrow> sess_inv (run f c)"
    "dispatchMessage tst run c msg = Inr (e, c', as)" "m_session c' < 2 ^ 31 - 1"
  shows "\<exists>c''. genSession c' = Inr (m_session c' + 1, c'') \<and> getSusped c' (m_session c' + 1) = None"
  using genSession_fresh[OF dispatch_inv[OF assms(1-3)] assms(4)] by (simp add: getSusped_def)

theorem dispatch_keeps_sessions_fresh_witness:
  "\<exists>c''. genSession (new_component :: (unit, unit) component) = Inr (1, c'')"
proof -
  let ?m = "resume_message\<lparr>msg_ext := [6, 0, 0, 0, 0]\<rparr>"
  have "dispatchMessage (\<lambda>_. None) (\<lambda>_ c. c) (new_component :: (unit, unit) component) ?m =
      Inr (Returns, new_component, [UnRegister 2])"
    by (simp add: dispatchMessage_def getMessageId_def resume_message_def M_ID_RESOUE_def
        M_ID_TIMEOUT_def M_ID_QUIT_def)
  from dispatch_keeps_sessions_fresh[OF new_component_inv _ this] show ?thesis
    by (simp add: new_component_def)
qed

end
