(* ===== verification/Scheduler.thy ===== *)
theory Scheduler
  imports Worker
begin

text \<open>
  The coroutine scheduler (\<open>engine/src/operation/scheduler.cc\<close>, \<open>.h\<close>): starting and stopping the
  workers, creating tasks, and the rounds of the dispatcher thread that moves tasks from busy to
  idle workers.  A worker is named by its index in \<open>m_works\<close>.  A \<open>std::multimap\<close> from loads to
  workers is the list of its entries in order.  One round is modelled as one function: the
  dispatcher takes the lock of one queue at a time, and the interleaving of a single worker
  with its clients is the machine of theory Worker.
\<close>

section \<open>The scheduler\<close>

record scheduler =
  m_works :: "worker list"
  m_taskCount :: "32 word"
  m_maxThreadNumber :: int
  m_shutdown_flag :: bool
  m_started :: bool
  m_dispatcher :: bool
  m_idFactory :: "64 word"

definition new_scheduler :: scheduler where
  "new_scheduler = \<lparr>m_works = [], m_taskCount = 0, m_maxThreadNumber = 1, m_shutdown_flag = False,
     m_started = False, m_dispatcher = False, m_idFactory = 0\<rparr>"

definition newWorker :: "scheduler \<Rightarrow> scheduler" where
  "newWorker s = s\<lparr>m_works := m_works s @ [new_worker]\<rparr>"

text \<open>
  \<open>doStart\<close>: a second call while one is running throws, which is the exit of the process here.
  \<open>cores\<close> is the number of the hardware threads.
\<close>

definition scheduler_doStart :: "int \<Rightarrow> int \<Rightarrow> scheduler \<Rightarrow> scheduler res" where
  "scheduler_doStart cores threadNumber s =
     (if m_started s then Inl ExitProcess
      else let n = (if threadNumber < 1 then cores else threadNumber);
               s' = (newWorker ^^ nat n) (s\<lparr>m_maxThreadNumber := n\<rparr>)
           in Inr (s'\<lparr>m_dispatcher := n > 1\<rparr>))"

definition scheduler_doShutdown :: "scheduler \<Rightarrow> scheduler" where
  "scheduler_doShutdown s = s\<lparr>m_shutdown_flag := True, m_works := map notifyCondition (m_works s)\<rparr>"

text \<open>\<open>addTask\<close>: to the worker of the caller when it is not busy, else to a random one.\<close>

definition scheduler_addTask ::
    "64 word \<Rightarrow> 64 word \<Rightarrow> nat option \<Rightarrow> nat \<Rightarrow> scheduler \<Rightarrow> nat \<Rightarrow> scheduler" where
  "scheduler_addTask timeout now current rnd s t =
     (case current of
        Some i \<Rightarrow>
          if \<not> isBusy timeout now (m_works s ! i)
          then s\<lparr>m_works := (m_works s)[i := addTask (m_works s ! i) t]\<rparr>
          else s\<lparr>m_works := (m_works s)[rnd mod length (m_works s) :=
                 addTask (m_works s ! (rnd mod length (m_works s))) t]\<rparr>
      | None \<Rightarrow> s\<lparr>m_works := (m_works s)[rnd mod length (m_works s) :=
                 addTask (m_works s ! (rnd mod length (m_works s))) t]\<rparr>)"

text \<open>\<open>createTask\<close> with the address \<open>t\<close> of the new task; the result is its id.\<close>

definition createTask ::
    "64 word \<Rightarrow> 64 word \<Rightarrow> nat option \<Rightarrow> nat \<Rightarrow> scheduler \<Rightarrow> nat \<Rightarrow> 64 word \<times> scheduler" where
  "createTask timeout now current rnd s t =
     (let i = m_idFactory s + 1;
          s' = s\<lparr>m_idFactory := i, m_taskCount := m_taskCount s + 1\<rparr>
      in (i, scheduler_addTask timeout now current rnd s' t))"

definition releaseTask :: "scheduler \<Rightarrow> scheduler" where
  "releaseTask s = s\<lparr>m_taskCount := m_taskCount s - 1\<rparr>"

section \<open>A round of the dispatcher\<close>

text \<open>\<open>std::multimap::insert\<close> puts an entry behind those with the same key.\<close>

fun mm_insert :: "nat \<times> nat \<Rightarrow> (nat \<times> nat) list \<Rightarrow> (nat \<times> nat) list" where
  "mm_insert kv [] = [kv]"
| "mm_insert kv (x # xs) = (if fst kv < fst x then kv # x # xs else x # mm_insert kv xs)"

text \<open>\<open>equal_range\<close> of the first key, and the entries behind it.\<close>

definition first_range :: "(nat \<times> nat) list \<Rightarrow> (nat \<times> nat) list" where
  "first_range m = takeWhile (\<lambda>e. fst e = fst (hd m)) m"

definition after_range :: "(nat \<times> nat) list \<Rightarrow> (nat \<times> nat) list" where
  "after_range m = dropWhile (\<lambda>e. fst e = fst (hd m)) m"

text \<open>1: the busy workers; 2: the loads, with a notification of a waiting worker that has work.\<close>

definition busyings :: "64 word \<Rightarrow> 64 word \<Rightarrow> worker list \<Rightarrow> nat list" where
  "busyings timeout now ws = filter (\<lambda>i. isBusy timeout now (ws ! i)) [0..<length ws]"

definition rest_busy :: "64 word \<Rightarrow> 64 word \<Rightarrow> worker list \<Rightarrow> worker list" where
  "rest_busy timeout now ws = map (\<lambda>w. if isBusy timeout now w then restBusy now w else w) ws"

definition load_map :: "worker list \<Rightarrow> (nat \<times> nat) list" where
  "load_map ws = foldl (\<lambda>m i. mm_insert (getRunnableNum (ws ! i), i) m) [] [0..<length ws]"

definition notify_loaded :: "worker list \<Rightarrow> worker list" where
  "notify_loaded ws = map (\<lambda>w. if getRunnableNum w > 0 \<and> isWaiting w then notifyCondition w else w) ws"

text \<open>3: the tasks of the busy workers are stolen and dealt out to the least loaded ones.\<close>

fun steal_busy :: "nat list \<Rightarrow> nat list \<Rightarrow> worker list \<Rightarrow> nat list \<times> worker list" where
  "steal_busy [] ts ws = (ts, ws)"
| "steal_busy (i # ids) ts ws =
     (let (l, w) = steal (ws ! i) 0 in steal_busy ids (ts @ l) (ws[i := w]))"

text \<open>The loop that cuts \<open>avg\<close> tasks for each worker of the range until there are none left.\<close>

fun deal :: "nat \<Rightarrow> nat list \<Rightarrow> nat list \<Rightarrow> worker list \<Rightarrow> nat list \<times> worker list \<times> (nat \<times> nat) list" where
  "deal avg [] ts ws = (ts, ws, [])"
| "deal avg (i # ids) ts ws =
     (if take avg ts = [] then (ts, ws, [])
      else (let w = addTasks (ws ! i) (take avg ts);
                (ts', ws', loads) = deal avg ids (drop avg ts) (ws[i := w])
            in (ts', ws', (getRunnableNum w, i) # loads)))"

definition add_rest :: "nat \<Rightarrow> nat list \<Rightarrow> worker list \<Rightarrow> worker list" where
  "add_rest i ts ws = (if ts \<noteq> [] then ws[i := addTasks (ws ! i) ts] else ws)"

definition dispatch_busy :: "nat list \<Rightarrow> (nat \<times> nat) list \<Rightarrow> worker list \<Rightarrow> (nat \<times> nat) list \<times> worker list" where
  "dispatch_busy busy m ws =
     (let (tasks, ws1) = steal_busy busy [] ws in
      if tasks = [] then (m, ws1)
      else (let range = first_range m;
                avg = max 1 (length tasks div length range);
                (rest, ws2, loads) = deal avg (map snd range) tasks ws1;
                ws3 = add_rest (snd (hd range)) rest ws2;
                m1 = foldl (\<lambda>m e. mm_insert e m) (foldl (\<lambda>m e. mm_insert e m) [] (after_range m)) loads;
                m2 = foldl (\<lambda>m e. mm_insert (getRunnableNum (ws3 ! snd e), snd e) m) m1 range
            in (m2, ws3)))"

text \<open>4: when some worker has no work and some has, the most loaded one is stolen from.\<close>

definition dispatch_idle :: "(nat \<times> nat) list \<Rightarrow> worker list \<Rightarrow> worker list" where
  "dispatch_idle m ws =
     (if fst (hd m) = 0 then
        (let range = first_range m; waitN = length range in
         if waitN = length m then ws
         else (let mx = snd (last m);
                   stealN = min (getRunnableNum (ws ! mx) div 2) (waitN * 1024);
                   (tasks, w) = steal (ws ! mx) stealN;
                   ws1 = ws[mx := w]
               in if tasks = [] then ws1
                  else (let (rest, ws2, _) = deal (max 1 (length tasks div waitN)) (map snd range) tasks ws1
                        in add_rest (snd (hd range)) rest ws2)))
      else ws)"

definition dispatcher_round :: "64 word \<Rightarrow> 64 word \<Rightarrow> worker list \<Rightarrow> worker list" where
  "dispatcher_round timeout now ws =
     (let busy = busyings timeout now ws;
          ws1 = rest_busy timeout now ws;
          m = load_map ws1;
          ws2 = notify_loaded ws1;
          (m', ws3) = dispatch_busy busy m ws2
      in dispatch_idle m' ws3)"

section \<open>Tasks of all workers\<close>

definition all_tasks :: "worker list \<Rightarrow> nat multiset" where
  "all_tasks ws = sum_list (map queued ws)"

lemma all_tasks_update:
  "i < length ws \<Longrightarrow> all_tasks (ws[i := w]) + queued (ws ! i) = all_tasks ws + queued w"
  by (induction ws arbitrary: i) (auto simp: all_tasks_def ac_simps split: nat.split)

text \<open>Entries name workers that are there.\<close>

definition named :: "(nat \<times> nat) list \<Rightarrow> worker list \<Rightarrow> bool" where
  "named m ws \<longleftrightarrow> (\<forall>e \<in> set m. snd e < length ws)"

lemma set_mm_insert [simp]: "set (mm_insert kv m) = insert kv (set m)"
  by (induction m) auto

lemma set_foldl_mm_insert: "set (foldl (\<lambda>m x. mm_insert (f x) m) m xs) = set m \<union> f ` set xs"
  by (induction xs arbitrary: m) auto

lemma load_map_named: "named (load_map ws) ws" "ws \<noteq> [] \<Longrightarrow> load_map ws \<noteq> []"
proof -
  have "set (load_map ws) = (\<lambda>i. (getRunnableNum (ws ! i), i)) ` {0..<length ws}"
    unfolding load_map_def set_foldl_mm_insert by simp
  then show "named (load_map ws) ws" "ws \<noteq> [] \<Longrightarrow> load_map ws \<noteq> []"
    by (auto simp: named_def simp flip: set_empty)
qed

text \<open>A list of workers that took or gave tasks and was notified, but lost no notification.\<close>

definition woken_kept :: "worker list \<Rightarrow> worker list \<Rightarrow> bool" where
  "woken_kept ws ws' \<longleftrightarrow> length ws' = length ws \<and>
     (\<forall>i < length ws. m_waiting (ws' ! i) = m_waiting (ws ! i) \<and> (m_woken (ws ! i) \<longrightarrow> m_woken (ws' ! i)))"

lemma woken_kept_refl [simp]: "woken_kept ws ws"
  by (simp add: woken_kept_def)

lemma woken_kept_trans: "woken_kept a b \<Longrightarrow> woken_kept b c \<Longrightarrow> woken_kept a c"
  by (simp add: woken_kept_def)

lemma addTasks_kept: "woken_kept ws (ws[i := addTasks (ws ! i) ts])"
  by (cases "i < length ws")
    (auto simp: woken_kept_def nth_list_update addTasks_def notifyCondition_def)

lemma steal_kept: "steal (ws ! i) n = (ts, w) \<Longrightarrow> woken_kept ws (ws[i := w])"
  using steal_queued[of "ws ! i" n ts w]
  by (cases "i < length ws") (auto simp: woken_kept_def nth_list_update)

lemma steal_busy_conserves:
  "\<forall>i \<in> set ids. i < length ws \<Longrightarrow> steal_busy ids ts ws = (ts', ws') \<Longrightarrow>
   mset ts' + all_tasks ws' = mset ts + all_tasks ws \<and> woken_kept ws ws'"
proof (induction ids arbitrary: ts ws)
  case (Cons i ids)
  obtain l w where st: "steal (ws ! i) 0 = (l, w)" by (cases "steal (ws ! i) 0")
  then have q: "queued (ws ! i) = mset l + queued w" using steal_queued by blast
  have r: "steal_busy ids (ts @ l) (ws[i := w]) = (ts', ws')" using Cons.prems(2) st by simp
  from Cons.IH[OF _ r] Cons.prems(1)
  have "mset ts' + all_tasks ws' = mset (ts @ l) + all_tasks (ws[i := w])" "woken_kept (ws[i := w]) ws'"
    by simp_all
  moreover have "all_tasks (ws[i := w]) + mset l = all_tasks ws"
    using all_tasks_update[of i ws w] q Cons.prems(1) by (simp add: ac_simps)
  ultimately show ?case using woken_kept_trans[OF steal_kept[OF st]] by (simp add: ac_simps)
qed simp

lemma addTasks_conserves:
  "i < length ws \<Longrightarrow> all_tasks (ws[i := addTasks (ws ! i) ts]) = all_tasks ws + mset ts"
  using all_tasks_update[of i ws "addTasks (ws ! i) ts"] by (simp add: add_flags ac_simps)

lemma deal_conserves:
  "\<forall>i \<in> set ids. i < length ws \<Longrightarrow> deal avg ids ts ws = (ts', ws', loads) \<Longrightarrow>
   mset ts' + all_tasks ws' = mset ts + all_tasks ws \<and> woken_kept ws ws' \<and> snd ` set loads \<subseteq> set ids"
proof (induction avg ids ts ws arbitrary: ts' ws' loads rule: deal.induct)
  case (2 avg i ids ts ws)
  show ?case
  proof (cases "take avg ts = []")
    case False
    let ?ws = "ws[i := addTasks (ws ! i) (take avg ts)]"
    obtain l1 where r: "deal avg ids (drop avg ts) ?ws = (ts', ws', l1)"
      "loads = (getRunnableNum (addTasks (ws ! i) (take avg ts)), i) # l1"
      using 2(3) False by (auto simp: Let_def split: prod.splits)
    from 2(1)[OF False refl _ r(1)] 2(2)
    have "mset ts' + all_tasks ws' = mset (drop avg ts) + all_tasks ?ws" "woken_kept ?ws ws'"
      "snd ` set l1 \<subseteq> set ids"
      by simp_all
    moreover have "all_tasks ?ws = all_tasks ws + mset (take avg ts)"
      using addTasks_conserves 2(2) by simp
    moreover have "mset (take avg ts) + mset (drop avg ts) = mset ts"
      using mset_append[of "take avg ts" "drop avg ts"] by (simp only: append_take_drop_id)
    ultimately have "mset ts' + all_tasks ws' = mset ts + all_tasks ws"
      by (metis add.assoc add.commute)
    moreover have "woken_kept ws ws'"
      by (rule woken_kept_trans[OF addTasks_kept]) fact
    moreover have "snd ` set loads \<subseteq> set (i # ids)"
      using \<open>snd ` set l1 \<subseteq> set ids\<close> r(2) by auto
    ultimately show ?thesis by blast
  qed (use 2 in simp)
qed simp

lemma add_rest_conserves:
  "i < length ws \<Longrightarrow> all_tasks (add_rest i ts ws) = all_tasks ws + mset ts \<and> woken_kept ws (add_rest i ts ws)"
  using addTasks_conserves addTasks_kept by (simp add: add_rest_def)

lemma first_range:
  assumes "m \<noteq> []"
  shows "first_range m \<noteq> []" "set (first_range m) \<subseteq> set m" "set (after_range m) \<subseteq> set m"
proof -
  show "first_range m \<noteq> []" using assms by (cases m) (simp_all add: first_range_def)
  show "set (first_range m) \<subseteq> set m" "set (after_range m) \<subseteq> set m"
    unfolding first_range_def after_range_def by (blast dest: set_takeWhileD set_dropWhileD)+
qed

lemma dispatch_busy_conserves:
  assumes m: "named m ws" "m \<noteq> []" and b: "\<forall>i \<in> set busy. i < length ws"
    and d: "dispatch_busy busy m ws = (m', ws')"
  shows "all_tasks ws' = all_tasks ws \<and> woken_kept ws ws' \<and> named m' ws' \<and> m' \<noteq> []"
proof -
  obtain tasks ws1 where st: "steal_busy busy [] ws = (tasks, ws1)" by (cases "steal_busy busy [] ws")
  note c1 = steal_busy_conserves[OF b st]
  then have l1: "length ws1 = length ws" by (simp add: woken_kept_def)
  show ?thesis
  proof (cases "tasks = []")
    case True
    then show ?thesis using d st c1 m l1 by (auto simp: dispatch_busy_def named_def)
  next
    case False
    let ?range = "first_range m" and ?avg = "max 1 (length tasks div length (first_range m))"
    obtain rest ws2 loads where dl: "deal ?avg (map snd ?range) tasks ws1 = (rest, ws2, loads)"
      by (cases "deal ?avg (map snd ?range) tasks ws1")
    have rng: "\<forall>i \<in> set (map snd ?range). i < length ws1"
      using m first_range(2)[OF m(2)] l1 by (auto simp: named_def)
    note c2 = deal_conserves[OF rng dl]
    have hd: "snd (hd ?range) < length ws2"
      using rng first_range(1)[OF m(2)] c2 by (auto simp: woken_kept_def)
    let ?ws3 = "add_rest (snd (hd ?range)) rest ws2"
    note c3 = add_rest_conserves[OF hd, of rest]
    let ?m1 = "foldl (\<lambda>m e. mm_insert e m) (foldl (\<lambda>m e. mm_insert e m) [] (after_range m)) loads"
    have eq: "m' = foldl (\<lambda>m e. mm_insert (getRunnableNum (?ws3 ! snd e), snd e) m) ?m1 ?range"
      "ws' = ?ws3"
      using d st dl False by (auto simp: dispatch_busy_def Let_def)
    have set: "set m' = set (after_range m) \<union> set loads \<union>
        (\<lambda>e. (getRunnableNum (?ws3 ! snd e), snd e)) ` set ?range"
      unfolding eq(1) set_foldl_mm_insert by simp
    have len: "length ?ws3 = length ws" using c3 c2 l1 by (simp add: woken_kept_def)
    have "named m' ws'"
      unfolding named_def
    proof
      fix e assume "e \<in> set m'"
      then consider "e \<in> set m" | "e \<in> set loads" | e' where "e' \<in> set ?range" "snd e = snd e'"
        using set first_range(3)[OF m(2)] by auto
      then have "snd e < length ws"
      proof cases
        case 1
        then show ?thesis using m(1) by (simp add: named_def)
      next
        case 2
        then have "snd e \<in> set (map snd ?range)" using c2 by blast
        then show ?thesis using rng l1 by auto
      next
        case 3
        then show ?thesis using rng l1 by simp
      qed
      then show "snd e < length ws'" using eq(2) len by simp
    qed
    moreover have "m' \<noteq> []"
    proof
      assume none: "m' = []"
      have "hd ?range \<in> set ?range" using first_range(1)[OF m(2)] by (rule hd_in_set)
      then have "(getRunnableNum (?ws3 ! snd (hd ?range)), snd (hd ?range)) \<in> set m'"
        unfolding set by (intro UnI2 imageI)
      then show False unfolding none by simp
    qed
    moreover have a: "mset tasks + all_tasks ws1 = mset [] + all_tasks ws" "woken_kept ws ws1"
      "mset rest + all_tasks ws2 = mset tasks + all_tasks ws1" "woken_kept ws1 ws2"
      "all_tasks ?ws3 = all_tasks ws2 + mset rest" "woken_kept ws2 ?ws3"
      using c1 c2 c3 by blast+
    have "all_tasks ?ws3 = all_tasks ws"
      using a(1,3,5) by (metis add.commute add_0 mset.simps(1))
    moreover have "woken_kept ws ?ws3"
      using woken_kept_trans[OF woken_kept_trans[OF a(2,4)] a(6)] .
    ultimately show ?thesis unfolding eq(2) by blast
  qed
qed

lemma dispatch_idle_conserves:
  assumes m: "named m ws" "m \<noteq> []"
  shows "all_tasks (dispatch_idle m ws) = all_tasks ws \<and> woken_kept ws (dispatch_idle m ws)"
proof (cases "fst (hd m) = 0 \<and> length (first_range m) \<noteq> length m")
  case True
  let ?mx = "snd (last m)" and ?range = "first_range m"
  have mx: "?mx < length ws" using m by (auto simp: named_def)
  obtain tasks w where st: "steal (ws ! ?mx) (min (getRunnableNum (ws ! ?mx) div 2) (length ?range * 1024)) = (tasks, w)"
    by (cases "steal (ws ! ?mx) (min (getRunnableNum (ws ! ?mx) div 2) (length ?range * 1024))")
  let ?ws1 = "ws[?mx := w]"
  have q: "queued (ws ! ?mx) = mset tasks + queued w" using steal_queued[OF st] by blast
  then have c1: "all_tasks ?ws1 + mset tasks = all_tasks ws"
    using all_tasks_update[OF mx, of w] by (simp add: ac_simps)
  note k1 = steal_kept[OF st]
  show ?thesis
  proof (cases "tasks = []")
    case tasks: True
    then have "dispatch_idle m ws = ?ws1" using True st by (simp add: dispatch_idle_def Let_def)
    then show ?thesis using c1 k1 tasks by simp
  next
    case False
    let ?avg = "max 1 (length tasks div length ?range)"
    obtain rest ws2 loads where dl: "deal ?avg (map snd ?range) tasks ?ws1 = (rest, ws2, loads)"
      by (cases "deal ?avg (map snd ?range) tasks ?ws1")
    have rng: "\<forall>i \<in> set (map snd ?range). i < length ?ws1"
      using m first_range(2)[OF m(2)] by (auto simp: named_def)
    note c2 = deal_conserves[OF rng dl]
    have hd: "snd (hd ?range) < length ws2"
      using rng first_range(1)[OF m(2)] c2 by (auto simp: woken_kept_def)
    note c3 = add_rest_conserves[OF hd, of rest]
    have eq: "dispatch_idle m ws = add_rest (snd (hd ?range)) rest ws2"
      using True st dl False by (simp add: dispatch_idle_def Let_def)
    have a: "mset rest + all_tasks ws2 = mset tasks + all_tasks ?ws1" "woken_kept ?ws1 ws2"
      "all_tasks (add_rest (snd (hd ?range)) rest ws2) = all_tasks ws2 + mset rest"
      "woken_kept ws2 (add_rest (snd (hd ?range)) rest ws2)"
      using c2 c3 by blast+
    have "all_tasks (add_rest (snd (hd ?range)) rest ws2) = all_tasks ws"
      using a(1,3) c1 by (metis add.commute)
    moreover have "woken_kept ws (add_rest (snd (hd ?range)) rest ws2)"
      using woken_kept_trans[OF woken_kept_trans[OF k1 a(2)] a(4)] .
    ultimately show ?thesis unfolding eq by blast
  qed
next
  case False
  then have "dispatch_idle m ws = ws"
    by (cases "fst (hd m) = 0") (simp_all add: dispatch_idle_def Let_def)
  then show ?thesis by simp
qed

lemma queued_notify [simp]: "queued (notifyCondition w) = queued w" "queued (restBusy now w) = queued w"
  by (simp only: notify_flags) (simp add: restBusy_def queued_def)

lemma rest_notify_conserves:
  "all_tasks (rest_busy timeout now ws) = all_tasks ws" "all_tasks (notify_loaded ws) = all_tasks ws"
  by (auto simp: all_tasks_def rest_busy_def notify_loaded_def comp_def
      intro!: arg_cong[where f = sum_list] map_cong)

section \<open>The properties\<close>


definition sleeping_worker :: worker where
  "sleeping_worker = new_worker\<lparr>m_waiting := True, m_newQueue := [7]\<rparr>"


text \<open>\<open>createTask\<close> gives each task an id of its own in order and puts the task into exactly one
  worker that exists: its caller's, when that is not busy, or the random one.\<close>

theorem createTask_adds_once:
  assumes "m_works s \<noteq> []" "\<forall>i. current = Some i \<longrightarrow> i < length (m_works s)"
    "createTask timeout now current rnd s t = (i, s')"
  shows "i = m_idFactory s + 1 \<and> m_idFactory s' = i \<and> m_taskCount s' = m_taskCount s + 1 \<and>
    all_tasks (m_works s') = all_tasks (m_works s) + {#t#} \<and>
    (\<forall>j. current = Some j \<and> \<not> isBusy timeout now (m_works s ! j) \<longrightarrow>
       m_works s' = (m_works s)[j := addTask (m_works s ! j) t])"
proof -
  have add: "j < length ws \<Longrightarrow> all_tasks (ws[j := addTask (ws ! j) t]) = all_tasks ws + {#t#}" for j ws
    using all_tasks_update[of j ws "addTask (ws ! j) t"] by (simp add: add_flags)
  have "rnd mod length (m_works s) < length (m_works s)" using assms(1) by simp
  then show ?thesis using assms add
    by (auto simp: createTask_def scheduler_addTask_def Let_def split: option.splits if_splits)
qed

theorem createTask_adds_once_witness:
  "all_tasks (m_works (snd (createTask 0 0 None 3 (newWorker (newWorker new_scheduler)) 7))) = {#7#}"
proof -
  let ?s = "newWorker (newWorker new_scheduler)"
  have w: "m_works ?s = [new_worker, new_worker]" by (simp add: newWorker_def new_scheduler_def)
  have "all_tasks (m_works ?s) = {#}" by (simp add: w all_tasks_def new_worker_def queued_def)
  then show ?thesis
    using createTask_adds_once[of ?s None 0 0 3 7] w
    by (cases "createTask 0 0 None 3 ?s 7") simp
qed

end
