(* ===== verification/SocketHandle.thy ===== *)
theory SocketHandle
  imports WolfBase
begin

unbundle bit_operations_syntax

text \<open>
  One socket of the network module: \<open>engine/src/network/socketHandle.cc\<close>, \<open>.h\<close>, with the states
  and the closing and listening functions of \<open>socketWrap.h\<close> and \<open>.cc\<close>.  A send buffer is its
  bytes, how many of them were sent (\<open>_ptr - _data\<close>) and its size.  The answers of the kernel to
  \<open>send\<close> are a list that the calls consume; a call whose answers run out has not returned yet.
\<close>

section \<open>The wrapped system calls\<close>

text \<open>
  Inside \<open>socketWrap::close\<close> and \<open>socketWrap::listen\<close> the unqualified names \<open>close\<close> and \<open>listen\<close>
  are the member functions themselves.
\<close>

partial_function (option) socketWrap_close :: "int \<Rightarrow> int \<Rightarrow> int option" where
  "socketWrap_close errno sock =
     Option.bind (socketWrap_close errno sock) (\<lambda>r. Some (if r = 0 then 0 else errno))"

partial_function (option) socketWrap_listen :: "int \<Rightarrow> int \<Rightarrow> int option" where
  "socketWrap_listen sock que =
     Option.bind (socketWrap_listen sock que) (\<lambda>r. Some (if r = 0 then 1 else 0))"

section \<open>State\<close>

definition SOCKET_HANDLE_INVALID :: int where "SOCKET_HANDLE_INVALID = -1"
definition INVALID_SOCKET :: int where "INVALID_SOCKET = 0"
definition WARNING_SIZE :: "32 word" where "WARNING_SIZE = 1024 * 1024"
definition MINRECVBUFFER :: "32 word" where "MINRECVBUFFER = 128"

datatype socketProtocol = TCP | UDP | UDPv6 | UNKNOWN

datatype socketState =
    INVALID | RESERVE | PLISTEN | LISTEN | CONNECTING | CONNECTED | HALFCLOSE | PACCEPT | BIND

datatype socketMessageType =
    M_SOCKET_DATA | M_SOCKET_START | M_SOCKET_CLOSE | M_SOCKET_ACCEPT | M_SOCKET_ERROR
  | M_SOCKET_EXIT | M_SOCKET_UDP | M_SOCKET_WARNING

record sendData =
  sd_data :: "8 word list"
  sd_ptr :: nat
  sd_sz :: nat

text \<open>Of the counters only the two of the receiving side are ever written after the reset.\<close>

record socketInfo =
  recvLastTime :: "64 word"
  recvBytes :: "64 word"

record socketHandle =
  m_handle :: int
  m_opaque :: nat
  m_sock :: int
  m_curSender :: "sendData option"
  m_sendIn :: "32 word"
  m_sendQs :: "sendData list"
  m_sendBytes :: "32 word"
  m_sendWarn :: "32 word"
  m_recvBufferSize :: "32 word"
  m_proto :: socketProtocol
  m_state :: socketState
  m_info :: socketInfo

definition no_info :: socketInfo where
  "no_info = \<lparr>recvLastTime = 0, recvBytes = 0\<rparr>"

text \<open>The constructor leaves the two sizes uninitialised; they are the parameters.\<close>

definition new_socketHandle :: "32 word \<Rightarrow> 32 word \<Rightarrow> socketHandle" where
  "new_socketHandle warn buf =
     \<lparr>m_handle = SOCKET_HANDLE_INVALID, m_opaque = 0, m_sock = INVALID_SOCKET, m_curSender = None,
      m_sendIn = 0, m_sendQs = [], m_sendBytes = 0, m_sendWarn = warn, m_recvBufferSize = buf,
      m_proto = UNKNOWN, m_state = INVALID, m_info = no_info\<rparr>"

text \<open>\<open>SOCKET_HANDLE_TAG16\<close>: bits 16 to 31 of the handle.\<close>

definition TAG16 :: "int \<Rightarrow> 32 word" where
  "TAG16 handle = drop_bit 16 (word_of_int handle) AND 0xffff"

definition sock_doInit :: "nat \<Rightarrow> int \<Rightarrow> int \<Rightarrow> socketProtocol \<Rightarrow> socketHandle \<Rightarrow> socketHandle" where
  "sock_doInit opaque handle sock proto s =
     s\<lparr>m_handle := handle, m_opaque := opaque, m_sock := sock, m_proto := proto, m_sendBytes := 0,
       m_sendWarn := WARNING_SIZE, m_recvBufferSize := MINRECVBUFFER,
       m_sendIn := push_bit 16 (TAG16 handle)\<rparr>"

definition doRest :: "socketHandle \<Rightarrow> socketHandle" where
  "doRest s =
     s\<lparr>m_handle := SOCKET_HANDLE_INVALID, m_opaque := 0, m_sock := INVALID_SOCKET, m_sendIn := 0,
       m_sendBytes := 0, m_sendWarn := WARNING_SIZE, m_proto := UNKNOWN, m_state := INVALID,
       m_curSender := None, m_info := no_info\<rparr>"

definition setHandle :: "int \<Rightarrow> socketHandle \<Rightarrow> socketHandle" where
  "setHandle val s = s\<lparr>m_handle := val, m_sendIn := push_bit 16 (TAG16 val)\<rparr>"

definition setCompareState :: "socketState \<Rightarrow> socketState \<Rightarrow> socketHandle \<Rightarrow> bool \<times> socketHandle" where
  "setCompareState cval nval s =
     (if m_state s = cval then (True, s\<lparr>m_state := nval\<rparr>) else (False, s))"

text \<open>\<open>doClose\<close>, with the closing function as a parameter; its error is only printed.\<close>

definition doClose :: "(int \<Rightarrow> int option) \<Rightarrow> socketHandle \<Rightarrow> socketHandle res" where
  "doClose closer s =
     seqE (if m_state s \<noteq> BIND then (case closer (m_sock s) of None \<Rightarrow> Inl Diverges | Some _ \<Rightarrow> Inr ())
           else Inr ()) (\<lambda>_.
       Inr (s\<lparr>m_sendQs := [], m_state := INVALID, m_curSender := None\<rparr>))"

section \<open>Sending\<close>

datatype send_answer = Sent nat | SendEINTR | SendAGAIN | SendFailed

text \<open>The inner loop of \<open>doSend\<close> for the buffer at the head: \<open>EINTR\<close> repeats the call.\<close>

fun send_once :: "send_answer list \<Rightarrow> (send_answer \<times> send_answer list) option" where
  "send_once [] = None"
| "send_once (SendEINTR # as) = send_once as"
| "send_once (a # as) = Some (a, as)"

definition buf_rest :: "sendData \<Rightarrow> 8 word list" where
  "buf_rest b = drop (sd_ptr b) (take (sd_sz b) (sd_data b))"

text \<open>
  The loop over the queue.  The kernel takes at most what it is offered.  The result is the
  message type, the rest of the answers, the handle and the bytes that went out.
\<close>

fun send_loop ::
    "sendData list \<Rightarrow> send_answer list \<Rightarrow> socketHandle \<Rightarrow>
     (socketMessageType option \<times> send_answer list \<times> socketHandle \<times> 8 word list) option" where
  "send_loop [] as s = Some (None, as, s\<lparr>m_sendQs := []\<rparr>, [])"
| "send_loop (tmp # q) as s =
     (case send_once as of
        None \<Rightarrow> None
      | Some (a, as') \<Rightarrow>
          (case a of
             SendAGAIN \<Rightarrow> Some (None, as', s\<lparr>m_sendQs := tmp # q\<rparr>, [])
           | SendFailed \<Rightarrow> Some (Some M_SOCKET_CLOSE, as', s\<lparr>m_sendQs := tmp # q\<rparr>, [])
           | SendEINTR \<Rightarrow> None
           | Sent n \<Rightarrow>
               (let sz = min n (length (buf_rest tmp));
                    s' = s\<lparr>m_sendBytes := m_sendBytes s - of_nat sz\<rparr>;
                    tmp' = tmp\<lparr>sd_ptr := sd_ptr tmp + sz\<rparr>;
                    out = take sz (buf_rest tmp)
                in if sd_sz tmp \<noteq> sd_ptr tmp' then Some (None, as', s'\<lparr>m_sendQs := tmp' # q\<rparr>, out)
                   else (case send_loop q as' s' of
                           None \<Rightarrow> None
                         | Some (r, as'', s'', out') \<Rightarrow> Some (r, as'', s'', out @ out')))))"

definition doSend ::
    "send_answer list \<Rightarrow> socketHandle \<Rightarrow>
     (socketMessageType option \<times> send_answer list \<times> socketHandle \<times> 8 word list) option" where
  "doSend as s =
     (let s' = (case m_curSender s of
                  None \<Rightarrow> s
                | Some c \<Rightarrow> s\<lparr>m_sendQs := c # m_sendQs s, m_curSender := None\<rparr>)
      in send_loop (m_sendQs s') as s')"

definition doUpdateRecv :: "64 word \<Rightarrow> 64 word \<Rightarrow> socketHandle \<Rightarrow> socketHandle" where
  "doUpdateRecv now bytes s =
     s\<lparr>m_info := (m_info s)\<lparr>recvLastTime := now, recvBytes := recvBytes (m_info s) + bytes\<rparr>\<rparr>"

text \<open>\<open>m_sendIn && 0xFFFF\<close> is a logical and.\<close>

definition isSending :: "socketHandle \<Rightarrow> bool" where
  "isSending s \<longleftrightarrow> m_curSender s \<noteq> None \<and> m_sendQs s \<noteq> [] \<and> m_sendIn s \<noteq> 0"

text \<open>\<open>incSendIn\<close>: with the low half full the loop reads the counter again and again.\<close>

partial_function (option) incSendIn :: "socketHandle \<Rightarrow> (int \<times> socketHandle) option" where
  "incSendIn s =
     (if m_proto s \<noteq> TCP then Some (0, s)
      else if drop_bit 16 (m_sendIn s) = TAG16 (m_handle s) then
        (if m_sendIn s AND 0xffff = 0xffff then incSendIn s
         else Some (0, s\<lparr>m_sendIn := m_sendIn s + 1\<rparr>))
      else Some (-1, s))"

definition decSendIn :: "socketHandle \<Rightarrow> socketHandle res" where
  "decSendIn s =
     (if m_proto s \<noteq> TCP then Inr s
      else seqE (checkE (m_sendIn s AND 0xffff \<noteq> 0) AssertFail) (\<lambda>_.
        Inr (s\<lparr>m_sendIn := m_sendIn s - 1\<rparr>)))"

definition isCanSend :: "int \<Rightarrow> socketHandle \<Rightarrow> bool" where
  "isCanSend handle s \<longleftrightarrow> m_handle s = handle \<and> \<not> isSending s \<and> m_state s = CONNECTED"

definition appendSendQs :: "8 word list \<Rightarrow> 32 word \<Rightarrow> socketHandle \<Rightarrow> socketHandle" where
  "appendSendQs data sz s =
     s\<lparr>m_sendQs := m_sendQs s @ [\<lparr>sd_data = data, sd_ptr = 0, sd_sz = unat sz\<rparr>],
       m_sendBytes := m_sendBytes s + sz\<rparr>"

definition setCurrentSendBuffer :: "8 word list \<Rightarrow> nat \<Rightarrow> nat \<Rightarrow> socketHandle \<Rightarrow> socketHandle" where
  "setCurrentSendBuffer data ptr sz s =
     s\<lparr>m_curSender := Some \<lparr>sd_data = data, sd_ptr = ptr, sd_sz = sz\<rparr>\<rparr>"

definition getWarning :: "socketHandle \<Rightarrow> 32 word \<times> socketHandle" where
  "getWarning s =
     (if m_sendBytes s > WARNING_SIZE \<and> m_sendBytes s > m_sendWarn s then
        (if m_sendBytes s mod 1024 = 0 then m_sendBytes s div 1024 else m_sendBytes s div 1024 + 1,
         s\<lparr>m_sendWarn := (if m_sendWarn s = 0 then WARNING_SIZE * 2 else m_sendWarn s * 2)\<rparr>)
      else (0, s))"

section \<open>The recursion of the wrappers\<close>

lemma socketWrap_close_diverges: "socketWrap_close errno sock = None"
proof (cases "socketWrap_close errno sock")
  case (Some r)
  have "False"
    by (rule socketWrap_close.raw_induct[OF _ Some, of "\<lambda>_ _ _. False"]) (auto split: Option.bind_splits)
  then show ?thesis ..
qed

lemma socketWrap_listen_diverges: "socketWrap_listen sock que = None"
proof (cases "socketWrap_listen sock que")
  case (Some r)
  have "False"
    by (rule socketWrap_listen.raw_induct[OF _ Some, of "\<lambda>_ _ _. False"]) (auto split: Option.bind_splits)
  then show ?thesis ..
qed

section \<open>The bytes waiting to be sent\<close>

definition buf_ok :: "sendData \<Rightarrow> bool" where
  "buf_ok b \<longleftrightarrow> sd_ptr b \<le> sd_sz b \<and> sd_sz b \<le> length (sd_data b)"

definition pending :: "socketHandle \<Rightarrow> 8 word list" where
  "pending s = (case m_curSender s of None \<Rightarrow> [] | Some c \<Rightarrow> buf_rest c) @ concat (map buf_rest (m_sendQs s))"

definition bufs_ok :: "socketHandle \<Rightarrow> bool" where
  "bufs_ok s \<longleftrightarrow> (\<forall>b \<in> set (m_sendQs s) \<union> set_option (m_curSender s). buf_ok b)"

lemma length_buf_rest: "buf_ok b \<Longrightarrow> length (buf_rest b) = sd_sz b - sd_ptr b"
  by (simp add: buf_ok_def buf_rest_def)

lemma buf_rest_advance:
  assumes b: "buf_ok b" and n: "n \<le> sd_sz b - sd_ptr b"
  shows "take n (buf_rest b) @ buf_rest (b\<lparr>sd_ptr := sd_ptr b + n\<rparr>) = buf_rest b \<and>
   buf_ok (b\<lparr>sd_ptr := sd_ptr b + n\<rparr>)"
proof
  show "take n (buf_rest b) @ buf_rest (b\<lparr>sd_ptr := sd_ptr b + n\<rparr>) = buf_rest b"
    using append_take_drop_id[of n "drop (sd_ptr b) (take (sd_sz b) (sd_data b))"]
    by (simp add: buf_rest_def add.commute)
  show "buf_ok (b\<lparr>sd_ptr := sd_ptr b + n\<rparr>)"
    using b n by (auto simp: buf_ok_def)
qed

lemma send_loop_sends:
  "send_loop q as s = Some (r, as', s', out) \<Longrightarrow> \<forall>b \<in> set q. buf_ok b \<Longrightarrow>
   out @ concat (map buf_rest (m_sendQs s')) = concat (map buf_rest q) \<and>
   (\<forall>b \<in> set (m_sendQs s'). buf_ok b) \<and> m_curSender s' = m_curSender s \<and>
   m_sendBytes s' = m_sendBytes s - of_nat (length out) \<and>
   m_state s' = m_state s \<and> m_handle s' = m_handle s"
proof (induction q as s arbitrary: r as' s' out rule: send_loop.induct)
  case (2 tmp q as s)
  have tmp: "buf_ok tmp" using 2(3) by simp
  obtain a as1 where once: "send_once as = Some (a, as1)"
    using 2(2) by (auto split: option.splits)
  show ?case
  proof (cases a)
    case (Sent n)
    define sz where "sz = min n (length (buf_rest tmp))"
    let ?s = "s\<lparr>m_sendBytes := m_sendBytes s - of_nat sz\<rparr>" and ?tmp = "tmp\<lparr>sd_ptr := sd_ptr tmp + sz\<rparr>"
    have sz: "sz \<le> sd_sz tmp - sd_ptr tmp" "length (take sz (buf_rest tmp)) = sz"
      using length_buf_rest[OF tmp] by (simp_all add: sz_def)
    note adv = buf_rest_advance[OF tmp sz(1)]
    show ?thesis
    proof (cases "sd_sz tmp = sd_ptr tmp + sz")
      case True
      obtain out' where l: "send_loop q as1 ?s = Some (r, as', s', out')" "out = take sz (buf_rest tmp) @ out'"
        using 2(2) once Sent True by (auto simp: Let_def sz_def split: option.splits)
      have e: "buf_rest ?tmp = []" using True by (simp add: buf_rest_def)
      have IH: "out' @ concat (map buf_rest (m_sendQs s')) = concat (map buf_rest q) \<and>
         (\<forall>b \<in> set (m_sendQs s'). buf_ok b) \<and> m_curSender s' = m_curSender ?s \<and>
         m_sendBytes s' = m_sendBytes ?s - of_nat (length out') \<and>
         m_state s' = m_state ?s \<and> m_handle s' = m_handle ?s"
        using 2(1)[OF once refl Sent sz_def refl refl refl] True l(1) 2(3) by auto
      then show ?thesis using l(2) adv e sz(2) by (auto simp: algebra_simps)
    next
      case False
      then have "r = None" "s' = ?s\<lparr>m_sendQs := ?tmp # q\<rparr>" "out = take sz (buf_rest tmp)"
        using 2(2) once Sent by (auto simp: Let_def sz_def)
      then show ?thesis using adv sz(2) 2(3) by auto
    qed
  next
    case SendEINTR
    then show ?thesis using 2(2) once by simp
  next
    case SendAGAIN
    then have "s' = s\<lparr>m_sendQs := tmp # q\<rparr>" "out = []" using 2(2) once by simp_all
    then show ?thesis using 2(3) by simp
  next
    case SendFailed
    then have "s' = s\<lparr>m_sendQs := tmp # q\<rparr>" "out = []" using 2(2) once by simp_all
    then show ?thesis using 2(3) by simp
  qed
qed simp


lemma send_loop_state: "send_loop q as s = Some (r, as', s', out) \<Longrightarrow>
   m_state s' = m_state s \<and> m_handle s' = m_handle s \<and> m_opaque s' = m_opaque s \<and>
   m_recvBufferSize s' = m_recvBufferSize s \<and> m_sock s' = m_sock s"
proof (induction q as s arbitrary: r as' s' out rule: send_loop.induct)
  case (2 tmp q as s)
  show ?case
  proof (cases "send_once as")
    case (Some p)
    obtain a as1 where p: "p = (a, as1)" by (cases p)
    show ?thesis
    proof (cases a)
      case (Sent n)
      then show ?thesis
        using 2(2) Some p 2(1)[OF Some p[symmetric] Sent refl refl refl refl]
        by (auto simp: Let_def split: option.splits if_splits)
    qed (use 2(2) Some p in auto)
  qed (use 2(2) in simp)
qed auto

lemma send_loop_result: "send_loop q as s = Some (r, as', s', out) \<Longrightarrow> r \<in> {None, Some M_SOCKET_CLOSE}"
proof (induction q as s arbitrary: r as' s' out rule: send_loop.induct)
  case (2 tmp q as s)
  show ?case
  proof (cases "send_once as")
    case (Some p)
    obtain a as1 where p: "p = (a, as1)" by (cases p)
    show ?thesis
    proof (cases a)
      case (Sent n)
      then show ?thesis
        using 2(2) Some p 2(1)[OF Some p[symmetric] Sent refl refl refl refl]
        by (auto simp: Let_def split: option.splits if_splits)
    qed (use 2(2) Some p in simp_all)
  qed (use 2(2) in simp)
qed simp

lemma large_minus_warns:
  assumes "0 < d" "d < 2 ^ 31" "m_sendBytes s = - of_nat d" "m_sendWarn s = WARNING_SIZE"
  shows "fst (getWarning s) \<ge> 2 ^ 21"
proof -
  have u: "unat (m_sendBytes s) = 2 ^ 32 - d"
  proof -
    have "(of_nat (2 ^ 32 - d) :: 32 word) = of_nat (2 ^ 32) - of_nat d"
      using assms(2) by (intro of_nat_diff) simp
    then have "m_sendBytes s = of_nat (2 ^ 32 - d)" using assms(3) by simp
    then show ?thesis using assms(1) by (simp add: unat_of_nat take_bit_nat_eq_self_iff)
  qed
  have gw: "m_sendBytes s > WARNING_SIZE"
    using assms(2) u by (simp add: word_less_nat_alt WARNING_SIZE_def)
  have q: "unat (m_sendBytes s div 1024) \<ge> 2 ^ 21"
    using assms(2) u by (simp add: unat_div)
  have lt: "unat (m_sendBytes s div 1024) + 1 < 2 ^ 32"
    using unsigned_less[of "m_sendBytes s", where ?'a=nat] by (simp add: unat_div)
  have "unat (m_sendBytes s div 1024 + 1) = unat (m_sendBytes s div 1024) + 1"
    using lt by (simp add: unat_word_ariths)
  then have "m_sendBytes s div 1024 + 1 \<ge> 2 ^ 21" "m_sendBytes s div 1024 \<ge> 2 ^ 21"
    using q by (simp_all add: word_le_nat_alt)
  then show ?thesis using gw assms(4) by (simp add: getWarning_def)
qed


lemma send_once_returns: "\<exists>a \<in> set as. a \<noteq> SendEINTR \<Longrightarrow> \<exists>a as'. send_once as = Some (a, as') \<and> a \<noteq> SendEINTR \<and>
    length (filter (\<lambda>a. a \<noteq> SendEINTR) as) = Suc (length (filter (\<lambda>a. a \<noteq> SendEINTR) as'))"
  by (induction as rule: send_once.induct) auto

lemma send_loop_returns:
  "length q \<le> length (filter (\<lambda>a. a \<noteq> SendEINTR) as) \<Longrightarrow> send_loop q as s \<noteq> None"
proof (induction q as s rule: send_loop.induct)
  case (2 tmp q as s)
  have "filter (\<lambda>a. a \<noteq> SendEINTR) as \<noteq> []" using 2(2) by auto
  then have "\<exists>a \<in> set as. a \<noteq> SendEINTR" by (simp add: filter_empty_conv)
  from send_once_returns[OF this] obtain a as1 where once: "send_once as = Some (a, as1)" "a \<noteq> SendEINTR"
    "length (filter (\<lambda>a. a \<noteq> SendEINTR) as) = Suc (length (filter (\<lambda>a. a \<noteq> SendEINTR) as1))" by blast
  then have q: "length q \<le> length (filter (\<lambda>a. a \<noteq> SendEINTR) as1)" using 2(2) by simp
  show ?case
  proof (cases a)
    case (Sent n)
    then show ?thesis using 2(1)[OF once(1) refl Sent refl refl refl refl _ q] once(1)
      by (auto simp: Let_def split: option.splits)
  qed (use once in simp_all)
qed simp

section \<open>Properties\<close>

text \<open>C21: \<open>doSend\<close> puts the waiting bytes on the wire in the order they were queued, the
  interrupted buffer first: what went out followed by what is still waiting is what was waiting,
  whatever the kernel accepts.  It returns within one answer other than \<open>EINTR\<close> per buffer,
  keeps every buffer within its size, and asks for the socket to be closed or for nothing.\<close>

theorem doSend_in_order:
  assumes "bufs_ok s"
    and "length (m_sendQs s) + 1 \<le> length (filter (\<lambda>a. a \<noteq> SendEINTR) as)"
  shows "\<exists>r as' s' out. doSend as s = Some (r, as', s', out) \<and> out @ pending s' = pending s \<and>
           bufs_ok s' \<and> m_curSender s' = None \<and> r \<in> {None, Some M_SOCKET_CLOSE} \<and>
           m_state s' = m_state s"
proof -
  define s0 where "s0 = (case m_curSender s of None \<Rightarrow> s
    | Some c \<Rightarrow> s\<lparr>m_sendQs := c # m_sendQs s, m_curSender := None\<rparr>)"
  have s0: "concat (map buf_rest (m_sendQs s0)) = pending s" "\<forall>b \<in> set (m_sendQs s0). buf_ok b"
      "m_curSender s0 = None" "m_state s0 = m_state s" "length (m_sendQs s0) \<le> length (m_sendQs s) + 1"
    using assms(1) by (auto simp: s0_def pending_def bufs_ok_def split: option.splits)
  have "send_loop (m_sendQs s0) as s0 \<noteq> None"
    by (rule send_loop_returns) (use s0(5) assms(2) in linarith)
  then obtain r as' s' out where l: "send_loop (m_sendQs s0) as s0 = Some (r, as', s', out)" by auto
  have "doSend as s = Some (r, as', s', out)" using l by (simp add: doSend_def s0_def Let_def)
  moreover note send_loop_sends[OF l s0(2)]
  moreover have "r \<in> {None, Some M_SOCKET_CLOSE}" using send_loop_result[OF l] .
  ultimately show ?thesis using s0 by (auto simp: pending_def bufs_ok_def)
qed

text \<open>The socket of the witnesses: connected, with the rest of a buffer and one more waiting.\<close>

definition demo_socket :: socketHandle where
  "demo_socket = (appendSendQs [4, 5] 2 (setCurrentSendBuffer [1, 2, 3] 1 3
     (snd (setCompareState INVALID CONNECTED (sock_doInit 7 3 9 TCP (new_socketHandle 0 0))))))"

theorem doSend_in_order_witness:
  "\<exists>r as' s' out. doSend [SendEINTR, Sent 2, Sent 1] demo_socket = Some (r, as', s', out) \<and>
     out @ pending s' = pending demo_socket \<and>
     bufs_ok s' \<and> m_curSender s' = None \<and> r \<in> {None, Some M_SOCKET_CLOSE} \<and>
     m_state s' = m_state demo_socket"
  by (rule doSend_in_order)
    (simp_all add: bufs_ok_def buf_ok_def demo_socket_def appendSendQs_def setCurrentSendBuffer_def
      setCompareState_def sock_doInit_def new_socketHandle_def)

text \<open>The bytes of the current sender are never counted into \<open>m_sendBytes\<close> and yet
  taken off it: when \<open>doSend\<close> has sent the rest of an unfinished buffer of an otherwise idle
  socket, the counter has wrapped around and the next \<open>getWarning\<close> reports megabytes of
  waiting data on a socket that has none.\<close>

theorem unfinished_send_warns:
  assumes "m_sendQs s = []" and "m_sendBytes s = 0" and "m_sendWarn s = WARNING_SIZE"
    and "p < n" and "n \<le> length data" and "n < 2 ^ 31"
  shows "\<exists>s'. doSend [Sent (n - p)] (setCurrentSendBuffer data p n s) =
                 Some (None, [], s', drop p (take n data)) \<and>
              pending s' = [] \<and> m_sendBytes s' = - of_nat (n - p) \<and> fst (getWarning s') \<ge> 2 ^ 21"
proof -
  let ?s' = "s\<lparr>m_curSender := None, m_sendQs := [], m_sendBytes := - of_nat (n - p)\<rparr>"
  have "doSend [Sent (n - p)] (setCurrentSendBuffer data p n s) = Some (None, [], ?s', drop p (take n data))"
    using assms by (simp add: doSend_def setCurrentSendBuffer_def Let_def buf_rest_def)
  moreover have "pending ?s' = []" by (simp add: pending_def)
  moreover have "fst (getWarning ?s') \<ge> 2 ^ 21"
    using large_minus_warns[of "n - p" ?s'] assms by simp
  ultimately show ?thesis by (intro exI[of _ ?s']) simp
qed

theorem unfinished_send_warns_witness:
  "\<exists>s'. doSend [Sent (3 - 1)] (setCurrentSendBuffer [1, 2, 3] 1 3 (doRest (new_socketHandle 0 0))) =
                 Some (None, [], s', drop 1 (take 3 [1, 2, 3])) \<and>
              pending s' = [] \<and> m_sendBytes s' = - of_nat (3 - 1) \<and> fst (getWarning s') \<ge> 2 ^ 21"
  by (rule unfinished_send_warns) (simp_all add: doRest_def new_socketHandle_def)

text \<open>\<open>isSending\<close> asks for a current sender and a non-empty queue at once.  So a socket
  whose last send was cut short is offered for a direct send again, and the buffer that
  direct send leaves behind replaces the unsent bytes: they are never sent.\<close>

theorem unfinished_send_is_lost:
  assumes "m_state s = CONNECTED" and "m_handle s = h" and "m_sendQs s = []"
  shows "isCanSend h (setCurrentSendBuffer data p n s) \<and>
         pending (setCurrentSendBuffer data p n s) = drop p (take n data) \<and>
         pending (setCurrentSendBuffer data' p' n' (setCurrentSendBuffer data p n s)) = drop p' (take n' data')"
  using assms by (simp add: isCanSend_def isSending_def setCurrentSendBuffer_def pending_def buf_rest_def)

theorem unfinished_send_is_lost_witness:
  "\<exists>s. isCanSend 3 (setCurrentSendBuffer [1, 2] 1 2 s) \<and>
         pending (setCurrentSendBuffer [1, 2] 1 2 s) = drop 1 (take 2 [1, 2]) \<and>
         pending (setCurrentSendBuffer [8, 9] 1 2 (setCurrentSendBuffer [1, 2] 1 2 s)) = drop 1 (take 2 [8, 9])"
  by (rule exI, rule unfinished_send_is_lost[of "snd (setCompareState INVALID CONNECTED (sock_doInit 7 3 9 TCP (new_socketHandle 0 0)))"])
    (simp_all add: setCompareState_def sock_doInit_def new_socketHandle_def)

end
