(* ===== verification/SocketChannel.thy ===== *)
theory SocketChannel
  imports SocketHandle ActorMail
begin

text \<open>
  The command channel of the network module, \<open>engine/src/network/socketChannel.cc\<close> and \<open>.h\<close>:
  the layout of a request packet in memory (64-bit little-endian ABI), its way through the pipe,
  the reading side with its answers from the kernel, and the dispatch to the registered functions,
  which are a record of functions on the state \<open>'s\<close> of the socket system.
\<close>

section \<open>Requests and their bytes\<close>

datatype request =
    RStart (rq_handle: "32 word") "64 word"
  | RConnect (rq_handle: "32 word") "32 word" "64 word" "8 word list"
  | RSend (rq_handle: "32 word") "32 word" "64 word"
  | RSetopt (rq_handle: "32 word") "32 word" "32 word"
  | RClose (rq_handle: "32 word") "32 word" "64 word"

text \<open>Storing bytes at an offset of the union, and the string up to its terminator.\<close>

definition put :: "nat \<Rightarrow> 8 word list \<Rightarrow> 8 word list \<Rightarrow> 8 word list" where
  "put off bs u = take off u @ bs @ drop (off + length bs) u"

definition le64 :: "64 word \<Rightarrow> 8 word list" where
  "le64 w = le32 (ucast w) @ le32 (ucast (drop_bit 32 w))"

definition of_le64 :: "8 word list \<Rightarrow> 64 word" where
  "of_le64 bs = ucast (of_le32 (take 4 bs)) OR push_bit 32 (ucast (of_le32 (take 4 (drop 4 bs))))"

definition get32 :: "nat \<Rightarrow> 8 word list \<Rightarrow> 32 word" where
  "get32 off bs = of_le32 (take 4 (drop off bs))"

definition get64 :: "nat \<Rightarrow> 8 word list \<Rightarrow> 64 word" where
  "get64 off bs = of_le64 (take 8 (drop off bs))"

text \<open>The members of the union, written by the caller into the bytes \<open>u\<close> it finds there.\<close>

fun pack :: "request \<Rightarrow> 8 word list \<Rightarrow> 8 word list" where
  "pack (RStart h opq) u = put 8 (le64 opq) (put 0 (le32 h) u)"
| "pack (RConnect h port opq addr) u =
     put 16 (addr @ [0]) (put 4 (le32 port) (put 0 (le32 h) (put 8 (le64 opq) u)))"
| "pack (RSend h sz d) u = put 8 (le64 d) (put 4 (le32 sz) (put 0 (le32 h) u))"
| "pack (RSetopt h what v) u = put 8 (le32 v) (put 4 (le32 what) (put 0 (le32 h) u))"
| "pack (RClose h sh opq) u = put 8 (le64 opq) (put 4 (le32 sh) (put 0 (le32 h) u))"

text \<open>The command letter and the length a caller passes with each request.\<close>

fun command :: "request \<Rightarrow> 8 word" where
  "command (RStart _ _) = 0x53"
| "command (RConnect _ _ _ _) = 0x43"
| "command (RSend _ _ _) = 0x44"
| "command (RSetopt _ _ _) = 0x54"
| "command (RClose _ _ _) = 0x4B"

fun request_len :: "request \<Rightarrow> nat" where
  "request_len (RStart _ _) = 16"
| "request_len (RConnect _ _ _ addr) = 24 + length addr"
| "request_len (RSend _ _ _) = 16"
| "request_len (RSetopt _ _ _) = 12"
| "request_len (RClose _ _ _) = 16"

text \<open>The casts of \<open>doProccess\<close>.\<close>

definition unpack :: "8 word \<Rightarrow> 8 word list \<Rightarrow> request option" where
  "unpack c d =
     (if c = 0x44 \<or> c = 0x50 then Some (RSend (get32 0 d) (get32 4 d) (get64 8 d))
      else if c = 0x53 then Some (RStart (get32 0 d) (get64 8 d))
      else if c = 0x4B then Some (RClose (get32 0 d) (get32 4 d) (get64 8 d))
      else if c = 0x43 then
        Some (RConnect (get32 0 d) (get32 4 d) (get64 8 d) (takeWhile (\<lambda>b. b \<noteq> 0) (drop 16 d)))
      else if c = 0x54 then Some (RSetopt (get32 0 d) (get32 4 d) (get32 8 d))
      else None)"

section \<open>The two ends of the pipe\<close>

datatype errCode = CH_NOEINTR | CH_EINTR | CH_ERROR | CH_EXIT

text \<open>\<open>m_error\<close> is not set by the constructor; \<open>pipe_bytes\<close> are the bytes between the two ends.\<close>

record channel =
  m_controlCtrl :: int
  m_error :: "errCode option"
  pipe_bytes :: "8 word list"

definition new_channel :: channel where
  "new_channel = \<lparr>m_controlCtrl = 1, m_error = None, pipe_bytes = []\<rparr>"

text \<open>
  A \<open>requestPacket\<close> starts with the two bytes of the header.  The union is aligned to the eight
  bytes of its pointers, so that six bytes of padding come between.
\<close>

definition packet :: "8 word \<Rightarrow> nat \<Rightarrow> 8 word list \<Rightarrow> 8 word list \<Rightarrow> 8 word list" where
  "packet type len pad u = [type, of_nat len] @ pad @ u"

datatype write_answer = Wrote nat | WriteEINTR | WriteError

fun doWrite :: "write_answer list \<Rightarrow> 8 word list \<Rightarrow> channel \<Rightarrow> channel res" where
  "doWrite [] d ch = Inl Diverges"
| "doWrite (WriteEINTR # as) d ch = doWrite as d ch"
| "doWrite (WriteError # as) d ch = doWrite as d ch"
| "doWrite (Wrote n # as) d ch =
     seqE (checkE (n = length d) AssertFail) (\<lambda>_. Inr (ch\<lparr>pipe_bytes := pipe_bytes ch @ d\<rparr>))"

definition chan_doSend ::
    "write_answer list \<Rightarrow> 8 word \<Rightarrow> nat \<Rightarrow> 8 word list \<Rightarrow> 8 word list \<Rightarrow> channel \<Rightarrow> channel res" where
  "chan_doSend as type len pad u ch = doWrite as (take (len + 2) (packet type len pad u)) ch"

text \<open>
  \<open>read\<close> gives at most what is in the pipe and blocks on an empty one.  An error leaves the
  buffer as it was: \<open>None\<close>.
\<close>

datatype read_answer = ReadData | ReadEINTR | ReadError

fun doRecv :: "read_answer list \<Rightarrow> nat \<Rightarrow> channel \<Rightarrow> (8 word list option \<times> read_answer list \<times> channel) res" where
  "doRecv [] bytes ch = Inl Diverges"
| "doRecv (ReadEINTR # as) bytes ch = doRecv as bytes ch"
| "doRecv (ReadError # as) bytes ch = Inr (None, as, ch)"
| "doRecv (ReadData # as) bytes ch =
     (if pipe_bytes ch = [] \<and> bytes \<noteq> 0 then Inl Diverges
      else seqE (checkE (bytes \<le> length (pipe_bytes ch)) AssertFail) (\<lambda>_.
        Inr (Some (take bytes (pipe_bytes ch)), as, ch\<lparr>pipe_bytes := drop bytes (pipe_bytes ch)\<rparr>)))"

definition chan_doRest :: "channel \<Rightarrow> channel" where
  "chan_doRest ch = ch\<lparr>m_controlCtrl := 1\<rparr>"

definition isRecv :: "bool \<Rightarrow> channel \<Rightarrow> bool" where
  "isRecv interrupted ch \<longleftrightarrow> \<not> interrupted \<and> pipe_bytes ch \<noteq> []"

section \<open>Dispatch\<close>

fun msg_code :: "socketMessageType \<Rightarrow> int" where
  "msg_code M_SOCKET_DATA = 1"
| "msg_code M_SOCKET_START = 2"
| "msg_code M_SOCKET_CLOSE = 3"
| "msg_code M_SOCKET_ACCEPT = 4"
| "msg_code M_SOCKET_ERROR = 5"
| "msg_code M_SOCKET_EXIT = 6"
| "msg_code M_SOCKET_UDP = 7"
| "msg_code M_SOCKET_WARNING = 8"

text \<open>The registered functions; calling an empty \<open>std::function\<close> throws, and nothing catches it.\<close>

record 's handlers =
  m_startFunc :: "(request \<Rightarrow> 's \<Rightarrow> (int \<times> 's) res) option"
  m_connectFunc :: "(request \<Rightarrow> 's \<Rightarrow> (int \<times> 's) res) option"
  m_sendFunc :: "(request \<Rightarrow> 's \<Rightarrow> (int \<times> 's) res) option"
  m_setoptFunc :: "(request \<Rightarrow> 's \<Rightarrow> (int \<times> 's) res) option"
  m_closeFunc :: "(request \<Rightarrow> 's \<Rightarrow> (int \<times> 's) res) option"
  m_clearClosedFunc :: "(32 word \<Rightarrow> int \<Rightarrow> int \<Rightarrow> 's \<Rightarrow> 's res) option"

definition no_handlers :: "'s handlers" where
  "no_handlers = \<lparr>m_startFunc = None, m_connectFunc = None, m_sendFunc = None, m_setoptFunc = None,
     m_closeFunc = None, m_clearClosedFunc = None\<rparr>"

definition call_func :: "'f option \<Rightarrow> 'f res" where
  "call_func f = (case f of None \<Rightarrow> Inl ExitProcess | Some g \<Rightarrow> Inr g)"

text \<open>The body of the switch: the handle, where the command sets it, and the value returned.\<close>

definition handle_request ::
    "'s handlers \<Rightarrow> 8 word \<Rightarrow> 8 word list \<Rightarrow> 's \<Rightarrow> (32 word option \<times> int \<times> 's) res" where
  "handle_request hs c d s =
     (case unpack c d of
        None \<Rightarrow> Inr (None, -1, s)
      | Some r \<Rightarrow>
          seqE (call_func (case r of
              RStart _ _ \<Rightarrow> m_startFunc hs
            | RConnect _ _ _ _ \<Rightarrow> m_connectFunc hs
            | RSend _ _ _ \<Rightarrow> m_sendFunc hs
            | RSetopt _ _ _ \<Rightarrow> m_setoptFunc hs
            | RClose _ _ _ \<Rightarrow> m_closeFunc hs)) (\<lambda>f.
          seqE (f r s) (\<lambda>(ret, s').
          Inr (if c = 0x54 then None else Some (rq_handle r), ret, s'))))"

text \<open>The two reads of \<open>doProccess\<close>; \<open>junk\<close> are the 256 bytes of its local array.\<close>

definition recv_frame ::
    "read_answer list \<Rightarrow> 8 word list \<Rightarrow> channel \<Rightarrow> (8 word \<times> 8 word list \<times> read_answer list \<times> channel) res" where
  "recv_frame as junk ch =
     seqE (doRecv as 2 ch) (\<lambda>(h, as, ch).
       case h of None \<Rightarrow> Inl Uninitialised | Some h \<Rightarrow>
         seqE (doRecv as (unat (h ! 1)) ch) (\<lambda>(d, as, ch).
           Inr (h ! 0, (case d of None \<Rightarrow> junk | Some d \<Rightarrow> d @ drop (length d) junk), as, ch)))"

text \<open>
  \<open>doProccess\<close> always returns \<open>-1\<close>.  The line \<open>m_error == errCode::CH_ERROR\<close> compares and stores
  nothing.
\<close>

definition doProccess ::
    "'s handlers \<Rightarrow> read_answer list \<Rightarrow> 8 word list \<Rightarrow> int \<Rightarrow> int \<Rightarrow> channel \<Rightarrow> 's \<Rightarrow>
     (read_answer list \<times> channel \<times> 's) res" where
  "doProccess hs as junk idx n ch s =
     seqE (recv_frame as junk ch) (\<lambda>(c, d, as, ch).
       if c = 0x58 then Inr (as, ch\<lparr>m_error := Some CH_EXIT\<rparr>, s)
       else seqE (handle_request hs c d s) (\<lambda>(handle, ret, s).
         let ch = (if c = 0x54 then ch\<lparr>m_error := Some CH_EINTR\<rparr> else ch)
         in if ret = msg_code M_SOCKET_CLOSE \<or> ret = msg_code M_SOCKET_ERROR then
              (case handle of None \<Rightarrow> Inl Uninitialised
               | Some h \<Rightarrow> seqE (call_func (m_clearClosedFunc hs)) (\<lambda>f.
                   seqE (f h idx n s) (\<lambda>s. Inr (as, ch, s))))
            else Inr (as, ch\<lparr>m_error := Some CH_EINTR\<rparr>, s)))"

definition doWait ::
    "'s handlers \<Rightarrow> bool \<Rightarrow> read_answer list \<Rightarrow> 8 word list \<Rightarrow> int \<Rightarrow> int \<Rightarrow> channel \<Rightarrow> 's \<Rightarrow>
     (read_answer list \<times> channel \<times> 's) res" where
  "doWait hs interrupted as junk idx n ch s =
     (if m_controlCtrl ch = 0 then Inr (as, ch\<lparr>m_error := Some CH_NOEINTR\<rparr>, s)
      else if \<not> isRecv interrupted ch then
        Inr (as, ch\<lparr>m_controlCtrl := 0, m_error := Some CH_NOEINTR\<rparr>, s)
      else doProccess hs as junk idx n ch s)"


section \<open>Bytes stored and read back\<close>

lemma length_le [simp]: "length (le32 w) = 4" "length (le64 v) = 8"
  by (simp_all add: le32_def le64_def)

lemma of_le64_le64: "of_le64 (le64 w) = w"
proof -
  have "of_le64 (le64 w) = ucast (ucast w :: 32 word) OR push_bit 32 (ucast (ucast (drop_bit 32 w) :: 32 word))"
    by (simp add: of_le64_def le64_def of_le32_le32)
  also have "\<dots> = w"
  proof (rule bit_word_eqI)
    fix n assume "n < LENGTH(64)"
    then show "bit (ucast (ucast w :: 32 word) OR push_bit 32 (ucast (ucast (drop_bit 32 w) :: 32 word)) :: 64 word) n = bit w n"
      by (auto simp: bit_simps not_less)
  qed
  finally show ?thesis .
qed

lemma length_put [simp]: "off + length bs \<le> length u \<Longrightarrow> length (put off bs u) = length u"
  by (simp add: put_def)

text \<open>
  A store of bytes at offsets: what a read gives back after a write to the same place, and to
  another one.
\<close>

locale byte_store =
  fixes wr :: "nat \<Rightarrow> 8 word list \<Rightarrow> 'm \<Rightarrow> 'm"
    and rd :: "nat \<Rightarrow> nat \<Rightarrow> 'm \<Rightarrow> 8 word list"
    and size_of :: "'m \<Rightarrow> nat"
  assumes size_write: "off + length bs \<le> size_of m \<Longrightarrow> size_of (wr off bs m) = size_of m"
    and read_same: "off + length bs \<le> size_of m \<Longrightarrow> rd off (length bs) (wr off bs m) = bs"
    and read_other: "off + length bs \<le> size_of m \<Longrightarrow> o' + n \<le> off \<or> off + length bs \<le> o' \<Longrightarrow>
      rd o' n (wr off bs m) = rd o' n m"
begin

lemma read_two:
  "a + length x \<le> b \<Longrightarrow> b + length y \<le> size_of m \<Longrightarrow>
   rd a (length x) (wr b y (wr a x m)) = x \<and> rd b (length y) (wr b y (wr a x m)) = y"
  by (simp add: read_same read_other size_write)

lemma write_idem_read:
  "a + length x \<le> size_of m \<Longrightarrow> length y = length x \<Longrightarrow>
   rd a (length y) (wr a y (wr a x m)) = y"
  by (metis read_same size_write)

end

definition get :: "nat \<Rightarrow> nat \<Rightarrow> 8 word list \<Rightarrow> 8 word list" where
  "get off n u = take n (drop off u)"

interpretation bytes: byte_store put get length
proof
  fix off and bs m :: "8 word list" assume le: "off + length bs \<le> length m"
  then show "length (put off bs m) = length m" by simp
  show "get off (length bs) (put off bs m) = bs" using le by (simp add: get_def put_def)
  fix o' n assume "o' + n \<le> off \<or> off + length bs \<le> o'"
  then show "get o' n (put off bs m) = get o' n m"
    using le by (auto simp: get_def put_def min_def drop_take add.commute)
qed

lemma get32_get: "get32 off u = of_le32 (get off 4 u)"
  by (simp add: get32_def get_def)

lemma get64_get: "get64 off u = of_le64 (get off 8 u)"
  by (simp add: get64_def get_def)

lemma get32_put: "off + 4 \<le> length u \<Longrightarrow> get32 off (put off (le32 w) u) = w"
  using bytes.read_same[of off "le32 w" u] by (simp add: get32_get of_le32_le32)

lemma get64_put: "off + 8 \<le> length u \<Longrightarrow> get64 off (put off (le64 w) u) = w"
  using bytes.read_same[of off "le64 w" u] by (simp add: get64_get of_le64_le64)

lemma get32_other:
  "off + length bs \<le> length u \<Longrightarrow> o' + 4 \<le> off \<or> off + length bs \<le> o' \<Longrightarrow>
   get32 o' (put off bs u) = get32 o' u"
  by (simp add: get32_get bytes.read_other)

lemma get64_other:
  "off + length bs \<le> length u \<Longrightarrow> o' + 8 \<le> off \<or> off + length bs \<le> o' \<Longrightarrow>
   get64 o' (put off bs u) = get64 o' u"
  by (simp add: get64_get bytes.read_other)

lemmas packet_fields = get32_put get64_put get32_other get64_other

text \<open>A received prefix of the union, with anything behind it, reads like the union.\<close>

lemma get32_prefix: "off + 4 \<le> n \<Longrightarrow> n \<le> length u \<Longrightarrow> get32 off (take n u @ j) = get32 off u"
  by (auto simp: get32_def drop_take min_def)

lemma get64_prefix: "off + 8 \<le> n \<Longrightarrow> n \<le> length u \<Longrightarrow> get64 off (take n u @ j) = get64 off u"
  by (auto simp: get64_def drop_take min_def)


definition request_ok :: "request \<Rightarrow> bool" where
  "request_ok r \<longleftrightarrow> request_len r < 256 \<and>
     (case r of RConnect _ _ _ addr \<Rightarrow> \<forall>b \<in> set addr. b \<noteq> 0 | _ \<Rightarrow> True)"

lemma length_pack: "request_ok r \<Longrightarrow> length u = 256 \<Longrightarrow> length (pack r u) = 256"
  by (cases r) (auto simp: request_ok_def)

lemma unpack_command:
  "map_option rq_handle (unpack (command r) d) = Some (get32 0 d)"
  by (cases r) (simp_all add: unpack_def)

lemma connect_addr:
  assumes "\<forall>b \<in> set addr. b \<noteq> 0" "24 + length addr < 256" "length u = 256"
  shows "takeWhile (\<lambda>b. b \<noteq> 0) (drop 16 (take (24 + length addr) (put 16 (addr @ [0]) u) @ j)) = addr"
proof -
  have "drop 16 (take (24 + length addr) (put 16 (addr @ [0]) u) @ j) =
      addr @ 0 # (take 7 (drop (17 + length addr) u) @ j)"
    using assms(2,3) by (simp add: put_def min_def)
  moreover have "takeWhile (\<lambda>b. b \<noteq> 0) (addr @ 0 # xs) = addr" for xs :: "8 word list"
    using assms(1) by (induction addr) auto
  ultimately show ?thesis by simp
qed

section \<open>The channel as a sequence of frames\<close>

text \<open>The bytes of one packet in the pipe, and what reading several frames gives.\<close>

type_synonym frame = "8 word \<times> nat \<times> 8 word list \<times> 8 word list"

definition wire :: "frame \<Rightarrow> 8 word list" where
  "wire p = (case p of (c, len, pad, u) \<Rightarrow> take (len + 2) (packet c len pad u))"

definition frame_ok :: "frame \<Rightarrow> bool" where
  "frame_ok p \<longleftrightarrow> (case p of (c, len, pad, u) \<Rightarrow> len < 256 \<and> length pad = 6 \<and> length u = 256)"

definition frame_data :: "8 word list \<Rightarrow> frame \<Rightarrow> 8 word \<times> 8 word list" where
  "frame_data junk p = (case p of (c, len, pad, u) \<Rightarrow> (c, take len (pad @ u) @ drop len junk))"

fun recv_frames :: "nat \<Rightarrow> 8 word list \<Rightarrow> channel \<Rightarrow> ((8 word \<times> 8 word list) list \<times> channel) res" where
  "recv_frames 0 junk ch = Inr ([], ch)"
| "recv_frames (Suc k) junk ch =
     seqE (recv_frame [ReadData, ReadData] junk ch) (\<lambda>(c, d, as, ch).
       seqE (recv_frames k junk ch) (\<lambda>(fs, ch). Inr ((c, d) # fs, ch)))"

lemma wire_cons: "wire (c, len, pad, u) = c # of_nat len # take len (pad @ u)"
  by (simp add: wire_def packet_def)

lemma send_wire:
  "frame_ok p \<Longrightarrow> p = (c, len, pad, u) \<Longrightarrow>
   chan_doSend [Wrote (len + 2)] c len pad u ch = Inr (ch\<lparr>pipe_bytes := pipe_bytes ch @ wire p\<rparr>)"
  by (auto simp: chan_doSend_def wire_def frame_ok_def packet_def checkE_def min_def)

lemma recv_wire:
  assumes "frame_ok (c, len, pad, u)"
  shows "recv_frame [ReadData, ReadData] junk (ch\<lparr>pipe_bytes := wire (c, len, pad, u) @ q\<rparr>) =
    Inr (c, take len (pad @ u) @ drop len junk, [], ch\<lparr>pipe_bytes := q\<rparr>)"
proof -
  have l: "len < 256" "length (take len (pad @ u)) = len"
    using assms by (auto simp: frame_ok_def)
  have u: "unat (of_nat len :: 8 word) = len"
    using l(1) by (simp add: unat_of_nat take_bit_nat_eq_self_iff)
  define d where "d = take len (pad @ u)"
  have d: "length d = len" using l by (simp add: d_def)
  have "recv_frame [ReadData, ReadData] junk (ch\<lparr>pipe_bytes := c # of_nat len # d @ q\<rparr>) =
    Inr (c, d @ drop len junk, [], ch\<lparr>pipe_bytes := q\<rparr>)"
    using d u by (cases d) (auto simp: recv_frame_def numeral_2_eq_2)
  then show ?thesis by (simp add: wire_cons d_def)
qed


section \<open>Commands after the channel was found empty\<close>

text \<open>What happens to the channel: packets are sent, the poll loop asks for one.\<close>

inductive chan_step :: "'s handlers \<Rightarrow> channel \<Rightarrow> channel \<Rightarrow> bool" for hs where
  cs_send: "chan_doSend as c len pad u ch = Inr ch' \<Longrightarrow> chan_step hs ch ch'"
| cs_wait: "doWait hs intr as junk idx n ch s = Inr (as', ch', s') \<Longrightarrow> chan_step hs ch ch'"

lemma doWrite_ctrl: "doWrite as d ch = Inr ch' \<Longrightarrow> m_controlCtrl ch' = m_controlCtrl ch"
  by (induction as d ch rule: doWrite.induct) (auto simp: res_simps)

lemma deaf_wait:
  "m_controlCtrl ch = 0 \<Longrightarrow> doWait hs intr as junk idx n ch s = Inr (as, ch\<lparr>m_error := Some CH_NOEINTR\<rparr>, s)"
  by (simp add: doWait_def)

interpretation chn: invariant_machine "\<lambda>ch. m_controlCtrl ch = 0" "chan_step hs" "\<lambda>ch. m_controlCtrl ch = 0"
  for hs :: "'s handlers"
proof
  fix ch ch' assume d: "m_controlCtrl ch = 0" and "chan_step hs ch ch'"
  from this(2) show "m_controlCtrl ch' = 0"
  proof cases
    case cs_send
    then show ?thesis using d doWrite_ctrl by (auto simp: chan_doSend_def)
  next
    case cs_wait
    then show ?thesis using d by (simp add: deaf_wait) (auto)
  qed
qed

text \<open>After any such steps a call of \<open>doWait\<close> only reports \<open>CH_NOEINTR\<close>.\<close>

definition deaf :: "'s handlers \<Rightarrow> channel \<Rightarrow> bool" where
  "deaf hs ch \<longleftrightarrow> (\<forall>ch2 intr as junk idx n s. (chan_step hs)\<^sup>*\<^sup>* ch ch2 \<longrightarrow>
     doWait hs intr as junk idx n ch2 s = Inr (as, ch2\<lparr>m_error := Some CH_NOEINTR\<rparr>, s))"

section \<open>Properties\<close>

text \<open>The union of a request packet keeps what was written into it: reading the first
  \<open>request_len\<close> bytes of it back, with anything behind them, gives the request again.\<close>

theorem request_roundtrip:
  assumes "request_ok r" and "length u = 256"
  shows "unpack (command r) (take (request_len r) (pack r u) @ j) = Some r"
proof (cases r)
  case (RConnect h port opq addr)
  have len: "24 + length addr < 256" "\<forall>b \<in> set addr. b \<noteq> 0"
    using assms(1) RConnect by (auto simp: request_ok_def)
  have pre: "get32 0 (take (24 + length addr) v @ j) = get32 0 v"
    "get32 4 (take (24 + length addr) v @ j) = get32 4 v"
    "get64 8 (take (24 + length addr) v @ j) = get64 8 v" if "length v = 256" for v
    using len(1) that by (simp_all add: get32_prefix get64_prefix)
  let ?u = "put 4 (le32 port) (put 0 (le32 h) (put 8 (le64 opq) u))"
  have "length ?u = 256" using assms(2) by simp
  note addr = connect_addr[OF len(2,1) this, of j]
  show ?thesis
    unfolding RConnect using len assms(2) addr by (simp add: unpack_def pre packet_fields)
qed (use assms(2) in \<open>simp_all add: unpack_def get32_prefix get64_prefix packet_fields\<close>)

theorem request_roundtrip_witness:
  "unpack (command (RConnect 5 80 9 [49, 46])) (take (request_len (RConnect 5 80 9 [49, 46]))
     (pack (RConnect 5 80 9 [49, 46]) (replicate 256 0)) @ [7]) = Some (RConnect 5 80 9 [49, 46])"
  by (rule request_roundtrip) (simp_all add: request_ok_def)

text \<open>The channel keeps frames: whatever packets were written, each read takes exactly one of
  them, in the order they were sent, and the data it gives is what was written behind the
  two bytes of the header.\<close>

theorem frames_in_order:
  assumes "\<forall>p \<in> set ps. frame_ok p"
  shows "recv_frames (length ps) junk (ch\<lparr>pipe_bytes := concat (map wire ps) @ q\<rparr>) =
           Inr (map (frame_data junk) ps, ch\<lparr>pipe_bytes := q\<rparr>)"
  using assms
proof (induction ps)
  case (Cons p ps)
  obtain c len pad u where p: "p = (c, len, pad, u)" by (cases p)
  have "recv_frame [ReadData, ReadData] junk (ch\<lparr>pipe_bytes := wire p @ (concat (map wire ps) @ q)\<rparr>) =
    Inr (c, take len (pad @ u) @ drop len junk, [], ch\<lparr>pipe_bytes := concat (map wire ps) @ q\<rparr>)"
    using Cons(2) unfolding p by (intro recv_wire) simp
  then show ?case using Cons by (simp add: frame_data_def p)
qed simp

definition demo_frames :: "frame list" where
  "demo_frames = [(0x58, 8, replicate 6 0, replicate 256 0), (0x4B, 16, replicate 6 0, replicate 256 0)]"

theorem frames_in_order_witness:
  "recv_frames (length demo_frames) [] (new_channel\<lparr>pipe_bytes := concat (map wire demo_frames) @ [1]\<rparr>) =
     Inr (map (frame_data []) demo_frames, new_channel\<lparr>pipe_bytes := [1]\<rparr>)"
  by (rule frames_in_order) (simp add: frame_ok_def demo_frames_def)

text \<open>C22: The bytes behind the header are not the union but the padding before it: whatever
  request is sent, the handle the reading side works on is made of four padding bytes.\<close>

theorem channel_misreads_requests:
  assumes "request_ok r" and "length pad = 6" and "length u = 256" and "pipe_bytes ch = []"
  shows "\<exists>ch' d. chan_doSend [Wrote (request_len r + 2)] (command r) (request_len r) pad (pack r u) ch = Inr ch' \<and>
           recv_frame [ReadData, ReadData] junk ch' = Inr (command r, d, [], ch) \<and>
           map_option rq_handle (unpack (command r) d) = Some (of_le32 (take 4 pad))"
proof -
  have ok: "frame_ok (command r, request_len r, pad, pack r u)"
    using assms length_pack[OF assms(1,3)] by (simp add: frame_ok_def request_ok_def)
  let ?d = "take (request_len r) (pad @ pack r u) @ drop (request_len r) junk"
  have len: "6 \<le> request_len r" by (cases r) simp_all
  have "get32 0 ?d = of_le32 (take 4 pad)"
    using len assms(2) by (simp add: get32_def)
  then have "map_option rq_handle (unpack (command r) ?d) = Some (of_le32 (take 4 pad))"
    by (simp only: unpack_command)
  moreover have "ch\<lparr>pipe_bytes := []\<rparr> = ch" using assms(4) by simp
  ultimately show ?thesis
    using send_wire[OF ok refl, of ch] recv_wire[OF ok, where junk = junk and ch = ch and q = "[]"] assms(4) by simp
qed

theorem channel_misreads_requests_witness:
  "\<exists>ch' d. chan_doSend [Wrote (request_len (RClose 5 1 9) + 2)] (command (RClose 5 1 9)) (request_len (RClose 5 1 9))
             (replicate 6 0) (pack (RClose 5 1 9) (replicate 256 0)) new_channel = Inr ch' \<and>
           recv_frame [ReadData, ReadData] [] ch' = Inr (command (RClose 5 1 9), d, [], new_channel) \<and>
           map_option rq_handle (unpack (command (RClose 5 1 9)) d) = Some (of_le32 (take 4 (replicate 6 0)))"
  by (rule channel_misreads_requests) (simp_all add: request_ok_def new_channel_def)

text \<open>Once \<open>doWait\<close> has found nothing to read it never reads again: it clears
  \<open>m_controlCtrl\<close>, nothing calls \<open>doRest\<close>, and whatever is sent afterwards, every later call
  reports \<open>CH_NOEINTR\<close>, runs no request and leaves the bytes in the pipe.\<close>

theorem channel_goes_deaf:
  assumes "pipe_bytes ch = []"
  shows "\<exists>ch1. doWait hs intr as junk idx n ch s = Inr (as, ch1, s) \<and> deaf hs ch1"
proof -
  let ?c = "if m_controlCtrl ch = 0 then ch\<lparr>m_error := Some CH_NOEINTR\<rparr>
    else ch\<lparr>m_controlCtrl := 0, m_error := Some CH_NOEINTR\<rparr>"
  have "doWait hs intr as junk idx n ch s = Inr (as, ?c, s)"
    using assms by (simp add: doWait_def isRecv_def)
  moreover have "doWait hs intr' as' junk' idx' n' ch2 s' = Inr (as', ch2\<lparr>m_error := Some CH_NOEINTR\<rparr>, s')"
    if "(chan_step hs)\<^sup>*\<^sup>* ?c ch2" for ch2 intr' as' junk' idx' n' s'
    by (rule deaf_wait) (use chn.steps_inv[OF that] in simp)
  ultimately show ?thesis unfolding deaf_def by (intro exI[of _ ?c]) simp
qed

theorem channel_goes_deaf_witness:
  "\<exists>ch1. doWait (no_handlers :: unit handlers) False [] [] 0 0 new_channel () = Inr ([], ch1, ()) \<and>
     deaf (no_handlers :: unit handlers) ch1"
  by (rule channel_goes_deaf) (simp add: new_channel_def)

end
