(* ===== verification/SocketSystem.thy ===== *)
theory SocketSystem
  imports SocketChannel
begin

text \<open>
  The socket system, \<open>engine/src/network/socketSystem.cc\<close> and \<open>.h\<close>, over the registered sockets of
  \<open>iocpEpoll.cc\<close>: the table of socket slots, the calls of the API threads, the requests the poll
  thread takes out of the channel, its handling of socket events, and the messages it hands to
  the actors.  What the operating system answers is the record \<open>kernel\<close>; \<open>k_close\<close> stands for
  the closing function, so that the code's own \<open>socketWrap::close\<close> (theory SocketHandle) is one
  choice of it.  A socket slot is named by its index.
\<close>

section \<open>The registered sockets\<close>

type_synonym epoll = "int \<rightharpoonup> nat option \<times> bool"

definition ep_doRegister :: "bool \<Rightarrow> int \<Rightarrow> nat option \<Rightarrow> epoll \<Rightarrow> bool \<times> epoll" where
  "ep_doRegister ok sock ud e =
     (if ok \<and> sock \<notin> dom e then (True, e(sock \<mapsto> (ud, False))) else (False, e))"

definition ep_doUnRegister :: "int \<Rightarrow> epoll \<Rightarrow> epoll" where
  "ep_doUnRegister sock e = e(sock := None)"

definition ep_doToWrite :: "int \<Rightarrow> nat option \<Rightarrow> bool \<Rightarrow> epoll \<Rightarrow> epoll" where
  "ep_doToWrite sock ud enable e = (if sock \<in> dom e then e(sock \<mapsto> (ud, enable)) else e)"

record iocpEvent =
  ev_s :: "nat option"
  ev_isread :: bool
  ev_iswrite :: bool
  ev_iserror :: bool
  ev_iseof :: bool

definition EPOLLIN :: "32 word" where "EPOLLIN = 1"
definition EPOLLOUT :: "32 word" where "EPOLLOUT = 4"
definition EPOLLERR :: "32 word" where "EPOLLERR = 8"
definition EPOLLHUP :: "32 word" where "EPOLLHUP = 16"

definition event_of :: "nat option \<times> 32 word \<Rightarrow> iocpEvent" where
  "event_of e = \<lparr>ev_s = fst e, ev_isread = (snd e AND (EPOLLIN OR EPOLLHUP) \<noteq> 0),
     ev_iswrite = (snd e AND EPOLLOUT \<noteq> 0), ev_iserror = (snd e AND EPOLLERR \<noteq> 0), ev_iseof = False\<rparr>"

text \<open>\<open>onWait\<close>: how many events, or the error, and the array of events, overwritten from its start.\<close>

definition ep_onWait :: "bool \<Rightarrow> (nat option \<times> 32 word) list \<Rightarrow> iocpEvent list \<Rightarrow> int \<times> iocpEvent list" where
  "ep_onWait eintr got evts =
     (if got = [] then (if eintr then -2 else -1, evts)
      else (int (length got), map event_of got @ drop (length got) evts))"

section \<open>Answers of the operating system\<close>

datatype recv_answer = Received "8 word list" | RecvEINTR | RecvAGAIN | RecvFailed

datatype connect_answer = ConnOk | ConnInProgress | ConnFailed

text \<open>An address of the list: what \<open>socket\<close> and \<open>connect\<close> answer for it, and its text form.\<close>

type_synonym candidate = "int \<times> connect_answer \<times> 8 word list option"

record kernel =
  k_close :: "int \<Rightarrow> int option"
  k_listen :: "int \<Rightarrow> int \<Rightarrow> int option"
  k_addrinfo :: "candidate list option"
  k_reuse :: bool
  k_bind :: bool
  k_register :: bool
  k_lock :: bool
  k_sendnow :: int
  k_send :: "send_answer list"
  k_recv :: recv_answer
  k_soerror :: "int \<times> int"
  k_peer :: "8 word list option"
  k_accept :: "int \<times> bool"
  k_now :: "64 word"
  k_text :: "8 word list"
  k_write :: "write_answer list"
  k_pad :: "8 word list"
  k_union :: "8 word list"

section \<open>Messages to the actors\<close>

record socketMessage =
  sm_id :: int
  sm_type :: int
  sm_ext :: int
  sm_buffer :: "8 word list option"

text \<open>A text is copied up to its terminator, the empty one as four zero bytes.\<close>

definition doMessageGen :: "socketMessageType \<Rightarrow> int \<Rightarrow> 8 word list option \<Rightarrow> nat \<Rightarrow> int \<Rightarrow> socketMessage" where
  "doMessageGen type handle data sz ext =
     \<lparr>sm_id = handle, sm_type = msg_code type, sm_ext = ext,
      sm_buffer = (case data of
          None \<Rightarrow> None
        | Some d \<Rightarrow>
            if sz = 0 then
              (let t = takeWhile (\<lambda>b. b \<noteq> 0) d in if t = [] then Some [0, 0, 0, 0] else Some (t @ [0]))
            else Some d)\<rparr>"

text \<open>The registered event functions \<open>onSocketAccept\<close> to \<open>onSocketWarn\<close>.\<close>

definition onSocket :: "socketMessageType \<Rightarrow> int \<Rightarrow> int \<Rightarrow> 8 word list option \<Rightarrow> nat \<Rightarrow> socketMessage" where
  "onSocket type handle ud data sz =
     doMessageGen type handle data sz
       (case type of M_SOCKET_START \<Rightarrow> 0 | M_SOCKET_DATA \<Rightarrow> int sz | _ \<Rightarrow> ud)"

section \<open>The state\<close>

definition MAX_SOCKET :: nat where "MAX_SOCKET = 65536"

record sys =
  m_sockGroup :: "nat \<Rightarrow> socketHandle"
  m_sockSequence :: "32 word"
  m_epoll :: epoll
  m_evts :: "iocpEvent list"
  m_channel :: channel
  sent_events :: "(nat \<times> socketMessage) list"
  set_opts :: "(int \<times> 32 word \<times> 32 word) list"

definition SOCKET_GET :: "int \<Rightarrow> nat" where
  "SOCKET_GET handle = unat (word_of_int handle :: 32 word) mod MAX_SOCKET"

definition getSocket :: "sys \<Rightarrow> int \<Rightarrow> socketHandle" where
  "getSocket s handle = m_sockGroup s (SOCKET_GET handle)"

definition set_slot :: "nat \<Rightarrow> socketHandle \<Rightarrow> sys \<Rightarrow> sys" where
  "set_slot i sk s = s\<lparr>m_sockGroup := (m_sockGroup s)(i := sk)\<rparr>"

text \<open>\<open>getEventFunc(type)(...)\<close> and the \<open>forwardMessage\<close> behind it.\<close>

definition emit :: "socketMessageType \<Rightarrow> nat \<Rightarrow> int \<Rightarrow> int \<Rightarrow> 8 word list option \<Rightarrow> nat \<Rightarrow> sys \<Rightarrow> sys" where
  "emit type opq handle ud data sz s =
     s\<lparr>sent_events := sent_events s @ [(opq, onSocket type handle ud data sz)]\<rparr>"

definition slot_closed :: "kernel \<Rightarrow> int \<Rightarrow> unit res" where
  "slot_closed k sock = (case k_close k sock of None \<Rightarrow> Inl Diverges | Some _ \<Rightarrow> Inr ())"

definition forceClose :: "kernel \<Rightarrow> nat \<Rightarrow> sys \<Rightarrow> sys res" where
  "forceClose k i s =
     (let sk = m_sockGroup s i in
      if m_state sk = INVALID then Inr s
      else seqE (checkE (m_state sk \<noteq> RESERVE) AssertFail) (\<lambda>_.
        let s = (if m_state sk \<noteq> PACCEPT \<and> m_state sk \<noteq> PLISTEN
                 then s\<lparr>m_epoll := ep_doUnRegister (m_sock sk) (m_epoll s)\<rparr> else s)
        in seqE (doClose (k_close k) sk) (\<lambda>sk. Inr (set_slot i sk s))))"

section \<open>Calls of the API\<close>

text \<open>
  \<open>getReserve\<close>: the sequence number is advanced at most \<open>MAX_SOCKET\<close> times.  The compare and set
  to \<open>RESERVE\<close> is followed by \<open>doRest\<close>, which sets the state back.
\<close>

definition next_seq :: "32 word \<Rightarrow> 32 word" where
  "next_seq w = (if sint (w + 1) < 0 then (w + 1) AND 0x7FFFFFFF else w + 1)"

fun reserve_loop :: "nat \<Rightarrow> sys \<Rightarrow> int \<times> sys" where
  "reserve_loop 0 s = (-1, s)"
| "reserve_loop (Suc k) s =
     (let s = s\<lparr>m_sockSequence := next_seq (m_sockSequence s)\<rparr>;
          handle = sint (m_sockSequence s);
          sk = getSocket s handle
      in if m_state sk = INVALID then
           (handle, set_slot (SOCKET_GET handle)
              (setHandle handle (doRest (snd (setCompareState INVALID RESERVE sk)))) s)
         else reserve_loop k s)"

definition getReserve :: "sys \<Rightarrow> int \<times> sys" where
  "getReserve s = reserve_loop MAX_SOCKET s"

definition doSocketBind :: "kernel \<Rightarrow> int res" where
  "doSocketBind k =
     (case k_addrinfo k of
        None \<Rightarrow> Inr INVALID_SOCKET
      | Some [] \<Rightarrow> Inl NullDeref
      | Some ((sock, _) # _) \<Rightarrow>
          if sock = INVALID_SOCKET then Inr INVALID_SOCKET
          else if k_reuse k \<and> k_bind k then Inr sock
          else seqE (slot_closed k sock) (\<lambda>_. Inr INVALID_SOCKET))"

text \<open>At the first jump to \<open>_FAILED\<close> the variable \<open>handle\<close> it closes holds nothing yet.\<close>

definition doSocketListen :: "kernel \<Rightarrow> nat \<Rightarrow> int \<Rightarrow> sys \<Rightarrow> (int \<times> sys) res" where
  "doSocketListen k opq block s =
     seqE (doSocketBind k) (\<lambda>sock.
       if sock = INVALID_SOCKET then Inr (SOCKET_HANDLE_INVALID, s)
       else (case k_listen k sock block of
          None \<Rightarrow> Inl Diverges
        | Some r \<Rightarrow>
            if r \<noteq> 0 then Inl Uninitialised
            else (let (handle, s) = getReserve s in
              if handle = SOCKET_HANDLE_INVALID then
                seqE (slot_closed k handle) (\<lambda>_. Inr (SOCKET_HANDLE_INVALID, s))
              else
                (let sk = getSocket s handle in
                 seqE (checkE (fst (setCompareState RESERVE RESERVE sk)) AssertFail) (\<lambda>_.
                   Inr (handle, set_slot (SOCKET_GET handle)
                     ((sock_doInit opq handle sock TCP sk)\<lparr>m_state := PLISTEN\<rparr>) s))))))"

text \<open>A request is packed into the union of a packet on the stack and written to the pipe.\<close>

definition send_request :: "kernel \<Rightarrow> request \<Rightarrow> sys \<Rightarrow> sys res" where
  "send_request k r s =
     seqE (chan_doSend (k_write k) (command r) (request_len r) (k_pad k) (pack r (k_union k)) (m_channel s))
       (\<lambda>ch. Inr (s\<lparr>m_channel := ch\<rparr>))"

definition doSocketConnect :: "kernel \<Rightarrow> nat \<Rightarrow> 8 word list \<Rightarrow> int \<Rightarrow> sys \<Rightarrow> (int \<times> sys) res" where
  "doSocketConnect k opq addr port s =
     (if length addr + 24 \<ge> 256 then Inr (-1, s)
      else (let (handle, s) = getReserve s in
        if handle < 0 then Inr (-1, s)
        else seqE (send_request k (RConnect (word_of_int handle) (word_of_int port) (of_nat opq) addr) s)
          (\<lambda>s. Inr (handle, s))))"

definition doSocketStart :: "kernel \<Rightarrow> nat \<Rightarrow> int \<Rightarrow> sys \<Rightarrow> sys res" where
  "doSocketStart k opq handle s = send_request k (RStart (word_of_int handle) (of_nat opq)) s"

definition doSocketNodelay :: "kernel \<Rightarrow> int \<Rightarrow> sys \<Rightarrow> sys res" where
  "doSocketNodelay k handle s = send_request k (RSetopt (word_of_int handle) 1 1) s"

definition doSocketClose :: "kernel \<Rightarrow> nat \<Rightarrow> int \<Rightarrow> sys \<Rightarrow> sys res" where
  "doSocketClose k opq handle s = send_request k (RClose (word_of_int handle) 0 (of_nat opq)) s"

definition doSocketShutdown :: "kernel \<Rightarrow> nat \<Rightarrow> int \<Rightarrow> sys \<Rightarrow> sys res" where
  "doSocketShutdown k opq handle s = send_request k (RClose (word_of_int handle) 1 (of_nat opq)) s"

text \<open>
  \<open>doSocketSend\<close> of the \<open>sz\<close> bytes at address \<open>p\<close>; \<open>mem\<close> are the buffers of the callers.  The
  comparison \<open>n == sz\<close> of the bytes sent is between non-negative numbers.
\<close>

definition doSocketSend ::
    "kernel \<Rightarrow> (64 word \<Rightarrow> 8 word list) \<Rightarrow> int \<Rightarrow> 64 word \<Rightarrow> nat \<Rightarrow> sys \<Rightarrow> (int \<times> sys) res" where
  "doSocketSend k mem handle p sz s =
     (let i = SOCKET_GET handle; sk = m_sockGroup s i in
      if m_state sk \<in> {INVALID, HALFCLOSE, PACCEPT, PLISTEN, LISTEN} then Inr (-1, s)
      else if k_lock k \<and> isCanSend handle sk then
        (let n = (if k_sendnow k < 0 then 0 else nat (k_sendnow k)) in
         if n = sz then Inr (0, s)
         else Inr (0, set_slot i (setCurrentSendBuffer (mem p) n sz sk)
                (s\<lparr>m_epoll := ep_doToWrite (m_sock sk) (Some i) True (m_epoll s)\<rparr>)))
      else (case incSendIn sk of
          None \<Rightarrow> Inl Diverges
        | Some (r, sk') \<Rightarrow>
            let s = set_slot i sk' s in
            if r \<noteq> 0 then Inr (-1, s)
            else seqE (send_request k (RSend (word_of_int handle) (of_nat sz) p) s) (\<lambda>s. Inr (0, s))))"


section \<open>Requests of the poll thread\<close>

definition CLOSE :: int where "CLOSE = msg_code M_SOCKET_CLOSE"
definition ERROR :: int where "ERROR = msg_code M_SOCKET_ERROR"

definition str_start :: "8 word list" where "str_start = [115, 116, 97, 114, 116]"
definition str_transfer :: "8 word list" where "str_transfer = [116, 114, 97, 110, 115, 102, 101, 114]"

definition stale :: "int \<Rightarrow> socketHandle \<Rightarrow> bool" where
  "stale handle sk \<longleftrightarrow> m_state sk = INVALID \<or> m_handle sk \<noteq> handle"

text \<open>\<open>doRequestStart\<close>, a function of the class although it is not registered with the channel.\<close>

definition doRequestStart :: "kernel \<Rightarrow> int \<Rightarrow> nat \<Rightarrow> sys \<Rightarrow> (int \<times> sys) res" where
  "doRequestStart k handle opq s =
     (let i = SOCKET_GET handle; sk = m_sockGroup s i in
      if stale handle sk then Inr (ERROR, emit M_SOCKET_ERROR opq handle 0 None 0 s)
      else if m_state sk = PACCEPT \<or> m_state sk = PLISTEN then
        (let (ok, e) = ep_doRegister (k_register k) (m_sock sk) (Some i) (m_epoll s) in
         if \<not> ok then
           seqE (forceClose k i s) (\<lambda>s.
             Inr (ERROR, emit M_SOCKET_ERROR opq handle 0 (Some (k_text k)) 0 s))
         else Inr (-1, emit M_SOCKET_START opq handle 0 (Some str_start) 0
                (set_slot i (sk\<lparr>m_state := (if m_state sk = PACCEPT then CONNECTED else LISTEN)\<rparr>)
                  (s\<lparr>m_epoll := e\<rparr>))))
      else if m_state sk = CONNECTED then
        Inr (-1, emit M_SOCKET_START opq handle 0 (Some str_transfer) 0 s)
      else Inr (-1, s))"

text \<open>
  The loop of \<open>doRequestConnect\<close> over the addresses: the socket it ends with, the answer of the
  last \<open>connect\<close>, and the text of the address it stopped at.  A refused socket is closed and
  replaced by \<open>INVALID_SOCKET\<close>, which is 0.
\<close>

fun connect_loop ::
    "kernel \<Rightarrow> candidate list \<Rightarrow> int \<Rightarrow> bool \<Rightarrow> (int \<times> bool \<times> 8 word list option) res" where
  "connect_loop k [] sock ok = Inr (sock, ok, None)"
| "connect_loop k ((sk, ans, txt) # cs) sock ok =
     (if sk < 0 then connect_loop k cs sk ok
      else (case ans of
          ConnOk \<Rightarrow> Inr (sk, True, txt)
        | ConnInProgress \<Rightarrow> Inr (sk, False, txt)
        | ConnFailed \<Rightarrow> seqE (slot_closed k sk) (\<lambda>_. connect_loop k cs INVALID_SOCKET False)))"

definition connect_failed :: "int \<Rightarrow> nat \<Rightarrow> 8 word list option \<Rightarrow> sys \<Rightarrow> int \<times> sys" where
  "connect_failed handle opq txt s =
     (let i = SOCKET_GET handle in
      (ERROR, emit M_SOCKET_ERROR opq handle 0 txt 0
         (set_slot i ((m_sockGroup s i)\<lparr>m_state := INVALID\<rparr>) s)))"

text \<open>
  \<open>doRegister\<close> returns a \<open>bool\<close>, and \<open>!= 0\<close> takes its success for the failure.  The variable
  \<open>status\<close> is 0 after \<open>getAddrInfo\<close>.
\<close>

definition doRequestConnect :: "kernel \<Rightarrow> int \<Rightarrow> nat \<Rightarrow> sys \<Rightarrow> (int \<times> sys) res" where
  "doRequestConnect k handle opq s =
     (case k_addrinfo k of
        None \<Rightarrow> Inr (connect_failed handle opq (Some (k_text k)) s)
      | Some cands \<Rightarrow>
          seqE (connect_loop k cands INVALID_SOCKET True) (\<lambda>(sock, ok, txt).
            if sock < 0 then Inr (connect_failed handle opq (Some (k_text k)) s)
            else (let i = SOCKET_GET handle;
                      (registered, e) = ep_doRegister (k_register k) sock (Some i) (m_epoll s);
                      s = s\<lparr>m_epoll := e\<rparr>
              in if registered then
                   seqE (slot_closed k sock) (\<lambda>_. Inr (connect_failed handle opq (Some (k_text k)) s))
                 else (let sk = sock_doInit opq handle sock TCP (m_sockGroup s i) in
                   if ok \<and> cands = [] then Inl NullDeref
                   else if ok then
                     Inr (-1, emit M_SOCKET_START opq handle 0 txt 0
                       (set_slot i (sk\<lparr>m_state := CONNECTED\<rparr>) s))
                   else
                     Inr (-1, (set_slot i (sk\<lparr>m_state := CONNECTING\<rparr>)
                       (s\<lparr>m_epoll := ep_doToWrite sock (Some i) True (m_epoll s)\<rparr>)))))))"

definition doRequestSend :: "kernel \<Rightarrow> int \<Rightarrow> 32 word \<Rightarrow> 8 word list \<Rightarrow> sys \<Rightarrow> (int \<times> sys) res" where
  "doRequestSend k handle sz data s =
     (let i = SOCKET_GET handle; sk = m_sockGroup s i in
      if m_state sk \<in> {INVALID, HALFCLOSE, PACCEPT} \<or> m_handle sk \<noteq> handle then Inr (-1, s)
      else if m_state sk \<in> {PLISTEN, LISTEN} then Inr (-1, s)
      else
        (let s = (if m_sendQs sk = [] \<and> m_state sk = CONNECTED
                  then s\<lparr>m_epoll := ep_doToWrite (m_sock sk) (Some i) True (m_epoll s)\<rparr> else s);
             (warn, sk') = getWarning (appendSendQs data sz sk);
             s = set_slot i sk' s
         in Inr (-1, if warn > 0 then emit M_SOCKET_WARNING (m_opaque sk') handle (sint warn) None 0 s else s)))"

text \<open>\<open>set_opts\<close> are the calls of \<open>setsockopt\<close>, whose result is ignored.\<close>

definition doRequestSetOpt :: "int \<Rightarrow> 32 word \<Rightarrow> 32 word \<Rightarrow> sys \<Rightarrow> int \<times> sys" where
  "doRequestSetOpt handle what v s =
     (let sk = getSocket s handle in
      if stale handle sk then (-1, s) else (-1, s\<lparr>set_opts := set_opts s @ [(m_sock sk, what, v)]\<rparr>))"

definition finish_close :: "kernel \<Rightarrow> nat \<Rightarrow> int \<Rightarrow> nat \<Rightarrow> int \<Rightarrow> sys \<Rightarrow> (int \<times> sys) res" where
  "finish_close k i handle opq ret s =
     seqE (forceClose k i s) (\<lambda>s. Inr (ret, emit M_SOCKET_CLOSE opq handle 0 None 0 s))"

definition doRequestClose :: "kernel \<Rightarrow> int \<Rightarrow> int \<Rightarrow> nat \<Rightarrow> sys \<Rightarrow> (int \<times> sys) res" where
  "doRequestClose k handle shutdown opq s =
     (let i = SOCKET_GET handle; sk = m_sockGroup s i in
      if stale handle sk then Inr (CLOSE, emit M_SOCKET_CLOSE opq handle 0 None 0 s)
      else
        seqE (if isSending sk then
                (case doSend (k_send k) sk of None \<Rightarrow> Inl Diverges
                 | Some (r, _, sk', _) \<Rightarrow> Inr (r = Some M_SOCKET_CLOSE, sk'))
              else Inr (False, sk)) (\<lambda>(failed, sk).
          let s = set_slot i sk s in
          if failed \<or> shutdown \<noteq> 0 \<or> \<not> isSending sk then finish_close k i handle opq CLOSE s
          else Inr (-1, set_slot i (sk\<lparr>m_state := HALFCLOSE\<rparr>) s)))"

text \<open>\<open>doRequestClearClosedEvent\<close>: events \<open>idx\<close> to \<open>n - 1\<close>, up to the first of the closed socket.\<close>

fun clear_loop :: "nat \<Rightarrow> int \<Rightarrow> nat \<Rightarrow> sys \<Rightarrow> sys res" where
  "clear_loop 0 handle i s = Inr s"
| "clear_loop (Suc k) handle i s =
     seqE (checkE (i < length (m_evts s)) AssertFail) (\<lambda>_.
       case ev_s (m_evts s ! i) of
         None \<Rightarrow> clear_loop k handle (i + 1) s
       | Some j \<Rightarrow>
           if m_state (m_sockGroup s j) = INVALID \<and> m_handle (m_sockGroup s j) = handle
           then Inr (s\<lparr>m_evts := (m_evts s)[i := (m_evts s ! i)\<lparr>ev_s := None\<rparr>]\<rparr>)
           else clear_loop k handle (i + 1) s)"

definition doRequestClearClosedEvent :: "int \<Rightarrow> int \<Rightarrow> int \<Rightarrow> sys \<Rightarrow> sys res" where
  "doRequestClearClosedEvent handle idx n s =
     (if idx < n then seqE (checkE (0 \<le> idx) AssertFail) (\<lambda>_. clear_loop (nat (n - idx)) handle (nat idx) s)
      else Inr s)"


section \<open>Socket events of the poll thread\<close>

definition doConnectProc :: "kernel \<Rightarrow> nat \<Rightarrow> sys \<Rightarrow> (int \<times> sys) res" where
  "doConnectProc k i s =
     (let sk = m_sockGroup s i; handle = m_handle sk; opq = m_opaque sk; (code, err) = k_soerror k in
      if code < 0 \<or> err \<noteq> 0 then
        seqE (forceClose k i s) (\<lambda>s. Inr (-1, emit M_SOCKET_ERROR opq handle 0 (Some (k_text k)) 0 s))
      else
        (let sk = sk\<lparr>m_state := CONNECTED\<rparr>; s = set_slot i sk s;
             s = (if \<not> isSending sk
                  then s\<lparr>m_epoll := ep_doToWrite (m_sock sk) (Some i) False (m_epoll s)\<rparr> else s)
         in Inr (-1, emit M_SOCKET_START opq handle 0 (k_peer k) 0 s)))"

text \<open>\<open>k_accept\<close>: the socket accepted, and whether a failure is that too many files are open.\<close>

definition doAcceptProc :: "kernel \<Rightarrow> nat \<Rightarrow> sys \<Rightarrow> (int \<times> sys) res" where
  "doAcceptProc k i s =
     (let sk = m_sockGroup s i; handle = m_handle sk; opq = m_opaque sk; (client, full) = k_accept k in
      if client < 0 then
        (if full then Inr (-1, emit M_SOCKET_ERROR opq handle 0 (Some (k_text k)) 0 s) else Inr (0, s))
      else
        (let (chandle, s) = getReserve s in
         if chandle < 0 then seqE (slot_closed k client) (\<lambda>_. Inr (0, s))
         else
           (let cs = getSocket s chandle in
            seqE (checkE (m_state cs = RESERVE) AssertFail) (\<lambda>_.
              Inr (0, emit M_SOCKET_ACCEPT opq handle chandle (k_peer k) 0
                (set_slot (SOCKET_GET chandle)
                  (sock_doInit (m_opaque (m_sockGroup s i)) chandle client TCP cs) s))))))"

text \<open>The new size of the receive buffer; \<open>*=\<close> is on a signed \<open>int32_t\<close>.\<close>

definition next_recv_size :: "nat \<Rightarrow> nat \<Rightarrow> nat res" where
  "next_recv_size n bsz =
     (if n = bsz then seqE (checkE (bsz * 2 < 2 ^ 31) SignedOverflow) (\<lambda>_. Inr (bsz * 2))
      else if bsz > 128 \<and> n * 2 > bsz then Inr (bsz div 2)
      else Inr bsz)"

text \<open>\<open>recv\<close> takes at most the size of the buffer; \<open>socketWrap::recv\<close> fails for an empty one.\<close>

definition doRecvProc :: "kernel \<Rightarrow> nat \<Rightarrow> sys \<Rightarrow> (int \<times> sys) res" where
  "doRecvProc k i s =
     (let sk = m_sockGroup s i; handle = m_handle sk; opq = m_opaque sk;
          bsz = unat (m_recvBufferSize sk) in
      case k_recv k of
        RecvEINTR \<Rightarrow> Inr (-1, s)
      | RecvAGAIN \<Rightarrow> Inr (-1, s)
      | RecvFailed \<Rightarrow>
          seqE (forceClose k i s) (\<lambda>s. Inr (ERROR, emit M_SOCKET_ERROR opq handle 0 (Some (k_text k)) 0 s))
      | Received bytes \<Rightarrow>
          (let d = take bsz bytes; n = length d in
           if n = 0 then finish_close k i handle opq CLOSE s
           else if m_state sk = HALFCLOSE then Inr (-1, s)
           else seqE (next_recv_size n bsz) (\<lambda>bsz'.
             Inr (msg_code M_SOCKET_DATA, emit M_SOCKET_DATA opq handle 0 (Some d) n
               (set_slot i (doUpdateRecv (k_now k) (of_nat n) (sk\<lparr>m_recvBufferSize := of_nat bsz'\<rparr>)) s)))))"

definition doSendProc :: "kernel \<Rightarrow> nat \<Rightarrow> sys \<Rightarrow> (int \<times> sys) res" where
  "doSendProc k i s =
     (if \<not> k_lock k then Inr (-1, s)
      else (let sk = m_sockGroup s i; handle = m_handle sk; opq = m_opaque sk in
        case doSend (k_send k) sk of
          None \<Rightarrow> Inl Diverges
        | Some (r, _, sk', _) \<Rightarrow>
            let s = set_slot i sk' s in
            if r = Some M_SOCKET_CLOSE then finish_close k i handle opq (-1) s
            else
              (let s = (if m_sendQs sk' = []
                        then s\<lparr>m_epoll := ep_doToWrite (m_sock sk') (Some i) False (m_epoll s)\<rparr> else s)
               in if m_state sk' = HALFCLOSE then finish_close k i handle opq CLOSE s
                  else Inr (-1, s))))"

text \<open>
  The switch of \<open>doPoll\<close> on event \<open>e\<close> of slot \<open>i\<close>: whether the same event is to be taken again, with
  its \<open>isread\<close> cleared.
\<close>

definition poll_event :: "kernel \<Rightarrow> iocpEvent \<Rightarrow> nat \<Rightarrow> sys \<Rightarrow> (bool \<times> sys) res" where
  "poll_event k e i s =
     (let sk = m_sockGroup s i; handle = m_handle sk; opq = m_opaque sk in
      case m_state sk of
        CONNECTING \<Rightarrow> seqE (doConnectProc k i s) (\<lambda>(r, s). Inr (False, s))
      | LISTEN \<Rightarrow> seqE (doAcceptProc k i s) (\<lambda>(r, s). Inr (False, s))
      | INVALID \<Rightarrow> Inr (False, s)
      | _ \<Rightarrow>
          if ev_isread e then
            seqE (doRecvProc k i s) (\<lambda>(type, s).
              Inr (ev_iswrite e \<and> type \<noteq> CLOSE \<and> type \<noteq> ERROR, s))
          else if ev_iswrite e then seqE (doSendProc k i s) (\<lambda>(r, s). Inr (False, s))
          else if ev_iserror e then
            seqE (forceClose k i s) (\<lambda>s.
              Inr (False, emit M_SOCKET_ERROR opq handle 0 (Some (k_text k)) 0 s))
          else if ev_iseof e then
            seqE (forceClose k i s) (\<lambda>s. Inr (False, emit M_SOCKET_CLOSE opq handle 0 None 0 s))
          else Inr (False, s))"

text \<open>The functions \<open>doStart\<close> registers with the channel: \<open>doRequestStart\<close> is not among them.\<close>

definition registered :: "kernel \<Rightarrow> (64 word \<Rightarrow> 8 word list) \<Rightarrow> sys handlers" where
  "registered k mem = no_handlers\<lparr>
     m_connectFunc := Some (\<lambda>r s. case r of
       RConnect h _ opq _ \<Rightarrow> doRequestConnect k (sint h) (unat opq) s | _ \<Rightarrow> Inr (-1, s)),
     m_sendFunc := Some (\<lambda>r s. case r of
       RSend h sz p \<Rightarrow> doRequestSend k (sint h) sz (mem p) s | _ \<Rightarrow> Inr (-1, s)),
     m_setoptFunc := Some (\<lambda>r s. case r of
       RSetopt h what v \<Rightarrow> Inr (doRequestSetOpt (sint h) what v s) | _ \<Rightarrow> Inr (-1, s)),
     m_closeFunc := Some (\<lambda>r s. case r of
       RClose h sh opq \<Rightarrow> doRequestClose k (sint h) (sint sh) (unat opq) s | _ \<Rightarrow> Inr (-1, s)),
     m_clearClosedFunc := Some (\<lambda>h idx n s. doRequestClearClosedEvent (sint h) idx n s)\<rparr>"

text \<open>
  One round of \<open>doPoll\<close> after the channel was asked (its error \<open>err\<close>): the loop goes on with new
  \<open>idx\<close> and \<open>n\<close>, or ends.  \<open>waited\<close> is what \<open>onWait\<close> would answer.
\<close>

datatype poll_next = PollGo int int | PollReturn

definition poll_round ::
    "kernel \<Rightarrow> bool \<Rightarrow> (nat option \<times> 32 word) list \<Rightarrow> errCode option \<Rightarrow> int \<Rightarrow> int \<Rightarrow> sys \<Rightarrow>
     (poll_next \<times> sys) res" where
  "poll_round k eintr waited err idx n s =
     (if err = Some CH_EINTR \<or> err = Some CH_ERROR then Inr (PollGo idx n, s)
      else if err = Some CH_EXIT then Inr (PollReturn, s)
      else
        (let (n', evts) = ep_onWait eintr waited (m_evts s);
             (idx1, n1, s1, stop) =
               (if idx = n then
                  (if n' < 0 then (0, 0, s, Some (if eintr then PollGo 0 0 else PollReturn))
                   else (0, n', s\<lparr>m_evts := evts\<rparr>, None))
                else (idx, n, s, None))
         in case stop of Some x \<Rightarrow> Inr (x, s1)
          | None \<Rightarrow>
              seqE (checkE (0 \<le> idx1 \<and> idx1 < int (length (m_evts s1))) AssertFail) (\<lambda>_.
                let e = m_evts s1 ! nat idx1 in
                case ev_s e of
                  None \<Rightarrow> Inr (PollGo (idx1 + 1) n1, s1)
                | Some i \<Rightarrow>
                    seqE (poll_event k e i s1) (\<lambda>(again, s2).
                      if again then
                        Inr (PollGo idx1 n1, s2\<lparr>m_evts := (m_evts s2)[nat idx1 := e\<lparr>ev_isread := False\<rparr>]\<rparr>)
                      else Inr (PollGo (idx1 + 1) n1, s2)))))"


section \<open>Frames\<close>

lemma emit_fields [simp]:
  "m_sockGroup (emit t opq h ud d sz s) = m_sockGroup s"
  "m_epoll (emit t opq h ud d sz s) = m_epoll s"
  "m_channel (emit t opq h ud d sz s) = m_channel s"
  "sent_events (emit t opq h ud d sz s) = sent_events s @ [(opq, onSocket t h ud d sz)]"
  by (simp_all add: emit_def)

lemma set_slot_fields [simp]:
  "m_sockGroup (set_slot i sk s) = (m_sockGroup s)(i := sk)"
  "m_epoll (set_slot i sk s) = m_epoll s"
  "m_channel (set_slot i sk s) = m_channel s"
  "sent_events (set_slot i sk s) = sent_events s"
  by (simp_all add: set_slot_def)

lemma doClose_Inr: "doClose c sk = Inr sk' \<Longrightarrow>
  sk' = sk\<lparr>m_sendQs := [], m_state := INVALID, m_curSender := None\<rparr>"
  by (auto simp: doClose_def res_simps)

lemma forceClose_Inr:
  assumes "forceClose k i s = Inr s'"
  shows "\<exists>sk'. m_sockGroup s' = (m_sockGroup s)(i := sk') \<and> m_state sk' = INVALID \<and>
     sent_events s' = sent_events s \<and> m_channel s' = m_channel s"
proof (cases "m_state (m_sockGroup s i) = INVALID")
  case True
  then show ?thesis using assms by (intro exI[of _ "m_sockGroup s i"]) (simp add: forceClose_def Let_def)
next
  case False
  then obtain x where x: "doClose (k_close k) (m_sockGroup s i) = Inr x"
    "m_sockGroup s' = (m_sockGroup s)(i := x)" "sent_events s' = sent_events s" "m_channel s' = m_channel s"
    using assms by (auto simp: forceClose_def Let_def res_simps split: if_splits)
  then show ?thesis using doClose_Inr[OF x(1)] by (intro exI[of _ x]) simp
qed

lemma finish_close_Inr:
  assumes "finish_close k i handle opq ret s = Inr (r, s')"
  shows "r = ret \<and> (\<exists>sk'. m_sockGroup s' = (m_sockGroup s)(i := sk') \<and> m_state sk' = INVALID) \<and>
     sent_events s' = sent_events s @ [(opq, onSocket M_SOCKET_CLOSE handle 0 None 0)]"
  using assms forceClose_Inr by (fastforce simp: finish_close_def res_simps)

lemma doSend_frame:
  assumes "doSend as s = Some (r, as', s', out)"
  shows "m_state s' = m_state s \<and> m_handle s' = m_handle s \<and> m_opaque s' = m_opaque s \<and>
    m_recvBufferSize s' = m_recvBufferSize s \<and> m_sock s' = m_sock s"
proof (cases "m_curSender s")
  case None
  then have "send_loop (m_sendQs s) as s = Some (r, as', s', out)" using assms by (simp add: doSend_def)
  from send_loop_state[OF this] show ?thesis .
next
  case (Some c)
  let ?s = "s\<lparr>m_sendQs := c # m_sendQs s, m_curSender := None\<rparr>"
  have "send_loop (m_sendQs ?s) as ?s = Some (r, as', s', out)"
    using assms Some by (simp add: doSend_def Let_def del: send_loop.simps)
  from send_loop_state[OF this] show ?thesis by simp
qed

lemma incSendIn_frame:
  assumes "incSendIn s = Some p"
  shows "\<exists>n. snd p = s\<lparr>m_sendIn := n\<rparr>"
proof (rule incSendIn.raw_induct[OF _ assms, of "\<lambda>s p. \<exists>n. snd p = s\<lparr>m_sendIn := n\<rparr>"])
  fix f and s :: socketHandle and p :: "int \<times> socketHandle"
  assume "\<And>x y. f x = Some y \<Longrightarrow> \<exists>n. snd y = x\<lparr>m_sendIn := n\<rparr>"
    and "(if m_proto s \<noteq> TCP then Some (0, s)
      else if drop_bit 16 (m_sendIn s) = TAG16 (m_handle s) then
        (if m_sendIn s AND 0xffff = 0xffff then f s else Some (0, s\<lparr>m_sendIn := m_sendIn s + 1\<rparr>))
      else Some (-1, s)) = Some p"
  moreover have "\<exists>n. s = s\<lparr>m_sendIn := n\<rparr>" by (rule exI[of _ "m_sendIn s"]) simp
  ultimately show "\<exists>n. snd p = s\<lparr>m_sendIn := n\<rparr>" by (auto split: if_splits)
qed


section \<open>The states of the slots\<close>

lemma mask_nonneg: "0 \<le> sint ((w :: 32 word) AND 0x7FFFFFFF)"
proof -
  have "\<not> bit (w AND 0x7FFFFFFF) 31" by (simp add: bit_and_iff)
  then show ?thesis by (simp add: bit_last_iff[symmetric] not_less[symmetric])
qed

lemma next_seq_nonneg: "0 \<le> sint (next_seq w)"
  using mask_nonneg[of "w + 1"] by (auto simp: next_seq_def)

lemma reserve_loop_result:
  "reserve_loop k s = (h, s') \<Longrightarrow>
   (h = -1 \<and> m_sockGroup s' = m_sockGroup s \<or>
    0 \<le> h \<and> m_state (m_sockGroup s (SOCKET_GET h)) = INVALID \<and>
    m_sockGroup s' = (m_sockGroup s)(SOCKET_GET h := setHandle h (doRest (m_sockGroup s (SOCKET_GET h))))) \<and>
   m_epoll s' = m_epoll s \<and> m_channel s' = m_channel s \<and> sent_events s' = sent_events s"
proof (induction k arbitrary: s)
  case (Suc k)
  define w' where "w' = next_seq (m_sockSequence s)"
  let ?s = "s\<lparr>m_sockSequence := w'\<rparr>"
  have pos: "0 \<le> sint w'" by (simp add: w'_def next_seq_nonneg)
  show ?case
  proof (cases "m_state (getSocket ?s (sint w')) = INVALID")
    case True
    then have "h = sint w'" "s' = set_slot (SOCKET_GET h) (setHandle h (doRest (getSocket ?s h))) ?s"
      using Suc(2) by (auto simp: Let_def w'_def doRest_def setCompareState_def)
    then show ?thesis using pos True by (simp add: getSocket_def)
  next
    case False
    then have "reserve_loop k ?s = (h, s')" using Suc(2) by (simp add: Let_def w'_def)
    from Suc(1)[OF this] show ?thesis by simp
  qed
qed simp

lemma reserved_is_invalid:
  assumes "getReserve s = (h, s')" "h \<noteq> -1"
  shows "m_state (getSocket s' h) = INVALID"
  using reserve_loop_result[OF assms(1)[unfolded getReserve_def]] assms(2)
  by (auto simp: getSocket_def setHandle_def doRest_def)


section \<open>Reachable states\<close>

definition recv_sizes :: "nat set" where
  "recv_sizes = {n. \<exists>j < 24. n = 128 * 2 ^ j}"

definition slot_ok :: "socketHandle \<Rightarrow> bool" where
  "slot_ok sk \<longleftrightarrow> m_state sk \<in> {INVALID, CONNECTING, CONNECTED, HALFCLOSE} \<and>
     (m_state sk \<noteq> INVALID \<longrightarrow> unat (m_recvBufferSize sk) \<in> recv_sizes)"

definition sys_ok :: "sys \<Rightarrow> bool" where
  "sys_ok s \<longleftrightarrow> (\<forall>i. slot_ok (m_sockGroup s i))"

lemma sys_ok_slot: "sys_ok s \<Longrightarrow> slot_ok (m_sockGroup s i)"
  by (simp add: sys_ok_def)

lemma sys_ok_same: "sys_ok s \<Longrightarrow> m_sockGroup s' = m_sockGroup s \<Longrightarrow> sys_ok s'"
  by (simp add: sys_ok_def)

lemma sys_ok_upd: "sys_ok s \<Longrightarrow> m_sockGroup s' = (m_sockGroup s)(i := sk) \<Longrightarrow> slot_ok sk \<Longrightarrow> sys_ok s'"
  by (simp add: sys_ok_def)

lemma slot_ok_invalid: "m_state sk = INVALID \<Longrightarrow> slot_ok sk"
  by (simp add: slot_ok_def)

lemma slot_ok_same:
  "slot_ok sk \<Longrightarrow> m_state sk' = m_state sk \<Longrightarrow> m_recvBufferSize sk' = m_recvBufferSize sk \<Longrightarrow> slot_ok sk'"
  by (simp add: slot_ok_def)

lemma recv_size_128: "128 \<in> recv_sizes"
  by (auto simp: recv_sizes_def intro: exI[of _ 0])

lemma next_recv_size_ok:
  assumes "next_recv_size n b = Inr b'" and "b \<in> recv_sizes"
  shows "b' \<in> recv_sizes"
proof -
  obtain j where j: "j < 24" "b = 128 * 2 ^ j" using assms(2) by (auto simp: recv_sizes_def)
  consider "b' = b" | "b' = b * 2" "b * 2 < 2 ^ 31" | "b' = b div 2" "b > 128"
    using assms(1) by (auto simp: next_recv_size_def res_simps split: if_splits)
  then show ?thesis
  proof cases
    case 2
    then have "(2::nat) ^ (j + 8) < 2 ^ 31" using j by (simp add: power_add)
    then have "j + 8 < 31" by (rule power_less_imp_less_exp[rotated]) simp
    then show ?thesis using 2 j unfolding recv_sizes_def by (intro CollectI exI[of _ "j + 1"]) simp
  next
    case 3
    then obtain j' where "j = Suc j'" using j by (cases j) auto
    then show ?thesis using 3 j unfolding recv_sizes_def by (intro CollectI exI[of _ j']) simp
  qed (use assms(2) in simp)
qed

lemma recv_size_unat: "b \<in> recv_sizes \<Longrightarrow> unat (of_nat b :: 32 word) = b"
proof -
  assume "b \<in> recv_sizes"
  then obtain j where j: "j < 24" "b = 128 * 2 ^ j" by (auto simp: recv_sizes_def)
  have "(2::nat) ^ j \<le> 2 ^ 23" using j(1) by (intro power_increasing) simp_all
  then have "b < 2 ^ 32" using j by simp
  then show ?thesis by (simp add: unat_of_nat take_bit_nat_eq_self_iff)
qed

lemma slot_ok_init: "slot_ok ((sock_doInit opq h sock TCP sk)\<lparr>m_state := CONNECTED\<rparr>)"
  "slot_ok ((sock_doInit opq h sock TCP sk)\<lparr>m_state := CONNECTING\<rparr>)"
  by (simp_all add: slot_ok_def sock_doInit_def MINRECVBUFFER_def recv_size_128)

lemma getReserve_ok:
  assumes "sys_ok s" and "getReserve s = (h, s')"
  shows "sys_ok s'"
proof -
  have "slot_ok (setHandle h (doRest sk))" for sk
    by (rule slot_ok_invalid) (simp add: setHandle_def doRest_def)
  then show ?thesis
    using reserve_loop_result[OF assms(2)[unfolded getReserve_def]] assms(1)
    by (metis sys_ok_same sys_ok_upd)
qed

lemma forceClose_ok: "sys_ok s \<Longrightarrow> forceClose k i s = Inr s' \<Longrightarrow> sys_ok s'"
  using forceClose_Inr slot_ok_invalid sys_ok_upd by metis

lemma finish_close_ok: "sys_ok s \<Longrightarrow> finish_close k i h opq r s = Inr (r', s') \<Longrightarrow> sys_ok s'"
  using finish_close_Inr slot_ok_invalid sys_ok_upd by metis

lemma emit_ok [simp]: "sys_ok (emit t opq h ud d sz s) = sys_ok s"
  by (simp add: sys_ok_def)

lemma epoll_ok [simp]: "sys_ok (s\<lparr>m_epoll := e\<rparr>) = sys_ok s" "sys_ok (s\<lparr>m_channel := c\<rparr>) = sys_ok s"
  "sys_ok (s\<lparr>m_evts := v\<rparr>) = sys_ok s"
  by (simp_all add: sys_ok_def)

lemma set_slot_ok: "sys_ok s \<Longrightarrow> slot_ok sk \<Longrightarrow> sys_ok (set_slot i sk s)"
  by (simp add: sys_ok_def)


lemma send_request_ok: "sys_ok s \<Longrightarrow> send_request k r s = Inr s' \<Longrightarrow> sys_ok s'"
  by (auto simp: send_request_def res_simps)

lemma doSocketListen_never:
  assumes "doSocketListen k opq block s = Inr (h, s')"
  shows "h = SOCKET_HANDLE_INVALID \<and> (s' = s \<or> (\<exists>h'. getReserve s = (h', s')))"
proof -
  have "m_state (getSocket t h') \<noteq> RESERVE" if "getReserve s = (h', t)" "h' \<noteq> -1" for h' t
    using reserved_is_invalid[OF that] by simp
  then show ?thesis
    using assms
    by (auto simp: doSocketListen_def Let_def setCompareState_def SOCKET_HANDLE_INVALID_def res_simps
        split: if_splits option.splits prod.splits)
qed

lemma doSocketConnect_ok: "sys_ok s \<Longrightarrow> doSocketConnect k opq addr port s = Inr (h, s') \<Longrightarrow> sys_ok s'"
  by (auto simp: doSocketConnect_def Let_def res_simps dest: getReserve_ok send_request_ok
      split: if_splits prod.splits)

lemma doSocketSend_ok:
  assumes "sys_ok s" and "doSocketSend k mem h p n s = Inr (r, s')"
  shows "sys_ok s'"
proof -
  let ?sk = "m_sockGroup s (SOCKET_GET h)"
  have sk: "slot_ok (setCurrentSendBuffer d q m ?sk)" for d q m
    using sys_ok_slot[OF assms(1)] by (rule slot_ok_same) (simp_all add: setCurrentSendBuffer_def)
  have inc: "slot_ok sk'" if "incSendIn ?sk = Some (r', sk')" for r' sk'
    using incSendIn_frame[OF that] sys_ok_slot[OF assms(1), of "SOCKET_GET h"]
    by (auto intro: slot_ok_same)
  show ?thesis
    using assms sk inc
    by (auto simp: doSocketSend_def Let_def res_simps split: if_splits option.splits prod.splits
        intro!: set_slot_ok dest!: send_request_ok[rotated])
qed

lemma connect_failed_ok: "sys_ok s \<Longrightarrow> connect_failed h opq t s = (r, s') \<Longrightarrow> sys_ok s'"
  by (auto simp: connect_failed_def Let_def intro!: set_slot_ok slot_ok_invalid)

lemma doRequestConnect_ok:
  assumes "sys_ok s" and "doRequestConnect k h opq s = Inr (r, s')"
  shows "sys_ok s'"
  using assms
  by (auto simp: doRequestConnect_def Let_def res_simps
      split: if_splits option.splits prod.splits
      intro!: set_slot_ok slot_ok_init dest: connect_failed_ok[rotated])

lemma doRequestSend_ok:
  assumes "sys_ok s" and "doRequestSend k h n d s = Inr (r, s')"
  shows "sys_ok s'"
proof -
  let ?sk = "m_sockGroup s (SOCKET_GET h)"
  have "slot_ok sk'" if "getWarning (appendSendQs d n ?sk) = (w, sk')" for w sk'
    using that sys_ok_slot[OF assms(1), of "SOCKET_GET h"]
    by (auto simp: getWarning_def appendSendQs_def split: if_splits intro: slot_ok_same)
  then show ?thesis
    using assms
    by (auto simp: doRequestSend_def Let_def res_simps split: if_splits prod.splits intro!: set_slot_ok)
qed

lemma doRequestClose_ok:
  assumes "sys_ok s" and "doRequestClose k h sh opq s = Inr (r, s')"
  shows "sys_ok s'"
proof -
  let ?i = "SOCKET_GET h"
  let ?sk = "m_sockGroup s ?i"
  have half: "slot_ok (sk\<lparr>m_state := HALFCLOSE\<rparr>)" if "slot_ok sk" "m_state sk \<noteq> INVALID" for sk
    using that by (auto simp: slot_ok_def)
  have ds: "slot_ok sk' \<and> m_state sk' = m_state ?sk" if "doSend (k_send k) ?sk = Some (x, y, sk', z)" for x y sk' z
    using doSend_frame[OF that] slot_ok_same[OF sys_ok_slot[OF assms(1), of ?i]] by auto
  show ?thesis
    using assms sys_ok_slot[OF assms(1), of ?i]
    by (auto simp: doRequestClose_def Let_def stale_def res_simps split: if_splits option.splits
        dest!: ds finish_close_ok[rotated] intro!: set_slot_ok half)
qed

lemma clear_loop_ok: "clear_loop n h i s = Inr s' \<Longrightarrow> sys_ok s \<Longrightarrow> sys_ok s'"
  by (induction n h i s rule: clear_loop.induct)
    (auto simp: res_simps split: option.splits if_splits)


lemma doConnectProc_ok:
  assumes "sys_ok s" and "doConnectProc k i s = Inr (r, s')" and "m_state (m_sockGroup s i) = CONNECTING"
  shows "sys_ok s'"
proof -
  have "slot_ok ((m_sockGroup s i)\<lparr>m_state := CONNECTED\<rparr>)"
    using sys_ok_slot[OF assms(1), of i] assms(3) by (simp add: slot_ok_def)
  then show ?thesis
    using assms(1,2)
    by (auto simp: doConnectProc_def Let_def res_simps split: if_splits prod.splits
        dest: forceClose_ok intro!: set_slot_ok)
qed

lemma doRecvProc_ok:
  assumes "sys_ok s" and "doRecvProc k i s = Inr (r, s')" and "m_state (m_sockGroup s i) \<noteq> INVALID"
  shows "sys_ok s'"
proof -
  let ?sk = "m_sockGroup s i"
  let ?b = "unat (m_recvBufferSize ?sk)"
  have sk: "slot_ok ?sk" "?b \<in> recv_sizes" using sys_ok_slot[OF assms(1), of i] assms(3)
    by (auto simp: slot_ok_def)
  have upd: "slot_ok (doUpdateRecv t m (?sk\<lparr>m_recvBufferSize := of_nat b\<rparr>))"
    if "next_recv_size n ?b = Inr b" for n b t m
    using next_recv_size_ok[OF that sk(2)] sk(1) by (simp add: slot_ok_def doUpdateRecv_def recv_size_unat)
  show ?thesis
  proof (cases "k_recv k")
    case (Received bytes)
    show ?thesis
      using assms(1,2) Received
      by (auto simp: doRecvProc_def Let_def res_simps split: if_splits
          dest: finish_close_ok intro!: set_slot_ok upd)
  next
    case RecvFailed
    then show ?thesis using assms(1,2) forceClose_ok
      by (auto simp: doRecvProc_def Let_def res_simps)
  qed (use assms(1,2) in \<open>simp_all add: doRecvProc_def Let_def\<close>)
qed

lemma doSendProc_ok:
  assumes "sys_ok s" and "doSendProc k i s = Inr (r, s')"
  shows "sys_ok s'"
proof -
  let ?sk = "m_sockGroup s i"
  have ds: "slot_ok sk'" if "doSend (k_send k) ?sk = Some (x, y, sk', z)" for x y sk' z
    using doSend_frame[OF that] slot_ok_same[OF sys_ok_slot[OF assms(1), of i]] by auto
  then have "sys_ok (set_slot i sk' s)" if "doSend (k_send k) ?sk = Some (x, y, sk', z)" for x y sk' z
    using that assms(1) set_slot_ok by blast
  then show ?thesis
    using assms
    by (auto simp: doSendProc_def Let_def res_simps split: if_splits option.splits
        dest!: finish_close_ok[rotated])
qed

lemma poll_event_ok:
  assumes "sys_ok s" and "poll_event k e i s = Inr (again, s')"
  shows "sys_ok s'"
proof (cases "m_state (m_sockGroup s i) \<in> {INVALID, CONNECTING, LISTEN}")
  case True
  then show ?thesis
    using assms sys_ok_slot[OF assms(1), of i]
    by (auto simp: poll_event_def Let_def slot_ok_def res_simps dest: doConnectProc_ok)
next
  case False
  then have st: "m_state (m_sockGroup s i) \<in> {CONNECTED, HALFCLOSE}"
    using sys_ok_slot[OF assms(1), of i] by (auto simp: slot_ok_def)
  have recv: "sys_ok t" if "doRecvProc k i s = Inr (x, t)" for x t
    using doRecvProc_ok[OF assms(1) that] st by auto
  have fc: "sys_ok t" if "forceClose k i s = Inr t" for t
    using forceClose_ok[OF assms(1) that] .
  consider "ev_isread e" | "\<not> ev_isread e" "ev_iswrite e" | "\<not> ev_isread e" "\<not> ev_iswrite e" by blast
  then show ?thesis
  proof cases
    case 1
    then show ?thesis using assms st
      by (auto simp: poll_event_def Let_def res_simps dest: recv)
  next
    case 2
    then show ?thesis using assms st
      by (auto simp: poll_event_def Let_def res_simps dest: doSendProc_ok)
  next
    case 3
    show ?thesis
    proof (cases "ev_iserror e \<or> ev_iseof e")
      case True
      then obtain x where "forceClose k i s = Inr x" "m_sockGroup s' = m_sockGroup x"
        using 3 assms st by (auto simp: poll_event_def Let_def res_simps split: if_splits)
      then show ?thesis using fc sys_ok_same by blast
    qed (use 3 assms st in \<open>auto simp: poll_event_def Let_def\<close>)
  qed
qed

lemma poll_round_ok:
  assumes "sys_ok s" and "poll_round k ei w err idx n s = Inr (nx, s')"
  shows "sys_ok s'"
proof -
  have ev: "sys_ok t" if "poll_event k e i (s\<lparr>m_evts := v\<rparr>) = Inr (a, t)" for e i v a t
    using poll_event_ok[OF _ that] assms(1) by simp
  show ?thesis
  using assms
  by (auto simp: poll_round_def Let_def res_simps split: if_splits prod.splits option.splits
      dest: poll_event_ok ev)
qed


text \<open>
  What happens to the system: calls of the API, requests with any arguments (the channel hands over
  padding for the handle), and rounds of the poll loop, each with its own answers of the operating
  system.
\<close>

inductive sys_step :: "sys \<Rightarrow> sys \<Rightarrow> bool" where
  st_listen: "doSocketListen k opq block s = Inr (h, t) \<Longrightarrow> sys_step s t"
| st_connect: "doSocketConnect k opq addr port s = Inr (h, t) \<Longrightarrow> sys_step s t"
| st_request: "send_request k r s = Inr t \<Longrightarrow> sys_step s t"
| st_send: "doSocketSend k mem h p n s = Inr (r, t) \<Longrightarrow> sys_step s t"
| st_req_connect: "doRequestConnect k h opq s = Inr (r, t) \<Longrightarrow> sys_step s t"
| st_req_send: "doRequestSend k h n d s = Inr (r, t) \<Longrightarrow> sys_step s t"
| st_req_close: "doRequestClose k h sh opq s = Inr (r, t) \<Longrightarrow> sys_step s t"
| st_setopt: "doRequestSetOpt h w v s = (r, t) \<Longrightarrow> sys_step s t"
| st_clear: "doRequestClearClosedEvent h idx n s = Inr t \<Longrightarrow> sys_step s t"
| st_channel: "sys_step s (s\<lparr>m_channel := ch\<rparr>)"
| st_poll: "poll_round k ei w err idx n s = Inr (nx, t) \<Longrightarrow> sys_step s t"

inductive_cases sys_step_cases: "sys_step s t"

definition new_sys :: "32 word \<Rightarrow> 32 word \<Rightarrow> 32 word \<Rightarrow> iocpEvent list \<Rightarrow> sys" where
  "new_sys seq warn buf evts = \<lparr>m_sockGroup = (\<lambda>_. new_socketHandle warn buf), m_sockSequence = seq,
     m_epoll = Map.empty, m_evts = evts, m_channel = new_channel, sent_events = [], set_opts = []\<rparr>"

definition sys_init :: "sys \<Rightarrow> bool" where
  "sys_init s \<longleftrightarrow> (\<exists>seq warn buf evts. s = new_sys seq warn buf evts)"

interpretation sysm: invariant_machine sys_init sys_step sys_ok
proof
  show "sys_ok s" if "sys_init s" for s
    using that by (auto simp: sys_init_def new_sys_def sys_ok_def slot_ok_def new_socketHandle_def)
next
  show "sys_ok t" if ok: "sys_ok s" and step: "sys_step s t" for s t
    using step
  proof cases
    case st_listen
    then show ?thesis using ok doSocketListen_never getReserve_ok by blast
  next
    case st_clear
    then show ?thesis using ok clear_loop_ok
      by (auto simp: doRequestClearClosedEvent_def res_simps split: if_splits)
  next
    case st_setopt
    then show ?thesis using ok by (auto simp: doRequestSetOpt_def Let_def sys_ok_def split: if_splits)
  next
    case st_channel
    then show ?thesis using ok by simp
  next
    case (st_connect)
    from doSocketConnect_ok[OF ok this] show ?thesis .
  next
    case (st_request)
    from send_request_ok[OF ok this] show ?thesis .
  next
    case (st_send)
    from doSocketSend_ok[OF ok this] show ?thesis .
  next
    case (st_req_connect)
    from doRequestConnect_ok[OF ok this] show ?thesis .
  next
    case (st_req_send)
    from doRequestSend_ok[OF ok this] show ?thesis .
  next
    case (st_req_close)
    from doRequestClose_ok[OF ok this] show ?thesis .
  next
    case (st_poll)
    from poll_round_ok[OF ok this] show ?thesis .
  qed
qed

section \<open>Properties\<close>

text \<open>The system and the operating system of the witnesses.\<close>

definition demo_kernel :: kernel where
  "demo_kernel = \<lparr>k_close = (\<lambda>_. Some 0), k_listen = (\<lambda>_ _. Some 1), k_addrinfo = Some [(9, ConnOk, None)],
     k_reuse = True, k_bind = True, k_register = True, k_lock = True, k_sendnow = 0, k_send = [Sent 1],
     k_recv = Received [1, 2, 3], k_soerror = (0, 0), k_peer = None, k_accept = (-1, False), k_now = 0,
     k_text = [], k_write = [Wrote 18], k_pad = replicate 6 0, k_union = replicate 256 0\<rparr>"

definition demo_sys :: sys where
  "demo_sys = set_slot 3 ((sock_doInit 7 3 9 TCP (new_socketHandle 0 0))\<lparr>m_state := CONNECTED\<rparr>)
     ((new_sys 0 0 0 [])\<lparr>m_epoll := [9 \<mapsto> (Some 3, False)]\<rparr>)"

text \<open>No call of \<open>doSocketListen\<close> ever gives a listening handle, whatever the operating system
  answers: the reserved slot is reset to \<open>INVALID\<close> by \<open>doRest\<close>, so that the assertion that it is
  reserved fails, and a successful \<open>socketWrap::listen\<close> is taken for a failure.\<close>

theorem listen_never_succeeds:
  "case doSocketListen k opq block s of Inl e \<Rightarrow> True | Inr (h, s') \<Rightarrow> h = SOCKET_HANDLE_INVALID"
  using doSocketListen_never[of k opq block s] by (auto split: sum.splits)




text \<open>A request for a handle that is not in use any more changes no socket: it is answered by
  exactly one message (none for data, which is dropped), an \<open>ERROR\<close> to a start, a \<open>CLOSE\<close> to a
  close, and nothing is done to the socket.\<close>

theorem stale_requests_change_nothing:
  assumes "stale h (getSocket s h)"
  shows "doRequestStart k h opq s = Inr (5, emit M_SOCKET_ERROR opq h 0 None 0 s) \<and>
    doRequestClose k h sh opq s = Inr (3, emit M_SOCKET_CLOSE opq h 0 None 0 s) \<and>
    doRequestSend k h n d s = Inr (-1, s) \<and> doRequestSetOpt h w v s = (-1, s)"
  using assms
  by (auto simp: doRequestStart_def doRequestClose_def doRequestSend_def doRequestSetOpt_def
      getSocket_def stale_def ERROR_def CLOSE_def Let_def)

theorem stale_requests_change_nothing_witness:
  "doRequestStart demo_kernel 65539 8 demo_sys = Inr (5, emit M_SOCKET_ERROR 8 65539 0 None 0 demo_sys) \<and>
    doRequestClose demo_kernel 65539 1 8 demo_sys = Inr (3, emit M_SOCKET_CLOSE 8 65539 0 None 0 demo_sys) \<and>
    doRequestSend demo_kernel 65539 2 [1, 2] demo_sys = Inr (-1, demo_sys) \<and>
    doRequestSetOpt 65539 1 1 demo_sys = (-1, demo_sys)"
  by (rule stale_requests_change_nothing)
    (simp add: stale_def getSocket_def demo_sys_def SOCKET_GET_def MAX_SOCKET_def sock_doInit_def new_socketHandle_def)

text \<open>A request works on the slot of its handle only: whatever it does and whatever the
  operating system answers, every other socket stays as it was.\<close>

theorem requests_touch_own_slot:
  assumes "j \<noteq> SOCKET_GET h"
    and "doRequestStart k h opq s = Inr (r, s') \<or> doRequestConnect k h opq s = Inr (r, s') \<or>
         doRequestSend k h n d s = Inr (r, s') \<or> doRequestClose k h sh opq s = Inr (r, s')"
  shows "m_sockGroup s' j = m_sockGroup s j"
  using assms(2)
proof (elim disjE)
  assume "doRequestStart k h opq s = Inr (r, s')"
  then show ?thesis using assms(1)
    by (auto simp: doRequestStart_def Let_def res_simps split: if_splits prod.splits dest!: forceClose_Inr)
next
  assume "doRequestConnect k h opq s = Inr (r, s')"
  then show ?thesis using assms(1)
    by (auto simp: doRequestConnect_def connect_failed_def Let_def res_simps split: if_splits prod.splits option.splits)
next
  assume "doRequestSend k h n d s = Inr (r, s')"
  then show ?thesis using assms(1)
    by (auto simp: doRequestSend_def Let_def res_simps split: if_splits prod.splits)
next
  assume "doRequestClose k h sh opq s = Inr (r, s')"
  then show ?thesis using assms(1)
    by (auto simp: doRequestClose_def Let_def res_simps split: if_splits prod.splits option.splits
        dest!: finish_close_Inr)
qed

theorem requests_touch_own_slot_witness:
  "m_sockGroup (emit M_SOCKET_START 8 3 0 (Some str_transfer) 0 demo_sys) 4 = m_sockGroup demo_sys 4"
  by (rule requests_touch_own_slot[of 4 3 demo_kernel 8 demo_sys "-1" _ 0 "[]" 0])
    (simp_all add: doRequestStart_def Let_def demo_sys_def SOCKET_GET_def MAX_SOCKET_def stale_def
      sock_doInit_def new_socketHandle_def)

text \<open>The check of \<open>doRegister\<close> in \<open>doRequestConnect\<close> is inverted.  When the first address
  connects and its socket is registered, the request closes the socket again and reports an
  \<open>ERROR\<close>; when the registration fails, it reports \<open>START\<close> and leaves a connected socket that
  the poll loop does not know, so that nothing is ever received on it.\<close>

theorem connect_check_inverted:
  assumes "k_addrinfo k = Some ((sock, ConnOk, txt) # cs)" and "0 \<le> sock" and "k_close k sock \<noteq> None"
  shows "\<exists>r s'. doRequestConnect k h opq s = Inr (r, s') \<and>
    (if k_register k \<and> sock \<notin> dom (m_epoll s) then
       r = 5 \<and> m_state (getSocket s' h) = INVALID \<and> m_epoll s' sock = Some (Some (SOCKET_GET h), False) \<and>
       sent_events s' = sent_events s @ [(opq, onSocket M_SOCKET_ERROR h 0 (Some (k_text k)) 0)]
     else
       r = -1 \<and> m_state (getSocket s' h) = CONNECTED \<and> m_sock (getSocket s' h) = sock \<and> m_epoll s' = m_epoll s \<and>
       sent_events s' = sent_events s @ [(opq, onSocket M_SOCKET_START h 0 txt 0)])"
  using assms
  by (auto simp: doRequestConnect_def connect_failed_def ep_doRegister_def slot_closed_def ERROR_def
      getSocket_def Let_def sock_doInit_def split: option.splits)

theorem connect_check_inverted_witness:
  "\<exists>r s'. doRequestConnect demo_kernel 5 8 (new_sys 0 0 0 []) = Inr (r, s') \<and>
    (if k_register demo_kernel \<and> 9 \<notin> dom (m_epoll (new_sys 0 0 0 [])) then
       r = 5 \<and> m_state (getSocket s' 5) = INVALID \<and> m_epoll s' 9 = Some (Some (SOCKET_GET 5), False) \<and>
       sent_events s' = sent_events (new_sys 0 0 0 []) @ [(8, onSocket M_SOCKET_ERROR 5 0 (Some (k_text demo_kernel)) 0)]
     else
       r = -1 \<and> m_state (getSocket s' 5) = CONNECTED \<and> m_sock (getSocket s' 5) = 9 \<and>
       m_epoll s' = m_epoll (new_sys 0 0 0 []) \<and>
       sent_events s' = sent_events (new_sys 0 0 0 []) @ [(8, onSocket M_SOCKET_START 5 0 None 0)])"
  by (rule connect_check_inverted) (simp_all add: demo_kernel_def)


text \<open>\<open>doSocketClose\<close> is meant to let a socket finish its sending.  But a socket whose bytes all
  wait in its queue is not \<open>isSending\<close>: the close request closes it at once, whether it is a
  shutdown or not, drops every waiting byte, unregisters it and reports one \<open>CLOSE\<close>.\<close>

theorem close_drops_waiting_bytes:
  assumes "\<not> stale h (getSocket s h)" and "m_curSender (getSocket s h) = None"
    and "m_state (getSocket s h) \<in> {CONNECTING, CONNECTED, HALFCLOSE}"
    and "k_close k (m_sock (getSocket s h)) \<noteq> None"
  shows "\<exists>s'. doRequestClose k h sh opq s = Inr (3, s') \<and>
    m_state (getSocket s' h) = INVALID \<and> pending (getSocket s' h) = [] \<and>
    m_epoll s' = ep_doUnRegister (m_sock (getSocket s h)) (m_epoll s) \<and>
    sent_events s' = sent_events s @ [(opq, onSocket M_SOCKET_CLOSE h 0 None 0)]"
proof -
  let ?i = "SOCKET_GET h"
  let ?sk = "getSocket s h"
  let ?s = "set_slot ?i ?sk s"
  let ?t = "set_slot ?i (?sk\<lparr>m_sendQs := [], m_state := INVALID, m_curSender := None\<rparr>)
    (?s\<lparr>m_epoll := ep_doUnRegister (m_sock ?sk) (m_epoll s)\<rparr>)"
  have "\<not> isSending ?sk" using assms(2) by (simp add: isSending_def)
  moreover have "forceClose k ?i ?s = Inr ?t"
    using assms(3,4) by (auto simp: forceClose_def doClose_def Let_def getSocket_def split: option.splits)
  ultimately have "doRequestClose k h sh opq s = Inr (3, emit M_SOCKET_CLOSE opq h 0 None 0 ?t)"
    using assms(1) by (simp add: doRequestClose_def finish_close_def getSocket_def CLOSE_def Let_def)
  then show ?thesis by (simp add: getSocket_def pending_def)
qed

theorem close_drops_waiting_bytes_witness:
  "\<exists>s'. doRequestClose demo_kernel 3 0 8 (set_slot 3 (appendSendQs [1, 2] 2 (getSocket demo_sys 3)) demo_sys) = Inr (3, s') \<and>
    m_state (getSocket s' 3) = INVALID \<and> pending (getSocket s' 3) = [] \<and>
    m_epoll s' = ep_doUnRegister (m_sock (getSocket (set_slot 3 (appendSendQs [1, 2] 2 (getSocket demo_sys 3)) demo_sys) 3))
      (m_epoll (set_slot 3 (appendSendQs [1, 2] 2 (getSocket demo_sys 3)) demo_sys)) \<and>
    sent_events s' = sent_events (set_slot 3 (appendSendQs [1, 2] 2 (getSocket demo_sys 3)) demo_sys) @
      [(8, onSocket M_SOCKET_CLOSE 3 0 None 0)]"
  by (rule close_drops_waiting_bytes)
    (simp_all add: stale_def getSocket_def demo_sys_def SOCKET_GET_def MAX_SOCKET_def sock_doInit_def
      new_socketHandle_def appendSendQs_def demo_kernel_def)

text \<open>What \<open>doRecvProc\<close> does with received bytes.\<close>

lemma doRecvProc_received:
  assumes "k_recv k = Received bytes" and "k_close k (m_sock (m_sockGroup s i)) \<noteq> None"
    and "m_state (m_sockGroup s i) \<in> {CONNECTED, HALFCLOSE}"
    and "unat (m_recvBufferSize (m_sockGroup s i)) < 2 ^ 30"
  shows "\<exists>r s'. doRecvProc k i s = Inr (r, s') \<and>
    (let sk = m_sockGroup s i; d = take (unat (m_recvBufferSize sk)) bytes in
     if d = [] then
       r = 3 \<and> m_state (m_sockGroup s' i) = INVALID \<and>
       sent_events s' = sent_events s @ [(m_opaque sk, onSocket M_SOCKET_CLOSE (m_handle sk) 0 None 0)]
     else if m_state sk = HALFCLOSE then r = -1 \<and> s' = s
     else
       r = 1 \<and> m_state (m_sockGroup s' i) = m_state sk \<and>
       recvBytes (m_info (m_sockGroup s' i)) = recvBytes (m_info sk) + of_nat (length d) \<and>
       sent_events s' = sent_events s @ [(m_opaque sk,
         \<lparr>sm_id = m_handle sk, sm_type = 1, sm_ext = int (length d), sm_buffer = Some d\<rparr>)])"
proof -
  let ?sk = "m_sockGroup s i"
  let ?b = "unat (m_recvBufferSize ?sk)"
  define d where "d = take ?b bytes"
  consider "d = []" | "d \<noteq> []" "m_state ?sk = HALFCLOSE" | "d \<noteq> []" "m_state ?sk \<noteq> HALFCLOSE" by blast
  then show ?thesis
  proof cases
    case 1
    obtain t where "forceClose k i s = Inr t"
      using assms(2,3) by (auto simp: forceClose_def doClose_def Let_def split: option.splits)
    then show ?thesis
      using 1 assms(1) forceClose_Inr[of k i s t]
      by (auto simp: doRecvProc_def finish_close_def Let_def CLOSE_def d_def)
  next
    case 2
    then show ?thesis using assms(1) by (auto simp: doRecvProc_def Let_def d_def)
  next
    case 3
    have "?b * 2 < 2 ^ 31" using assms(4) by simp
    then have "\<exists>b. next_recv_size (length d) ?b = Inr b" by (simp add: next_recv_size_def)
    then obtain b where "next_recv_size (length d) ?b = Inr b" ..
    moreover have "min a c = 0 \<longleftrightarrow> a = 0 \<or> c = 0" for a c :: nat by (auto simp: min_def)
    ultimately show ?thesis using 3 assms(1)
      by (auto simp: doRecvProc_def Let_def onSocket_def doMessageGen_def doUpdateRecv_def d_def)
  qed
qed



text \<open>\<open>doStart\<close> registers no function for start requests, so the first one that reaches the
  channel calls an empty \<open>std::function\<close> and ends the process.\<close>

theorem start_request_ends_process:
  assumes "frame_ok (0x53, len, pad, u)"
  shows "doProccess (registered k mem) [ReadData, ReadData] junk idx n
           (ch\<lparr>pipe_bytes := wire (0x53, len, pad, u) @ q\<rparr>) s = Inl ExitProcess"
  using recv_wire[OF assms, where junk = junk and ch = ch and q = q]
  by (simp add: doProccess_def handle_request_def unpack_def registered_def no_handlers_def call_func_def)

theorem start_request_ends_process_witness:
  "doProccess (registered demo_kernel (\<lambda>_. [])) [ReadData, ReadData] [] 0 0
     (new_channel\<lparr>pipe_bytes := wire (0x53, 16, replicate 6 0, replicate 256 0) @ []\<rparr>) demo_sys = Inl ExitProcess"
  by (rule start_request_ends_process) (simp add: frame_ok_def)

end
