(* ===== verification/SocketBuffer.thy ===== *)
theory SocketBuffer
  imports WolfBase
begin

text \<open>
  The receive buffer of a socket of the API, \<open>engine/src/api/socket.cc\<close>: the chain of chunks that
  were received, the pool of chain nodes, and the functions that read bytes, lines or everything
  out of it.  The chain from \<open>_head\<close> to \<open>_tail\<close> is the list of the bytes of its nodes; of the pool
  only the number of pages and of free nodes are kept.  The development compares the functions
  with a plain stream of bytes.
\<close>

section \<open>Nodes and their pool\<close>

record buffer_pool =
  pool_pages :: nat
  pool_free :: nat

definition SOCKET_LARGE_PAGE_NODE :: nat where "SOCKET_LARGE_PAGE_NODE = 12"

text \<open>A new page has \<open>8 * 2 ^ n\<close> nodes; its first one is given out.\<close>

definition popBufferPool :: "buffer_pool \<Rightarrow> buffer_pool" where
  "popBufferPool p =
     (if pool_free p = 0 then
        (let ztb = (if pool_pages p = 0 then 1 else pool_pages p);
             num = 8 * 2 ^ (if ztb \<le> SOCKET_LARGE_PAGE_NODE - 3 then ztb else SOCKET_LARGE_PAGE_NODE - 3)
         in \<lparr>pool_pages = pool_pages p + 1, pool_free = num - 1\<rparr>)
      else p\<lparr>pool_free := pool_free p - 1\<rparr>)"

text \<open>\<open>gBufferPool[0]\<close> of a pool without pages is out of bounds.\<close>

definition pushBufferNode :: "buffer_pool \<Rightarrow> buffer_pool res" where
  "pushBufferNode p =
     seqE (checkE (pool_pages p \<noteq> 0) OutOfBounds) (\<lambda>_. Inr (p\<lparr>pool_free := pool_free p + 1\<rparr>))"

record socketBuffer =
  b_size :: nat
  b_offset :: nat
  b_chunks :: "8 word list list"

definition empty_buffer :: socketBuffer where
  "empty_buffer = \<lparr>b_size = 0, b_offset = 0, b_chunks = []\<rparr>"

definition freeBufferNode :: "socketBuffer \<Rightarrow> buffer_pool \<Rightarrow> (socketBuffer \<times> buffer_pool) res" where
  "freeBufferNode b p =
     (case b_chunks b of
        [] \<Rightarrow> Inl NullDeref
      | c # cs \<Rightarrow> seqE (pushBufferNode p) (\<lambda>p. Inr (b\<lparr>b_offset := 0, b_chunks := cs\<rparr>, p)))"

text \<open>\<open>clearBuffer\<close>, by recursion on the chain.\<close>

fun clear_chunks :: "8 word list list \<Rightarrow> buffer_pool \<Rightarrow> buffer_pool res" where
  "clear_chunks [] p = Inr p"
| "clear_chunks (c # cs) p = seqE (pushBufferNode p) (\<lambda>p. clear_chunks cs p)"

definition clearBuffer :: "socketBuffer \<Rightarrow> buffer_pool \<Rightarrow> (socketBuffer \<times> buffer_pool) res" where
  "clearBuffer b p =
     seqE (clear_chunks (b_chunks b) p) (\<lambda>p.
       Inr (\<lparr>b_size = 0, b_offset = (if b_chunks b = [] then b_offset b else 0), b_chunks = []\<rparr>, p))"

text \<open>\<open>_size\<close> is a \<open>uint32_t\<close>.\<close>

definition pushData :: "8 word list \<Rightarrow> socketBuffer \<Rightarrow> buffer_pool \<Rightarrow> nat \<times> socketBuffer \<times> buffer_pool" where
  "pushData data b p =
     (let sz = (b_size b + length data) mod 2 ^ 32
      in (sz, b\<lparr>b_size := sz, b_chunks := b_chunks b @ [data]\<rparr>, popBufferPool p))"

section \<open>Reading\<close>

text \<open>\<open>checkSep\<close> compares the separator with the bytes from \<open>from\<close> on, across nodes.\<close>

fun checkSep :: "8 word list list \<Rightarrow> nat \<Rightarrow> 8 word list \<Rightarrow> bool res" where
  "checkSep [] from sep = Inl NullDeref"
| "checkSep (c # cs) from sep =
     (let sz = length c - from in
      if sz \<ge> length sep then Inr (take (length sep) (drop from c) = sep)
      else if sz > 0 \<and> take sz (drop from c) \<noteq> take sz sep then Inr False
      else checkSep cs 0 (drop sz sep))"

text \<open>
  The loop of \<open>doReadLine\<close>: the index at which the separator was found.  \<open>bound\<close> is the unsigned
  difference of the two lengths.  An empty chunk, which no data message brings, is a fault.
\<close>

function readline_loop ::
    "8 word list \<Rightarrow> nat \<Rightarrow> nat \<Rightarrow> 8 word list list \<Rightarrow> nat \<Rightarrow> nat option res" where
  "readline_loop sep bound i [] from = Inr None"
| "readline_loop sep bound i (c # cs) from =
     (if i > bound then Inr None
      else if from \<ge> length c then Inl OutOfBounds
      else seqE (checkSep (c # cs) from sep) (\<lambda>hit.
        if hit then Inr (Some i)
        else if from + 1 = length c then readline_loop sep bound (i + 1) cs 0
        else readline_loop sep bound (i + 1) (c # cs) (from + 1)))"
  by pat_completeness auto

termination
  by (relation "measure (\<lambda>(sep, bound, i, cs, from). length cs + length (concat cs) - from)") auto

text \<open>The loops of \<open>popString\<close> and \<open>popBuffer\<close> over several chunks.\<close>

fun popString_loop ::
    "8 word list list \<Rightarrow> nat \<Rightarrow> buffer_pool \<Rightarrow> nat \<Rightarrow> nat \<Rightarrow> 8 word list \<Rightarrow>
     (8 word list \<times> 8 word list list \<times> nat \<times> buffer_pool) res" where
  "popString_loop [] off p sz skip acc = Inl AssertFail"
| "popString_loop (c # cs) off p sz skip acc =
     (let bytes = length c - off in
      if bytes \<ge> sz then
        (let acc = (if sz > skip then acc @ take (sz - skip) (drop off c) else acc) in
         if bytes = sz then seqE (pushBufferNode p) (\<lambda>p. Inr (acc, cs, 0, p))
         else Inr (acc, c # cs, off + sz, p))
      else
        (let acc = (if sz > skip then acc @ take (min (sz - skip) bytes) (drop off c) else acc) in
         seqE (pushBufferNode p) (\<lambda>p. popString_loop cs 0 p (sz - bytes) skip acc)))"

definition popString ::
    "nat \<Rightarrow> nat \<Rightarrow> socketBuffer \<Rightarrow> buffer_pool \<Rightarrow> (8 word list \<times> socketBuffer \<times> buffer_pool) res" where
  "popString sz skip b p =
     (case b_chunks b of
        [] \<Rightarrow> Inl NullDeref
      | c # cs \<Rightarrow>
          (let bytes = length c - b_offset b in
           if sz < bytes then
             Inr (take (sz - skip) (drop (b_offset b) c), b\<lparr>b_offset := b_offset b + sz\<rparr>, p)
           else if sz = bytes then
             seqE (freeBufferNode b p) (\<lambda>(b', p). Inr (take (sz - skip) (drop (b_offset b) c), b', p))
           else
             seqE (popString_loop (c # cs) (b_offset b) p sz skip []) (\<lambda>(s, cs, off, p).
               Inr (s, b\<lparr>b_chunks := cs, b_offset := off\<rparr>, p))))"

fun popBuffer_loop ::
    "8 word list list \<Rightarrow> nat \<Rightarrow> buffer_pool \<Rightarrow> nat \<Rightarrow> 8 word list \<Rightarrow>
     (8 word list \<times> 8 word list list \<times> nat \<times> buffer_pool) res" where
  "popBuffer_loop [] off p sz out = Inl AssertFail"
| "popBuffer_loop (c # cs) off p sz out =
     (let bytes = length c - off in
      if bytes \<ge> sz then
        (let out = out @ take sz (drop off c) in
         if bytes = sz then seqE (pushBufferNode p) (\<lambda>p. Inr (out, cs, 0, p))
         else Inr (out, c # cs, off + sz, p))
      else seqE (pushBufferNode p) (\<lambda>p. popBuffer_loop cs 0 p (sz - bytes) (out @ take bytes (drop off c))))"

text \<open>
  \<open>popBuffer\<close> into the caller's memory \<open>out\<close>.  When exactly the first chunk is asked for, it is
  released without having been copied.
\<close>

definition popBuffer ::
    "8 word list \<Rightarrow> nat \<Rightarrow> socketBuffer \<Rightarrow> buffer_pool \<Rightarrow> (8 word list \<times> socketBuffer \<times> buffer_pool) res" where
  "popBuffer out n b p =
     (case b_chunks b of
        [] \<Rightarrow> Inl NullDeref
      | c # cs \<Rightarrow>
          (let bytes = length c - b_offset b in
           if n < bytes then
             Inr (take n (drop (b_offset b) c) @ drop n out, b\<lparr>b_offset := b_offset b + n\<rparr>, p)
           else if n = bytes then seqE (freeBufferNode b p) (\<lambda>(b', p). Inr (out, b', p))
           else
             seqE (popBuffer_loop (c # cs) (b_offset b) p n []) (\<lambda>(s, cs, off, p).
               Inr (s @ drop n out, b\<lparr>b_chunks := cs, b_offset := off\<rparr>, p))))"

text \<open>\<open>doRead\<close>: the comparison with the \<open>int outLen\<close> is unsigned.\<close>

definition buf_doRead ::
    "8 word list \<Rightarrow> int \<Rightarrow> socketBuffer \<Rightarrow> buffer_pool \<Rightarrow> (int \<times> 8 word list \<times> socketBuffer \<times> buffer_pool) res" where
  "buf_doRead out outLen b p =
     (if int (b_size b) < outLen mod 2 ^ 32 \<or> outLen = 0 then Inr (-1, out, b, p)
      else seqE (popBuffer out (nat outLen) b p) (\<lambda>(out, b, p).
        Inr (outLen, out, b\<lparr>b_size := b_size b - nat outLen\<rparr>, p)))"

datatype line_result = LineNone | LineFound | Line "8 word list"

definition buf_doReadLine ::
    "bool \<Rightarrow> 8 word list \<Rightarrow> socketBuffer \<Rightarrow> buffer_pool \<Rightarrow> (line_result \<times> socketBuffer \<times> buffer_pool) res" where
  "buf_doReadLine check sep b p =
     (if b_chunks b = [] then Inr (LineNone, b, p)
      else seqE (readline_loop sep ((b_size b + 2 ^ 32 - length sep) mod 2 ^ 32) 0 (b_chunks b) (b_offset b))
        (\<lambda>r. case r of
           None \<Rightarrow> Inr (LineNone, b, p)
         | Some i \<Rightarrow>
             if check then Inr (LineFound, b, p)
             else seqE (popString (i + length sep) (length sep) b p) (\<lambda>(s, b, p).
               Inr (Line s, b\<lparr>b_size := b_size b - (i + length sep)\<rparr>, p))))"

fun readall_loop :: "8 word list list \<Rightarrow> nat \<Rightarrow> buffer_pool \<Rightarrow> 8 word list \<Rightarrow> (8 word list \<times> buffer_pool) res" where
  "readall_loop [] off p acc = Inr (acc, p)"
| "readall_loop (c # cs) off p acc =
     seqE (pushBufferNode p) (\<lambda>p. readall_loop cs 0 p (acc @ drop off c))"

definition buf_doReadAll :: "socketBuffer \<Rightarrow> buffer_pool \<Rightarrow> (8 word list \<times> socketBuffer \<times> buffer_pool) res" where
  "buf_doReadAll b p =
     seqE (readall_loop (b_chunks b) (b_offset b) p []) (\<lambda>(s, p).
       Inr (s, b\<lparr>b_size := 0, b_chunks := [], b_offset := (if b_chunks b = [] then b_offset b else 0)\<rparr>, p))"


section \<open>The stream the buffer stands for\<close>

definition stream :: "socketBuffer \<Rightarrow> 8 word list" where
  "stream b = drop (b_offset b) (concat (b_chunks b))"

fun chunks_ok :: "8 word list list \<Rightarrow> nat \<Rightarrow> bool" where
  "chunks_ok [] off \<longleftrightarrow> off = 0"
| "chunks_ok (c # cs) off \<longleftrightarrow> off < length c \<and> [] \<notin> set cs"

definition buffer_ok :: "socketBuffer \<Rightarrow> buffer_pool \<Rightarrow> bool" where
  "buffer_ok b p \<longleftrightarrow> chunks_ok (b_chunks b) (b_offset b) \<and> b_size b = length (stream b) \<and>
     b_size b < 2 ^ 32 \<and> (pool_pages p \<noteq> 0 \<or> b_chunks b = [] \<and> pool_free p = 0)"

text \<open>The first place of a separator in a stream.\<close>

fun find_sub :: "8 word list \<Rightarrow> 8 word list \<Rightarrow> nat option" where
  "find_sub sep [] = None"
| "find_sub sep (x # xs) =
     (if take (length sep) (x # xs) = sep then Some 0 else map_option Suc (find_sub sep xs))"

lemma find_sub_bound: "find_sub sep xs = Some k \<Longrightarrow> k + length sep \<le> length xs"
proof (induction sep xs arbitrary: k rule: find_sub.induct)
  case (2 sep x xs)
  show ?case
  proof (cases "take (length sep) (x # xs) = sep")
    case True
    then have "length sep \<le> length (x # xs)" by (metis length_take min.cobounded1)
    then show ?thesis using True 2(2) by simp
  next
    case False
    then show ?thesis using 2 by auto
  qed
qed simp

lemma find_sub_short: "length xs < length sep \<Longrightarrow> find_sub sep xs = None"
  using find_sub_bound[of sep xs] by (cases "find_sub sep xs") auto

lemma chunks_ok_tl: "chunks_ok (c # cs) off \<Longrightarrow> chunks_ok cs 0"
  by (cases cs) auto

lemma chunks_ok_app: "chunks_ok cs off \<Longrightarrow> d \<noteq> [] \<Longrightarrow> chunks_ok (cs @ [d]) off"
  by (cases cs) auto

lemma pushBufferNode_Inr: "pool_pages p \<noteq> 0 \<Longrightarrow> pushBufferNode p = Inr (p\<lparr>pool_free := pool_free p + 1\<rparr>)"
  by (simp add: pushBufferNode_def)

lemma clear_chunks_Inr: "pool_pages p \<noteq> 0 \<or> cs = [] \<Longrightarrow> \<exists>p'. clear_chunks cs p = Inr p' \<and> pool_pages p' = pool_pages p"
proof (induction cs p rule: clear_chunks.induct)
  case (2 c cs p)
  then have "pool_pages p \<noteq> 0" by simp
  then show ?case using 2(1)[of "p\<lparr>pool_free := pool_free p + 1\<rparr>"] by (simp add: pushBufferNode_Inr)
qed simp

lemma readall_loop_Inr:
  "pool_pages p \<noteq> 0 \<or> cs = [] \<Longrightarrow> chunks_ok cs off \<Longrightarrow>
   \<exists>p'. readall_loop cs off p acc = Inr (acc @ drop off (concat cs), p') \<and> pool_pages p' = pool_pages p"
proof (induction cs off p acc rule: readall_loop.induct)
  case (2 c cs off p acc)
  then have pages: "pool_pages p \<noteq> 0" by simp
  let ?p = "p\<lparr>pool_free := pool_free p + 1\<rparr>"
  have "\<exists>p'. readall_loop cs 0 ?p (acc @ drop off c) = Inr ((acc @ drop off c) @ drop 0 (concat cs), p') \<and>
      pool_pages p' = pool_pages ?p"
    using 2(1)[of ?p] chunks_ok_tl[OF 2(3)] pages by simp
  then show ?case using 2(3) pages by (auto simp: pushBufferNode_Inr)
qed simp

lemma popBuffer_loop_Inr:
  assumes "pool_pages p \<noteq> 0" and "chunks_ok cs off" and "0 < sz" and "sz \<le> length (drop off (concat cs))"
  shows "\<exists>cs' off' p'. popBuffer_loop cs off p sz out = Inr (out @ take sz (drop off (concat cs)), cs', off', p') \<and>
     drop off' (concat cs') = drop sz (drop off (concat cs)) \<and> chunks_ok cs' off' \<and> pool_pages p' = pool_pages p"
  using assms
proof (induction cs off p sz out rule: popBuffer_loop.induct)
  case (2 c cs off p sz out)
  let ?bytes = "length c - off" and ?p = "p\<lparr>pool_free := pool_free p + 1\<rparr>"
  have off: "off < length c" using 2(3) by simp
  consider "sz < ?bytes" | "sz = ?bytes" | "sz > ?bytes" by linarith
  then show ?case
  proof cases
    case 1
    then show ?thesis using 2(2,3) off by (auto simp: Let_def add.commute)
  next
    case 2
    then show ?thesis using \<open>chunks_ok (c # cs) off\<close> chunks_ok_tl off \<open>pool_pages p \<noteq> 0\<close>
      by (auto simp: Let_def pushBufferNode_Inr)
  next
    case 3
    have "\<exists>cs' off' p'. popBuffer_loop cs 0 ?p (sz - ?bytes) (out @ take ?bytes (drop off c)) =
        Inr ((out @ take ?bytes (drop off c)) @ take (sz - ?bytes) (drop 0 (concat cs)), cs', off', p') \<and>
       drop off' (concat cs') = drop (sz - ?bytes) (drop 0 (concat cs)) \<and> chunks_ok cs' off' \<and>
       pool_pages p' = pool_pages ?p"
      using 2(1)[of ?bytes ?p] 2(2,5) chunks_ok_tl[OF 2(3)] 3 off by simp
    then show ?thesis using 3 off 2(2) by (auto simp: Let_def pushBufferNode_Inr)
  qed
qed simp



lemma popString_loop_Inr:
  assumes "pool_pages p \<noteq> 0" and "chunks_ok cs off" and "0 < sz" and "sz \<le> length (drop off (concat cs))"
  shows "\<exists>cs' off' p'. popString_loop cs off p sz skip acc =
       Inr (acc @ take (sz - skip) (drop off (concat cs)), cs', off', p') \<and>
     drop off' (concat cs') = drop sz (drop off (concat cs)) \<and> chunks_ok cs' off' \<and> pool_pages p' = pool_pages p"
  using assms
proof (induction cs off p sz skip acc rule: popString_loop.induct)
  case (2 c cs off p sz skip acc)
  let ?bytes = "length c - off" and ?p = "p\<lparr>pool_free := pool_free p + 1\<rparr>"
  have off: "off < length c" using 2(3) by simp
  consider "sz < ?bytes" | "sz = ?bytes" | "sz > ?bytes" by linarith
  then show ?case
  proof cases
    case 1
    then show ?thesis using 2(2,3) off by (auto simp: Let_def add.commute)
  next
    case 2
    then show ?thesis using \<open>chunks_ok (c # cs) off\<close> chunks_ok_tl off \<open>pool_pages p \<noteq> 0\<close>
      by (auto simp: Let_def pushBufferNode_Inr)
  next
    case 3
    let ?acc = "if sz > skip then acc @ take (min (sz - skip) ?bytes) (drop off c) else acc"
    have acc: "?acc @ take (sz - ?bytes - skip) (concat cs) = acc @ take (sz - skip) (drop off (c @ concat cs))"
      using 3 off by (auto simp: min_def add.commute)
    have "\<exists>cs' off' p'. popString_loop cs 0 ?p (sz - ?bytes) skip ?acc =
        Inr (?acc @ take (sz - ?bytes - skip) (drop 0 (concat cs)), cs', off', p') \<and>
       drop off' (concat cs') = drop (sz - ?bytes) (drop 0 (concat cs)) \<and> chunks_ok cs' off' \<and>
       pool_pages p' = pool_pages ?p"
      using 2(1)[OF refl _ refl, of ?p] 2(2,5) chunks_ok_tl[OF 2(3)] 3 off by simp
    then have "\<exists>cs' off' p'. popString_loop cs 0 ?p (sz - ?bytes) skip ?acc =
        Inr (acc @ take (sz - skip) (drop off (c @ concat cs)), cs', off', p') \<and>
       drop off' (concat cs') = drop (sz - ?bytes) (concat cs) \<and> chunks_ok cs' off' \<and>
       pool_pages p' = pool_pages p"
      using acc by simp
    moreover have "drop sz (drop off (c @ concat cs)) = drop (sz - ?bytes) (concat cs)"
      using 3 off by simp
    ultimately show ?thesis
      using 3 2(2) by (simp add: Let_def pushBufferNode_Inr del: drop_append)
  qed
qed simp

lemma checkSep_Inr:
  "chunks_ok cs off \<Longrightarrow> cs \<noteq> [] \<Longrightarrow> length sep \<le> length (drop off (concat cs)) \<Longrightarrow>
   checkSep cs off sep = Inr (take (length sep) (drop off (concat cs)) = sep)"
proof (induction cs off sep rule: checkSep.induct)
  case (2 c cs off sep)
  let ?sz = "length c - off"
  have off: "off < length c" using 2(2) by simp
  show ?case
  proof (cases "?sz \<ge> length sep")
    case True
    then show ?thesis by (simp add: Let_def)
  next
    case False
    then have cs: "cs \<noteq> []" using 2(4) by auto
    have sep: "take ?sz sep @ drop ?sz sep = sep" by simp
    have eq: "take (length sep) (drop off (concat (c # cs))) =
        drop off c @ take (length (drop ?sz sep)) (concat cs)"
      using False off by simp
    show ?thesis
    proof (cases "drop off c = take ?sz sep")
      case True
      have "checkSep cs 0 (drop ?sz sep) =
          Inr (take (length (drop ?sz sep)) (drop 0 (concat cs)) = drop ?sz sep)"
        using 2(1)[OF refl] False True 2(4) chunks_ok_tl[OF 2(2)] cs off by simp
      moreover have "(take (length sep) (drop off (concat (c # cs))) = sep) =
          (take (length (drop ?sz sep)) (concat cs) = drop ?sz sep)"
        unfolding eq True using sep by (metis same_append_eq)
      ultimately show ?thesis using False True off by (simp add: Let_def)
    next
      case differ: False
      have "take (length sep) (drop off (concat (c # cs))) \<noteq> sep"
      proof
        assume "take (length sep) (drop off (concat (c # cs))) = sep"
        then have "take ?sz (drop off c @ take (length (drop ?sz sep)) (concat cs)) = take ?sz sep"
          unfolding eq by simp
        then show False using differ by simp
      qed
      then show ?thesis using False differ off by (simp add: Let_def)
    qed
  qed
qed simp

lemma readline_loop_find:
  "chunks_ok cs fr \<Longrightarrow> sep \<noteq> [] \<Longrightarrow> bound + length sep = i + length (drop fr (concat cs)) \<Longrightarrow>
   readline_loop sep bound i cs fr = Inr (map_option (\<lambda>k. k + i) (find_sub sep (drop fr (concat cs))))"
proof (induction sep bound i cs fr rule: readline_loop.induct)
  case (2 sep bound i c cs fr)
  have fr: "fr < length c" using 2(3) by simp
  define xs where "xs = drop (Suc fr) (concat (c # cs))"
  have xs: "drop fr (concat (c # cs)) = (c ! fr) # xs"
    using fr by (simp add: xs_def Cons_nth_drop_Suc[symmetric])
  show ?case
  proof (cases "i > bound")
    case True
    then have "length (drop fr (concat (c # cs))) < length sep" using 2(5) by linarith
    then show ?thesis using True find_sub_short by simp
  next
    case False
    let ?hit = "take (length sep) (drop fr (concat (c # cs))) = sep"
    have chk: "checkSep (c # cs) fr sep = Inr ?hit"
      using 2(3,5) False by (intro checkSep_Inr) auto
    show ?thesis
    proof (cases ?hit)
      case True
      then show ?thesis using False fr chk unfolding xs by simp
    next
      case miss: False
      have tail: "(if fr + 1 = length c then readline_loop sep bound (i + 1) cs 0
           else readline_loop sep bound (i + 1) (c # cs) (fr + 1)) =
         Inr (map_option (\<lambda>k. k + (i + 1)) (find_sub sep xs))"
      proof (cases "fr + 1 = length c")
        case True
        then have "xs = drop 0 (concat cs)" by (simp add: xs_def)
        then show ?thesis
          using 2(1)[OF False _ miss True chunks_ok_tl[OF 2(3)] 2(4)] fr 2(5) True xs by simp
      next
        case no: False
        then show ?thesis
          using 2(2)[OF False _ miss no _ 2(4)] fr 2(3,5) xs by (simp add: xs_def)
      qed
      have "map_option (\<lambda>k. k + i) (find_sub sep ((c ! fr) # xs)) = map_option (\<lambda>k. k + (i + 1)) (find_sub sep xs)"
        using miss unfolding xs by (cases "find_sub sep xs") auto
      then show ?thesis using tail False fr chk miss unfolding xs by simp
    qed
  qed
qed simp


lemma checkSep_runs_out:
  "chunks_ok cs off \<Longrightarrow> length (drop off (concat cs)) < length sep \<Longrightarrow>
   take (length (drop off (concat cs))) sep = drop off (concat cs) \<Longrightarrow> checkSep cs off sep = Inl NullDeref"
proof (induction cs off sep rule: checkSep.induct)
  case (2 c cs off sep)
  let ?sz = "length c - off"
  have off: "off < length c" using 2(2) by simp
  have len: "\<not> ?sz \<ge> length sep" using 2(3) by simp
  have lt: "length (concat cs) < length (drop ?sz sep)" using 2(3) off by simp
  have all: "drop off c @ concat cs = take (?sz + length (concat cs)) sep"
    using 2(4) off by simp
  have eq: "drop off c = take ?sz sep" "concat cs = take (length (concat cs)) (drop ?sz sep)"
  proof -
    have "take (?sz + length (concat cs)) sep = take ?sz sep @ take (length (concat cs)) (drop ?sz sep)"
      by (rule take_add)
    moreover have "length (take ?sz sep) = length (drop off c)" using len by simp
    ultimately show "drop off c = take ?sz sep" "concat cs = take (length (concat cs)) (drop ?sz sep)"
      using all by (metis append_eq_append_conv)+
  qed
  have "checkSep cs 0 (drop ?sz sep) = Inl NullDeref"
    using 2(1)[OF refl len] eq lt chunks_ok_tl[OF 2(2)] by simp
  then show ?case using len eq(1) by (simp add: Let_def)
qed simp

lemma pushData_ok:
  assumes "buffer_ok b p" and "d \<noteq> []" and "b_size b + length d < 2 ^ 32" and "pushData d b p = (n, b', p')"
  shows "buffer_ok b' p' \<and> stream b' = stream b @ d \<and> n = b_size b'"
proof -
  have "drop (b_offset b) (concat (b_chunks b) @ d) = stream b @ d"
    using assms(1) by (cases "b_chunks b") (auto simp: buffer_ok_def stream_def)
  moreover have "b_offset b \<le> length (concat (b_chunks b))"
    using assms(1) by (cases "b_chunks b") (auto simp: buffer_ok_def)
  ultimately show ?thesis
    using assms chunks_ok_app[of "b_chunks b" "b_offset b" d]
    by (auto simp: pushData_def Let_def buffer_ok_def stream_def popBufferPool_def split: if_splits)
qed

lemma doReadAll_ok:
  assumes "buffer_ok b p"
  shows "\<exists>b' p'. buf_doReadAll b p = Inr (stream b, b', p') \<and> buffer_ok b' p' \<and> stream b' = []"
  using assms readall_loop_Inr[of p "b_chunks b" "b_offset b" "[]"]
  by (auto simp: buf_doReadAll_def buffer_ok_def stream_def)

section \<open>The buffer as a source of bytes\<close>

text \<open>What is put in comes out, in order, whoever chops it up.\<close>

locale byte_source =
  fixes content :: "'s \<Rightarrow> 8 word list"
    and valid :: "'s \<Rightarrow> bool"
    and capacity :: nat
    and add :: "8 word list \<Rightarrow> 's \<Rightarrow> 's"
    and take_all :: "'s \<Rightarrow> (8 word list \<times> 's) res"
  assumes add_law: "valid s \<Longrightarrow> d \<noteq> [] \<Longrightarrow> length (content s) + length d < capacity \<Longrightarrow>
      valid (add d s) \<and> content (add d s) = content s @ d"
    and take_all_law: "valid s \<Longrightarrow> \<exists>s'. take_all s = Inr (content s, s') \<and> valid s' \<and> content s' = []"
begin

lemma add_many:
  "valid s \<Longrightarrow> \<forall>d \<in> set ds. d \<noteq> [] \<Longrightarrow> length (content s) + length (concat ds) < capacity \<Longrightarrow>
   valid (fold add ds s) \<and> content (fold add ds s) = content s @ concat ds"
  by (induction ds arbitrary: s) (auto simp: add_law)

lemma add_many_take_all:
  assumes "valid s" and "\<forall>d \<in> set ds. d \<noteq> []" and "length (content s) + length (concat ds) < capacity"
  shows "\<exists>s'. take_all (fold add ds s) = Inr (content s @ concat ds, s') \<and> valid s' \<and> content s' = []"
  using take_all_law add_many[OF assms] by metis

end

definition buf_add :: "8 word list \<Rightarrow> socketBuffer \<times> buffer_pool \<Rightarrow> socketBuffer \<times> buffer_pool" where
  "buf_add d bp = snd (pushData d (fst bp) (snd bp))"

definition buf_all :: "socketBuffer \<times> buffer_pool \<Rightarrow> (8 word list \<times> socketBuffer \<times> buffer_pool) res" where
  "buf_all bp = buf_doReadAll (fst bp) (snd bp)"

interpretation rbuf: byte_source "\<lambda>bp. stream (fst bp)" "\<lambda>bp. buffer_ok (fst bp) (snd bp)" "2 ^ 32" buf_add buf_all
proof
  fix bp :: "socketBuffer \<times> buffer_pool" and d :: "8 word list"
  assume ok: "buffer_ok (fst bp) (snd bp)"
  show "\<exists>s'. buf_all bp = Inr (stream (fst bp), s') \<and> buffer_ok (fst s') (snd s') \<and> stream (fst s') = []"
    using doReadAll_ok[OF ok] by (auto simp: buf_all_def)
  assume d: "d \<noteq> []" "length (stream (fst bp)) + length d < 2 ^ 32"
  show "buffer_ok (fst (buf_add d bp)) (snd (buf_add d bp)) \<and> stream (fst (buf_add d bp)) = stream (fst bp) @ d"
    using pushData_ok[OF ok d(1)] d(2) ok
    by (cases "pushData d (fst bp) (snd bp)") (auto simp: buf_add_def buffer_ok_def)
qed


lemma free_first_ok:
  assumes "buffer_ok b p" and "b_chunks b = c # cs"
  shows "freeBufferNode b p = Inr (b\<lparr>b_chunks := cs, b_offset := 0\<rparr>, p\<lparr>pool_free := pool_free p + 1\<rparr>)"
  using assms by (cases b) (auto simp: freeBufferNode_def buffer_ok_def pushBufferNode_Inr)

text \<open>Taking \<open>n\<close> bytes off the front leaves a good buffer for the rest.\<close>

lemma buffer_ok_rest:
  assumes "buffer_ok b p" and "n \<le> b_size b" and "drop off (concat cs) = drop n (stream b)"
    and "chunks_ok cs off" and "pool_pages p' \<noteq> 0"
  shows "buffer_ok (b\<lparr>b_chunks := cs, b_offset := off, b_size := b_size b - n\<rparr>) p' \<and>
    stream (b\<lparr>b_chunks := cs, b_offset := off, b_size := b_size b - n\<rparr>) = drop n (stream b)"
  using assms by (auto simp: buffer_ok_def stream_def)

lemma buffer_parts:
  assumes "buffer_ok b p" and "0 < n" and "n \<le> b_size b"
  obtains c cs where "b_chunks b = c # cs" "b_offset b < length c" "chunks_ok cs 0" "pool_pages p \<noteq> 0"
    "stream b = drop (b_offset b) c @ concat cs" "n \<le> length (stream b)"
  using assms chunks_ok_tl by (cases "b_chunks b") (auto simp: buffer_ok_def stream_def)

lemma popString_ok:
  assumes ok: "buffer_ok b p" and n: "0 < n" "n \<le> b_size b"
  shows "\<exists>b' p'. popString n skip b p = Inr (take (n - skip) (stream b), b', p') \<and>
    buffer_ok (b'\<lparr>b_size := b_size b' - n\<rparr>) p' \<and> stream (b'\<lparr>b_size := b_size b' - n\<rparr>) = drop n (stream b)"
proof -
  obtain c cs where b: "b_chunks b = c # cs" "b_offset b < length c" "chunks_ok cs 0" "pool_pages p \<noteq> 0"
    "stream b = drop (b_offset b) c @ concat cs" "n \<le> length (stream b)"
    by (rule buffer_parts[OF ok n])
  have chunks: "chunks_ok (c # cs) (b_offset b)" using ok b(1) by (simp add: buffer_ok_def)
  have same: "b\<lparr>b_chunks := c # cs, b_offset := x, b_size := y\<rparr> = b\<lparr>b_offset := x, b_size := y\<rparr>" for x y
    using b(1) by (cases b) simp
  consider "n < length c - b_offset b" | "n = length c - b_offset b" | "n > length c - b_offset b" by linarith
  then show ?thesis
  proof cases
    case 1
    then have "drop (b_offset b + n) (concat (c # cs)) = drop n (stream b)" "chunks_ok (c # cs) (b_offset b + n)"
      using b chunks by (auto simp: add.commute)
    from buffer_ok_rest[OF ok n(2) this b(4), unfolded same] show ?thesis
      using 1 b by (auto simp: popString_def Let_def)
  next
    case 2
    then have "drop 0 (concat cs) = drop n (stream b)" using b by simp
    from buffer_ok_rest[OF ok n(2) this b(3), of "p\<lparr>pool_free := pool_free p + 1\<rparr>"] show ?thesis
      using 2 b free_first_ok[OF ok b(1)] by (auto simp: popString_def Let_def)
  next
    case 3
    have st: "drop (b_offset b) (concat (c # cs)) = stream b" using b(1) by (simp add: stream_def)
    obtain cs' off' p' where l: "popString_loop (c # cs) (b_offset b) p n skip [] =
        Inr (take (n - skip) (stream b), cs', off', p')" "drop off' (concat cs') = drop n (stream b)"
        "chunks_ok cs' off'" "pool_pages p' = pool_pages p"
      using popString_loop_Inr[OF b(4) chunks n(1), of skip "[]"] b(6) unfolding st by auto
    from buffer_ok_rest[OF ok n(2) l(2,3), of p'] show ?thesis
      using 3 b l by (auto simp: popString_def Let_def simp del: popString_loop.simps)
  qed
qed

lemma popBuffer_ok:
  assumes ok: "buffer_ok b p" and n: "0 < n" "n \<le> b_size b"
  shows "\<exists>b' p'. popBuffer out n b p =
      Inr (if n = length (hd (b_chunks b)) - b_offset b then out else take n (stream b) @ drop n out, b', p') \<and>
    b_size b' = b_size b \<and>
    buffer_ok (b'\<lparr>b_size := b_size b' - n\<rparr>) p' \<and> stream (b'\<lparr>b_size := b_size b' - n\<rparr>) = drop n (stream b)"
proof -
  obtain c cs where b: "b_chunks b = c # cs" "b_offset b < length c" "chunks_ok cs 0" "pool_pages p \<noteq> 0"
    "stream b = drop (b_offset b) c @ concat cs" "n \<le> length (stream b)"
    by (rule buffer_parts[OF ok n])
  have chunks: "chunks_ok (c # cs) (b_offset b)" using ok b(1) by (simp add: buffer_ok_def)
  have same: "b\<lparr>b_chunks := c # cs, b_offset := x, b_size := y\<rparr> = b\<lparr>b_offset := x, b_size := y\<rparr>" for x y
    using b(1) by (cases b) simp
  consider "n < length c - b_offset b" | "n = length c - b_offset b" | "n > length c - b_offset b" by linarith
  then show ?thesis
  proof cases
    case 1
    then have "drop (b_offset b + n) (concat (c # cs)) = drop n (stream b)" "chunks_ok (c # cs) (b_offset b + n)"
      using b chunks by (auto simp: add.commute)
    from buffer_ok_rest[OF ok n(2) this b(4), unfolded same] show ?thesis
      using 1 b by (auto simp: popBuffer_def Let_def)
  next
    case 2
    then have "drop 0 (concat cs) = drop n (stream b)" using b by simp
    from buffer_ok_rest[OF ok n(2) this b(3), of "p\<lparr>pool_free := pool_free p + 1\<rparr>"] show ?thesis
      using 2 b free_first_ok[OF ok b(1)] by (auto simp: popBuffer_def Let_def)
  next
    case 3
    have st: "drop (b_offset b) (concat (c # cs)) = stream b" using b(1) by (simp add: stream_def)
    obtain cs' off' p' where l: "popBuffer_loop (c # cs) (b_offset b) p n [] =
        Inr (take n (stream b), cs', off', p')" "drop off' (concat cs') = drop n (stream b)"
        "chunks_ok cs' off'" "pool_pages p' = pool_pages p"
      using popBuffer_loop_Inr[OF b(4) chunks n(1), of "[]"] b(6) unfolding st by auto
    from buffer_ok_rest[OF ok n(2) l(2,3), of p'] show ?thesis
      using 3 b l by (auto simp: popBuffer_def Let_def simp del: popBuffer_loop.simps)
  qed
qed


section \<open>Properties\<close>

text \<open>The buffer of the witnesses: two chunks, one byte of the first was read.\<close>

definition demo_buffer :: socketBuffer where
  "demo_buffer = \<lparr>b_size = 4, b_offset = 1, b_chunks = [[7, 1, 2], [10, 3]]\<rparr>"

definition demo_pool :: buffer_pool where
  "demo_pool = \<lparr>pool_pages = 1, pool_free = 14\<rparr>"



text \<open>C26: \<open>doRead\<close> takes exactly the first bytes out of the stream, whatever the chunks, and gives
  them to the caller, except when it is asked for exactly what is left of the first chunk: then
  the bytes leave the buffer and the memory of the caller is not written.\<close>

theorem read_refines_stream:
  assumes "buffer_ok b p" and "0 < n" and "n \<le> b_size b" and "length out = n"
  shows "\<exists>b' p'. buf_doRead out (int n) b p =
      Inr (int n, if n = length (hd (b_chunks b)) - b_offset b then out else take n (stream b), b', p') \<and>
    buffer_ok b' p' \<and> stream b' = drop n (stream b)"
proof -
  have "b_size b < 2 ^ 32" using assms(1) by (simp add: buffer_ok_def)
  then have "int n mod 2 ^ 32 = int n" using assms(3) by simp
  then have "\<not> (int (b_size b) < int n mod 2 ^ 32 \<or> int n = 0)" using assms(2,3) by simp
  then show ?thesis
    using popBuffer_ok[OF assms(1-3), of out] assms(4) by (auto simp: buf_doRead_def)
qed

theorem read_refines_stream_witness:
  "\<exists>b' p'. buf_doRead [0, 0, 0] (int 3) demo_buffer demo_pool =
      Inr (int 3, if 3 = length (hd (b_chunks demo_buffer)) - b_offset demo_buffer then [0, 0, 0]
                  else take 3 (stream demo_buffer), b', p') \<and>
    buffer_ok b' p' \<and> stream b' = drop 3 (stream demo_buffer)"
  by (rule read_refines_stream) (simp_all add: buffer_ok_def demo_buffer_def demo_pool_def stream_def)

text \<open>C27: Whatever messages a socket receives, reading everything gives their bytes one after the
  other, behind those that were left in the buffer, and leaves an empty buffer.\<close>

theorem receive_then_read_all:
  assumes "buffer_ok b p" and "[] \<notin> set ds" and "b_size b + length (concat ds) < 2 ^ 32"
  shows "\<exists>b' p'. buf_all (fold buf_add ds (b, p)) = Inr (stream b @ concat ds, b', p') \<and>
    buffer_ok b' p' \<and> stream b' = []"
proof -
  have "\<forall>d \<in> set ds. d \<noteq> []" using assms(2) by auto
  then show ?thesis
    using rbuf.add_many_take_all[of "(b, p)" ds] assms(1,3) by (auto simp: buffer_ok_def)
qed

theorem receive_then_read_all_witness:
  "\<exists>b' p'. buf_all (fold buf_add [[5], [6, 7]] (demo_buffer, demo_pool)) =
      Inr (stream demo_buffer @ concat [[5], [6, 7]], b', p') \<and> buffer_ok b' p' \<and> stream b' = []"
  by (rule receive_then_read_all) (simp_all add: buffer_ok_def demo_buffer_def demo_pool_def stream_def)

text \<open>The bound of the loop of \<open>doReadLine\<close> is an unsigned difference.  When everything that was
  received so far is a proper beginning of the separator, the comparison runs off the end of the
  chain: a null pointer is read.\<close>

theorem partial_separator_crashes:
  assumes "buffer_ok b p" and "stream b \<noteq> []" and "sep = stream b @ t" and "t \<noteq> []"
    and "length sep < 2 ^ 31"
  shows "buf_doReadLine check sep b p = Inl NullDeref"
proof -
  obtain c cs where b: "b_chunks b = c # cs" "b_offset b < length c"
    using assms(1,2) by (cases "b_chunks b") (auto simp: buffer_ok_def stream_def)
  have st: "drop (b_offset b) (concat (c # cs)) = stream b" using b(1) by (simp add: stream_def)
  have "chunks_ok (c # cs) (b_offset b)" using assms(1) b(1) by (simp add: buffer_ok_def)
  then have "checkSep (c # cs) (b_offset b) sep = Inl NullDeref"
    by (rule checkSep_runs_out) (use assms(3,4) in \<open>simp_all add: st del: concat.simps\<close>)
  then show ?thesis using b by (simp add: buf_doReadLine_def del: checkSep.simps)
qed

theorem partial_separator_crashes_witness:
  "buf_doReadLine True [13, 10] (\<lparr>b_size = 1, b_offset = 0, b_chunks = [[13]]\<rparr>) demo_pool = Inl NullDeref"
  by (rule partial_separator_crashes[of _ _ _ "[10]"])
    (simp_all add: buffer_ok_def demo_pool_def stream_def)

end
