(* ===== verification/SocketApi.thy ===== *)
theory SocketApi
  imports SocketBuffer SocketSystem
begin

text \<open>
  The sockets of the actors, \<open>engine/src/api/socket.cc\<close>: the objects behind the socket numbers, the
  handlers of the messages the socket system sends to an actor, and the calls an actor makes.  A
  call that suspends its coroutine is split where it waits: its first half ends with the
  coroutine waiting, its second half runs after the wake-up.  What leaves the module (wake-ups,
  requests to the socket system, calls of the accept function) is the list \<open>g_acts\<close>.
\<close>

section \<open>State\<close>

datatype any = AnyNone | AnyBool bool | AnyString "8 word list" | AnyInt int

record socketOper =
  o_id :: int
  o_connected :: bool
  o_connecting :: any
  o_readRequired :: any
  o_buffer :: socketBuffer
  o_bufferLimit :: int
  o_co :: "nat option"
  o_closing :: "nat option"
  o_opaque :: nat
  o_func :: bool

datatype api_action =
    Wake nat | SysClose nat int | SysShutdown nat int | SysStart nat int | SysConnect nat
  | SysNodelay int | Accepted int "8 word list option" | Logged

text \<open>\<open>g_alive\<close> says of an actor whether its weak pointer can still be locked.\<close>

record api =
  g_sockets :: "int \<rightharpoonup> nat"
  g_objs :: "nat \<Rightarrow> socketOper"
  g_pool :: buffer_pool
  g_alive :: "nat \<Rightarrow> bool"
  g_acts :: "api_action list"

definition new_oper :: "nat \<Rightarrow> int \<Rightarrow> bool \<Rightarrow> socketOper" where
  "new_oper opq sid func =
     \<lparr>o_id = sid, o_connected = False, o_connecting = AnyBool True, o_readRequired = AnyNone,
      o_buffer = empty_buffer, o_bufferLimit = 0, o_co = None, o_closing = None, o_opaque = opq,
      o_func = func\<rparr>"

definition act :: "api_action \<Rightarrow> api \<Rightarrow> api" where
  "act x g = g\<lparr>g_acts := g_acts g @ [x]\<rparr>"

definition set_obj :: "nat \<Rightarrow> socketOper \<Rightarrow> api \<Rightarrow> api" where
  "set_obj a o' g = g\<lparr>g_objs := (g_objs g)(a := o')\<rparr>"

definition api_getSocket :: "api \<Rightarrow> int \<Rightarrow> nat option" where
  "api_getSocket g sid = g_sockets g sid"

definition addSocket :: "int \<Rightarrow> nat \<Rightarrow> api \<Rightarrow> api" where
  "addSocket sid a g = g\<lparr>g_sockets := (g_sockets g)(sid \<mapsto> a)\<rparr>"

definition removeSocket :: "int \<Rightarrow> api \<Rightarrow> api" where
  "removeSocket sid g = g\<lparr>g_sockets := (g_sockets g)(sid := None)\<rparr>"

section \<open>Suspending and waking\<close>

definition getAssertPtr :: "nat \<Rightarrow> api \<Rightarrow> unit res" where
  "getAssertPtr a g = checkE (g_alive g (o_opaque (g_objs g a))) AssertFail"

text \<open>\<open>doSuspend\<close> of the coroutine \<open>co\<close>, up to and from its wait.\<close>

definition doSuspend_begin :: "nat \<Rightarrow> nat \<Rightarrow> api \<Rightarrow> api res" where
  "doSuspend_begin co a g =
     seqE (checkE (o_co (g_objs g a) = None) AssertFail) (\<lambda>_.
       let g = set_obj a ((g_objs g a)\<lparr>o_co := Some co\<rparr>) g
       in seqE (getAssertPtr a g) (\<lambda>_. Inr g))"

definition doSuspend_end :: "nat \<Rightarrow> api \<Rightarrow> api" where
  "doSuspend_end a g = (case o_closing (g_objs g a) of None \<Rightarrow> g | Some co \<Rightarrow> act (Wake co) g)"

definition doCloseSusped :: "nat \<Rightarrow> nat \<Rightarrow> api \<Rightarrow> api res" where
  "doCloseSusped co a g =
     seqE (checkE (o_closing (g_objs g a) = None) AssertFail) (\<lambda>_.
       Inr (set_obj a ((g_objs g a)\<lparr>o_closing := Some co\<rparr>) g))"

definition oper_doWakeup :: "nat \<Rightarrow> api \<Rightarrow> api res" where
  "oper_doWakeup a g =
     (case o_co (g_objs g a) of
        None \<Rightarrow> Inr g
      | Some co \<Rightarrow>
          (let g = set_obj a ((g_objs g a)\<lparr>o_co := None\<rparr>) g
           in seqE (getAssertPtr a g) (\<lambda>_. Inr (act (Wake co) g))))"

definition isDisconnected :: "socketOper \<Rightarrow> bool" where
  "isDisconnected s \<longleftrightarrow> \<not> (o_connected s \<or> o_connecting s \<noteq> AnyNone)"

text \<open>The buffer functions on an object, with the shared pool.\<close>

definition with_buffer ::
    "nat \<Rightarrow> (socketBuffer \<Rightarrow> buffer_pool \<Rightarrow> ('r \<times> socketBuffer \<times> buffer_pool) res) \<Rightarrow> api \<Rightarrow> ('r \<times> api) res" where
  "with_buffer a f g =
     seqE (f (o_buffer (g_objs g a)) (g_pool g)) (\<lambda>(r, b, p).
       Inr (r, set_obj a ((g_objs g a)\<lparr>o_buffer := b\<rparr>) (g\<lparr>g_pool := p\<rparr>)))"

definition clear_buffer :: "nat \<Rightarrow> api \<Rightarrow> api res" where
  "clear_buffer a g =
     seqE (with_buffer a (\<lambda>b p. seqE (clearBuffer b p) (\<lambda>(b, p). Inr ((), b, p))) g) (\<lambda>(r, g). Inr g)"

section \<open>Messages of the socket system\<close>

definition onAccept :: "nat \<Rightarrow> int \<Rightarrow> int \<Rightarrow> 8 word list option \<Rightarrow> api \<Rightarrow> api res" where
  "onAccept opq sid client addr g =
     (case api_getSocket g sid of
        None \<Rightarrow> Inr (act (SysClose opq client) g)
      | Some a \<Rightarrow> if o_func (g_objs g a) then Inr (act (Accepted client addr) g) else Inl ExitProcess)"

text \<open>The sizes are unsigned; \<open>sz >= tmpsz\<close> and \<open>sz > limit\<close> compare them with an \<open>int\<close>.\<close>

definition onData :: "nat \<Rightarrow> int \<Rightarrow> 8 word list \<Rightarrow> api \<Rightarrow> api res" where
  "onData opq sid data g =
     (case api_getSocket g sid of
        None \<Rightarrow> Inr (act Logged g)
      | Some a \<Rightarrow>
          seqE (with_buffer a (\<lambda>b p. Inr (pushData data b p)) g) (\<lambda>(sz, g).
            let s = g_objs g a; rr = o_readRequired s in
            case rr of
              AnyInt n \<Rightarrow>
                if int sz \<ge> n mod 2 ^ 32
                then oper_doWakeup a (set_obj a (s\<lparr>o_readRequired := AnyNone\<rparr>) g) else Inr g
            | _ \<Rightarrow>
                if o_bufferLimit s \<noteq> 0 \<and> int sz > o_bufferLimit s mod 2 ^ 32 then
                  seqE (clear_buffer a (act Logged g)) (\<lambda>g. Inr (act (SysClose opq sid) g))
                else (case rr of
                    AnyString sep \<Rightarrow>
                      seqE (with_buffer a (buf_doReadLine True sep) g) (\<lambda>(r, g).
                        if r \<noteq> LineNone
                        then oper_doWakeup a (set_obj a ((g_objs g a)\<lparr>o_readRequired := AnyNone\<rparr>) g)
                        else Inr g)
                  | _ \<Rightarrow> Inr g)))"

definition onStart :: "int \<Rightarrow> api \<Rightarrow> api res" where
  "onStart sid g =
     (case api_getSocket g sid of
        None \<Rightarrow> Inr g
      | Some a \<Rightarrow> oper_doWakeup a (set_obj a ((g_objs g a)\<lparr>o_connected := True\<rparr>) g))"

text \<open>\<open>std::string(err)\<close> of a null pointer.\<close>

definition onError :: "nat \<Rightarrow> int \<Rightarrow> 8 word list option \<Rightarrow> api \<Rightarrow> api res" where
  "onError opq sid err g =
     (case api_getSocket g sid of
        None \<Rightarrow> Inr (act Logged g)
      | Some a \<Rightarrow>
          (let s = g_objs g a in
           seqE (if o_connected s then Inr (act Logged g)
                 else if o_connecting s \<noteq> AnyNone then
                   (case err of None \<Rightarrow> Inl NullDeref
                    | Some e \<Rightarrow> Inr (set_obj a (s\<lparr>o_connecting := AnyString (takeWhile (\<lambda>b. b \<noteq> 0) e)\<rparr>) g))
                 else Inr g) (\<lambda>g.
             oper_doWakeup a (act (SysShutdown opq sid) (set_obj a ((g_objs g a)\<lparr>o_connected := False\<rparr>) g)))))"

definition onWarning :: "int \<Rightarrow> api \<Rightarrow> api res" where
  "onWarning sid g =
     (case api_getSocket g sid of
        None \<Rightarrow> Inr g
      | Some a \<Rightarrow> seqE (getAssertPtr a g) (\<lambda>_. Inr (act Logged g)))"

definition onClose :: "int \<Rightarrow> api \<Rightarrow> api res" where
  "onClose sid g =
     (case api_getSocket g sid of
        None \<Rightarrow> Inr g
      | Some a \<Rightarrow> oper_doWakeup a (set_obj a ((g_objs g a)\<lparr>o_connected := False\<rparr>) g))"

text \<open>
  \<open>staticSocketDispatch\<close> for the actor \<open>opq\<close>.  A data message carries its bytes; one without a
  buffer would be read through a null pointer.
\<close>

definition staticSocketDispatch :: "nat \<Rightarrow> socketMessage \<Rightarrow> api \<Rightarrow> api res" where
  "staticSocketDispatch opq m g =
     (if sm_type m = msg_code M_SOCKET_ACCEPT then onAccept opq (sm_id m) (sm_ext m) (sm_buffer m) g
      else if sm_type m = msg_code M_SOCKET_DATA then
        (case sm_buffer m of None \<Rightarrow> Inl NullDeref | Some d \<Rightarrow> onData opq (sm_id m) (take (nat (sm_ext m)) d) g)
      else if sm_type m = msg_code M_SOCKET_CLOSE then onClose (sm_id m) g
      else if sm_type m = msg_code M_SOCKET_START then onStart (sm_id m) g
      else if sm_type m = msg_code M_SOCKET_ERROR then onError opq (sm_id m) (sm_buffer m) g
      else if sm_type m = msg_code M_SOCKET_WARNING then onWarning (sm_id m) g
      else Inr g)"


section \<open>Calls of the actors\<close>

datatype api_result = RInt int | RString "8 word list" | RLine bool "8 word list" | RFound | REmpty

text \<open>\<open>makeSocket\<close> with the new object at address \<open>a\<close>, and after its wait.\<close>

definition makeSocket_begin :: "nat \<Rightarrow> nat \<Rightarrow> nat \<Rightarrow> int \<Rightarrow> bool \<Rightarrow> api \<Rightarrow> api res" where
  "makeSocket_begin a co opq sid func g =
     doSuspend_begin co a (addSocket sid a (set_obj a (new_oper opq sid func) g))"

definition makeSocket_end :: "nat \<Rightarrow> int \<Rightarrow> api \<Rightarrow> api_result \<times> api" where
  "makeSocket_end a sid g =
     (let g = doSuspend_end a g; err = o_connecting (g_objs g a);
          g = set_obj a ((g_objs g a)\<lparr>o_connecting := AnyNone\<rparr>) g
      in if o_connected (g_objs g a) then (RInt sid, g)
         else (case err of AnyString e \<Rightarrow> (RString e, removeSocket sid g) | _ \<Rightarrow> (RInt (-1), removeSocket sid g)))"

definition api_doStart_begin :: "nat \<Rightarrow> nat \<Rightarrow> nat \<Rightarrow> int \<Rightarrow> bool \<Rightarrow> api \<Rightarrow> api res" where
  "api_doStart_begin a co opq sid func g = makeSocket_begin a co opq sid func (act (SysStart opq sid) g)"

definition api_doConnection_begin :: "nat \<Rightarrow> nat \<Rightarrow> nat \<Rightarrow> int \<Rightarrow> api \<Rightarrow> api res" where
  "api_doConnection_begin a co opq sid g = makeSocket_begin a co opq sid False (act (SysConnect opq) g)"

text \<open>
  \<open>doRead\<close> into the memory \<open>out\<close>: the result, or \<open>None\<close> when the coroutine waits.
\<close>

definition doRead_begin ::
    "nat \<Rightarrow> int \<Rightarrow> 8 word list \<Rightarrow> int \<Rightarrow> api \<Rightarrow> (int option \<times> 8 word list \<times> api) res" where
  "doRead_begin co sid out n g =
     (case api_getSocket g sid of
        None \<Rightarrow> Inl AssertFail
      | Some a \<Rightarrow>
          seqE (with_buffer a (\<lambda>b p. seqE (buf_doRead out n b p) (\<lambda>(r, out, b, p). Inr ((r, out), b, p))) g)
            (\<lambda>((r, out), g).
              if r \<noteq> -1 then Inr (Some r, out, g)
              else if \<not> o_connected (g_objs g a) then Inr (Some (-1), out, g)
              else seqE (checkE (o_readRequired (g_objs g a) = AnyNone) AssertFail) (\<lambda>_.
                seqE (doSuspend_begin co a (set_obj a ((g_objs g a)\<lparr>o_readRequired := AnyInt n\<rparr>) g)) (\<lambda>g.
                  Inr (None, out, g)))))"

text \<open>The second half works on the object, which may have left the table meanwhile.\<close>

definition doRead_end :: "nat \<Rightarrow> 8 word list \<Rightarrow> int \<Rightarrow> api \<Rightarrow> (int \<times> 8 word list \<times> api) res" where
  "doRead_end a out n g =
     (let read = (\<lambda>n out b p. seqE (buf_doRead out n b p) (\<lambda>(r, out, b, p). Inr ((r, out), b, p)))
      in seqE (with_buffer a (read n out) (doSuspend_end a g)) (\<lambda>((r, out), g).
           if r \<noteq> -1 then Inr (r, out, g)
           else seqE (with_buffer a (read (int (b_size (o_buffer (g_objs g a)))) out) g) (\<lambda>((r, out), g).
             Inr (r, out, g))))"

definition line_value :: "line_result \<Rightarrow> api_result" where
  "line_value r = (case r of LineNone \<Rightarrow> REmpty | LineFound \<Rightarrow> RFound | Line s \<Rightarrow> RString s)"

definition read_rest :: "nat \<Rightarrow> api \<Rightarrow> (api_result \<times> api) res" where
  "read_rest a g = seqE (with_buffer a buf_doReadAll g) (\<lambda>(s, g). Inr (RLine False s, g))"

definition the_sep :: "8 word list \<Rightarrow> 8 word list" where
  "the_sep sep = (if sep = [] then [10] else sep)"

definition doReadLine_begin ::
    "nat \<Rightarrow> int \<Rightarrow> 8 word list \<Rightarrow> api \<Rightarrow> (api_result option \<times> api) res" where
  "doReadLine_begin co sid sep g =
     (case api_getSocket g sid of
        None \<Rightarrow> Inl AssertFail
      | Some a \<Rightarrow>
          seqE (with_buffer a (buf_doReadLine False (the_sep sep)) g) (\<lambda>(r, g).
            if r \<noteq> LineNone then Inr (Some (line_value r), g)
            else if \<not> o_connected (g_objs g a) then
              seqE (read_rest a g) (\<lambda>(r, g). Inr (Some r, g))
            else seqE (checkE (o_readRequired (g_objs g a) = AnyNone) AssertFail) (\<lambda>_.
              seqE (doSuspend_begin co a (set_obj a ((g_objs g a)\<lparr>o_readRequired := AnyString (the_sep sep)\<rparr>) g)) (\<lambda>g.
                Inr (None, g)))))"

definition doReadLine_end :: "nat \<Rightarrow> 8 word list \<Rightarrow> api \<Rightarrow> (api_result \<times> api) res" where
  "doReadLine_end a sep g =
     (let g = doSuspend_end a g in
      if o_connected (g_objs g a) then
        seqE (with_buffer a (buf_doReadLine False (the_sep sep)) g) (\<lambda>(r, g). Inr (line_value r, g))
      else read_rest a g)"

definition doSetNodelay :: "int \<Rightarrow> api \<Rightarrow> api" where
  "doSetNodelay sid g = (case api_getSocket g sid of None \<Rightarrow> g | Some a \<Rightarrow> act (SysNodelay sid) g)"

text \<open>\<open>doClose\<close>: how the coroutine waits, and what follows the wait.\<close>

datatype close_wait = NoWait | WaitOwn | WaitClosing

definition doClose_end :: "nat \<Rightarrow> int \<Rightarrow> close_wait \<Rightarrow> api \<Rightarrow> api res" where
  "doClose_end a sid w g =
     (let g = (if w = WaitOwn then doSuspend_end a g else g);
          g = (if w \<noteq> NoWait then set_obj a ((g_objs g a)\<lparr>o_connected := False\<rparr>) g else g)
      in seqE (clear_buffer a g) (\<lambda>g. Inr (removeSocket sid g)))"

definition doClose_begin :: "nat \<Rightarrow> nat \<Rightarrow> int \<Rightarrow> api \<Rightarrow> (close_wait \<times> api) res" where
  "doClose_begin co opq sid g =
     (case api_getSocket g sid of
        None \<Rightarrow> Inr (NoWait, g)
      | Some a \<Rightarrow>
          if o_connected (g_objs g a) then
            (let g = act (SysClose opq sid) g in
             if o_co (g_objs g a) \<noteq> None then seqE (doCloseSusped co a g) (\<lambda>g. Inr (WaitClosing, g))
             else seqE (doSuspend_begin co a g) (\<lambda>g. Inr (WaitOwn, g)))
          else seqE (doClose_end a sid NoWait g) (\<lambda>g. Inr (NoWait, g)))"

definition doSetLimit :: "int \<Rightarrow> int \<Rightarrow> api \<Rightarrow> api res" where
  "doSetLimit sid limit g =
     (case api_getSocket g sid of
        None \<Rightarrow> Inl AssertFail
      | Some a \<Rightarrow> Inr (set_obj a ((g_objs g a)\<lparr>o_bufferLimit := limit\<rparr>) g))"

definition doBlock :: "int \<Rightarrow> api \<Rightarrow> (bool \<times> api) res" where
  "doBlock sid g =
     (case api_getSocket g sid of
        None \<Rightarrow> Inr (False, g)
      | Some a \<Rightarrow>
          if \<not> o_connected (g_objs g a) then Inr (False, g)
          else seqE (checkE (o_readRequired (g_objs g a) = AnyNone) AssertFail) (\<lambda>_.
            Inr (True, set_obj a ((g_objs g a)\<lparr>o_readRequired := AnyNone\<rparr>) g)))"

definition doGetDataSize :: "int \<Rightarrow> api \<Rightarrow> nat res" where
  "doGetDataSize sid g =
     (case api_getSocket g sid of
        None \<Rightarrow> Inl AssertFail
      | Some a \<Rightarrow> Inr (b_size (o_buffer (g_objs g a))))"

definition doDisconnected :: "int \<Rightarrow> api \<Rightarrow> bool" where
  "doDisconnected sid g =
     (case api_getSocket g sid of None \<Rightarrow> True | Some a \<Rightarrow> isDisconnected (g_objs g a))"

definition api_doShutdown :: "int \<Rightarrow> api \<Rightarrow> api res" where
  "api_doShutdown sid g =
     (case api_getSocket g sid of
        None \<Rightarrow> Inr g
      | Some a \<Rightarrow>
          seqE (getAssertPtr a g) (\<lambda>_. seqE (clear_buffer a g) (\<lambda>g.
            Inr (act (SysShutdown (o_opaque (g_objs g a)) sid) g))))"


section \<open>Frames\<close>

lemma act_fields [simp]:
  "g_sockets (act x g) = g_sockets g" "g_objs (act x g) = g_objs g" "g_pool (act x g) = g_pool g"
  "g_alive (act x g) = g_alive g" "g_acts (act x g) = g_acts g @ [x]"
  by (simp_all add: act_def)

lemma set_obj_fields [simp]:
  "g_sockets (set_obj a s g) = g_sockets g" "g_objs (set_obj a s g) = (g_objs g)(a := s)"
  "g_pool (set_obj a s g) = g_pool g" "g_alive (set_obj a s g) = g_alive g" "g_acts (set_obj a s g) = g_acts g"
  by (simp_all add: set_obj_def)

lemma table_fields [simp]:
  "g_objs (addSocket sid a g) = g_objs g" "g_objs (removeSocket sid g) = g_objs g"
  "g_pool (addSocket sid a g) = g_pool g" "g_pool (removeSocket sid g) = g_pool g"
  "g_alive (addSocket sid a g) = g_alive g" "g_alive (removeSocket sid g) = g_alive g"
  "g_acts (addSocket sid a g) = g_acts g" "g_acts (removeSocket sid g) = g_acts g"
  "g_sockets (addSocket sid a g) = (g_sockets g)(sid \<mapsto> a)"
  "g_sockets (removeSocket sid g) = (g_sockets g)(sid := None)"
  by (simp_all add: addSocket_def removeSocket_def)

text \<open>The table of the sockets and the suspended coroutine of an object.\<close>

definition sock_valid :: "api \<Rightarrow> nat \<Rightarrow> bool" where
  "sock_valid g a \<longleftrightarrow> buffer_ok (o_buffer (g_objs g a)) (g_pool g) \<and> g_alive g (o_opaque (g_objs g a))"

definition api_stream :: "api \<Rightarrow> nat \<Rightarrow> 8 word list" where
  "api_stream g a = stream (o_buffer (g_objs g a))"

lemma doWakeup_Some:
  "o_co (g_objs g a) = Some co \<Longrightarrow> g_alive g (o_opaque (g_objs g a)) \<Longrightarrow>
   oper_doWakeup a g = Inr (act (Wake co) (set_obj a ((g_objs g a)\<lparr>o_co := None\<rparr>) g))"
  by (simp add: oper_doWakeup_def getAssertPtr_def Let_def)

lemma doWakeup_None: "o_co (g_objs g a) = None \<Longrightarrow> oper_doWakeup a g = Inr g"
  by (simp add: oper_doWakeup_def)

lemma push_on_socket:
  assumes "sock_valid g a" and "d \<noteq> []" and "b_size (o_buffer (g_objs g a)) + length d < 2 ^ 32"
  shows "\<exists>b p. with_buffer a (\<lambda>b p. Inr (pushData d b p)) g =
      Inr (length (api_stream g a) + length d, set_obj a ((g_objs g a)\<lparr>o_buffer := b\<rparr>) (g\<lparr>g_pool := p\<rparr>)) \<and>
     buffer_ok b p \<and> stream b = api_stream g a @ d"
proof -
  obtain n b p where push: "pushData d (o_buffer (g_objs g a)) (g_pool g) = (n, b, p)"
    by (cases "pushData d (o_buffer (g_objs g a)) (g_pool g)")
  have ok: "buffer_ok b p \<and> stream b = stream (o_buffer (g_objs g a)) @ d \<and> n = b_size b"
    using pushData_ok[OF _ assms(2,3) push] assms(1) by (simp add: sock_valid_def)
  then have "n = length (api_stream g a) + length d" by (simp add: buffer_ok_def api_stream_def)
  then show ?thesis using push ok by (intro exI[of _ b] exI[of _ p]) (simp add: with_buffer_def api_stream_def)
qed

lemma clear_on_socket:
  assumes "buffer_ok (o_buffer (g_objs g a)) (g_pool g)"
  shows "\<exists>b p. clear_buffer a g = Inr (set_obj a ((g_objs g a)\<lparr>o_buffer := b\<rparr>) (g\<lparr>g_pool := p\<rparr>)) \<and>
     stream b = [] \<and> b_size b = 0"
proof -
  obtain p where "clear_chunks (b_chunks (o_buffer (g_objs g a))) (g_pool g) = Inr p"
    using clear_chunks_Inr[of "g_pool g" "b_chunks (o_buffer (g_objs g a))"] assms by (auto simp: buffer_ok_def)
  then show ?thesis
    by (intro exI[of _ "\<lparr>b_size = 0, b_offset = (if b_chunks (o_buffer (g_objs g a)) = []
        then b_offset (o_buffer (g_objs g a)) else 0), b_chunks = []\<rparr>"] exI[of _ p])
      (simp add: clear_buffer_def with_buffer_def clearBuffer_def stream_def)
qed


text \<open>The table of the sockets of all actors.\<close>

interpretation skt: keyed_table "\<lambda>g sid. map_option (Pair sid) (api_getSocket g sid)" "\<lambda>g p. addSocket (fst p) (snd p) g" fst
  by unfold_locales (simp add: api_getSocket_def addSocket_def)

section \<open>Properties\<close>

text \<open>The sockets of the witnesses: number 3 is connected, coroutine 20 waits for two bytes.\<close>

definition demo_oper :: socketOper where
  "demo_oper = (new_oper 7 3 False)\<lparr>o_connected := True, o_connecting := AnyNone,
     o_readRequired := AnyInt 2, o_co := Some 20\<rparr>"

definition demo_api :: api where
  "demo_api = \<lparr>g_sockets = [3 \<mapsto> 0], g_objs = (\<lambda>_. demo_oper), g_pool = \<lparr>pool_pages = 0, pool_free = 0\<rparr>,
     g_alive = (\<lambda>_. True), g_acts = []\<rparr>"

lemmas demo_defs = demo_api_def demo_oper_def new_oper_def empty_buffer_def sock_valid_def buffer_ok_def stream_def

text \<open>C28: Data for a socket whose reader waits for \<open>n\<close> bytes is appended to its stream, and the
  reader is woken, exactly once and with its request cleared, just when \<open>n\<close> bytes are there;
  before that it goes on waiting.\<close>

theorem data_wakes_reader:
  assumes "g_sockets g sid = Some a" and "sock_valid g a" and "d \<noteq> []"
    and "b_size (o_buffer (g_objs g a)) + length d < 2 ^ 32"
    and "o_readRequired (g_objs g a) = AnyInt (int n)" and "n < 2 ^ 31" and "o_co (g_objs g a) = Some co"
  shows "\<exists>g'. onData opq sid d g = Inr g' \<and> api_stream g' a = api_stream g a @ d \<and>
    (if n \<le> length (api_stream g' a)
     then g_acts g' = g_acts g @ [Wake co] \<and> o_readRequired (g_objs g' a) = AnyNone \<and> o_co (g_objs g' a) = None
     else g_acts g' = g_acts g \<and> o_readRequired (g_objs g' a) = AnyInt (int n) \<and> o_co (g_objs g' a) = Some co)"
proof -
  obtain b p where push: "with_buffer a (\<lambda>b p. Inr (pushData d b p)) g =
      Inr (length (api_stream g a) + length d, set_obj a ((g_objs g a)\<lparr>o_buffer := b\<rparr>) (g\<lparr>g_pool := p\<rparr>))"
    "stream b = api_stream g a @ d"
    using push_on_socket[OF assms(2-4)] by blast
  have "int n mod 2 ^ 32 = int n" using assms(6) by simp
  then show ?thesis
    using push assms(1,2,5,7)
    by (auto simp: onData_def api_getSocket_def Let_def doWakeup_Some sock_valid_def api_stream_def)
qed

theorem data_wakes_reader_witness:
  "\<exists>g'. onData 7 3 [1, 2] demo_api = Inr g' \<and> api_stream g' 0 = api_stream demo_api 0 @ [1, 2] \<and>
    (if 2 \<le> length (api_stream g' 0)
     then g_acts g' = g_acts demo_api @ [Wake 20] \<and> o_readRequired (g_objs g' 0) = AnyNone \<and> o_co (g_objs g' 0) = None
     else g_acts g' = g_acts demo_api \<and> o_readRequired (g_objs g' 0) = AnyInt (int 2) \<and> o_co (g_objs g' 0) = Some 20)"
  by (rule data_wakes_reader) (simp_all add: demo_defs)

text \<open>A data message without a waiting reader.\<close>

lemma dispatch_data_message:
  assumes "g_sockets g sid = Some a" and "sock_valid g a" and "d \<noteq> []"
    and "b_size (o_buffer (g_objs g a)) + length d < 2 ^ 32"
    and "o_readRequired (g_objs g a) = AnyNone" and "o_bufferLimit (g_objs g a) = int limit" and "limit < 2 ^ 31"
  shows "\<exists>g'. staticSocketDispatch opq (onSocket M_SOCKET_DATA sid 0 (Some d) (length d)) g = Inr g' \<and>
    (if limit = 0 \<or> length (api_stream g a) + length d \<le> limit
     then api_stream g' a = api_stream g a @ d \<and> g_acts g' = g_acts g
     else api_stream g' a = [] \<and> g_acts g' = g_acts g @ [Logged, SysClose opq sid])"
proof -
  obtain b p where push: "with_buffer a (\<lambda>b p. Inr (pushData d b p)) g =
      Inr (length (api_stream g a) + length d, set_obj a ((g_objs g a)\<lparr>o_buffer := b\<rparr>) (g\<lparr>g_pool := p\<rparr>))"
    "buffer_ok b p" "stream b = api_stream g a @ d"
    using push_on_socket[OF assms(2-4)] by blast
  let ?g = "act Logged (set_obj a ((g_objs g a)\<lparr>o_buffer := b\<rparr>) (g\<lparr>g_pool := p\<rparr>))"
  obtain b' p' where clear: "clear_buffer a ?g = Inr (set_obj a ((g_objs ?g a)\<lparr>o_buffer := b'\<rparr>) (?g\<lparr>g_pool := p'\<rparr>))"
    "stream b' = []"
    using clear_on_socket[of ?g a] push(2) by auto
  have msg: "staticSocketDispatch opq (onSocket M_SOCKET_DATA sid 0 (Some d) (length d)) g = onData opq sid d g"
    using assms(3) by (simp add: staticSocketDispatch_def onSocket_def doMessageGen_def)
  have lim: "int limit mod 2 ^ 32 = int limit" using assms(7) by simp
  show ?thesis
    unfolding msg using push clear lim assms(1,5,6)
    by (auto simp: onData_def api_getSocket_def Let_def api_stream_def)
qed

text \<open>The message the socket system makes of received bytes, dispatched to an actor whose socket
  has no reader waiting, appends exactly these bytes to the stream of the socket; when that
  exceeds the limit of the socket, the stream is dropped and the socket is asked to close.\<close>

theorem dispatch_appends_received:
  assumes "g_sockets g sid = Some a" and "sock_valid g a" and "d \<noteq> []"
    and "b_size (o_buffer (g_objs g a)) + length d < 2 ^ 32"
    and "o_readRequired (g_objs g a) = AnyNone" and "o_bufferLimit (g_objs g a) = int limit" and "limit < 2 ^ 31"
  shows "\<exists>g'. staticSocketDispatch opq (onSocket M_SOCKET_DATA sid 0 (Some d) (length d)) g = Inr g' \<and>
    (if limit = 0 \<or> length (api_stream g a) + length d \<le> limit
     then api_stream g' a = api_stream g a @ d \<and> g_acts g' = g_acts g
     else api_stream g' a = [] \<and> g_acts g' = g_acts g @ [Logged, SysClose opq sid])"
  by (rule dispatch_data_message[OF assms])

theorem dispatch_appends_received_witness:
  "\<exists>g'. staticSocketDispatch 7 (onSocket M_SOCKET_DATA 3 0 (Some [1, 2]) (length [1, 2 :: 8 word]))
       (set_obj 0 (demo_oper\<lparr>o_readRequired := AnyNone\<rparr>) demo_api) = Inr g' \<and>
    (if (0::nat) = 0 \<or> length (api_stream (set_obj 0 (demo_oper\<lparr>o_readRequired := AnyNone\<rparr>) demo_api) 0) +
        length [1, 2 :: 8 word] \<le> 0
     then api_stream g' 0 = api_stream (set_obj 0 (demo_oper\<lparr>o_readRequired := AnyNone\<rparr>) demo_api) 0 @ [1, 2] \<and>
       g_acts g' = g_acts (set_obj 0 (demo_oper\<lparr>o_readRequired := AnyNone\<rparr>) demo_api)
     else api_stream g' 0 = [] \<and>
       g_acts g' = g_acts (set_obj 0 (demo_oper\<lparr>o_readRequired := AnyNone\<rparr>) demo_api) @ [Logged, SysClose 7 3])"
  by (rule dispatch_appends_received) (simp_all add: demo_defs)

text \<open>A connection that was asked for ends in one of two ways.  On \<open>START\<close> the waiting
  coroutine is woken, gets the socket number, and the socket is in the table; on \<open>ERROR\<close> it is
  woken, gets the text of the error, the socket is shut down and no longer in the table.\<close>

theorem connection_outcome:
  assumes "g_alive g opq" and "0 \<notin> set e" and "e \<noteq> []"
  shows "\<exists>g1 g2 g3. api_doConnection_begin a co opq sid g = Inr g1 \<and>
    staticSocketDispatch opq (onSocket M_SOCKET_START sid 0 None 0) g1 = Inr g2 \<and>
    g_acts g2 = g_acts g @ [SysConnect opq, Wake co] \<and>
    fst (makeSocket_end a sid g2) = RInt sid \<and> g_sockets (snd (makeSocket_end a sid g2)) sid = Some a \<and>
    staticSocketDispatch opq (onSocket M_SOCKET_ERROR sid 0 (Some e) 0) g1 = Inr g3 \<and>
    g_acts g3 = g_acts g @ [SysConnect opq, SysShutdown opq sid, Wake co] \<and>
    fst (makeSocket_end a sid g3) = RString e \<and> g_sockets (snd (makeSocket_end a sid g3)) sid = None"
proof -
  have e: "takeWhile (\<lambda>b. b \<noteq> 0) e = e" "takeWhile (\<lambda>b. b \<noteq> 0) (e @ [0]) = e"
    using assms(2) by (induction e) auto
  let ?g1 = "set_obj a ((new_oper opq sid False)\<lparr>o_co := Some co\<rparr>)
    (addSocket sid a (set_obj a (new_oper opq sid False) (act (SysConnect opq) g)))"
  have g1: "api_doConnection_begin a co opq sid g = Inr ?g1"
    using assms(1) by (simp add: api_doConnection_begin_def makeSocket_begin_def doSuspend_begin_def
        getAssertPtr_def new_oper_def Let_def)
  have s: "g_sockets ?g1 sid = Some a" "g_alive ?g1 opq" using assms(1) by simp_all
  have g2: "\<exists>g2. staticSocketDispatch opq (onSocket M_SOCKET_START sid 0 None 0) ?g1 = Inr g2 \<and>
    g_acts g2 = g_acts g @ [SysConnect opq, Wake co] \<and>
    fst (makeSocket_end a sid g2) = RInt sid \<and> g_sockets (snd (makeSocket_end a sid g2)) sid = Some a"
    using s by (simp add: staticSocketDispatch_def onSocket_def doMessageGen_def onStart_def api_getSocket_def
        oper_doWakeup_def getAssertPtr_def makeSocket_end_def doSuspend_end_def new_oper_def Let_def)
  have "\<exists>g3. staticSocketDispatch opq (onSocket M_SOCKET_ERROR sid 0 (Some e) 0) ?g1 = Inr g3 \<and>
    g_acts g3 = g_acts g @ [SysConnect opq, SysShutdown opq sid, Wake co] \<and>
    fst (makeSocket_end a sid g3) = RString e \<and> g_sockets (snd (makeSocket_end a sid g3)) sid = None"
    using s assms(3) by (simp add: staticSocketDispatch_def onSocket_def doMessageGen_def onError_def
        api_getSocket_def oper_doWakeup_def getAssertPtr_def makeSocket_end_def doSuspend_end_def
        new_oper_def Let_def e)
  then show ?thesis using g1 g2 by blast
qed

theorem connection_outcome_witness:
  "\<exists>g1 g2 g3. api_doConnection_begin 1 21 7 5 demo_api = Inr g1 \<and>
    staticSocketDispatch 7 (onSocket M_SOCKET_START 5 0 None 0) g1 = Inr g2 \<and>
    g_acts g2 = g_acts demo_api @ [SysConnect 7, Wake 21] \<and>
    fst (makeSocket_end 1 5 g2) = RInt 5 \<and> g_sockets (snd (makeSocket_end 1 5 g2)) 5 = Some 1 \<and>
    staticSocketDispatch 7 (onSocket M_SOCKET_ERROR 5 0 (Some [101]) 0) g1 = Inr g3 \<and>
    g_acts g3 = g_acts demo_api @ [SysConnect 7, SysShutdown 7 5, Wake 21] \<and>
    fst (makeSocket_end 1 5 g3) = RString [101] \<and> g_sockets (snd (makeSocket_end 1 5 g3)) 5 = None"
  by (rule connection_outcome) (simp_all add: demo_api_def)


text \<open>Closing a connected socket asks the socket system to close it and waits for its
  \<open>CLOSE\<close>.  When that comes the closing coroutine is woken, directly or by the reader that is woken
  before it, and then finds an empty stream and removes the socket from the table.\<close>

theorem close_handshake:
  assumes "g_sockets g sid = Some a" and "sock_valid g a" and "o_connected (g_objs g a)"
    and "o_closing (g_objs g a) = None" and "o_co (g_objs g a) = reader"
  shows "\<exists>w g1 g2 g3. doClose_begin co opq sid g = Inr (w, g1) \<and> g_acts g1 = g_acts g @ [SysClose opq sid] \<and>
    staticSocketDispatch opq (onSocket M_SOCKET_CLOSE sid 0 None 0) g1 = Inr g2 \<and>
    (case reader of
       None \<Rightarrow> w = WaitOwn \<and> g_acts g2 = g_acts g1 @ [Wake co]
     | Some r \<Rightarrow> w = WaitClosing \<and> g_acts g2 = g_acts g1 @ [Wake r] \<and> doSuspend_end a g2 = act (Wake co) g2) \<and>
    doClose_end a sid w g2 = Inr g3 \<and> api_stream g3 a = [] \<and> g_sockets g3 sid = None"
proof -
  have alive: "g_alive g (o_opaque (g_objs g a))" and ok: "buffer_ok (o_buffer (g_objs g a)) (g_pool g)"
    using assms(2) by (simp_all add: sock_valid_def)
  have fin: "\<exists>g3. doClose_end a sid w g2 = Inr g3 \<and> api_stream g3 a = [] \<and> g_sockets g3 sid = None"
    if "o_buffer (g_objs g2 a) = o_buffer (g_objs g a)" "g_pool g2 = g_pool g" for w g2
  proof -
    define h where "h = (let g = (if w = WaitOwn then doSuspend_end a g2 else g2)
      in if w \<noteq> NoWait then set_obj a ((g_objs g a)\<lparr>o_connected := False\<rparr>) g else g)"
    have "o_buffer (g_objs h a) = o_buffer (g_objs g a)" "g_pool h = g_pool g"
      using that by (auto simp: h_def doSuspend_end_def Let_def split: option.splits)
    then obtain b p where "clear_buffer a h = Inr (set_obj a ((g_objs h a)\<lparr>o_buffer := b\<rparr>) (h\<lparr>g_pool := p\<rparr>))"
        "stream b = []"
      using clear_on_socket[of h a] ok by auto
    then show ?thesis by (auto simp: doClose_end_def h_def Let_def api_stream_def)
  qed
  have msg: "staticSocketDispatch opq (onSocket M_SOCKET_CLOSE sid 0 None 0) g1 = onClose sid g1" for g1
    by (simp add: staticSocketDispatch_def onSocket_def doMessageGen_def)
  let ?s = "g_objs g a"
  let ?h = "act (SysClose opq sid) g"
  show ?thesis
  proof (cases reader)
    case None
    let ?g1 = "set_obj a (?s\<lparr>o_co := Some co\<rparr>) ?h"
    have "doClose_begin co opq sid g = Inr (WaitOwn, ?g1)"
      using assms None alive by (simp add: doClose_begin_def doSuspend_begin_def getAssertPtr_def api_getSocket_def Let_def)
    moreover have "\<exists>g2. onClose sid ?g1 = Inr g2 \<and> g_acts g2 = g_acts ?g1 @ [Wake co] \<and>
        o_buffer (g_objs g2 a) = o_buffer ?s \<and> g_pool g2 = g_pool g"
      using assms(1) alive by (simp add: onClose_def oper_doWakeup_def getAssertPtr_def api_getSocket_def Let_def)
    ultimately show ?thesis using fin None unfolding msg by fastforce
  next
    case (Some r)
    let ?g1 = "set_obj a (?s\<lparr>o_closing := Some co\<rparr>) ?h"
    have "doClose_begin co opq sid g = Inr (WaitClosing, ?g1)"
      using assms Some by (simp add: doClose_begin_def doCloseSusped_def api_getSocket_def Let_def)
    moreover have "\<exists>g2. onClose sid ?g1 = Inr g2 \<and> g_acts g2 = g_acts ?g1 @ [Wake r] \<and>
        doSuspend_end a g2 = act (Wake co) g2 \<and> o_buffer (g_objs g2 a) = o_buffer ?s \<and> g_pool g2 = g_pool g"
      using assms(1,5) Some alive
      by (simp add: onClose_def oper_doWakeup_def getAssertPtr_def api_getSocket_def doSuspend_end_def Let_def)
    ultimately show ?thesis using fin Some unfolding msg by fastforce
  qed
qed

theorem close_handshake_witness:
  "\<exists>w g1 g2 g3. doClose_begin 22 7 3 demo_api = Inr (w, g1) \<and> g_acts g1 = g_acts demo_api @ [SysClose 7 3] \<and>
    staticSocketDispatch 7 (onSocket M_SOCKET_CLOSE 3 0 None 0) g1 = Inr g2 \<and>
    (case Some 20 of
       None \<Rightarrow> w = WaitOwn \<and> g_acts g2 = g_acts g1 @ [Wake 22]
     | Some r \<Rightarrow> w = WaitClosing \<and> g_acts g2 = g_acts g1 @ [Wake r] \<and> doSuspend_end 0 g2 = act (Wake 22) g2) \<and>
    doClose_end 0 3 w g2 = Inr g3 \<and> api_stream g3 0 = [] \<and> g_sockets g3 3 = None"
  by (rule close_handshake) (simp_all add: demo_defs)

end
