(* ===== verification/TextUtil.thy ===== *)
theory TextUtil
  imports WolfBase "HOL-Library.AList"
begin

text \<open>
  Texts, configuration and the command line: \<open>engine/src/util/stringUtil.cc\<close> and \<open>.h\<close>,
  \<open>engine/src/config.cc\<close> and \<open>.h\<close>, \<open>engine/src/commandLineOption.cc\<close>, the reading of the options
  in \<open>engine/src/framework.cc\<close>, and what the launcher does with the command line.  The parsed
  configuration file is a parameter.
\<close>

section \<open>Texts\<close>

fun find_first_of :: "string \<Rightarrow> string \<Rightarrow> nat option" where
  "find_first_of [] spl = None"
| "find_first_of (c # cs) spl = (if c \<in> set spl then Some 0 else map_option Suc (find_first_of cs spl))"

lemma find_first_of_Some:
  "find_first_of s spl = Some k \<Longrightarrow>
   k < length s \<and> s = take k s @ s ! k # drop (k + 1) s \<and> s ! k \<in> set spl \<and> set (take k s) \<inter> set spl = {}"
proof (induction s spl arbitrary: k rule: find_first_of.induct)
  case (2 c cs spl)
  then show ?case by (cases k) (auto split: if_splits)
qed simp

lemma find_first_of_None: "find_first_of s spl = None \<Longrightarrow> set s \<inter> set spl = {}"
  by (induction s spl rule: find_first_of.induct) (auto split: if_splits)

lemma find_first_of_here: "x \<notin> set xs \<Longrightarrow> find_first_of (xs @ x # ys) [x] = Some (length xs)"
  by (induction xs) auto

lemma find_first_of_none: "set xs \<inter> set spl = {} \<Longrightarrow> find_first_of xs spl = None"
  by (induction xs) auto

text \<open>The loop of \<open>split\<close> on the part of the text from \<open>ppos\<close> on.\<close>

function split_text :: "string \<Rightarrow> string \<Rightarrow> string list" where
  "split_text val spl =
     (case find_first_of val spl of
        None \<Rightarrow> [val]
      | Some k \<Rightarrow> take k val # split_text (drop (k + 1) val) spl)"
  by pat_completeness auto

termination
  by (relation "measure (\<lambda>(val, spl). length val)") (auto dest: find_first_of_Some)

declare split_text.simps [simp del]

text \<open>The two versions of \<open>connect\<close>.\<close>

fun connect_text :: "string list \<Rightarrow> string \<Rightarrow> string" where
  "connect_text [] delim = []"
| "connect_text (x # xs) delim = x @ concat (map (\<lambda>y. delim @ y) xs)"

fun connect_around :: "string list \<Rightarrow> string \<Rightarrow> string \<Rightarrow> string \<Rightarrow> string" where
  "connect_around [] delim bef aft = []"
| "connect_around (x # xs) delim bef aft = bef @ x @ aft @ concat (map (\<lambda>y. delim @ bef @ y @ aft) xs)"

text \<open>\<open>std::string::find\<close>; the empty pattern is found everywhere.\<close>

fun find_str :: "string \<Rightarrow> string \<Rightarrow> nat option" where
  "find_str p [] = (if p = [] then Some 0 else None)"
| "find_str p (c # cs) =
     (if take (length p) (c # cs) = p then Some 0 else map_option Suc (find_str p cs))"

definition replace_at :: "string \<Rightarrow> nat \<Rightarrow> nat \<Rightarrow> string \<Rightarrow> string" where
  "replace_at s pos n new = take pos s @ new @ drop (pos + n) s"

text \<open>\<open>replace\<close> searches from the beginning again after every replacement.\<close>

partial_function (option) replace_text :: "string \<Rightarrow> string \<Rightarrow> string \<Rightarrow> string option" where
  "replace_text str old new =
     (case find_str old str of
        None \<Rightarrow> Some str
      | Some pos \<Rightarrow> replace_text (replace_at str pos (length old) new) old new)"

definition upper_char :: "char \<Rightarrow> char" where
  "upper_char c = (let n = of_char c :: nat in if 97 \<le> n \<and> n \<le> 122 then char_of (n - 32) else c)"

definition lower_char :: "char \<Rightarrow> char" where
  "lower_char c = (let n = of_char c :: nat in if 65 \<le> n \<and> n \<le> 90 then char_of (n + 32) else c)"

definition toupper_text :: "string \<Rightarrow> string" where
  "toupper_text s = map upper_char s"

definition tolower_text :: "string \<Rightarrow> string" where
  "tolower_text s = map lower_char s"

section \<open>Configuration\<close>

type_synonym env = "(string \<times> string) list"

text \<open>
  The document: \<open>None\<close> when the file was not read, else the elements below \<open>options\<close>, if there is
  such an element, with their texts.
\<close>

type_synonym config_doc = "(string \<times> string option) list option option"

fun load_items :: "(string \<times> string option) list \<Rightarrow> env \<Rightarrow> env" where
  "load_items [] e = e"
| "load_items ((n, t) # is) e =
     load_items is (case t of None \<Rightarrow> e | Some v \<Rightarrow> AList.update n v e)"

definition config_load :: "string \<Rightarrow> config_doc \<Rightarrow> env \<Rightarrow> bool \<times> env" where
  "config_load path doc e =
     (if path = [] then (False, e)
      else (case doc of
          None \<Rightarrow> (False, e)
        | Some None \<Rightarrow> (True, e)
        | Some (Some items) \<Rightarrow> (True, load_items items e)))"

definition getValue :: "env \<Rightarrow> string \<Rightarrow> string option" where
  "getValue e key =
     (case map_of e key of None \<Rightarrow> None | Some v \<Rightarrow> if v = [] then None else Some v)"

text \<open>\<open>atoi\<close>: blanks, a sign, digits; a number that does not fit is undefined.\<close>

fun digits :: "string \<Rightarrow> int \<Rightarrow> int" where
  "digits [] n = n"
| "digits (c # cs) n =
     (let d = of_char c :: nat in if 48 \<le> d \<and> d \<le> 57 then digits cs (10 * n + int d - 48) else n)"

definition atoi :: "string \<Rightarrow> int res" where
  "atoi s =
     (let s = dropWhile (\<lambda>c. of_char c = (32::nat) \<or> (9 \<le> (of_char c :: nat) \<and> (of_char c :: nat) \<le> 13)) s;
          n = (case s of
                 CHR ''-'' # cs \<Rightarrow> - digits cs 0
               | CHR ''+'' # cs \<Rightarrow> digits cs 0
               | _ \<Rightarrow> digits s 0)
      in if - (2 ^ 31) \<le> n \<and> n < 2 ^ 31 then Inr n else Inl SignedOverflow)"

definition getInt :: "env \<Rightarrow> string \<Rightarrow> int \<Rightarrow> int res" where
  "getInt e key defval = (case getValue e key of None \<Rightarrow> Inr defval | Some v \<Rightarrow> atoi v)"

definition getBool :: "env \<Rightarrow> string \<Rightarrow> bool \<Rightarrow> bool" where
  "getBool e key defval =
     (case getValue e key of
        None \<Rightarrow> defval
      | Some v \<Rightarrow> \<not> (tolower_text v = ''false'' \<or> tolower_text v = ''0''))"

definition getString :: "env \<Rightarrow> string \<Rightarrow> string option \<Rightarrow> string option" where
  "getString e key defval = (case getValue e key of None \<Rightarrow> defval | Some v \<Rightarrow> Some v)"

record coroutineOptions =
  opt_debug :: "64 word"
  opt_thread :: "32 word"
  opt_actor_gcc_sleep_us :: "32 word"
  opt_actor_gcc_timeout_us :: "32 word"
  opt_stackSize :: "32 word"
  opt_single_timeout_us :: "32 word"
  opt_dispatcher_thread_interval_us :: "32 word"
  opt_componentPath :: "string option"
  opt_logSize :: "64 word"
  opt_logLevel :: "32 word"
  opt_logPath :: "string option"

definition default_options :: coroutineOptions where
  "default_options =
     \<lparr>opt_debug = 0, opt_thread = 6, opt_actor_gcc_sleep_us = 1000, opt_actor_gcc_timeout_us = 100 * 1000,
      opt_stackSize = 1 * 1024 * 1024, opt_single_timeout_us = 100 * 1000,
      opt_dispatcher_thread_interval_us = 1000, opt_componentPath = Some ''./modules/?.so'',
      opt_logSize = 64, opt_logLevel = 0, opt_logPath = None\<rparr>"

text \<open>The options \<open>framework::doInit\<close> takes from the configuration.\<close>

definition read_options :: "env \<Rightarrow> coroutineOptions res" where
  "read_options e =
     seqE (getInt e ''debug'' 0) (\<lambda>debug.
     seqE (getInt e ''thread'' 6) (\<lambda>thread.
     seqE (getInt e ''stack_size'' (1 * 1024 * 1024)) (\<lambda>stack.
     seqE (getInt e ''actor_gcc_timeout'' (100 * 1000)) (\<lambda>gct.
     seqE (getInt e ''actor_gcc_sleep'' 1000) (\<lambda>gcs.
     seqE (getInt e ''single_timeout'' (100 * 1000)) (\<lambda>single.
     seqE (getInt e ''dispatcher_interval'' 1000) (\<lambda>interval.
     seqE (getInt e ''log_size'' 64) (\<lambda>lsize.
     seqE (getInt e ''log_level'' 0) (\<lambda>level.
       Inr \<lparr>opt_debug = word_of_int debug, opt_thread = word_of_int thread,
            opt_actor_gcc_sleep_us = word_of_int gcs, opt_actor_gcc_timeout_us = word_of_int gct,
            opt_stackSize = word_of_int stack, opt_single_timeout_us = word_of_int single,
            opt_dispatcher_thread_interval_us = word_of_int interval,
            opt_componentPath = getString e ''component_path'' (Some ''./modules/?.so;./services/?.so''),
            opt_logSize = word_of_int lsize, opt_logLevel = word_of_int level,
            opt_logPath = getString e ''log_path'' None\<rparr>)))))))))"

section \<open>The command line\<close>

record commandLine =
  m_required :: "(string \<times> bool) list"
  m_options :: "(string \<times> string) list"

definition setOption :: "string \<Rightarrow> bool \<Rightarrow> commandLine \<Rightarrow> commandLine" where
  "setOption name required cl = cl\<lparr>m_required := AList.update name required (m_required cl)\<rparr>"

definition isOption :: "string \<Rightarrow> bool" where
  "isOption val \<longleftrightarrow> length val = 2 \<and> val ! 0 = CHR ''-''"

fun next_value :: "string list \<Rightarrow> string" where
  "next_value [] = []"
| "next_value (a # as) = (if isOption a then [] else a)"

fun parse_args :: "string list \<Rightarrow> (string \<times> string) list \<Rightarrow> (string \<times> string) list" where
  "parse_args [] os = os"
| "parse_args (a # as) os =
     parse_args as (if isOption a then AList.update [a ! 1] (next_value as) os else os)"

definition parse_command :: "string list \<Rightarrow> commandLine \<Rightarrow> bool \<times> commandLine" where
  "parse_command args cl =
     (let cl = cl\<lparr>m_options := parse_args args (m_options cl)\<rparr>
      in (list_all (\<lambda>(n, r). r \<longrightarrow> map_of (m_options cl) n \<noteq> None) (m_required cl), cl))"

definition isSet :: "string \<Rightarrow> commandLine \<Rightarrow> bool" where
  "isSet name cl \<longleftrightarrow> map_of (m_options cl) name \<noteq> None"

text \<open>\<open>m_options[name]\<close> inserts an empty value for a name that is not there.\<close>

definition getOption :: "string \<Rightarrow> commandLine \<Rightarrow> string \<times> commandLine" where
  "getOption name cl =
     (case map_of (m_options cl) name of
        None \<Rightarrow> ([], cl\<lparr>m_options := AList.update name [] (m_options cl)\<rparr>)
      | Some v \<Rightarrow> (v, cl))"

text \<open>What \<open>main\<close> of the launcher decides from its arguments.\<close>

datatype launch = ParseFailed | Daemon | Help | Version | Foreground

definition launcher_main :: "string list \<Rightarrow> launch" where
  "launcher_main args =
     (let cl = setOption ''version'' False (setOption ''help'' False (setOption ''d'' False
                 \<lparr>m_required = [], m_options = []\<rparr>));
          (ok, cl) = parse_command args cl
      in if \<not> ok then ParseFailed
         else if isSet ''d'' cl then Daemon
         else if isSet ''help'' cl then Help
         else if isSet ''version'' cl then Version
         else Foreground)"


section \<open>Splitting and replacing\<close>

lemma split_text_pieces: "x \<in> set (split_text val spl) \<Longrightarrow> set x \<inter> set spl = {}"
proof (induction val spl rule: split_text.induct)
  case (1 val spl)
  then show ?case
    by (subst (asm) (2) split_text.simps)
      (auto split: option.splits dest: find_first_of_None find_first_of_Some)
qed

lemma split_text_ne: "split_text val spl \<noteq> []"
  by (subst split_text.simps) (auto split: option.splits)

lemma connect_text_Cons: "xs \<noteq> [] \<Longrightarrow> connect_text (x # xs) d = x @ d @ connect_text xs d"
  by (cases xs) auto

lemma split_connect:
  "xs \<noteq> [] \<Longrightarrow> list_all (\<lambda>y. x \<notin> set y) xs \<Longrightarrow> split_text (connect_text xs [x]) [x] = xs"
proof (induction xs)
  case (Cons y ys)
  show ?case
  proof (cases "ys = []")
    case True
    then show ?thesis using Cons(3) by (simp add: split_text.simps find_first_of_none)
  next
    case False
    have "connect_text (y # ys) [x] = y @ x # connect_text ys [x]" using False by (simp add: connect_text_Cons del: connect_text.simps)
    then show ?thesis using Cons False find_first_of_here[of x y] by (subst split_text.simps) simp
  qed
qed simp

lemma find_str_Some:
  "find_str p s = Some k \<Longrightarrow> k + length p \<le> length s \<and> take (length p) (drop k s) = p"
proof (induction p s arbitrary: k rule: find_str.induct)
  case (2 p c cs)
  show ?case
  proof (cases "take (length p) (c # cs) = p")
    case True
    then have "length p \<le> length (c # cs)" by (metis length_take min.cobounded1)
    then show ?thesis using True 2(2) by simp
  next
    case False
    then show ?thesis using 2 by auto
  qed
qed (auto split: if_splits)

lemma find_str_None: "find_str p s = None \<Longrightarrow> take (length p) (drop k s) \<noteq> p \<or> length s < k + length p"
proof (induction p s arbitrary: k rule: find_str.induct)
  case (2 p c cs)
  then show ?case by (cases k) (auto split: if_splits)
qed (auto split: if_splits)

lemma find_str_mid: "find_str p m \<noteq> None \<Longrightarrow> find_str p (a @ m @ b) \<noteq> None"
proof
  assume "find_str p m \<noteq> None" and none: "find_str p (a @ m @ b) = None"
  then obtain k where k: "k + length p \<le> length m" "take (length p) (drop k m) = p"
    using find_str_Some by blast
  have "take (length p) (drop (length a + k) (a @ m @ b)) = p" using k by simp
  moreover have "length a + k + length p \<le> length (a @ m @ b)" using k by simp
  ultimately show False using find_str_None[OF none, of "length a + k"] by simp
qed

lemma replace_at_length:
  "find_str old s = Some k \<Longrightarrow> length (replace_at s k (length old) new) + length old = length s + length new"
  using find_str_Some[of old s k] by (simp add: replace_at_def)

lemma replace_shrinks:
  "length new < length old \<Longrightarrow> \<exists>r. replace_text s old new = Some r \<and> find_str old r = None"
proof (induction "length s" arbitrary: s rule: less_induct)
  case less
  show ?case
  proof (cases "find_str old s")
    case None
    then show ?thesis by (simp add: replace_text.simps)
  next
    case (Some k)
    have "length (replace_at s k (length old) new) < length s"
      using replace_at_length[OF Some, of new] less(2) by simp
    from less(1)[OF this less(2)] show ?thesis using Some by (subst replace_text.simps) simp
  qed
qed

lemma replace_diverges:
  assumes new: "find_str old new \<noteq> None" and "find_str old s \<noteq> None"
  shows "replace_text s old new = None"
proof (cases "replace_text s old new")
  case (Some r)
  have "find_str old s \<noteq> None \<longrightarrow> find_str old new \<noteq> None \<longrightarrow> False"
  proof (rule replace_text.raw_induct[OF _ Some, of "\<lambda>s old new r. find_str old s \<noteq> None \<longrightarrow> find_str old new \<noteq> None \<longrightarrow> False"])
    fix f s old new and r :: string
    assume IH: "\<And>s old new r. f s old new = Some r \<Longrightarrow>
        find_str old s \<noteq> None \<longrightarrow> find_str old new \<noteq> None \<longrightarrow> False"
      and step: "(case find_str old s of None \<Rightarrow> Some s
        | Some pos \<Rightarrow> f (replace_at s pos (length old) new) old new) = Some r"
    show "find_str old s \<noteq> None \<longrightarrow> find_str old new \<noteq> None \<longrightarrow> False"
    proof (intro impI)
      assume "find_str old s \<noteq> None" and n: "find_str old new \<noteq> None"
      then obtain pos where "f (replace_at s pos (length old) new) old new = Some r"
        using step by auto
      moreover have "find_str old (replace_at s pos (length old) new) \<noteq> None"
        unfolding replace_at_def by (rule find_str_mid[OF n])
      ultimately show False using IH n by blast
    qed
  qed
  then show ?thesis using assms by blast
qed

text \<open>The options of a document enter the environment as entries of a keyed table: the last one counts.\<close>

interpretation opts: keyed_table "\<lambda>e n. map_option (Pair n) (map_of e n)" "\<lambda>e p. AList.update (fst p) (snd p) e" fst
  by unfold_locales (simp add: update_conv')

definition item_entries :: "(string \<times> string option) list \<Rightarrow> (string \<times> string) list" where
  "item_entries its = concat (map (\<lambda>(n, t). case t of None \<Rightarrow> [] | Some v \<Rightarrow> [(n, v)]) its)"

lemma load_items_entries:
  "load_items its e = foldl (\<lambda>e p. AList.update (fst p) (snd p) e) e (item_entries its)"
  by (induction its e rule: load_items.induct) (auto simp: item_entries_def split: option.splits)

theorem loaded_option:
  "map_of (load_items its e) n =
     (case last_opt (filter (\<lambda>p. fst p = n) (item_entries its)) of Some p \<Rightarrow> Some (snd p) | None \<Rightarrow> map_of e n)"
proof -
  have "map_option (Pair n) (map_of (load_items its e) n) =
      (case last_opt (filter (\<lambda>p. fst p = n) (item_entries its)) of Some p \<Rightarrow> Some p | None \<Rightarrow> map_option (Pair n) (map_of e n))"
    unfolding load_items_entries by (rule opts.look_foldl_put)
  then have "map_option snd (map_option (Pair n) (map_of (load_items its e) n)) =
      map_option snd (case last_opt (filter (\<lambda>p. fst p = n) (item_entries its)) of Some p \<Rightarrow> Some p | None \<Rightarrow> map_option (Pair n) (map_of e n))"
    by simp
  then show ?thesis by (auto simp: option.map_comp o_def option.map_ident split: option.splits)
qed

section \<open>Properties\<close>

text \<open>Splitting at a character and connecting with it again gives the text back; the pieces do
  not contain the character, and there is one more of them than the text has separators.\<close>

theorem split_connect_roundtrip:
  "connect_text (split_text val [c]) [c] = val \<and> list_all (\<lambda>x. c \<notin> set x) (split_text val [c]) \<and>
   length (split_text val [c]) = count_list val c + 1"
proof -
  have "list_all (\<lambda>x. c \<notin> set x) (split_text val [c])"
    using split_text_pieces[of _ val "[c]"] by (auto simp: list_all_iff)
  moreover have "connect_text (split_text val spl) [c] = val \<and> length (split_text val spl) = count_list val c + 1"
    if "spl = [c]" for spl
    using that
  proof (induction val spl rule: split_text.induct)
    case (1 val spl)
    show ?case
    proof (cases "find_first_of val spl")
      case None
      then have "c \<notin> set val" using find_first_of_None[OF None] 1(2) by auto
      then show ?thesis using None by (subst (1 2) split_text.simps) (simp add: count_list_0_iff)
    next
      case (Some k)
      note k = find_first_of_Some[OF Some]
      have "c \<notin> set (take k val)" "val ! k = c" using k 1(2) by auto
      then have "val = take k val @ c # drop (k + 1) val" "count_list val c = count_list (drop (k + 1) val) c + 1"
        using k count_list_append[of "take k val" "c # drop (k + 1) val" c]
        by (auto simp: count_list_0_iff)
      then show ?thesis
        using 1(1)[OF Some 1(2)] 1(2) Some connect_text_Cons[OF split_text_ne, of "take k val" "drop (k + 1) val" spl "[c]"]
        by (subst (1 2) split_text.simps) (simp del: connect_text.simps)
    qed
  qed
  ultimately show ?thesis by blast
qed


text \<open>\<open>replace\<close> with a shorter text ends and leaves no occurrence of the old one.  With a text
  that contains the old one it never returns, once there is anything to replace.\<close>

theorem replace_ends_or_diverges:
  assumes "length new < length old \<or> find_str old new \<noteq> None"
  shows "case replace_text s old new of
           None \<Rightarrow> find_str old s \<noteq> None \<and> find_str old new \<noteq> None
         | Some r \<Rightarrow> find_str old r = None"
proof (cases "length new < length old")
  case True
  then show ?thesis using replace_shrinks[OF True, of s] by auto
next
  case False
  then have new: "find_str old new \<noteq> None" using assms by simp
  show ?thesis
  proof (cases "find_str old s")
    case None
    then show ?thesis by (simp add: replace_text.simps)
  next
    case (Some k)
    then show ?thesis using replace_diverges[OF new] new by simp
  qed
qed

theorem replace_ends_or_diverges_witness:
  "case replace_text ''a.b'' ''.'' ''..'' of
     None \<Rightarrow> find_str ''.'' ''a.b'' \<noteq> None \<and> find_str ''.'' ''..'' \<noteq> None
   | Some r \<Rightarrow> find_str ''.'' r = None"
  by (rule replace_ends_or_diverges) simp

lemma parse_args_other:
  "[CHR ''-'', c] \<notin> set as \<Longrightarrow> map_of (parse_args as os) [c] = map_of os [c]"
proof (induction as os rule: parse_args.induct)
  case (2 a as os)
  have "a = [CHR ''-'', a ! 1]" if "isOption a"
    using that by (cases a; cases "tl a") (auto simp: isOption_def)
  then have "[a ! 1] \<noteq> [c]" if "isOption a" using that 2(2) by auto
  then show ?case using 2 by (auto simp: update_conv')
qed simp

text \<open>The value of an option is what follows its last occurrence on the command line, and
  nothing when that is the end of the line or another option.\<close>

theorem option_value_is_last:
  assumes "[CHR ''-'', c] \<notin> set ys"
  shows "map_of (parse_args (xs @ [CHR ''-'', c] # ys) os) [c] = Some (next_value ys)"
proof (induction xs arbitrary: os)
  case Nil
  show ?case using parse_args_other[OF assms] by (simp add: isOption_def update_conv')
next
  case (Cons x xs)
  show ?case by (simp add: Cons)
qed

theorem option_value_is_last_witness:
  "map_of (parse_args ([''wolf'', ''-p'', ''a''] @ [CHR ''-'', CHR ''p''] # [''b'', ''-d'']) []) [CHR ''p''] =
     Some (next_value [''b'', ''-d''])"
  by (rule option_value_is_last) simp

lemma parse_args_names:
  "(\<And>n. map_of os n \<noteq> None \<Longrightarrow> length n = 1) \<Longrightarrow> map_of (parse_args as os) n \<noteq> None \<Longrightarrow> length n = 1"
proof (induction as os rule: parse_args.induct)
  case (2 a as os)
  have "length m = 1" if "map_of (if isOption a then AList.update [a ! 1] (next_value as) os else os) m \<noteq> None" for m
    using that 2(2)[of m] by (auto simp: update_conv' split: if_splits)
  from 2(1)[OF this] 2(3) show ?case by simp
qed simp

text \<open>The parser only knows options of one letter, so the launcher never prints its help or its
  version, whatever it is called with; it starts in the background or in the foreground.\<close>

theorem launcher_never_helps: "launcher_main args \<in> {Daemon, Foreground}"
proof -
  let ?cl = "setOption ''version'' False (setOption ''help'' False (setOption ''d'' False
      \<lparr>m_required = [], m_options = []\<rparr>))"
  have short: "map_of (parse_args args []) n \<noteq> None \<Longrightarrow> length n = 1" for n
    using parse_args_names[of "[]" args n] by auto
  have "map_of (parse_args args []) ''help'' = None" "map_of (parse_args args []) ''version'' = None"
    using short[of "''help''"] short[of "''version''"] by (metis (mono_tags) not_None_eq list.size(3,4) One_nat_def Suc_inject Zero_not_Suc nat.distinct(1) add_0_right add_Suc_right)+
  then show ?thesis
    by (simp add: launcher_main_def parse_command_def setOption_def isSet_def Let_def)
qed

end
