(* ===== verification/ComponentGroup.thy ===== *)
theory ComponentGroup
  imports WolfBase
begin

text \<open>
  The loaded components, \<open>engine/src/module/componentGroup.cc\<close> and \<open>.h\<close>: the search for a library
  along the search path, the symbols of a component, the table of loaded components.  The dynamic
  linker is a pair of parameters, \<open>dlopen\<close> and \<open>dlsym\<close>.
\<close>

section \<open>State\<close>

text \<open>A name is the caller's own string or a copy the group made.\<close>

datatype comp_name = Borrowed string | Owned string

fun name_of :: "comp_name \<Rightarrow> string" where
  "name_of (Borrowed n) = n"
| "name_of (Owned n) = n"

record dl_component =
  c_name :: "comp_name option"
  c_dll :: "nat option"
  c_create :: "nat option"
  c_release :: "nat option"
  c_signal :: "nat option"

definition no_component :: dl_component where
  "no_component = \<lparr>c_name = None, c_dll = None, c_create = None, c_release = None, c_signal = None\<rparr>"

definition MAX_COMPONENT_TYPE :: nat where "MAX_COMPONENT_TYPE = 64"

record componentGroup =
  g_count :: nat
  g_path :: string
  g_compts :: "dl_component list"

definition new_componentGroup :: componentGroup where
  "new_componentGroup = \<lparr>g_count = 0, g_path = [], g_compts = replicate MAX_COMPONENT_TYPE no_component\<rparr>"

definition group_doInit :: "string \<Rightarrow> componentGroup \<Rightarrow> componentGroup" where
  "group_doInit path g = g\<lparr>g_path := path\<rparr>"

text \<open>\<open>doDestory\<close> frees every name it finds and leaves \<open>m_count\<close> as it was.\<close>

definition doDestory :: "componentGroup \<Rightarrow> componentGroup res" where
  "doDestory g =
     seqE (checkE (list_all (\<lambda>c. case c_name c of Some (Borrowed _) \<Rightarrow> False | _ \<Rightarrow> True) (g_compts g)) InvalidFree)
       (\<lambda>_. Inr (g\<lparr>g_compts := replicate MAX_COMPONENT_TYPE no_component\<rparr>))"

section \<open>Searching and loading\<close>

fun get_from :: "nat \<Rightarrow> dl_component list \<Rightarrow> string \<Rightarrow> nat option" where
  "get_from i [] name = None"
| "get_from i (c # cs) name =
     (case c_name c of
        None \<Rightarrow> get_from (i + 1) cs name
      | Some n \<Rightarrow> if name_of n = name then Some i else get_from (i + 1) cs name)"

definition group_get :: "componentGroup \<Rightarrow> string \<Rightarrow> nat option" where
  "group_get g name = get_from 0 (take (g_count g) (g_compts g)) name"

text \<open>
  One template of the search path, up to the next semicolon; the question mark stands for the name.
  A template without one ends the process.
\<close>

definition expand :: "string \<Rightarrow> string \<Rightarrow> string res" where
  "expand template name =
     seqE (checkE (CHR ''?'' \<in> set template) ExitProcess) (\<lambda>_.
       Inr (takeWhile (\<lambda>c. c \<noteq> CHR ''?'') template @ name @ drop 1 (dropWhile (\<lambda>c. c \<noteq> CHR ''?'') template)))"

lemma dropWhile_shorter:
  "p \<noteq> [] \<Longrightarrow> p = dropWhile (\<lambda>c. c = x) path \<Longrightarrow> length (dropWhile (\<lambda>c. c \<noteq> x) p) < length path"
proof -
  assume "p \<noteq> []" "p = dropWhile (\<lambda>c. c = x) path"
  then have "hd p \<noteq> x" using hd_dropWhile[of "\<lambda>c. c = x" path] by auto
  then obtain c cs where p: "p = c # cs" "c \<noteq> x" using \<open>p \<noteq> []\<close> by (cases p) auto
  have "length (dropWhile (\<lambda>c. c \<noteq> x) p) \<le> length cs" using p by (simp add: length_dropWhile_le)
  also have "\<dots> < length p" using p by simp
  also have "\<dots> \<le> length path" using \<open>p = dropWhile (\<lambda>c. c = x) path\<close> by (simp add: length_dropWhile_le)
  finally show ?thesis .
qed

function tryOpen :: "(string \<Rightarrow> nat option) \<Rightarrow> string \<Rightarrow> string \<Rightarrow> nat option res" where
  "tryOpen dlopen path name =
     (let path = dropWhile (\<lambda>c. c = CHR '';'') path in
      if path = [] then Inr None
      else seqE (expand (takeWhile (\<lambda>c. c \<noteq> CHR '';'') path) name) (\<lambda>tmp.
        case dlopen tmp of
          Some dl \<Rightarrow> Inr (Some dl)
        | None \<Rightarrow> tryOpen dlopen (dropWhile (\<lambda>c. c \<noteq> CHR '';'') path) name))"
  by pat_completeness auto

termination
  by (relation "measure (\<lambda>(dlopen, path, name). length path)") (auto intro: dropWhile_shorter)

declare tryOpen.simps [simp del]

text \<open>\<open>getApi\<close>: the symbol is what follows the last dot of the name.\<close>

definition api_symbol :: "string \<Rightarrow> string \<Rightarrow> string" where
  "api_symbol name api = rev (takeWhile (\<lambda>c. c \<noteq> CHR ''.'') (rev (name @ api)))"

definition openSym :: "(nat \<Rightarrow> string \<Rightarrow> nat option) \<Rightarrow> nat \<Rightarrow> string \<Rightarrow> dl_component \<Rightarrow> bool \<times> dl_component" where
  "openSym dlsym dl name c =
     (let c = c\<lparr>c_create := dlsym dl (api_symbol name ''_create''),
                c_release := dlsym dl (api_symbol name ''_release''),
                c_signal := dlsym dl (api_symbol name ''_signal'')\<rparr>
      in (c_create c \<noteq> None \<and> c_release c \<noteq> None, c))"

text \<open>
  \<open>getComponent\<close>: the slot behind the last component is filled before the symbols are looked up, and
  stays filled, with the caller's string for a name, when they are missing.
\<close>

definition getComponent ::
    "(string \<Rightarrow> nat option) \<Rightarrow> (nat \<Rightarrow> string \<Rightarrow> nat option) \<Rightarrow> string \<Rightarrow> componentGroup \<Rightarrow>
     (nat option \<times> componentGroup) res" where
  "getComponent dlopen dlsym name g =
     (case group_get g name of
        Some i \<Rightarrow> Inr (Some i, g)
      | None \<Rightarrow>
          if g_count g < MAX_COMPONENT_TYPE then
            seqE (tryOpen dlopen (g_path g) name) (\<lambda>dl.
              case dl of
                None \<Rightarrow> Inr (None, g)
              | Some d \<Rightarrow>
                  (let i = g_count g;
                       c = (g_compts g ! i)\<lparr>c_name := Some (Borrowed name), c_dll := Some d\<rparr>;
                       (ok, c) = openSym dlsym d name c
                   in if ok then
                        Inr (Some i, g\<lparr>g_count := i + 1,
                          g_compts := (g_compts g)[i := c\<lparr>c_name := Some (Owned name)\<rparr>]\<rparr>)
                      else Inr (None, g\<lparr>g_compts := (g_compts g)[i := c]\<rparr>)))
          else Inr (None, g))"


section \<open>The table of components\<close>

definition slot_loaded :: "dl_component \<Rightarrow> bool" where
  "slot_loaded c \<longleftrightarrow> (\<exists>n. c_name c = Some (Owned n)) \<and> c_dll c \<noteq> None \<and> c_create c \<noteq> None \<and> c_release c \<noteq> None"

text \<open>
  The slots in use are loaded components (or empty, after \<open>doDestory\<close>), so that a component that
  was found can be created and released.
\<close>

definition group_ok :: "componentGroup \<Rightarrow> bool" where
  "group_ok g \<longleftrightarrow> length (g_compts g) = MAX_COMPONENT_TYPE \<and> g_count g \<le> MAX_COMPONENT_TYPE \<and>
     (\<forall>c \<in> set (take (g_count g) (g_compts g)). c_name c = None \<or> slot_loaded c)"

lemma get_from_append:
  "get_from i (cs @ [c]) name =
     (case get_from i cs name of
        Some j \<Rightarrow> Some j
      | None \<Rightarrow> (case c_name c of None \<Rightarrow> None | Some n \<Rightarrow> if name_of n = name then Some (i + length cs) else None))"
  by (induction i cs name rule: get_from.induct) (auto split: option.splits)

lemma get_from_Some:
  "get_from i cs name = Some j \<Longrightarrow> i \<le> j \<and> j < i + length cs \<and> map_option name_of (c_name (cs ! (j - i))) = Some name"
proof (induction i cs name rule: get_from.induct)
  case (2 i c cs name)
  show ?case
  proof (cases "map_option name_of (c_name c) = Some name")
    case True
    then show ?thesis using 2(3) by (auto split: option.splits)
  next
    case False
    then have "get_from (i + 1) cs name = Some j" using 2(3) by (auto split: option.splits if_splits)
    moreover have "get_from (i + 1) cs name = Some j \<Longrightarrow> i + 1 \<le> j \<and> j < i + 1 + length cs \<and>
        map_option name_of (c_name (cs ! (j - (i + 1)))) = Some name"
      using 2(1,2) False by (cases "c_name c") auto
    ultimately have "i + 1 \<le> j" "j < i + 1 + length cs" "map_option name_of (c_name (cs ! (j - (i + 1)))) = Some name"
      by auto
    then show ?thesis by (simp add: nth_Cons' Suc_diff_Suc)
  qed
qed simp

text \<open>What \<open>getComponent\<close> does when it loads a new component.\<close>

lemma getComponent_new:
  assumes "getComponent dlopen dlsym name g = Inr (Some i, g')" and "group_get g name = None"
  obtains c where "i = g_count g" "g_count g < MAX_COMPONENT_TYPE" "g_path g' = g_path g" "g_count g' = g_count g + 1"
    "g_compts g' = (g_compts g)[g_count g := c]" "c_name c = Some (Owned name)" "slot_loaded c"
  using assms
  by (auto simp: getComponent_def openSym_def slot_loaded_def Let_def res_simps split: if_splits option.splits)

lemma group_ok_new: "group_ok new_componentGroup"
  by (simp add: group_ok_def new_componentGroup_def)

lemma group_ok_destroy: "group_ok g \<Longrightarrow> doDestory g = Inr g' \<Longrightarrow> group_ok g'"
  by (auto simp: group_ok_def doDestory_def no_component_def res_simps dest!: in_set_takeD)

text \<open>Failing to find the symbols of a component.\<close>

lemma getComponent_no_symbols:
  assumes "group_get g name = None" and "g_count g < MAX_COMPONENT_TYPE"
    and "tryOpen dlopen (g_path g) name = Inr (Some d)" and "dlsym d (api_symbol name ''_create'') = None"
  shows "\<exists>c. getComponent dlopen dlsym name g = Inr (None, g\<lparr>g_compts := (g_compts g)[g_count g := c]\<rparr>) \<and>
     c_name c = Some (Borrowed name)"
  using assms
  by (intro exI[of _ "(g_compts g ! g_count g)\<lparr>c_name := Some (Borrowed name), c_dll := Some d, c_create := None,
      c_release := dlsym d (api_symbol name ''_release''), c_signal := dlsym d (api_symbol name ''_signal'')\<rparr>"])
    (simp add: getComponent_def openSym_def Let_def)

section \<open>Properties\<close>

text \<open>A linker that knows one library, in the second place it is looked for.\<close>

definition demo_dlopen :: "string \<Rightarrow> nat option" where
  "demo_dlopen f = (if f = ''./services/a.so'' then Some 5 else None)"

definition demo_dlsym :: "nat \<Rightarrow> string \<Rightarrow> nat option" where
  "demo_dlsym d s = (if s \<in> {''a_create'', ''a_release''} then Some 1 else None)"

definition demo_group :: componentGroup where
  "demo_group = group_doInit ''./modules/?.so;./services/?.so'' new_componentGroup"

lemma demo_load: "fst (projr (getComponent demo_dlopen demo_dlsym ''a'' demo_group)) = Some 0 \<and>
    \<not> isl (getComponent demo_dlopen demo_dlsym ''a'' demo_group)"
  by (simp add: getComponent_def demo_group_def group_doInit_def new_componentGroup_def group_get_def
      tryOpen.simps expand_def demo_dlopen_def demo_dlsym_def openSym_def api_symbol_def MAX_COMPONENT_TYPE_def Let_def)

text \<open>A component that \<open>getComponent\<close> gives has its name and the functions to create and release
  it; it is loaded once: asking again gives the same slot without asking the linker, the slots
  of the components that were there stay theirs, and the table keeps its invariant.\<close>

theorem component_loaded_once:
  assumes "group_ok g" and "getComponent dlopen dlsym name g = Inr (Some i, g')"
  shows "group_ok g' \<and> getComponent dlopen' dlsym' name g' = Inr (Some i, g') \<and>
    slot_loaded (g_compts g' ! i) \<and> map_option name_of (c_name (g_compts g' ! i)) = Some name \<and>
    (group_get g n = None \<or> group_get g' n = group_get g n)"
proof (cases "group_get g name")
  case (Some j)
  then have g': "g' = g" "i = j" using assms(2) by (simp_all add: getComponent_def)
  have i: "i < g_count g" "i < length (g_compts g)" "map_option name_of (c_name (g_compts g ! i)) = Some name"
    using get_from_Some[OF Some[unfolded group_get_def]] g'(2) by auto
  then have "g_compts g ! i \<in> set (take (g_count g) (g_compts g))"
    by (auto simp: in_set_conv_nth intro!: exI[of _ i])
  then have "slot_loaded (g_compts g ! i)" using assms(1) i(3) by (auto simp: group_ok_def)
  then show ?thesis using assms Some g' i(3) by (simp add: getComponent_def)
next
  case None
  from getComponent_new[OF assms(2) None] obtain c where c: "i = g_count g" "g_count g < MAX_COMPONENT_TYPE"
    "g_count g' = g_count g + 1" "g_compts g' = (g_compts g)[g_count g := c]"
    "c_name c = Some (Owned name)" "slot_loaded c" by metis
  have len: "g_count g < length (g_compts g)" using assms(1) c(2) by (simp add: group_ok_def)
  have take': "take (g_count g') (g_compts g') = take (g_count g) (g_compts g) @ [c]"
    using len c(3,4) by (simp add: take_Suc_conv_app_nth)
  have get': "group_get g' m = (case group_get g m of Some j \<Rightarrow> Some j
      | None \<Rightarrow> if name = m then Some i else None)" for m
    unfolding group_get_def take' get_from_append using c(1,5) len by (simp split: option.splits)
  have "group_ok g'" using assms(1) c(2-4,6) len unfolding group_ok_def take' by auto
  then show ?thesis using get' None c len by (simp add: getComponent_def split: option.splits)
qed

theorem component_loaded_once_witness:
  "\<exists>g'. group_ok g' \<and> getComponent (\<lambda>_. None) (\<lambda>_ _. None) ''a'' g' = Inr (Some 0, g') \<and>
    slot_loaded (g_compts g' ! 0) \<and> map_option name_of (c_name (g_compts g' ! 0)) = Some ''a'' \<and>
    (group_get demo_group ''b'' = None \<or> group_get g' ''b'' = group_get demo_group ''b'')"
proof -
  obtain g' where "getComponent demo_dlopen demo_dlsym ''a'' demo_group = Inr (Some 0, g')"
    using demo_load by (cases "getComponent demo_dlopen demo_dlsym ''a'' demo_group") auto
  moreover have "group_ok demo_group" using group_ok_new by (simp add: group_ok_def demo_group_def group_doInit_def)
  ultimately show ?thesis by (intro exI[of _ g'] component_loaded_once)
qed

text \<open>A library without a create function leaves its slot behind with the caller's own string
  for a name; destroying the group then frees memory that is not its own.\<close>

theorem destroy_frees_foreign_name:
  assumes "group_ok g" and "group_get g name = None" and "g_count g < MAX_COMPONENT_TYPE"
    and "tryOpen dlopen (g_path g) name = Inr (Some d)" and "dlsym d (api_symbol name ''_create'') = None"
  shows "\<exists>g'. getComponent dlopen dlsym name g = Inr (None, g') \<and> doDestory g' = Inl InvalidFree"
proof -
  obtain c where c: "getComponent dlopen dlsym name g = Inr (None, g\<lparr>g_compts := (g_compts g)[g_count g := c]\<rparr>)"
    "c_name c = Some (Borrowed name)"
    using getComponent_no_symbols[where dlopen=dlopen and dlsym=dlsym and d=d, OF assms(2-5)] by blast
  have "c \<in> set ((g_compts g)[g_count g := c])"
    using assms(1,3) by (simp add: group_ok_def set_update_memI)
  then have "doDestory (g\<lparr>g_compts := (g_compts g)[g_count g := c]\<rparr>) = Inl InvalidFree"
    using c(2) by (force simp: doDestory_def list_all_iff checkE_def)
  then show ?thesis using c(1) by blast
qed

theorem destroy_frees_foreign_name_witness:
  "\<exists>g'. getComponent demo_dlopen (\<lambda>_ _. None) ''a'' demo_group = Inr (None, g') \<and> doDestory g' = Inl InvalidFree"
  by (rule destroy_frees_foreign_name[of _ _ _ 5])
    (use group_ok_new in \<open>simp_all add: demo_group_def group_doInit_def new_componentGroup_def group_get_def
      tryOpen.simps expand_def demo_dlopen_def MAX_COMPONENT_TYPE_def group_ok_def\<close>)

end
