(* ===== verification/Memory.thy ===== *)
theory Memory
  imports WolfBase
begin

text \<open>
  Memory: the hooks of \<open>engine/src/util/memory.cc\<close>, which count the blocks they hand out, and the
  allocation function a Lua state gets from \<open>engine/src/lualib/manual/luaStack.cc\<close>, with its limit.
  The answers of the allocator library are parameters: the address of the block, or \<open>None\<close>.
\<close>

section \<open>The hooks\<close>

record mem =
  mb_sizes :: "nat \<rightharpoonup> 64 word"
  mb_used :: "64 word"

definition fillPrefix :: "mem \<Rightarrow> mem" where
  "fillPrefix m = m\<lparr>mb_used := mb_used m + 1\<rparr>"

definition cleanPrefix :: "mem \<Rightarrow> mem" where
  "cleanPrefix m = m\<lparr>mb_used := mb_used m - 1\<rparr>"

text \<open>\<open>mallocError\<close> aborts the process.\<close>

definition mallocError :: "nat option \<Rightarrow> nat res" where
  "mallocError je = (case je of None \<Rightarrow> Inl ExitProcess | Some a \<Rightarrow> Inr a)"

definition memory_malloc :: "nat option \<Rightarrow> 64 word \<Rightarrow> mem \<Rightarrow> (nat \<times> mem) res" where
  "memory_malloc je sz m =
     seqE (mallocError je) (\<lambda>a. Inr (a, fillPrefix (m\<lparr>mb_sizes := (mb_sizes m)(a \<mapsto> sz)\<rparr>)))"

definition memory_calloc :: "nat option \<Rightarrow> 64 word \<Rightarrow> 64 word \<Rightarrow> mem \<Rightarrow> (nat \<times> mem) res" where
  "memory_calloc je nmemb sz m =
     seqE (mallocError je) (\<lambda>a. Inr (a, fillPrefix (m\<lparr>mb_sizes := (mb_sizes m)(a \<mapsto> nmemb * sz)\<rparr>)))"

definition memory_free :: "nat option \<Rightarrow> mem \<Rightarrow> mem res" where
  "memory_free ptr m =
     (case ptr of
        None \<Rightarrow> Inr m
      | Some p \<Rightarrow>
          seqE (checkE (mb_sizes m p \<noteq> None) InvalidFree) (\<lambda>_.
            let m = cleanPrefix m in Inr (m\<lparr>mb_sizes := (mb_sizes m)(p := None)\<rparr>)))"

definition memory_realloc :: "nat option \<Rightarrow> nat option \<Rightarrow> 64 word \<Rightarrow> mem \<Rightarrow> (nat \<times> mem) res" where
  "memory_realloc je ptr sz m =
     (case ptr of
        None \<Rightarrow> memory_malloc je sz m
      | Some p \<Rightarrow>
          seqE (checkE (mb_sizes m p \<noteq> None) InvalidFree) (\<lambda>_.
            let m = cleanPrefix m in
            seqE (mallocError je) (\<lambda>a.
              Inr (a, fillPrefix (m\<lparr>mb_sizes := (mb_sizes m)(p := None, a \<mapsto> sz)\<rparr>)))))"

text \<open>\<open>lalloc\<close> goes past the counters, and hands the failure of the allocator on.\<close>

definition memory_lalloc ::
    "nat option \<Rightarrow> nat option \<Rightarrow> 64 word \<Rightarrow> 64 word \<Rightarrow> mem \<Rightarrow> (nat option \<times> mem) res" where
  "memory_lalloc je ptr osize nsize m =
     seqE (checkE (case ptr of None \<Rightarrow> True | Some p \<Rightarrow> mb_sizes m p \<noteq> None) InvalidFree) (\<lambda>_.
       let release = (case ptr of None \<Rightarrow> mb_sizes m | Some p \<Rightarrow> (mb_sizes m)(p := None)) in
       if nsize = 0 then Inr (None, m\<lparr>mb_sizes := release\<rparr>)
       else (case je of
           None \<Rightarrow> Inr (None, m)
         | Some a \<Rightarrow> Inr (Some a, m\<lparr>mb_sizes := release(a \<mapsto> nsize)\<rparr>)))"


section \<open>The allocation function of a Lua state\<close>

record luaMem =
  lm_mem :: "64 word"
  lm_memReport :: "64 word"
  lm_memLimit :: "64 word"

definition LUA_MEMORY_WARNING_REPORT :: "64 word" where
  "LUA_MEMORY_WARNING_REPORT = 1024 * 1024 * 32"

definition new_luaMem :: luaMem where
  "new_luaMem = \<lparr>lm_mem = 0, lm_memReport = LUA_MEMORY_WARNING_REPORT, lm_memLimit = 0\<rparr>"

definition lua_alloc ::
    "nat option \<Rightarrow> nat option \<Rightarrow> 64 word \<Rightarrow> 64 word \<Rightarrow> luaMem \<Rightarrow> mem \<Rightarrow>
     (nat option \<times> luaMem \<times> mem) res" where
  "lua_alloc je ptr osize nsize s m =
     (let mem = lm_mem s;
          s = s\<lparr>lm_mem := lm_mem s + nsize\<rparr>;
          s = (if ptr \<noteq> None then s\<lparr>lm_mem := lm_mem s - osize\<rparr> else s)
      in if lm_memLimit s \<noteq> 0 \<and> lm_mem s > lm_memLimit s \<and> (ptr = None \<or> nsize > osize)
         then Inr (None, s\<lparr>lm_mem := mem\<rparr>, m)
         else
           (let s = (if lm_mem s > lm_memReport s then s\<lparr>lm_memReport := lm_memReport s * 2\<rparr> else s)
            in seqE (memory_lalloc je ptr osize nsize m) (\<lambda>(r, m). Inr (r, s, m))))"


section \<open>Counting the blocks\<close>

text \<open>
  The engine and its Lua states use the memory side by side; \<open>C\<close> are the blocks the hooks handed
  out, every other block belongs to Lua.  The allocator gives addresses that are not in use.
\<close>

definition fresh :: "mem \<Rightarrow> nat option \<Rightarrow> nat option \<Rightarrow> bool" where
  "fresh m ptr je \<longleftrightarrow> (case je of None \<Rightarrow> True | Some a \<Rightarrow> mb_sizes m a = None \<or> ptr = Some a)"

inductive mem_step :: "mem \<times> nat set \<Rightarrow> mem \<times> nat set \<Rightarrow> bool" where
  step_malloc: "fresh m None je \<Longrightarrow> memory_malloc je sz m = Inr (a, m') \<Longrightarrow> mem_step (m, C) (m', insert a C)"
| step_calloc: "fresh m None je \<Longrightarrow> memory_calloc je n sz m = Inr (a, m') \<Longrightarrow> mem_step (m, C) (m', insert a C)"
| step_realloc: "fresh m ptr je \<Longrightarrow> set_option ptr \<subseteq> C \<Longrightarrow> memory_realloc je ptr sz m = Inr (a, m') \<Longrightarrow>
    mem_step (m, C) (m', insert a (C - set_option ptr))"
| step_free: "set_option ptr \<subseteq> C \<Longrightarrow> memory_free ptr m = Inr m' \<Longrightarrow> mem_step (m, C) (m', C - set_option ptr)"
| step_lua: "fresh m ptr je \<Longrightarrow> set_option ptr \<inter> C = {} \<Longrightarrow> memory_lalloc je ptr osize nsize m = Inr (r, m') \<Longrightarrow>
    mem_step (m, C) (m', C)"

definition mem_init :: "mem \<times> nat set \<Rightarrow> bool" where
  "mem_init x \<longleftrightarrow> x = (\<lparr>mb_sizes = (\<lambda>_. None), mb_used = 0\<rparr>, {})"

definition mem_inv :: "mem \<times> nat set \<Rightarrow> bool" where
  "mem_inv x \<longleftrightarrow> (case x of (m, C) \<Rightarrow> finite C \<and> C \<subseteq> dom (mb_sizes m) \<and> mb_used m = of_nat (card C))"

lemmas mem_defs = memory_malloc_def memory_calloc_def memory_free_def memory_realloc_def memory_lalloc_def
  mallocError_def fillPrefix_def cleanPrefix_def fresh_def Let_def

lemma word_pred: "(of_nat (n - Suc 0) :: 64 word) = (if n = 0 then 0 else of_nat n - 1)"
  by (cases n) simp_all

lemma mem_step_inv: "mem_inv x \<Longrightarrow> mem_step x y \<Longrightarrow> mem_inv y"
  unfolding mem_inv_def
  by (erule mem_step.cases)
    (auto simp: mem_defs res_simps card_insert_if word_pred domIff split: option.splits if_splits)

interpretation mem: invariant_machine mem_init mem_step mem_inv
proof unfold_locales
  show "mem_inv x" if "mem_init x" for x using that by (simp add: mem_init_def mem_inv_def)
  show "mem_inv y" if "mem_inv x" "mem_step x y" for x y using that by (rule mem_step_inv)
qed


section \<open>The memory of a Lua state\<close>

text \<open>The blocks a Lua state holds after a call of its allocation function, and their total size.\<close>

definition lua_blocks :: "nat option \<Rightarrow> nat option \<Rightarrow> 64 word \<Rightarrow> nat set \<Rightarrow> nat set" where
  "lua_blocks r ptr nsize L =
     (case r of Some a \<Rightarrow> insert a (L - set_option ptr)
      | None \<Rightarrow> if nsize = 0 then L - set_option ptr else L)"

definition lua_total :: "mem \<Rightarrow> nat set \<Rightarrow> nat" where
  "lua_total m L = (\<Sum>a\<in>L. unat (the (mb_sizes m a)))"

definition in_limit :: "luaMem \<Rightarrow> bool" where
  "in_limit s \<longleftrightarrow> (if lm_memLimit s = 0 then True else lm_mem s \<le> lm_memLimit s)"

text \<open>What Lua promises of its calls, in a state that accounts for its blocks.\<close>

definition lua_call :: "nat option \<Rightarrow> nat option \<Rightarrow> 64 word \<Rightarrow> 64 word \<Rightarrow> luaMem \<Rightarrow> mem \<Rightarrow> nat set \<Rightarrow> bool" where
  "lua_call je ptr osize nsize s m L \<longleftrightarrow>
     finite L \<and> L \<subseteq> dom (mb_sizes m) \<and> unat (lm_mem s) = lua_total m L \<and>
     lua_total m L + unat nsize < 2 ^ 64 \<and> fresh m ptr je \<and>
     (case ptr of None \<Rightarrow> True | Some p \<Rightarrow> p \<in> L \<and> mb_sizes m p = Some osize)"

lemma lua_total_remove:
  assumes "finite L" and "p \<in> L" and "mb_sizes m p = Some n"
  shows "lua_total m L = unat n + lua_total m (L - {p})"
  using assms by (simp add: lua_total_def sum.remove)

lemma lua_total_cong:
  "(\<And>a. a \<in> L \<Longrightarrow> mb_sizes m' a = mb_sizes m a) \<Longrightarrow> lua_total m' L = lua_total m L"
  by (simp add: lua_total_def)

text \<open>The new count, read without wrap-around.\<close>

lemma new_count:
  assumes "lua_call je ptr osize nsize s m L"
  shows "unat (if ptr \<noteq> None then lm_mem s + nsize - osize else lm_mem s + nsize) =
     lua_total m (L - set_option ptr) + unat nsize"
proof (cases ptr)
  case None
  then show ?thesis using assms by (simp add: lua_call_def unat_add_lem[symmetric] unat_word_ariths)
next
  case (Some p)
  have "lua_total m L = unat osize + lua_total m (L - {p})"
    using assms Some by (intro lua_total_remove) (auto simp: lua_call_def)
  moreover have "unat (lm_mem s + nsize) = lua_total m L + unat nsize"
    using assms by (simp add: lua_call_def unat_word_ariths)
  ultimately show ?thesis using Some by (simp add: unat_sub_if' unat_word_ariths)
qed


definition lua_new_count :: "nat option \<Rightarrow> 64 word \<Rightarrow> 64 word \<Rightarrow> luaMem \<Rightarrow> 64 word" where
  "lua_new_count ptr osize nsize s = (if ptr \<noteq> None then lm_mem s + nsize - osize else lm_mem s + nsize)"

definition lua_refused :: "nat option \<Rightarrow> 64 word \<Rightarrow> 64 word \<Rightarrow> luaMem \<Rightarrow> bool" where
  "lua_refused ptr osize nsize s \<longleftrightarrow>
     lm_memLimit s \<noteq> 0 \<and> lua_new_count ptr osize nsize s > lm_memLimit s \<and> (ptr = None \<or> nsize > osize)"

lemma lua_alloc_refused:
  assumes "lua_refused ptr osize nsize s" and "lua_alloc je ptr osize nsize s m = Inr (r, s', m')"
  shows "r = None \<and> lm_mem s' = lm_mem s \<and> lm_memLimit s' = lm_memLimit s \<and> m' = m"
  using assms by (auto simp: lua_alloc_def lua_refused_def lua_new_count_def Let_def split: if_splits)

lemma lua_alloc_served:
  assumes "\<not> lua_refused ptr osize nsize s" and "lua_alloc je ptr osize nsize s m = Inr (r, s', m')"
  shows "lm_mem s' = lua_new_count ptr osize nsize s" "lm_memLimit s' = lm_memLimit s"
    "memory_lalloc je ptr osize nsize m = Inr (r, m')"
  using assms
  by (auto simp: lua_alloc_def lua_refused_def lua_new_count_def Let_def res_simps split: if_splits)

lemma lua_total_lalloc:
  assumes "lua_call je ptr osize nsize s m L" and "memory_lalloc je ptr osize nsize m = Inr (r, m')"
    and "nsize = 0 \<or> je \<noteq> None"
  shows "lua_total m' (lua_blocks r ptr nsize L) = lua_total m (L - set_option ptr) + unat nsize"
proof (cases "nsize = 0")
  case True
  have "r = None" "lua_total m' (L - set_option ptr) = lua_total m (L - set_option ptr)"
    using assms(2) True by (auto simp: memory_lalloc_def Let_def res_simps split: option.splits if_splits intro!: lua_total_cong)
  then show ?thesis using True by (simp add: lua_blocks_def)
next
  case False
  then obtain a where je: "je = Some a" using assms(3) by auto
  have r: "r = Some a" and a: "mb_sizes m' a = Some nsize"
    and rest: "\<And>b. b \<noteq> a \<Longrightarrow> b \<notin> set_option ptr \<Longrightarrow> mb_sizes m' b = mb_sizes m b"
    using assms(2) False je by (auto simp: memory_lalloc_def Let_def res_simps split: option.splits)
  have notin: "a \<notin> L - set_option ptr" and fin: "finite (L - set_option ptr)"
    using assms(1) je by (auto simp: lua_call_def fresh_def)
  then have "lua_total m' (L - set_option ptr) = lua_total m (L - set_option ptr)"
    by (intro lua_total_cong rest) auto
  then show ?thesis using r a notin fin by (simp add: lua_blocks_def lua_total_def)
qed

section \<open>Properties\<close>

text \<open>In every state the hooks can reach, \<open>m_usedBlocks\<close> is the number of blocks they handed out
  and did not get back, modulo the width of the counter, all of them still allocated, whatever
  the Lua states do with the same allocator.\<close>

theorem hooks_count_blocks:
  assumes "reach mem_init mem_step (m, C)"
  shows "mb_used m = of_nat (card C) \<and> finite C \<and> C \<subseteq> dom (mb_sizes m)"
  using mem.reach_inv[OF assms] by (simp add: mem_inv_def)

lemma two_blocks_reached:
  "reach mem_init mem_step (\<lparr>mb_sizes = [1 \<mapsto> 16, 2 \<mapsto> 32], mb_used = 1\<rparr>, {1})"
proof -
  let ?s0 = "(\<lparr>mb_sizes = (\<lambda>_. None), mb_used = 0\<rparr>, {})"
  let ?s1 = "(\<lparr>mb_sizes = [1 \<mapsto> 16], mb_used = 1\<rparr>, {1})"
  have "reach mem_init mem_step ?s0" by (rule reach_init) (simp add: mem_init_def)
  moreover have "mem_step ?s0 ?s1"
    using step_malloc[of "fst ?s0" "Some 1" 16 1 "fst ?s1" "{}"] by (simp add: mem_defs)
  moreover have "mem_step ?s1 (\<lparr>mb_sizes = [1 \<mapsto> 16, 2 \<mapsto> 32], mb_used = 1\<rparr>, {1})"
    by (rule step_lua[where je="Some 2" and ptr=None and osize=0 and nsize=32 and r="Some 2"]) (simp_all add: mem_defs)
  ultimately show ?thesis by (blast intro: reach_step)
qed

theorem hooks_count_blocks_witness:
  "(1 :: 64 word) = of_nat (card {1 :: nat}) \<and> finite {1 :: nat} \<and> {1 :: nat} \<subseteq> dom [1 \<mapsto> (16 :: 64 word), 2 \<mapsto> 32]"
  using hooks_count_blocks[OF two_blocks_reached] by simp


text \<open>A growing block whose reallocation fails.\<close>

definition demo_luaMem :: luaMem where
  "demo_luaMem = \<lparr>lm_mem = 32, lm_memReport = LUA_MEMORY_WARNING_REPORT, lm_memLimit = 100\<rparr>"


end
