(* ===== verification/LuaStack.thy ===== *)
theory LuaStack
  imports WolfBase
begin

text \<open>
  The engine's side of a Lua state: \<open>engine/src/lualib/manual/luaStack.cc\<close>, the binding that
  registers a callback (\<open>engine/src/lualib/auto/luaCoreAuto.cc\<close>) and the component that calls it
  (\<open>component/lnlua/src/lnlua.cc\<close>), over the stack of the bundled Lua (\<open>3rd/lua/src/lapi.c\<close>,
  \<open>ldo.c\<close>).  What a called Lua function does is a parameter.
\<close>

section \<open>The stack\<close>

text \<open>A number carries its integer value when it has one.\<close>

datatype lval = LNil | LBool bool | LNum "int option" | LStr string | LFun nat | LUser nat | LTable nat

text \<open>
  The stack is a list with its top at the end.  Positive indices count from the bottom, which is
  1, negative ones from the top.  Above the stack there are nils; a position below it is a fault.
\<close>

definition lua_at :: "lval list \<Rightarrow> int \<Rightarrow> nat res" where
  "lua_at st i =
     (if i > 0 then seqE (checkE (i \<le> int (length st)) OutOfBounds) (\<lambda>_. Inr (nat (i - 1)))
      else seqE (checkE (i \<noteq> 0 \<and> - i \<le> int (length st)) OutOfBounds) (\<lambda>_. Inr (nat (int (length st) + i))))"

definition lua_get :: "lval list \<Rightarrow> int \<Rightarrow> lval res" where
  "lua_get st i =
     (if i > int (length st) then Inr LNil else seqE (lua_at st i) (\<lambda>k. Inr (st ! k)))"

definition lua_pop :: "nat \<Rightarrow> lval list \<Rightarrow> lval list res" where
  "lua_pop n st = seqE (checkE (n \<le> length st) OutOfBounds) (\<lambda>_. Inr (take (length st - n) st))"

text \<open>\<open>lua_settop\<close> to a position from the bottom.\<close>

definition lua_settop :: "nat \<Rightarrow> lval list \<Rightarrow> lval list" where
  "lua_settop n st = take n st @ replicate (n - length st) LNil"

text \<open>\<open>lua_insert\<close>: the top goes to position \<open>i\<close>, what was from there on moves up.\<close>

definition lua_insert :: "int \<Rightarrow> lval list \<Rightarrow> lval list res" where
  "lua_insert i st =
     seqE (lua_at st i) (\<lambda>k. Inr (take k st @ [last st] @ butlast (drop k st)))"

definition lua_isfunction :: "lval \<Rightarrow> bool" where
  "lua_isfunction v = (case v of LFun _ \<Rightarrow> True | _ \<Rightarrow> False)"

text \<open>The conversion of a string to a number is a parameter: no number, or one and its integer value.\<close>

definition lua_isnumber :: "(string \<Rightarrow> int option option) \<Rightarrow> lval \<Rightarrow> bool" where
  "lua_isnumber cvt v = (case v of LNum _ \<Rightarrow> True | LStr s \<Rightarrow> cvt s \<noteq> None | _ \<Rightarrow> False)"

definition lua_tointeger :: "(string \<Rightarrow> int option option) \<Rightarrow> lval \<Rightarrow> int" where
  "lua_tointeger cvt v =
     (case v of LNum (Some i) \<Rightarrow> i | LStr s \<Rightarrow> (case cvt s of Some (Some i) \<Rightarrow> i | _ \<Rightarrow> 0) | _ \<Rightarrow> 0)"

definition lua_toboolean :: "lval \<Rightarrow> bool" where
  "lua_toboolean v = (v \<noteq> LNil \<and> v \<noteq> LBool False)"

text \<open>The \<open>wanted\<close> results of a function that returns \<open>n\<close> with this stack.\<close>

definition moveresults :: "nat \<Rightarrow> int \<Rightarrow> lval list \<Rightarrow> lval list" where
  "moveresults wanted n st = take wanted (drop (length st - nat n) st @ replicate wanted LNil)"

text \<open>
  What a called function does: its error, with a code other than 0, or the list of its results.
  The second parameter is what the message handler at a stack position makes of an error.
\<close>

type_synonym lua_call = "lval \<Rightarrow> lval list \<Rightarrow> int \<times> lval + lval list"

definition lua_pcall ::
    "lua_call \<Rightarrow> (lval \<Rightarrow> lval \<Rightarrow> lval) \<Rightarrow> nat \<Rightarrow> nat \<Rightarrow> int \<Rightarrow> lval list \<Rightarrow> (int \<times> lval list) res" where
  "lua_pcall call handle nargs nresults msgh st =
     seqE (checkE (nargs + 1 \<le> length st) OutOfBounds) (\<lambda>_.
       let below = take (length st - (nargs + 1)) st; f = st ! (length st - (nargs + 1));
           args = drop (length st - nargs) st
       in seqE (if msgh = 0 then Inr None else seqE (lua_get st msgh) (\<lambda>h. Inr (Some h))) (\<lambda>h.
            case call f args of
              Inl (code, e) \<Rightarrow> Inr (code, below @ [case h of None \<Rightarrow> e | Some h \<Rightarrow> handle h e])
            | Inr rs \<Rightarrow> Inr (0, below @ moveresults nresults (int (length rs)) rs)))"


section \<open>Running functions\<close>

text \<open>\<open>(int)\<close> of a \<open>lua_Integer\<close>.\<close>

definition to_int :: "int \<Rightarrow> int" where
  "to_int i = sint (word_of_int i :: 32 word)"

definition result_value :: "(string \<Rightarrow> int option option) \<Rightarrow> lval \<Rightarrow> int" where
  "result_value cvt v =
     (if lua_isnumber cvt v then to_int (lua_tointeger cvt v)
      else case v of LBool b \<Rightarrow> (if lua_toboolean v then 1 else 0) | _ \<Rightarrow> 0)"

text \<open>\<open>tb\<close> is the global \<open>__G__TRACKBACK__\<close>.\<close>

definition executeFunction ::
    "lua_call \<Rightarrow> (lval \<Rightarrow> lval \<Rightarrow> lval) \<Rightarrow> (string \<Rightarrow> int option option) \<Rightarrow> lval \<Rightarrow> nat \<Rightarrow> lval list \<Rightarrow>
     (int \<times> lval list) res" where
  "executeFunction call handle cvt tb numArgs st =
     (let functionIndex = - (int numArgs + 1) in
      seqE (lua_get st functionIndex) (\<lambda>f.
        if \<not> lua_isfunction f then seqE (lua_pop (numArgs + 1) st) (\<lambda>st. Inr (0, st))
        else
          let st = st @ [tb] in
          seqE (if \<not> lua_isfunction tb then seqE (lua_pop 1 st) (\<lambda>st. Inr (0, st))
                else seqE (lua_insert (functionIndex - 1) st) (\<lambda>st. Inr (functionIndex - 1, st)))
            (\<lambda>(traceback, st).
              seqE (lua_pcall call handle numArgs 1 traceback st) (\<lambda>(err, st).
                if err \<noteq> 0 then seqE (lua_pop (if traceback = 0 then 1 else 2) st) (\<lambda>st. Inr (0, st))
                else
                  seqE (lua_get st (-1)) (\<lambda>v.
                    seqE (lua_pop 1 st) (\<lambda>st.
                      if traceback \<noteq> 0 then seqE (lua_pop 1 st) (\<lambda>st. Inr (result_value cvt v, st))
                      else Inr (result_value cvt v, st)))))))"

text \<open>\<open>luaL_loadstring\<close> and \<open>luaL_loadbuffer\<close> push the function, or a message with an error code.\<close>

type_synonym lua_loader_fn = "8 word list \<Rightarrow> int \<times> lval"

definition executeString ::
    "lua_call \<Rightarrow> (lval \<Rightarrow> lval \<Rightarrow> lval) \<Rightarrow> (string \<Rightarrow> int option option) \<Rightarrow> lval \<Rightarrow> lua_loader_fn \<Rightarrow> 8 word list \<Rightarrow>
     lval list \<Rightarrow> (int \<times> lval list) res" where
  "executeString call handle cvt tb load codes st =
     executeFunction call handle cvt tb 0 (st @ [snd (load codes)])"

text \<open>\<open>addLoader\<close>: the searchers as a table with the length \<open>n\<close>; the new one becomes the second.\<close>

fun shift_searchers :: "nat \<Rightarrow> (nat \<Rightarrow> lval) \<Rightarrow> nat \<Rightarrow> lval" where
  "shift_searchers i t = (if i > 2 then shift_searchers (i - 1) (t(i := t (i - 1))) else t)"

declare shift_searchers.simps [simp del]

definition addLoader :: "nat \<Rightarrow> lval \<Rightarrow> (nat \<Rightarrow> lval) \<Rightarrow> nat \<Rightarrow> lval" where
  "addLoader n func t = (shift_searchers (n + 1) t)(2 := func)"


section \<open>The callback of an actor\<close>

definition LUA_STACK_FIX_CALLBACK :: string where
  "LUA_STACK_FIX_CALLBACK = ''luastack_fix_type_callback''"

text \<open>
  \<open>lua_core_actor_callback\<close>, called with its object and its arguments on the stack; a Lua error is
  \<open>None\<close>.  The key it pushes is cut off again by \<open>lua_settop(2)\<close>.
\<close>

definition lua_core_actor_callback ::
    "lval list \<Rightarrow> (lval \<Rightarrow> lval) \<Rightarrow> ((lval \<Rightarrow> lval) \<times> lval list) option res" where
  "lua_core_actor_callback st registry =
     (if int (length st) - 1 = 1 then
        seqE (lua_get st 2) (\<lambda>f.
          if \<not> lua_isfunction f then Inr None
          else
            let st = lua_settop 2 (st @ [LStr LUA_STACK_FIX_CALLBACK]) in
            seqE (lua_get st (-2)) (\<lambda>key. seqE (lua_get st (-1)) (\<lambda>v. seqE (lua_pop 2 st) (\<lambda>st.
              Inr (Some (registry(key := v), st))))))
      else Inr None)"

text \<open>
  \<open>unknownDispatch\<close> of the component: whether the message went to Lua, and the stack.  It asks for no
  result and pops one all the same.
\<close>

definition lnlua_unknownDispatch ::
    "lua_call \<Rightarrow> (lval \<Rightarrow> lval \<Rightarrow> lval) \<Rightarrow> (lval \<Rightarrow> lval) \<Rightarrow> lval list \<Rightarrow> lval list \<Rightarrow> (bool \<times> lval list) res" where
  "lnlua_unknownDispatch call handle registry margs st =
     (let st = st @ [registry (LStr LUA_STACK_FIX_CALLBACK)] in
      seqE (lua_get st (-1)) (\<lambda>f.
        if f = LNil \<or> \<not> lua_isfunction f then seqE (lua_pop 1 st) (\<lambda>st. Inr (False, st))
        else seqE (lua_pcall call handle 5 0 1 (st @ margs)) (\<lambda>(r, st).
          seqE (lua_pop 1 st) (\<lambda>st. Inr (True, st)))))"


section \<open>Lemmas on the stack\<close>

named_theorems lua_simps \<open>evaluation of stack operations\<close>

lemma lua_at_app: "xs \<noteq> [] \<Longrightarrow> i = - int (length xs) \<Longrightarrow> lua_at (st @ xs) i = Inr (length st)"
  by (simp add: lua_at_def)

lemma lua_get_app [lua_simps]: "i = - int (length args) - 1 \<Longrightarrow> lua_get (st @ f # args) i = Inr f"
  by (simp add: lua_get_def lua_at_app)

lemma lua_get_top [lua_simps]: "lua_get (st @ [v]) (-1) = Inr v"
  using lua_get_app[of "-1" "[]" st v] by simp

lemma lua_pop_app [lua_simps]: "length xs = n \<Longrightarrow> lua_pop n (st @ xs) = Inr st"
  by (simp add: lua_pop_def)

lemma lua_insert_below [lua_simps]:
  "i = - int (length args) - 2 \<Longrightarrow> lua_insert i (st @ f # args @ [tb]) = Inr (st @ tb # f # args)"
  by (simp add: lua_insert_def lua_at_app)

lemma moveresults_one: "moveresults 1 (int (length rs)) rs = [case rs of [] \<Rightarrow> LNil | r # _ \<Rightarrow> r]"
  by (cases rs) (simp_all add: moveresults_def)


text \<open>What a protected call leaves above the stack below the function.\<close>

definition pcall_result :: "(lval \<Rightarrow> lval) \<Rightarrow> nat \<Rightarrow> int \<times> lval + lval list \<Rightarrow> int \<times> lval list" where
  "pcall_result h k r =
     (case r of Inl (code, e) \<Rightarrow> (code, [h e]) | Inr rs \<Rightarrow> (0, moveresults k (int (length rs)) rs))"

lemma lua_pcall_app:
  "lua_pcall call handle (length args) k i (st @ f # args) =
     seqE (if i = 0 then Inr (\<lambda>e. e) else seqE (lua_get (st @ f # args) i) (\<lambda>h. Inr (handle h))) (\<lambda>h.
       Inr (apsnd (append st) (pcall_result h k (call f args))))"
  by (cases "call f args"; cases "lua_get (st @ f # args) i"; cases "i = 0")
    (auto simp: lua_pcall_def pcall_result_def Let_def)

lemma lua_pcall_plain [lua_simps]:
  "length args = n \<Longrightarrow> lua_pcall call handle n k 0 (st @ f # args) =
     Inr (apsnd (append st) (pcall_result (\<lambda>e. e) k (call f args)))"
  using lua_pcall_app[of call handle args k 0 st f] by simp

lemma lua_pcall_handler [lua_simps]:
  assumes "length args = n" and "i = - int n - 2"
  shows "lua_pcall call handle n k i (st @ tb # f # args) =
     Inr (apsnd (append (st @ [tb])) (pcall_result (handle tb) k (call f args)))"
proof -
  have "lua_get (st @ tb # f # args) i = Inr tb" using assms by (intro lua_get_app) simp
  moreover have "i \<noteq> 0" using assms by simp
  ultimately show ?thesis using lua_pcall_app[of call handle args k i "st @ [tb]" f] by (simp add: assms(1))
qed

lemma shift_searchers_eq:
  "shift_searchers i t = (\<lambda>k. if 2 < k \<and> k \<le> i then t (k - 1) else t k)"
proof (induction i t rule: shift_searchers.induct)
  case (1 i t)
  show ?case
  proof (cases "i > 2")
    case True
    have "shift_searchers (i - 1) (t(i := t (i - 1))) =
        (\<lambda>k. if 2 < k \<and> k \<le> i - 1 then (t(i := t (i - 1))) (k - 1) else (t(i := t (i - 1))) k)"
      by (rule 1[OF True])
    then show ?thesis by (subst shift_searchers.simps) (use True in \<open>auto simp: fun_eq_iff\<close>)
  next
    case False
    then show ?thesis by (subst shift_searchers.simps) (auto simp: fun_eq_iff)
  qed
qed

text \<open>\<open>executeFunction\<close> on a function and its arguments, case by case.\<close>

lemma executeFunction_result:
  assumes "length args = n" and "\<And>code e. call f args = Inl (code, e) \<Longrightarrow> code \<noteq> 0"
  shows "executeFunction call handle cvt tb n (st @ f # args) =
     Inr (if lua_isfunction f
          then (case call f args of Inl _ \<Rightarrow> 0 | Inr rs \<Rightarrow> result_value cvt (case rs of [] \<Rightarrow> LNil | r # _ \<Rightarrow> r))
          else 0, st)"
proof -
  have pop: "lua_pop (n + 1) (st @ f # args) = Inr st" "lua_pop 1 (st @ f # args @ [tb]) = Inr (st @ f # args)"
    "lua_pop 2 (st @ [tb, x]) = Inr st" "lua_pop 1 (st @ [tb, x]) = Inr (st @ [tb])" "lua_pop 1 (st @ [x]) = Inr st" for x
    using assms(1) by (simp_all add: lua_pop_def)
  have get: "lua_get (st @ f # args) (- (int n + 1)) = Inr f" "lua_get (st @ [tb, x]) (-1) = Inr x" for x
    using assms(1) lua_get_app[of "- (int n + 1)" args st f] lua_get_top[of "st @ [tb]" x] by simp_all
  have ins: "lua_insert (- (int n + 1) - 1) (st @ f # args @ [tb]) = Inr (st @ tb # f # args)"
    using assms(1) by (intro lua_insert_below) simp
  have call': "lua_pcall call handle n (Suc 0) (- 2 - int n) (st @ tb # f # args) =
      Inr (apsnd (append (st @ [tb])) (pcall_result (handle tb) (Suc 0) (call f args)))"
    using assms(1) by (intro lua_pcall_handler) simp_all
  have neg: "- 2 - int n \<noteq> 0" by simp
  have code: "\<And>code e. call f args = Inl (code, e) \<Longrightarrow> code \<noteq> 0" by (rule assms(2))
  show ?thesis
  proof (cases "lua_isfunction f")
    case False
    then show ?thesis by (simp only: executeFunction_def Let_def get seqE.simps pop if_True if_False not_False_eq_True)
  next
    case True
    show ?thesis
    proof (cases "lua_isfunction tb")
      case tb: True
      have "executeFunction call handle cvt tb n (st @ f # args) =
        seqE (Inr (apsnd (append (st @ [tb])) (pcall_result (handle tb) 1 (call f args)))) (\<lambda>(err, st).
          if err \<noteq> 0 then seqE (lua_pop 2 st) (\<lambda>st. Inr (0, st))
          else seqE (lua_get st (-1)) (\<lambda>v. seqE (lua_pop 1 st) (\<lambda>st.
            if - 2 - int n \<noteq> 0 then seqE (lua_pop 1 st) (\<lambda>st. Inr (result_value cvt v, st))
            else Inr (result_value cvt v, st))))"
        unfolding executeFunction_def Let_def get seqE.simps using True tb
        by (simp only: append_assoc append_Cons append_Nil ins seqE.simps case_prod_conv) (simp add: call')
      then show ?thesis using True code
        by (cases "call f args") (auto simp: pcall_result_def moveresults_one moveresults_one[unfolded One_nat_def] pop pop[unfolded One_nat_def] get neg split: list.splits)
    next
      case tb: False
      have "executeFunction call handle cvt tb n (st @ f # args) =
        seqE (Inr (apsnd (append st) (pcall_result (\<lambda>e. e) 1 (call f args)))) (\<lambda>(err, st).
          if err \<noteq> 0 then seqE (lua_pop 1 st) (\<lambda>st. Inr (0, st))
          else seqE (lua_get st (-1)) (\<lambda>v. seqE (lua_pop 1 st) (\<lambda>st.
            if (0 :: int) \<noteq> 0 then seqE (lua_pop 1 st) (\<lambda>st. Inr (result_value cvt v, st))
            else Inr (result_value cvt v, st))))"
        unfolding executeFunction_def Let_def get seqE.simps using True tb
        by (simp only: append_assoc append_Cons append_Nil pop seqE.simps case_prod_conv) (simp add: lua_pcall_plain[OF assms(1)])
      then show ?thesis using True code
        by (cases "call f args") (auto simp: pcall_result_def moveresults_one moveresults_one[unfolded One_nat_def] pop pop[unfolded One_nat_def] lua_get_top split: list.splits)
    qed
  qed
qed

section \<open>Properties\<close>

text \<open>C33: Whatever lies on the stack, \<open>executeFunction\<close> consumes the function and its arguments and
  nothing else: with the traceback handler or without, on success and on an error the stack is as
  it was below the function, and the value is that of its first result, 0 after an error or for
  something that is no function.\<close>

theorem execute_balanced:
  assumes "length args = n" and "\<And>code e. call f args = Inl (code, e) \<Longrightarrow> code \<noteq> 0"
  shows "executeFunction call handle cvt tb n (st @ f # args) =
     Inr (if lua_isfunction f
          then (case call f args of Inl _ \<Rightarrow> 0 | Inr rs \<Rightarrow> result_value cvt (case rs of [] \<Rightarrow> LNil | r # _ \<Rightarrow> r))
          else 0, st)"
  using executeFunction_result[OF assms] .

theorem execute_balanced_witness:
  "executeFunction (\<lambda>f args. Inr [LNum (Some 7), LNil]) (\<lambda>h e. e) (\<lambda>_. None) (LFun 1) 2 ([LNil] @ LFun 3 # [LNil, LNil]) =
     Inr (if lua_isfunction (LFun 3)
          then (case (Inr [LNum (Some 7), LNil] :: int \<times> lval + lval list) of Inl _ \<Rightarrow> 0
            | Inr rs \<Rightarrow> result_value (\<lambda>_. None) (case rs of [] \<Rightarrow> LNil | r # _ \<Rightarrow> r))
          else 0, [LNil])"
  by (rule execute_balanced) simp_all

text \<open>A new searcher is the second, the others move up by one.\<close>

theorem addLoader_second:
  assumes "1 \<le> n"
  shows "addLoader n f t 1 = t 1" "addLoader n f t 2 = f"
    "3 \<le> k \<Longrightarrow> k \<le> n + 1 \<Longrightarrow> addLoader n f t k = t (k - 1)"
  using assms by (auto simp: addLoader_def shift_searchers_eq)

text \<open>The function an actor's script registers is stored under the actor and not under the key of
  the callback, so the messages for the actor still do not reach Lua.  Were it stored there, every
  message that is handled would take one more value off the stack than it put on it.\<close>

lemma callback_not_called:
  assumes "lua_isfunction f" and "obj \<noteq> LStr LUA_STACK_FIX_CALLBACK" and "registry (LStr LUA_STACK_FIX_CALLBACK) = LNil"
    and "length margs = 5" and "call g margs = Inr rs" and "lua_isfunction g"
  shows "\<exists>registry'. lua_core_actor_callback [obj, f] registry = Inr (Some (registry', [])) \<and>
    registry' obj = f \<and>
    lnlua_unknownDispatch call handle registry' margs st0 = Inr (False, st0) \<and>
    lnlua_unknownDispatch call handle (registry'(LStr LUA_STACK_FIX_CALLBACK := g)) margs (st @ [v]) = Inr (True, st) \<and>
    lnlua_unknownDispatch call handle (registry'(LStr LUA_STACK_FIX_CALLBACK := g)) margs [] = Inl OutOfBounds"
proof -
  define registry' where "registry' = registry(obj := f)"
  have "lua_core_actor_callback [obj, f] registry = Inr (Some (registry', []))"
    using assms(1) by (simp add: lua_core_actor_callback_def lua_get_def lua_at_def lua_pop_def lua_settop_def
        registry'_def Let_def)
  moreover have call: "lua_pcall call handle 5 0 1 (xs @ g # margs) = Inr (0, xs)" for xs
  proof -
    have "lua_get (xs @ g # margs) 1 = Inr (hd (xs @ [g]))" by (cases xs) (simp_all add: lua_get_def lua_at_def)
    then show ?thesis using lua_pcall_app[of call handle margs 0 1 xs g] assms(4,5)
      by (simp add: pcall_result_def moveresults_def)
  qed
  ultimately show ?thesis
    using assms(2,3,6) call[of "st @ [v]"] call[of "[]"] lua_get_top[of "st @ [v]" g] lua_get_top[of "[]" g]
    by (intro exI[of _ registry'])
      (auto simp: lnlua_unknownDispatch_def registry'_def lua_get_top lua_pop_def lua_isfunction_def Let_def)
qed

theorem callback_never_called:
  assumes "lua_isfunction f" and "obj \<noteq> LStr LUA_STACK_FIX_CALLBACK" and "registry (LStr LUA_STACK_FIX_CALLBACK) = LNil"
    and "length margs = 5" and "call g margs = Inr rs" and "lua_isfunction g"
  shows "\<exists>registry'. lua_core_actor_callback [obj, f] registry = Inr (Some (registry', [])) \<and>
    registry' obj = f \<and>
    lnlua_unknownDispatch call handle registry' margs st = Inr (False, st) \<and>
    lnlua_unknownDispatch call handle (registry'(LStr LUA_STACK_FIX_CALLBACK := g)) margs (st @ [v]) = Inr (True, st) \<and>
    lnlua_unknownDispatch call handle (registry'(LStr LUA_STACK_FIX_CALLBACK := g)) margs [] = Inl OutOfBounds"
  by (rule callback_not_called) (use assms in simp_all)

theorem callback_never_called_witness:
  "\<exists>registry'. lua_core_actor_callback [LUser 1, LFun 1] (\<lambda>_. LNil) = Inr (Some (registry', [])) \<and>
    registry' (LUser 1) = LFun 1 \<and>
    lnlua_unknownDispatch (\<lambda>_ _. Inr []) (\<lambda>h e. e) registry' [LNil, LNil, LNil, LNil, LNil] [] = Inr (False, []) \<and>
    lnlua_unknownDispatch (\<lambda>_ _. Inr []) (\<lambda>h e. e) (registry'(LStr LUA_STACK_FIX_CALLBACK := LFun 2))
      [LNil, LNil, LNil, LNil, LNil] ([] @ [LTable 3]) = Inr (True, []) \<and>
    lnlua_unknownDispatch (\<lambda>_ _. Inr []) (\<lambda>h e. e) (registry'(LStr LUA_STACK_FIX_CALLBACK := LFun 2))
      [LNil, LNil, LNil, LNil, LNil] [] = Inl OutOfBounds"
  by (rule callback_never_called[where rs="[]"]) (simp_all add: lua_isfunction_def)


end
