(* ===== verification/LuaLoader.thy ===== *)
theory LuaLoader
  imports LuaStack Memory TextUtil
begin

text \<open>
  How scripts are found and loaded: the file cache (\<open>engine/src/util/ofile.cc\<close>), the searcher the
  engine adds to \<open>require\<close> (\<open>engine/src/lualib/manual/luaLoader.cc\<close>), the running of a script file
  (\<open>luaStack.cc\<close>) and the start of a Lua component (\<open>component/lnlua/src/lnlua.cc\<close>).  The file system
  is a pair of parameters: which names exist, and what opening a file gives, the size \<open>stat\<close>
  reports with the bytes there are to read.
\<close>

section \<open>The file cache\<close>

record fdata =
  d_block :: nat
  d_text :: "8 word list"
  d_len :: int

record ofile =
  f_data :: "(string \<times> fdata) list"
  f_dir :: string

type_synonym file_answer = "(int \<times> 8 word list) option"

text \<open>Everything of \<open>m_strDir\<close> up to its last slash; without a slash nothing.\<close>

definition getfullPathForFilename :: "ofile \<Rightarrow> string \<Rightarrow> string" where
  "getfullPathForFilename f filename =
     (if filename = [] then []
      else rev (dropWhile (\<lambda>c. c \<noteq> CHR ''/'') (rev (f_dir f))) @ filename)"

definition getUnData :: "ofile \<Rightarrow> string \<Rightarrow> fdata option" where
  "getUnData f filename = map_of (f_data f) filename"

text \<open>
  The second half of \<open>getDataFromFile\<close>.  What it finds when it looks again it does not return (the
  statement is \<open>ret;\<close>, behind the release of the lock), so it always reads the file.  The size is an \<open>int\<close>; the number of
  bytes read is compared with it as a \<open>size_t\<close>.
\<close>

definition load_file ::
    "nat option \<Rightarrow> file_answer \<Rightarrow> string \<Rightarrow> ofile \<Rightarrow> mem \<Rightarrow> (fdata option \<times> ofile \<times> mem) res" where
  "load_file je file filename f m =
     (case file of
        None \<Rightarrow> Inr (None, f, m)
      | Some (st_size, bytes) \<Rightarrow>
          (let len = to_int st_size; size = word_of_int len :: 64 word in
           seqE (memory_malloc je size m) (\<lambda>(a, m).
             let text = take (unat size) bytes in
             if length text \<noteq> unat size
             then seqE (memory_free (Some a) m) (\<lambda>m. Inr (None, f, m))
             else (let d = \<lparr>d_block = a, d_text = text, d_len = len\<rparr>
                   in Inr (Some d, f\<lparr>f_data := AList.update filename d (f_data f)\<rparr>, m)))))"

definition getDataFromFile ::
    "nat option \<Rightarrow> file_answer \<Rightarrow> string \<Rightarrow> ofile \<Rightarrow> mem \<Rightarrow> (fdata option \<times> ofile \<times> mem) res" where
  "getDataFromFile je file filename f m =
     (case getUnData f filename of
        Some d \<Rightarrow> Inr (Some d, f, m)
      | None \<Rightarrow> load_file je file filename f m)"

fun clear_data :: "(string \<times> fdata) list \<Rightarrow> mem \<Rightarrow> mem res" where
  "clear_data [] m = Inr m"
| "clear_data ((n, d) # ds) m = seqE (memory_free (Some (d_block d)) m) (clear_data ds)"

definition ofile_clear :: "ofile \<Rightarrow> mem \<Rightarrow> (ofile \<times> mem) res" where
  "ofile_clear f m = seqE (clear_data (f_data f) m) (\<lambda>m. Inr (f\<lparr>f_data := []\<rparr>, m))"


section \<open>The searcher\<close>

text \<open>\<open>std::string::rfind\<close>.\<close>

fun rfind_str :: "string \<Rightarrow> string \<Rightarrow> nat option" where
  "rfind_str p [] = (if p = [] then Some 0 else None)"
| "rfind_str p (c # cs) =
     (case rfind_str p cs of
        Some k \<Rightarrow> Some (Suc k)
      | None \<Rightarrow> if take (length p) (c # cs) = p then Some 0 else None)"

definition BYTECODE_FILE_EXT :: string where "BYTECODE_FILE_EXT = ''.luac''"
definition NOT_BYTECODE_FILE_EXT :: string where "NOT_BYTECODE_FILE_EXT = ''.lua''"

text \<open>
  The extension of a module name.  When \<open>.lua\<close> does not occur and the name has three letters,
  \<open>npos\<close> equals the unsigned difference; \<open>substr(0, npos)\<close> then is the whole name.
\<close>

definition strip_extension :: "string \<Rightarrow> string" where
  "strip_extension filename =
     (case rfind_str BYTECODE_FILE_EXT filename of
        Some pos \<Rightarrow> take pos filename
      | None \<Rightarrow>
          (case rfind_str NOT_BYTECODE_FILE_EXT filename of
             Some pos \<Rightarrow> if pos = length filename - length NOT_BYTECODE_FILE_EXT then take pos filename else filename
           | None \<Rightarrow> filename))"

lemma replace_dot_shrinks:
  "find_first_of s ''.'' = Some pos \<Longrightarrow> count_list (replace_at s pos 1 ''/'') CHR ''.'' < count_list s CHR ''.''"
proof -
  assume "find_first_of s ''.'' = Some pos"
  then have s: "s = take pos s @ CHR ''.'' # drop (pos + 1) s" using find_first_of_Some[of s "''.''" pos] by auto
  have "count_list s CHR ''.'' = count_list (take pos s) CHR ''.'' + 1 + count_list (drop (pos + 1) s) CHR ''.''"
    by (subst s) simp
  then show ?thesis by (simp add: replace_at_def)
qed

function slash_dots :: "string \<Rightarrow> string" where
  "slash_dots filename =
     (case find_first_of filename ''.'' of
        None \<Rightarrow> filename
      | Some pos \<Rightarrow> slash_dots (replace_at filename pos 1 ''/''))"
  by pat_completeness auto

termination
  by (relation "measure (\<lambda>s. count_list s CHR ''.'')") (use replace_dot_shrinks in auto)

declare slash_dots.simps [simp del]

definition required_name :: "string \<Rightarrow> string" where
  "required_name filename = slash_dots (strip_extension filename)"

text \<open>
  The loop over the search path.  \<open>substr(begin, next)\<close> takes \<open>next\<close> characters, not the ones up to
  \<open>next\<close>.
\<close>

definition template_dir :: "string \<Rightarrow> string" where
  "template_dir prefix =
     (let prefix = (if take 2 prefix = ''./'' then drop 2 prefix else prefix)
      in case find_str ''?.lua'' prefix of None \<Rightarrow> prefix | Some pos \<Rightarrow> take pos prefix)"

function loader_loop :: "(string \<Rightarrow> bool) \<Rightarrow> string \<Rightarrow> string \<Rightarrow> nat \<Rightarrow> string option" where
  "loader_loop isExist filename searchpath start =
     (let nxt = (case find_first_of (drop start searchpath) '';'' of None \<Rightarrow> length searchpath | Some k \<Rightarrow> start + k);
          dir = template_dir (take nxt (drop start searchpath));
          a = dir @ filename @ BYTECODE_FILE_EXT; b = dir @ filename @ NOT_BYTECODE_FILE_EXT
      in if isExist a then Some a
         else if isExist b then Some b
         else if nxt + 1 < length searchpath then loader_loop isExist filename searchpath (nxt + 1)
         else None)"
  by pat_completeness auto

termination
  by (relation "measure (\<lambda>(ex, fn, sp, start). length sp - start)") (auto split: option.splits)

declare loader_loop.simps [simp del]

text \<open>
  \<open>lua_loader\<close>: the number of results it announces and the stack it leaves; the table \<open>package\<close> stays
  below the chunk.  When nothing is found \<open>chunk\<close> was never set.
\<close>

definition lua_loader ::
    "(string \<Rightarrow> bool) \<Rightarrow> (string \<Rightarrow> file_answer) \<Rightarrow> nat option \<Rightarrow> lua_loader_fn \<Rightarrow> lval \<Rightarrow> string \<Rightarrow> string \<Rightarrow>
     ofile \<Rightarrow> mem \<Rightarrow> (int \<times> lval list \<times> ofile \<times> mem) res" where
  "lua_loader isExist fs je load package searchpath name f m =
     (let st = [LStr name, package] in
      case loader_loop isExist (required_name name) searchpath 0 of
        None \<Rightarrow> Inl Uninitialised
      | Some chunkName \<Rightarrow>
          seqE (getDataFromFile je (fs chunkName) chunkName f m) (\<lambda>(chunk, f, m).
            case chunk of
              None \<Rightarrow> Inr (-1, st, f, m)
            | Some d \<Rightarrow>
                if d_len d > 0 then Inr (0, st @ [snd (load (d_text d))], f, m) else Inr (-1, st, f, m)))"


section \<open>Running a script\<close>

definition executeScriptFile ::
    "lua_call \<Rightarrow> (lval \<Rightarrow> lval \<Rightarrow> lval) \<Rightarrow> (string \<Rightarrow> int option option) \<Rightarrow> lval \<Rightarrow> lua_loader_fn \<Rightarrow>
     (string \<Rightarrow> bool) \<Rightarrow> (string \<Rightarrow> file_answer) \<Rightarrow> nat option \<Rightarrow> string \<Rightarrow> lval list \<Rightarrow> ofile \<Rightarrow> mem \<Rightarrow>
     (int \<times> lval list \<times> ofile \<times> mem) res" where
  "executeScriptFile call handle cvt tb load isExist fs je filename st f m =
     (let fullPath = getfullPathForFilename f filename in
      seqE (checkE (isExist fullPath) AssertFail) (\<lambda>_.
        seqE (getDataFromFile je (fs fullPath) fullPath f m) (\<lambda>(pd, f, m).
          case pd of
            None \<Rightarrow> Inr (0, st, f, m)
          | Some d \<Rightarrow>
              (let (r, v) = load (d_text d); st = st @ [v] in
               if r = 0 then seqE (executeFunction call handle cvt tb 0 st) (\<lambda>(nr, st). Inr (nr, st, f, m))
               else Inr (0, st, f, m)))))"

text \<open>The name of the script a Lua component is started with.\<close>

definition lnlua_script :: "string \<Rightarrow> string" where
  "lnlua_script param =
     (let name = hd (split_text param '' '')
      in if find_first_of name ''.lua'' = None then name @ ''.lua'' else name)"

definition lnlua_onLaunch ::
    "lua_call \<Rightarrow> (lval \<Rightarrow> lval \<Rightarrow> lval) \<Rightarrow> (string \<Rightarrow> int option option) \<Rightarrow> lval \<Rightarrow> lua_loader_fn \<Rightarrow>
     (string \<Rightarrow> bool) \<Rightarrow> (string \<Rightarrow> file_answer) \<Rightarrow> nat option \<Rightarrow> string option \<Rightarrow> lval list \<Rightarrow> ofile \<Rightarrow> mem \<Rightarrow>
     (int \<times> lval list \<times> ofile \<times> mem) res" where
  "lnlua_onLaunch call handle cvt tb load isExist fs je parm st f m =
     (case parm of
        None \<Rightarrow> Inr (-1, st, f, m)
      | Some param \<Rightarrow>
          seqE (executeScriptFile call handle cvt tb load isExist fs je (lnlua_script param) st f m)
            (\<lambda>(r, st, f, m). Inr (if r \<noteq> 0 then -1 else 0, st, f, m)))"



section \<open>Names\<close>

lemma rfind_str_None: "rfind_str p s = None \<longleftrightarrow> find_str p s = None"
  by (induction p s rule: find_str.induct) (auto split: option.splits)

lemma rfind_luac: "find_str ''.lua'' s = None \<Longrightarrow> find_str ''.luac'' s = None"
proof (induction s)
  case (Cons c s)
  have "take 3 s = ''lua''" if "take 4 s = ''luac''"
    using arg_cong[OF that, of "take 3"] by simp
  then show ?case using Cons by (auto simp: numeral_eq_Suc split: if_splits)
qed simp

definition slash :: "char \<Rightarrow> char" where
  "slash c = (if c = CHR ''.'' then CHR ''/'' else c)"

lemma map_slash: "CHR ''.'' \<notin> set s \<Longrightarrow> map slash s = s"
  by (rule map_idI) (auto simp: slash_def)

lemma slash_dots_map: "slash_dots s = map slash s"
proof (induction s rule: slash_dots.induct)
  case (1 s)
  show ?case
  proof (cases "find_first_of s ''.''")
    case None
    then show ?thesis using find_first_of_None[OF None] by (simp add: slash_dots.simps map_slash)
  next
    case (Some pos)
    have s: "s = take pos s @ CHR ''.'' # drop (pos + 1) s" using find_first_of_Some[OF Some] by auto
    have "slash_dots s = map slash (replace_at s pos 1 ''/'')" using 1[OF Some] Some by (subst slash_dots.simps) simp
    also have "\<dots> = map slash (take pos s @ CHR ''.'' # drop (pos + 1) s)"
      by (simp add: replace_at_def slash_def)
    also have "\<dots> = map slash s" by (rule arg_cong[OF s[symmetric]])
    finally show ?thesis .
  qed
qed

lemma connect_split_map: "connect_text (split_text s ''.'') ''/'' = map slash s"
proof (induction s "''.''" rule: split_text.induct)
  case (1 s)
  show ?case
  proof (cases "find_first_of s ''.''")
    case None
    then show ?thesis using find_first_of_None[OF None] by (simp add: split_text.simps map_slash)
  next
    case (Some pos)
    have s: "s = take pos s @ CHR ''.'' # drop (pos + 1) s" and no: "CHR ''.'' \<notin> set (take pos s)"
      using find_first_of_Some[OF Some] by auto
    have "connect_text (split_text s ''.'') ''/'' = take pos s @ ''/'' @ map slash (drop (pos + 1) s)"
      using 1[OF Some] Some by (subst split_text.simps) (simp add: connect_text_Cons split_text_ne del: connect_text.simps)
    also have "\<dots> = map slash (take pos s @ CHR ''.'' # drop (pos + 1) s)" using no by (simp add: map_slash slash_def)
    also have "\<dots> = map slash s" by (rule arg_cong[OF s[symmetric]])
    finally show ?thesis .
  qed
qed

section \<open>The search path\<close>

definition strip_dot :: "string \<Rightarrow> string" where
  "strip_dot d = (if take 2 d = ''./'' then drop 2 d else d)"

lemma find_template: "CHR ''?'' \<notin> set d \<Longrightarrow> find_str ''?.lua'' (d @ ''?.lua'' @ rest) = Some (length d)"
  by (induction d) (auto simp: take_Cons')

lemma template_dir_eq:
  assumes "CHR ''?'' \<notin> set d"
  shows "template_dir (d @ ''?.lua'' @ rest) = strip_dot d"
proof -
  have "take 2 (d @ ''?.lua'' @ rest) = ''./'' \<longleftrightarrow> take 2 d = ''./''"
    by (cases d; cases "tl d") auto
  moreover have "drop 2 (d @ ''?.lua'' @ rest) = drop 2 d @ ''?.lua'' @ rest" if "take 2 d = ''./''"
    using that by (cases d; cases "tl d") auto
  moreover have "CHR ''?'' \<notin> set (drop 2 d)" using assms by (auto dest: in_set_dropD)
  ultimately show ?thesis
    using assms find_template[of d rest] find_template[of "drop 2 d" rest]
    by (simp add: template_dir_def strip_dot_def Let_def)
qed

text \<open>The files of a module, in the order of the search path.\<close>

definition candidates :: "string list \<Rightarrow> string \<Rightarrow> string list" where
  "candidates ds file =
     concat (map (\<lambda>d. [strip_dot d @ file @ BYTECODE_FILE_EXT, strip_dot d @ file @ NOT_BYTECODE_FILE_EXT]) ds)"

lemma loader_loop_candidates:
  assumes "ds \<noteq> []" and "list_all (\<lambda>d. CHR '';'' \<notin> set d \<and> CHR ''?'' \<notin> set d) ds"
  shows "loader_loop ex file (pre @ connect_text (map (\<lambda>d. d @ ''?.lua'') ds) '';'') (length pre) =
     find ex (candidates ds file)"
  using assms
proof (induction ds arbitrary: pre)
  case (Cons d ds)
  let ?rest = "connect_text (map (\<lambda>d. d @ ''?.lua'') ds) '';''"
  have d: "CHR '';'' \<notin> set (d @ ''?.lua'')" "CHR ''?'' \<notin> set d" using Cons(3) by auto
  show ?case
  proof (cases "ds = []")
    case True
    have "find_first_of (d @ ''?.lua'') '';'' = None" using d by (intro find_first_of_none) auto
    moreover have "template_dir (d @ ''?.lua'') = strip_dot d" using template_dir_eq[OF d(2), of "[]"] by simp
    ultimately show ?thesis
      using True by (subst loader_loop.simps) (simp add: candidates_def Let_def)
  next
    case False
    let ?sp = "pre @ (d @ ''?.lua'') @ CHR '';'' # ?rest"
    have sp: "pre @ connect_text (map (\<lambda>d. d @ ''?.lua'') (d # ds)) '';'' = ?sp"
      using False by (simp add: connect_text_Cons del: connect_text.simps)
    have IH: "loader_loop ex file ?sp (length (pre @ (d @ ''?.lua'') @ '';'')) = find ex (candidates ds file)"
      using Cons(1)[OF False, of "pre @ (d @ ''?.lua'') @ '';''"] Cons(3) by simp
    have next_pos: "find_first_of (drop (length pre) ?sp) '';'' = Some (length (d @ ''?.lua''))"
      using find_first_of_here[OF d(1), of ?rest] by simp
    have "take (length pre + length t) (t @ r) = t @ take (length pre) r" for t r :: string by simp
    from this[of "d @ ''?.lua''" "CHR '';'' # ?rest"]
    have "take (length pre + length (d @ ''?.lua'')) (drop (length pre) ?sp) =
        d @ ''?.lua'' @ take (length pre) (CHR '';'' # ?rest)"
      by (simp only: append_assoc) simp
    then have dir: "template_dir (take (length pre + length (d @ ''?.lua'')) (drop (length pre) ?sp)) = strip_dot d"
      using template_dir_eq[OF d(2)] by simp
    have "?rest \<noteq> []" using False by (cases ds) auto
    then have more: "length pre + length (d @ ''?.lua'') + 1 < length ?sp" by simp
    have "loader_loop ex file ?sp (length pre) =
        (if ex (strip_dot d @ file @ BYTECODE_FILE_EXT) then Some (strip_dot d @ file @ BYTECODE_FILE_EXT)
         else if ex (strip_dot d @ file @ NOT_BYTECODE_FILE_EXT) then Some (strip_dot d @ file @ NOT_BYTECODE_FILE_EXT)
         else loader_loop ex file ?sp (length (pre @ (d @ ''?.lua'') @ '';'')))"
      by (subst loader_loop.simps, simp only: next_pos option.case Let_def dir)
        (use more in simp)
    then show ?thesis unfolding sp IH by (simp add: candidates_def)
  qed
qed simp

section \<open>Properties\<close>

text \<open>On a search path of templates \<open>dir?.lua\<close> the loop of the searcher computes what it is meant
  to, although it cuts the templates out with a wrong length: the first of \<open>dir/name.luac\<close> and
  \<open>dir/name.lua\<close> that exists, in the order of the path, where the dots of a module name without an
  extension become slashes.\<close>

theorem loader_finds_first:
  assumes "ds \<noteq> []" and "list_all (\<lambda>d. CHR '';'' \<notin> set d \<and> CHR ''?'' \<notin> set d) ds"
    and "find_str ''.lua'' name = None"
  shows "loader_loop isExist (required_name name) (connect_text (map (\<lambda>d. d @ ''?.lua'') ds) '';'') 0 =
     find isExist (candidates ds (connect_text (split_text name ''.'') ''/''))"
proof -
  have "required_name name = connect_text (split_text name ''.'') ''/''"
    using assms(3) rfind_luac[OF assms(3)]
    by (simp add: required_name_def strip_extension_def BYTECODE_FILE_EXT_def NOT_BYTECODE_FILE_EXT_def
        rfind_str_None[THEN iffD2] slash_dots_map connect_split_map)
  then show ?thesis using loader_loop_candidates[OF assms(1,2), of isExist _ "[]"] by simp
qed

theorem loader_finds_first_witness:
  "loader_loop (\<lambda>f. f = ''lib/a/b.lua'') (required_name ''a.b'')
      (connect_text (map (\<lambda>d. d @ ''?.lua'') [''./src/'', ''lib/'']) '';'') 0 =
    find (\<lambda>f. f = ''lib/a/b.lua'') (candidates [''./src/'', ''lib/''] (connect_text (split_text ''a.b'' ''.'') ''/''))"
  by (rule loader_finds_first) simp_all

text \<open>The searcher never gives \<open>require\<close> what it found: it leaves the chunk on its stack but
  announces no result, or a negative number of them, so the two results \<open>require\<close> looks at are
  \<open>nil\<close>.  When it finds no file it reads an uninitialised pointer.\<close>

theorem require_gets_nothing:
  "case lua_loader isExist fs je load package searchpath name f m of
     Inl e \<Rightarrow> e = (if loader_loop isExist (required_name name) searchpath 0 = None then Uninitialised else ExitProcess)
   | Inr (n, st, f', m') \<Rightarrow> moveresults 2 n st = [LNil, LNil]"
  by (auto simp: lua_loader_def getDataFromFile_def load_file_def mem_defs moveresults_def Let_def numeral_2_eq_2
      split: option.splits if_splits sum.splits)

section \<open>The file cache\<close>

definition file_blocks :: "(string \<times> fdata) list \<Rightarrow> nat list" where
  "file_blocks ds = map (d_block \<circ> snd) ds"

lemma file_blocks_simps [simp]: "file_blocks [] = []" "file_blocks ((n, d) # ds) = d_block d # file_blocks ds"
  by (simp_all add: file_blocks_def)

text \<open>Every file has a block of its own, which is allocated.\<close>

definition ofile_ok :: "ofile \<Rightarrow> mem \<Rightarrow> bool" where
  "ofile_ok f m \<longleftrightarrow> distinct (file_blocks (f_data f)) \<and> set (file_blocks (f_data f)) \<subseteq> dom (mb_sizes m)"

text \<open>Clearing frees exactly the blocks of the entries.\<close>

lemma clear_data_frees:
  assumes "distinct (file_blocks ds)" and "set (file_blocks ds) \<subseteq> dom (mb_sizes m)"
  shows "\<exists>m'. clear_data ds m = Inr m' \<and>
    mb_sizes m' = (\<lambda>a. if a \<in> set (file_blocks ds) then None else mb_sizes m a)"
  using assms
proof (induction ds m rule: clear_data.induct)
  case (2 n d ds m)
  let ?m = "m\<lparr>mb_used := mb_used m - 1, mb_sizes := (mb_sizes m)(d_block d := None)\<rparr>"
  have free: "memory_free (Some (d_block d)) m = Inr ?m"
    using 2(3) by (auto simp: memory_free_def cleanPrefix_def Let_def checkE_def)
  have "\<exists>m'. clear_data ds ?m = Inr m' \<and>
      mb_sizes m' = (\<lambda>a. if a \<in> set (file_blocks ds) then None else mb_sizes ?m a)"
    using 2(2,3) by (intro 2(1)) auto
  then show ?case using 2(2) free by (auto simp: fun_eq_iff)
qed simp

lemma load_file_new:
  assumes "0 \<le> len" and "len < 2 ^ 31" and "length text = nat len"
  shows "load_file (Some a) (Some (len, text)) name f m =
     Inr (Some \<lparr>d_block = a, d_text = text, d_len = len\<rparr>,
       f\<lparr>f_data := AList.update name \<lparr>d_block = a, d_text = text, d_len = len\<rparr> (f_data f)\<rparr>,
       m\<lparr>mb_sizes := (mb_sizes m)(a \<mapsto> word_of_int len), mb_used := mb_used m + 1\<rparr>)"
proof -
  have "to_int len = len" using assms(1,2) by (simp add: to_int_def sint_sbintrunc' signed_take_bit_int_eq_self)
  moreover have "uint (word_of_int len :: 64 word) = len"
    by (rule word_of_int_inverse[OF refl]) (use assms(1,2) in simp_all)
  then have "unat (word_of_int len :: 64 word) = nat len" by (simp only: unat_eq_nat_uint)
  ultimately show ?thesis using assms(3)
    by (simp add: load_file_def memory_malloc_def mallocError_def fillPrefix_def Let_def)
qed


lemma update_new: "map_of ds n = None \<Longrightarrow> AList.update n d ds = ds @ [(n, d)]"
  by (induction ds) (auto split: if_splits)

lemma file_blocks_app [simp]: "file_blocks (ds @ es) = file_blocks ds @ file_blocks es"
  by (simp add: file_blocks_def)

lemma update_last: "map_of ds n = None \<Longrightarrow> AList.update n d' (ds @ [(n, d)]) = ds @ [(n, d')]"
  by (induction ds) (auto split: if_splits)

text \<open>C34: A file is read once: the second call gives the same data without looking at the file
  again, and clearing the cache frees its block and nothing that was not in it.  But two threads that
  both miss it both load it; the data the first one was given is replaced under its hands, and no
  entry refers to its block any more, so that it is never freed.\<close>

theorem file_cache_shared:
  assumes "ofile_ok f m" and "getUnData f name = None"
    and "0 \<le> len" and "len < 2 ^ 31" and "length text = nat len"
    and "mb_sizes m a = None" and "mb_sizes m b = None" and "a \<noteq> b"
  shows "\<exists>d f1 m1 f2 m2.
    getDataFromFile (Some a) (Some (len, text)) name f m = Inr (Some d, f1, m1) \<and> d_text d = text \<and> d_len d = len \<and>
    getDataFromFile je file name f1 m1 = Inr (Some d, f1, m1) \<and> ofile_ok f1 m1 \<and>
    (\<exists>m'. ofile_clear f1 m1 = Inr (f1\<lparr>f_data := []\<rparr>, m') \<and> mb_sizes m' a = None) \<and>
    load_file (Some b) (Some (len, text)) name f1 m1 = Inr (Some (d\<lparr>d_block := b\<rparr>), f2, m2) \<and>
    (\<exists>m'. ofile_clear f2 m2 = Inr (f2\<lparr>f_data := []\<rparr>, m') \<and> mb_sizes m' b = None \<and> mb_sizes m' a \<noteq> None)"
proof -
  define d where "d = \<lparr>d_block = a, d_text = text, d_len = len\<rparr>"
  define f1 where "f1 = f\<lparr>f_data := f_data f @ [(name, d)]\<rparr>"
  define f2 where "f2 = f\<lparr>f_data := f_data f @ [(name, d\<lparr>d_block := b\<rparr>)]\<rparr>"
  define m1 where "m1 = m\<lparr>mb_sizes := (mb_sizes m)(a \<mapsto> word_of_int len), mb_used := mb_used m + 1\<rparr>"
  define m2 where "m2 = m1\<lparr>mb_sizes := (mb_sizes m1)(b \<mapsto> word_of_int len), mb_used := mb_used m1 + 1\<rparr>"
  have none: "map_of (f_data f) name = None" using assms(2) by (simp add: getUnData_def)
  have new: "a \<notin> set (file_blocks (f_data f))" "b \<notin> set (file_blocks (f_data f))"
    using assms(1,6,7) by (auto simp: ofile_ok_def)
  have first: "getDataFromFile (Some a) (Some (len, text)) name f m = Inr (Some d, f1, m1)"
    using load_file_new[OF assms(3-5)] none assms(2)
    by (simp add: getDataFromFile_def update_new d_def f1_def m1_def)
  have "AList.update name (d\<lparr>d_block := b\<rparr>) (f_data f @ [(name, d)]) = f_data f @ [(name, d\<lparr>d_block := b\<rparr>)]"
    by (rule update_last[OF none])
  then have second: "load_file (Some b) (Some (len, text)) name f1 m1 = Inr (Some (d\<lparr>d_block := b\<rparr>), f2, m2)"
    using load_file_new[OF assms(3-5)] by (simp add: d_def f1_def f2_def m2_def)
  have ok1: "ofile_ok f1 m1" and ok2: "ofile_ok f2 m2"
    using assms(1) new by (auto simp: ofile_ok_def f1_def f2_def m1_def m2_def d_def)
  have cleared: "\<exists>m'. ofile_clear g k = Inr (g\<lparr>f_data := []\<rparr>, m') \<and>
      mb_sizes m' = (\<lambda>x. if x \<in> set (file_blocks (f_data g)) then None else mb_sizes k x)" if "ofile_ok g k" for g k
    using clear_data_frees[of "f_data g" k] that by (auto simp: ofile_ok_def ofile_clear_def)
  have "getDataFromFile je file name f1 m1 = Inr (Some d, f1, m1)"
    using none by (simp add: getDataFromFile_def getUnData_def f1_def map_add_def)
  moreover have "\<exists>m'. ofile_clear f1 m1 = Inr (f1\<lparr>f_data := []\<rparr>, m') \<and> mb_sizes m' a = None"
    using cleared[OF ok1] by (auto simp: f1_def d_def)
  moreover have "\<exists>m'. ofile_clear f2 m2 = Inr (f2\<lparr>f_data := []\<rparr>, m') \<and> mb_sizes m' b = None \<and> mb_sizes m' a \<noteq> None"
    using cleared[OF ok2] new assms(8) by (auto simp: f2_def d_def m2_def m1_def)
  ultimately show ?thesis using first second ok1 d_def by (intro exI[of _ d] exI[of _ f1] exI[of _ m1] exI[of _ f2] exI[of _ m2]) simp
qed

theorem file_cache_shared_witness:
  "\<exists>d f1 m1 f2 m2.
    getDataFromFile (Some 1) (Some (2, [104, 105])) ''a.lua'' \<lparr>f_data = [], f_dir = ''''\<rparr> \<lparr>mb_sizes = (\<lambda>_. None), mb_used = 0\<rparr> =
      Inr (Some d, f1, m1) \<and> d_text d = [104, 105] \<and> d_len d = 2 \<and>
    getDataFromFile None None ''a.lua'' f1 m1 = Inr (Some d, f1, m1) \<and> ofile_ok f1 m1 \<and>
    (\<exists>m'. ofile_clear f1 m1 = Inr (f1\<lparr>f_data := []\<rparr>, m') \<and> mb_sizes m' 1 = None) \<and>
    load_file (Some 2) (Some (2, [104, 105])) ''a.lua'' f1 m1 = Inr (Some (d\<lparr>d_block := 2\<rparr>), f2, m2) \<and>
    (\<exists>m'. ofile_clear f2 m2 = Inr (f2\<lparr>f_data := []\<rparr>, m') \<and> mb_sizes m' 2 = None \<and> mb_sizes m' 1 \<noteq> None)"
  by (rule file_cache_shared) (simp_all add: ofile_ok_def getUnData_def)


section \<open>Starting a Lua component\<close>

text \<open>A Lua component starts successfully whatever is wrong with its script: a script that does
  not compile leaves the message on the Lua stack and counts as one that returned 0, and so does one
  that ends with an error.  Only a script that returns another number makes the start fail.\<close>

theorem launch_hides_errors:
  assumes "full = getfullPathForFilename f (lnlua_script param)" and "isExist full"
    and "getDataFromFile je (fs full) full f m = Inr (Some d, f', m')"
    and "load (d_text d) = (r, v)" and "r = 0 \<Longrightarrow> lua_isfunction v"
    and "\<And>code e. call v [] = Inl (code, e) \<Longrightarrow> code \<noteq> 0"
  shows "lnlua_onLaunch call handle cvt tb load isExist fs je (Some param) st f m =
     Inr (case (if r \<noteq> 0 then Inl () else map_sum (\<lambda>_. ()) (\<lambda>rs. result_value cvt (case rs of [] \<Rightarrow> LNil | x # _ \<Rightarrow> x)) (call v []))
          of Inl _ \<Rightarrow> 0 | Inr n \<Rightarrow> if n \<noteq> 0 then -1 else 0,
       if r \<noteq> 0 then st @ [v] else st, f', m')"
  using assms executeFunction_result[OF refl, where args="[]" and call=call and f=v and handle=handle and cvt=cvt and tb=tb and st=st]
  by (auto simp: lnlua_onLaunch_def executeScriptFile_def Let_def checkE_def split: sum.splits)

theorem launch_hides_errors_witness:
  "lnlua_onLaunch (\<lambda>_ _. Inr []) (\<lambda>h e. e) (\<lambda>_. None) LNil (\<lambda>_. (3, LStr ''syntax error''))
      (\<lambda>n. n = ''x.lua'') (\<lambda>_. Some (1, [41])) (Some 1) (Some ''x.lua'') [] \<lparr>f_data = [], f_dir = ''''\<rparr> \<lparr>mb_sizes = (\<lambda>_. None), mb_used = 0\<rparr> =
    Inr (case (if (3 :: int) \<noteq> 0 then Inl () else map_sum (\<lambda>_. ()) (\<lambda>rs. result_value (\<lambda>_. None) (case rs of [] \<Rightarrow> LNil | x # _ \<Rightarrow> x))
            (Inr [] :: int \<times> lval + lval list))
          of Inl _ \<Rightarrow> 0 | Inr n \<Rightarrow> if n \<noteq> 0 then -1 else 0,
      if (3 :: int) \<noteq> 0 then [] @ [LStr ''syntax error''] else [],
      \<lparr>f_data = [(''x.lua'', \<lparr>d_block = 1, d_text = [41], d_len = 1\<rparr>)], f_dir = ''''\<rparr>,
      \<lparr>mb_sizes = [1 \<mapsto> 1], mb_used = 1\<rparr>)"
  by (rule launch_hides_errors[where d="\<lparr>d_block = 1, d_text = [41], d_len = 1\<rparr>" and full="''x.lua''"])
    (simp_all add: getfullPathForFilename_def lnlua_script_def split_text.simps getDataFromFile_def getUnData_def
      load_file_def to_int_def memory_malloc_def mallocError_def fillPrefix_def Let_def)

text \<open>The extension is only added to a name without any of the letters of \<open>.lua\<close>.\<close>

lemma script_extension: "lnlua_script ''main'' = ''main'' \<and> lnlua_script ''123456'' = ''123456.lua''"
  by (simp add: lnlua_script_def split_text.simps)

end
