(* ===== verification/LogSystem.thy ===== *)
theory LogSystem
  imports PostThread TextUtil
begin

text \<open>
  The log: \<open>engine/src/log/logSystem.cc\<close> with its queue of messages, the two loggers
  \<open>logConsole.cc\<close> and \<open>logFile.cc\<close>, the levels of \<open>ilog.h\<close>, and what the bundled spdlog does with
  them (\<open>3rd/spdlog\<close>: the filter on the level, the check of the rotation time).  The thread that
  dispatches the messages is that of \<open>PostThread\<close>.
\<close>

section \<open>Levels\<close>

datatype logLevel = L_TRACE | L_DEBUG | L_INFO | L_WARNING | L_ERROR | L_FATAL

fun level_code :: "logLevel \<Rightarrow> int" where
  "level_code L_TRACE = 0"
| "level_code L_DEBUG = 1"
| "level_code L_INFO = 2"
| "level_code L_WARNING = 3"
| "level_code L_ERROR = 4"
| "level_code L_FATAL = 5"

definition getLevel :: "int \<Rightarrow> logLevel" where
  "getLevel level =
     (if level = 0 then L_TRACE else if level = 1 then L_DEBUG else if level = 2 then L_INFO
      else if level = 3 then L_WARNING else if level = 4 then L_ERROR else if level = 5 then L_FATAL
      else L_TRACE)"

datatype spd_level = SpdTrace | SpdDebug | SpdInfo | SpdWarn | SpdErr | SpdCritical

fun spd_code :: "spd_level \<Rightarrow> nat" where
  "spd_code SpdTrace = 0"
| "spd_code SpdDebug = 1"
| "spd_code SpdInfo = 2"
| "spd_code SpdWarn = 3"
| "spd_code SpdErr = 4"
| "spd_code SpdCritical = 5"

text \<open>The levels are ordered as the enumeration.\<close>

instantiation spd_level :: linorder
begin

definition less_eq_spd_level :: "spd_level \<Rightarrow> spd_level \<Rightarrow> bool" where
  "less_eq_spd_level a b \<longleftrightarrow> spd_code a \<le> spd_code b"

definition less_spd_level :: "spd_level \<Rightarrow> spd_level \<Rightarrow> bool" where
  "less_spd_level a b \<longleftrightarrow> spd_code a < spd_code b"

instance
proof
  fix x y :: spd_level
  show "x \<le> y \<Longrightarrow> y \<le> x \<Longrightarrow> x = y" by (cases x; cases y) (simp_all add: less_eq_spd_level_def)
qed (auto simp: less_eq_spd_level_def less_spd_level_def)

end

fun toLevel :: "logLevel \<Rightarrow> spd_level" where
  "toLevel L_TRACE = SpdTrace"
| "toLevel L_DEBUG = SpdDebug"
| "toLevel L_INFO = SpdInfo"
| "toLevel L_WARNING = SpdWarn"
| "toLevel L_ERROR = SpdErr"
| "toLevel L_FATAL = SpdCritical"


section \<open>Loggers\<close>

text \<open>A logger of spdlog: the level it is set to, and the lines it has written.\<close>

record logger =
  lg_level :: spd_level
  lg_lines :: "(spd_level \<times> string) list"

definition should_log :: "logger \<Rightarrow> spd_level \<Rightarrow> bool" where
  "should_log lg lv \<longleftrightarrow> lv \<ge> lg_level lg"

definition logger_log :: "spd_level \<Rightarrow> string \<Rightarrow> logger \<Rightarrow> logger" where
  "logger_log lv msg lg = (if should_log lg lv then lg\<lparr>lg_lines := lg_lines lg @ [(lv, msg)]\<rparr> else lg)"

text \<open>\<open>doLog\<close> of both loggers; their switch has the order of \<open>toLevel\<close>.\<close>

definition sink_doLog :: "logLevel \<Rightarrow> string \<Rightarrow> logger \<Rightarrow> logger" where
  "sink_doLog level msg lg =
     (case level of
        L_TRACE \<Rightarrow> logger_log SpdTrace msg lg
      | L_DEBUG \<Rightarrow> logger_log SpdDebug msg lg
      | L_INFO \<Rightarrow> logger_log SpdInfo msg lg
      | L_WARNING \<Rightarrow> logger_log SpdWarn msg lg
      | L_ERROR \<Rightarrow> logger_log SpdErr msg lg
      | L_FATAL \<Rightarrow> logger_log SpdCritical msg lg)"

definition new_logConsole :: "int \<Rightarrow> logger" where
  "new_logConsole logLevel = \<lparr>lg_level = toLevel (getLevel logLevel), lg_lines = []\<rparr>"

text \<open>The constructor of the file sink throws when the time of rotation is not a time of day.\<close>

definition daily_file_sink :: "int \<Rightarrow> int \<Rightarrow> unit res" where
  "daily_file_sink hour minute =
     (if hour < 0 \<or> hour > 23 \<or> minute < 0 \<or> minute > 59 then Inl ExitProcess else Inr ())"

definition new_logFile :: "int \<Rightarrow> logger res" where
  "new_logFile logLevel =
     seqE (daily_file_sink 24 0) (\<lambda>_. Inr \<lparr>lg_level = toLevel (getLevel logLevel), lg_lines = []\<rparr>)"


section \<open>The log system\<close>

record logSystem =
  l_log :: "logger option"
  l_mqs :: "(int \<times> string) queue"
  l_pid :: post

definition new_logSystem :: logSystem where
  "new_logSystem = \<lparr>l_log = None, l_mqs = new_queue, l_pid = new_post\<rparr>"

definition log_doStart :: "coroutineOptions \<Rightarrow> logSystem \<Rightarrow> (int \<times> logSystem) res" where
  "log_doStart opt s =
     (if l_log s \<noteq> None then Inr (-1, s)
      else seqE (if opt_logPath opt = None then Inr (new_logConsole (sint (opt_logLevel opt)))
                 else new_logFile (sint (opt_logLevel opt))) (\<lambda>lg.
        Inr (0, s\<lparr>l_log := Some lg\<rparr>)))"

text \<open>\<open>doShutdown\<close>, once the thread has ended.\<close>

definition log_doShutdown :: "logSystem \<Rightarrow> logSystem" where
  "log_doShutdown s = s\<lparr>l_pid := (l_pid s)\<lparr>m_shutdown := True\<rparr>, l_log := None\<rparr>"

definition redirect :: "logger option \<Rightarrow> logSystem \<Rightarrow> logger option \<times> logSystem" where
  "redirect lg s = (l_log s, s\<lparr>l_log := lg\<rparr>)"

text \<open>\<open>doLog\<close> keeps the message as a C string.\<close>

definition log_doLog :: "logLevel \<Rightarrow> string \<Rightarrow> logSystem \<Rightarrow> logSystem res" where
  "log_doLog level msg s =
     seqE (checkE (l_log s \<noteq> None) AssertFail) (\<lambda>_.
       seqE (local_push (l_mqs s) (level_code level, takeWhile (\<lambda>c. c \<noteq> CHR 0x00) msg)) (\<lambda>q.
         Inr (s\<lparr>l_mqs := q\<rparr>)))"

definition log_one :: "int \<times> string \<Rightarrow> logger option res \<Rightarrow> logger option res" where
  "log_one m r =
     seqE r (\<lambda>lg. case lg of None \<Rightarrow> Inl NullDeref | Some lg \<Rightarrow> Inr (Some (sink_doLog (getLevel (fst m)) (snd m) lg)))"

definition log_doDispatch :: "logSystem \<Rightarrow> logSystem res option" where
  "log_doDispatch s =
     map_option (\<lambda>r. seqE r (\<lambda>(q, lg). seqE lg (\<lambda>lg. Inr (s\<lparr>l_mqs := q, l_log := lg\<rparr>))))
       (drain_loop local_pop log_one (l_mqs s) (Inr (l_log s)))"


section \<open>Lines\<close>

lemma level_roundtrip [simp]: "getLevel (level_code l) = l"
  by (cases l) (simp_all add: getLevel_def)

lemma sink_doLog_eq: "sink_doLog l msg lg = logger_log (toLevel l) msg lg"
  by (cases l) (simp_all add: sink_doLog_def)

definition c_str :: "string \<Rightarrow> string" where
  "c_str s = takeWhile (\<lambda>c. c \<noteq> CHR 0x00) s"

definition log_entry :: "logLevel \<times> string \<Rightarrow> int \<times> string" where
  "log_entry m = (level_code (fst m), c_str (snd m))"

text \<open>The lines a list of messages becomes at a level.\<close>

definition visible :: "spd_level \<Rightarrow> (logLevel \<times> string) list \<Rightarrow> (spd_level \<times> string) list" where
  "visible lv ms =
     map (\<lambda>(l, s). (toLevel l, c_str s)) (filter (\<lambda>(l, s). toLevel l \<ge> lv) ms)"

lemma log_one_entry:
  "log_one (log_entry m) (Inr (Some lg)) = Inr (Some (lg\<lparr>lg_lines := lg_lines lg @ visible (lg_level lg) [m]\<rparr>))"
  by (cases m; cases lg) (simp add: log_one_def log_entry_def sink_doLog_eq logger_log_def should_log_def visible_def)

lemma visible_Cons: "visible lv (m # ms) = visible lv [m] @ visible lv ms"
  by (cases m) (simp add: visible_def)

lemma fold_log_one:
  "fold log_one (map log_entry ms) (Inr (Some lg)) = Inr (Some (lg\<lparr>lg_lines := lg_lines lg @ visible (lg_level lg) ms\<rparr>))"
proof (induction ms arbitrary: lg)
  case (Cons m ms)
  show ?case by (simp add: Cons log_one_entry visible_Cons[of _ m ms])
qed (simp add: visible_def)

text \<open>Several messages logged one after the other.\<close>

fun log_all :: "(logLevel \<times> string) list \<Rightarrow> logSystem \<Rightarrow> logSystem res" where
  "log_all [] s = Inr s"
| "log_all ((l, msg) # ms) s = seqE (log_doLog l msg s) (log_all ms)"

lemma log_all_push:
  "l_log s \<noteq> None \<Longrightarrow> push_all local_push (l_mqs s) (map log_entry ms) = Inr q \<Longrightarrow> log_all ms s = Inr (s\<lparr>l_mqs := q\<rparr>)"
proof (induction ms s arbitrary: q rule: log_all.induct)
  case (2 l msg ms s)
  then obtain q1 where q1: "local_push (l_mqs s) (log_entry (l, msg)) = Inr q1"
      "push_all local_push q1 (map log_entry ms) = Inr q"
    by (auto simp: res_simps)
  then have "log_doLog l msg s = Inr (s\<lparr>l_mqs := q1\<rparr>)"
    using 2(2) by (auto simp: log_doLog_def log_entry_def c_str_def checkE_def)
  then show ?case using 2(1)[of "s\<lparr>l_mqs := q1\<rparr>" q] 2(2) q1(2) by simp
qed simp

text \<open>A run of the log: start, messages, one round of the dispatching function.\<close>

lemma log_run:
  assumes "opt_logPath opt = None" and "length ms \<le> 2 ^ 29"
  shows "\<exists>s s' s''. log_doStart opt new_logSystem = Inr (0, s) \<and> log_all ms s = Inr s' \<and>
    log_doDispatch s' = Some (Inr s'') \<and> contents (l_mqs s'') = [] \<and>
    map_option lg_lines (l_log s'') = Some (visible (toLevel (getLevel (sint (opt_logLevel opt)))) ms)"
proof -
  define lg where "lg = new_logConsole (sint (opt_logLevel opt))"
  define s where "s = new_logSystem\<lparr>l_log := Some lg\<rparr>"
  have start: "log_doStart opt new_logSystem = Inr (0, s)"
    using assms(1) by (simp add: log_doStart_def s_def lg_def new_logSystem_def)
  obtain q where q: "push_all local_push new_queue (map log_entry ms) = Inr q" "queue_inv q" "contents q = map log_entry ms"
    using rq.push_all_ok[OF new_queue_inv, of "map log_entry ms"] assms(2) by auto
  have all: "log_all ms s = Inr (s\<lparr>l_mqs := q\<rparr>)"
    using q(1) by (intro log_all_push) (simp_all add: s_def new_logSystem_def)
  obtain q' where q': "drain_loop local_pop log_one q (Inr (Some lg)) =
      Some (Inr (q', fold log_one (map log_entry ms) (Inr (Some lg))))" "contents q' = []"
    using rq.drain_ok[OF q(2), of log_one "Inr (Some lg)"] q(3) by auto
  have "log_doDispatch (s\<lparr>l_mqs := q\<rparr>) =
      Some (Inr (s\<lparr>l_mqs := q', l_log := Some (lg\<lparr>lg_lines := lg_lines lg @ visible (lg_level lg) ms\<rparr>)\<rparr>))"
    using q'(1) by (simp add: log_doDispatch_def s_def fold_log_one)
  then show ?thesis using start all q'(2)
    by (intro exI[of _ s] exI[of _ "s\<lparr>l_mqs := q\<rparr>"] exI) (auto simp: lg_def new_logConsole_def)
qed

section \<open>Properties\<close>

text \<open>A log system that was started writes what it is given: after any messages and one run of the
  dispatching function the console holds exactly those at or above the configured level, in the
  order they were logged, each up to its first NUL; the function returns and leaves the queue empty.\<close>

theorem log_lines_in_order:
  assumes "opt_logPath opt = None" and "length ms \<le> 2 ^ 29"
  shows "\<exists>s s' s''. log_doStart opt new_logSystem = Inr (0, s) \<and> log_all ms s = Inr s' \<and>
    log_doDispatch s' = Some (Inr s'') \<and> contents (l_mqs s'') = [] \<and>
    map_option lg_lines (l_log s'') = Some (visible (toLevel (getLevel (sint (opt_logLevel opt)))) ms)"
  by (rule log_run[OF assms])

theorem log_lines_in_order_witness:
  "\<exists>s s' s''. log_doStart default_options new_logSystem = Inr (0, s) \<and>
    log_all [(L_INFO, ''up''), (L_ERROR, ''down'')] s = Inr s' \<and>
    log_doDispatch s' = Some (Inr s'') \<and> contents (l_mqs s'') = [] \<and>
    map_option lg_lines (l_log s'') =
      Some (visible (toLevel (getLevel (sint (opt_logLevel default_options)))) [(L_INFO, ''up''), (L_ERROR, ''down'')])"
  by (rule log_lines_in_order) (simp_all add: default_options_def)

text \<open>With a log path the log system cannot be started: the file logger asks for a rotation at hour
  24, which its sink refuses by throwing, and nothing catches the exception.\<close>

theorem file_log_never_starts:
  "log_doStart (opt\<lparr>opt_logPath := Some path\<rparr>) new_logSystem = Inl ExitProcess"
  by (simp add: log_doStart_def new_logSystem_def new_logFile_def daily_file_sink_def)

text \<open>A log system that was shut down asserts on the next message; started again it takes messages,
  but its thread is still marked as shut down and ends at once.\<close>

lemma log_after_shutdown:
  "log_doLog l msg (log_doShutdown s) = Inl AssertFail"
  "opt_logPath opt = None \<Longrightarrow> \<exists>s'. log_doStart opt (log_doShutdown s) = Inr (0, s') \<and> m_shutdown (l_pid s')"
  by (simp_all add: log_doLog_def log_doShutdown_def log_doStart_def)

end
