(* ===== verification/Launcher.thy ===== *)
theory Launcher
  imports TextUtil
begin

text \<open>
  The life of the process: the launcher's \<open>main\<close> (\<open>launcher/src/main.cc\<close>), its daemon with the file of
  the process number (\<open>launcher/src/daemonOption.cc\<close>), the start, the loop and the end of the engine
  (\<open>engine/src/framework.cc\<close>) and its clock (\<open>engine/src/util/timestamp.h\<close>).  The operating system
  answers through parameters.
\<close>

section \<open>The loop\<close>

text \<open>\<open>getTime\<close>: hundredths of a second.\<close>

definition getTime :: "64 word \<Rightarrow> 64 word \<Rightarrow> 64 word" where
  "getTime sec nsec = sec * 100 + nsec div 10000000"

text \<open>
  \<open>startLoop\<close> on the clock readings it sees, each with what \<open>loop\<close> would answer then: the times at
  which \<open>loop\<close> is called, and whether it ended the loop.  A reading that is not later than the last
  call only sleeps.
\<close>

fun startLoop :: "int \<Rightarrow> (int \<times> bool) list \<Rightarrow> int list \<times> bool" where
  "startLoop bt [] = ([], False)"
| "startLoop bt ((ct, go) # rs) =
     (if ct \<le> bt then startLoop bt rs
      else if \<not> go then ([ct], True)
      else (let (ts, ended) = startLoop ct rs in (ct # ts, ended)))"


section \<open>Starting and stopping the engine\<close>

datatype part = LogPart | SchedulerPart | ActorPart | SocketPart

datatype sys_event =
    StartPart part | StopPart part | DumpListen | SetDirectory string | Initialize | Finalize | ClearFiles | UnloadOptions

text \<open>\<open>doInit\<close>: the arguments are the configuration, or \<open>None\<close> when it cannot be loaded, and what \<open>initialize\<close> answers.\<close>

definition framework_doInit :: "env option \<Rightarrow> bool \<Rightarrow> bool \<times> sys_event list" where
  "framework_doInit cfg initialize =
     (case cfg of
        None \<Rightarrow> (False, [])
      | Some e \<Rightarrow>
          (let started = [StartPart LogPart, DumpListen, SetDirectory (the (getString e ''directory'' (Some ''script/''))),
                          StartPart SchedulerPart, StartPart ActorPart, StartPart SocketPart, Initialize]
           in if \<not> initialize
              then (False, started @ [StopPart SocketPart, StopPart ActorPart, StopPart SchedulerPart,
                     StopPart LogPart, UnloadOptions])
              else (True, started)))"

definition framework_doUnInit :: "sys_event list" where
  "framework_doUnInit =
     [Finalize, StopPart SocketPart, StopPart ActorPart, StopPart SchedulerPart, StopPart LogPart,
      ClearFiles, UnloadOptions]"


section \<open>The daemon\<close>

text \<open>\<open>%d\<close> of a number that is not negative.\<close>

fun nat_digits :: "nat \<Rightarrow> string" where
  "nat_digits n =
     (if n < 10 then [char_of (n + 48)] else nat_digits (n div 10) @ [char_of (n mod 10 + 48)])"

declare nat_digits.simps [simp del]

text \<open>The local time as \<open>localtime\<close> gives it; the month counts from 0 and stays so in the name.\<close>

record local_time =
  tm_year :: nat
  tm_mon :: nat
  tm_mday :: nat
  tm_hour :: nat
  tm_min :: nat
  tm_sec :: nat

definition pid_file :: "local_time \<Rightarrow> string" where
  "pid_file t =
     connect_text (map nat_digits [tm_year t + 1900, tm_mon t, tm_mday t, tm_hour t, tm_min t, tm_sec t]) ''_'' @ ''.dmp''"

text \<open>
  The files of process numbers: what the number in a file is, if there is one; which files are
  locked; which processes live.
\<close>

record os =
  os_files :: "string \<rightharpoonup> int option"
  os_locked :: "string \<Rightarrow> bool"
  os_alive :: "int \<Rightarrow> bool"

definition local_check_pid :: "string \<Rightarrow> int \<Rightarrow> os \<Rightarrow> int" where
  "local_check_pid m_pidFile self w =
     (case os_files w m_pidFile of
        None \<Rightarrow> 0
      | Some None \<Rightarrow> 0
      | Some (Some pid) \<Rightarrow> if pid = 0 \<or> pid = self then 0 else if \<not> os_alive w pid then 0 else pid)"

text \<open>\<open>can_open\<close>: whether the file can be created and opened.\<close>

definition local_write_pid :: "string \<Rightarrow> int \<Rightarrow> bool \<Rightarrow> os \<Rightarrow> int \<times> os" where
  "local_write_pid m_pidFile self can_open w =
     (if \<not> can_open then (0, w)
      else if os_locked w m_pidFile then (0, w\<lparr>os_files := (os_files w)(m_pidFile :=
          (case os_files w m_pidFile of None \<Rightarrow> Some None | Some c \<Rightarrow> Some c))\<rparr>)
      else (self, w\<lparr>os_files := (os_files w)(m_pidFile \<mapsto> Some self), os_locked := (os_locked w)(m_pidFile := True)\<rparr>))"

text \<open>
  \<open>init\<close>: \<open>daemon\<close> continues in a child process, whose number is \<open>child\<close>; \<open>redirect\<close> says whether the
  standard streams could be sent to \<open>/dev/null\<close>.
\<close>

definition daemon_init :: "string \<Rightarrow> int \<Rightarrow> int option \<Rightarrow> bool \<Rightarrow> bool \<Rightarrow> os \<Rightarrow> int \<times> os" where
  "daemon_init m_pidFile self child can_open redirect w =
     (if local_check_pid m_pidFile self w \<noteq> 0 then (-1, w)
      else (case child of
          None \<Rightarrow> (-1, w)
        | Some c \<Rightarrow>
            (let (pid, w) = local_write_pid m_pidFile c can_open w
             in if pid = 0 then (-1, w) else if \<not> redirect then (-1, w) else (0, w))))"

definition daemon_exit :: "string \<Rightarrow> os \<Rightarrow> os" where
  "daemon_exit m_pidFile w = w\<lparr>os_files := (os_files w)(m_pidFile := None)\<rparr>"


section \<open>The launcher\<close>

text \<open>
  \<open>main\<close>: its arguments, the daemon's answers, whether the program holds a framework, the configuration
  for a path, what \<open>initialize\<close> answers, and the time of the start with the readings of the loop.  The
  result is the exit code, or \<open>None\<close> while the loop goes on, the events of the engine and the state
  of the system.
\<close>

definition run_main ::
    "string list \<Rightarrow> string \<Rightarrow> int \<Rightarrow> int option \<Rightarrow> bool \<Rightarrow> bool \<Rightarrow> bool \<Rightarrow> env option \<Rightarrow> bool \<Rightarrow>
     int \<Rightarrow> (int \<times> bool) list \<Rightarrow> os \<Rightarrow> int option \<times> sys_event list \<times> os" where
  "run_main args m_pidFile self child can_open redirect has_framework cfg initialize bt readings w =
     (case launcher_main args of
        ParseFailed \<Rightarrow> (Some (-1), [], w)
      | Help \<Rightarrow> (Some (-1), [], w)
      | Version \<Rightarrow> (Some (-1), [], w)
      | l \<Rightarrow>
          (let (r, w) = (if l = Daemon then daemon_init m_pidFile self child can_open redirect w else (0, w))
           in if r \<noteq> 0 then (Some (-1), [], w)
              else if \<not> has_framework then (Some 0, [], w)
              else
                (let (ok, evs) = framework_doInit cfg initialize
                 in if \<not> ok then (Some 0, evs, w)
                    else if \<not> snd (startLoop bt readings) then (None, evs, w)
                    else (Some 0, evs @ framework_doUnInit, if l = Daemon then daemon_exit m_pidFile w else w))))"


section \<open>Nesting of starts and stops\<close>

text \<open>The parts that run after some events, the last one started first; \<open>None\<close> when a part is stopped out of order.\<close>

fun running :: "sys_event list \<Rightarrow> part list \<Rightarrow> part list option" where
  "running [] ps = Some ps"
| "running (StartPart p # es) ps = running es (p # ps)"
| "running (StopPart p # es) ps = (case ps of q # qs \<Rightarrow> if q = p then running es qs else None | [] \<Rightarrow> None)"
| "running (e # es) ps = running es ps"


section \<open>Names of process files\<close>

definition digits_value :: "string \<Rightarrow> nat" where
  "digits_value s = foldl (\<lambda>v c. v * 10 + (of_char c - 48)) 0 s"

lemma digits_value_digits: "digits_value (nat_digits n) = n"
proof (induction n rule: nat_digits.induct)
  case (1 n)
  have digit: "of_char (char_of (k + 48)) - 48 = (k :: nat)" if "k < 10" for k
    using that by (simp add: take_bit_eq_mod)
  show ?case
  proof (cases "n < 10")
    case True
    then show ?thesis using digit[OF True] by (simp add: nat_digits.simps digits_value_def)
  next
    case False
    then have "digits_value (nat_digits n) = n div 10 * 10 + n mod 10"
      using 1[OF False] digit[of "n mod 10"] by (subst nat_digits.simps) (simp add: digits_value_def)
    then show ?thesis by simp
  qed
qed

lemma nat_digits_chars: "c \<in> set (nat_digits n) \<Longrightarrow> (48 :: nat) \<le> of_char c \<and> of_char c < (58 :: nat)"
proof (induction n rule: nat_digits.induct)
  case (1 n)
  then show ?case
    by (subst (asm) (2) nat_digits.simps) (auto simp: take_bit_eq_mod split: if_splits)
qed

lemma nat_digits_no_underscore: "CHR ''_'' \<notin> set (nat_digits n)"
  using nat_digits_chars[of "CHR ''_''" n] by auto

lemma pid_file_inj: "pid_file t = pid_file t' \<Longrightarrow> t = t'"
proof -
  assume eq: "pid_file t = pid_file t'"
  let ?fs = "\<lambda>t. [tm_year t + 1900, tm_mon t, tm_mday t, tm_hour t, tm_min t, tm_sec t]"
  have "connect_text (map nat_digits (?fs t)) ''_'' = connect_text (map nat_digits (?fs t')) ''_''"
    using eq by (simp only: pid_file_def append_same_eq)
  then have "map nat_digits (?fs t) = map nat_digits (?fs t')"
    using split_connect[of "map nat_digits (?fs t)" "CHR ''_''"] split_connect[of "map nat_digits (?fs t')" "CHR ''_''"]
    by (simp add: nat_digits_no_underscore del: connect_text.simps)
  then have "map (digits_value \<circ> nat_digits) (?fs t) = map (digits_value \<circ> nat_digits) (?fs t')"
    by (metis map_map)
  then have "?fs t = ?fs t'" by (simp add: digits_value_digits comp_def)
  then show "t = t'" by (cases t; cases t') simp
qed

lemma remdups_adj_sorted:
  "sorted (c # cs) \<Longrightarrow> remdups_adj (c # cs) = c # remdups_adj (filter (\<lambda>x. c < x) cs)" for c :: int
proof (induction cs)
  case (Cons d cs)
  show ?case
  proof (cases "c = d")
    case False
    then have "filter (\<lambda>x. c < x) (d # cs) = d # cs" using Cons(2) by (auto intro!: filter_True)
    then show ?thesis using False by simp
  qed (use Cons in simp)
qed simp

section \<open>Properties\<close>

text \<open>As long as \<open>loop\<close> goes on and the clock does not run backwards, it is called exactly once for
  each reading of the clock that is later than the start, however often the clock is looked at.\<close>

theorem loop_once_per_tick:
  assumes "sorted cts"
  shows "startLoop bt (map (\<lambda>ct. (ct, True)) cts) = (remdups_adj (filter (\<lambda>ct. bt < ct) cts), False)"
  using assms
proof (induction cts arbitrary: bt)
  case (Cons ct cts)
  show ?case
  proof (cases "ct \<le> bt")
    case False
    then have "filter (\<lambda>ct. bt < ct) (ct # cts) = ct # cts" using Cons(2) by (auto intro!: filter_True)
    then show ?thesis using Cons False remdups_adj_sorted[OF Cons(2)] by simp
  qed (use Cons in simp)
qed simp

theorem loop_once_per_tick_witness:
  "startLoop 5 (map (\<lambda>ct. (ct, True)) [5, 6, 6, 8]) = (remdups_adj (filter (\<lambda>ct. 5 < ct) [5, 6, 6, 8]), False)"
  by (rule loop_once_per_tick) simp

text \<open>In every run of the launcher the parts of the engine are stopped in the reverse order of
  their start, each once, before the process ends, whether the configuration loads, \<open>initialize\<close>
  fails or the loop ends; while the loop goes on they all run.\<close>

theorem parts_nested:
  "case run_main args file self child can_open redirect has_framework cfg initialize bt readings w of
     (code, evs, w') \<Rightarrow> running evs [] =
       Some (case code of None \<Rightarrow> [SocketPart, ActorPart, SchedulerPart, LogPart] | Some _ \<Rightarrow> [])"
  by (auto simp: run_main_def framework_doInit_def framework_doUnInit_def Let_def
      split: launch.splits option.splits prod.splits)

text \<open>The file that is to keep a second daemon from starting is named after the time of the start:
  while the first one lives, a second start is refused within the same second and succeeds in any
  other.\<close>

theorem second_daemon:
  assumes "os_files w (pid_file t) = None" and "os_files w (pid_file t') = None"
    and "os_locked w (pid_file t) = False" and "os_locked w (pid_file t') = False"
    and "c \<noteq> 0" and "c' \<noteq> 0" and "os_alive w c" and "self' \<noteq> c"
  shows "\<exists>w'. daemon_init (pid_file t) self (Some c) True True w = (0, w') \<and>
    fst (daemon_init (pid_file t') self' (Some c') True True w') = (if t' = t then -1 else 0)"
proof -
  define w' where "w' = w\<lparr>os_files := (os_files w)(pid_file t \<mapsto> Some c), os_locked := (os_locked w)(pid_file t := True)\<rparr>"
  have "daemon_init (pid_file t) self (Some c) True True w = (0, w')"
    using assms by (simp add: daemon_init_def local_check_pid_def local_write_pid_def w'_def)
  moreover have "fst (daemon_init (pid_file t') self' (Some c') True True w') = (if t' = t then -1 else 0)"
    using assms pid_file_inj[of t' t]
    by (auto simp: daemon_init_def local_check_pid_def local_write_pid_def w'_def Let_def)
  ultimately show ?thesis by blast
qed


definition demo_time :: local_time where
  "demo_time = \<lparr>tm_year = 119, tm_mon = 0, tm_mday = 7, tm_hour = 12, tm_min = 30, tm_sec = 0\<rparr>"

definition demo_os :: os where
  "demo_os = \<lparr>os_files = (\<lambda>_. None), os_locked = (\<lambda>_. False), os_alive = (\<lambda>p. p = 7)\<rparr>"

theorem second_daemon_witness:
  "\<exists>w'. daemon_init (pid_file demo_time) 6 (Some 7) True True demo_os = (0, w') \<and>
    fst (daemon_init (pid_file (demo_time\<lparr>tm_sec := 1\<rparr>)) 8 (Some 9) True True w') =
      (if demo_time\<lparr>tm_sec := 1\<rparr> = demo_time then -1 else 0)"
  by (rule second_daemon) (simp_all add: demo_os_def)

end
