(* ===== verification/Kqueue.thy ===== *)
theory Kqueue
  imports SocketSystem
begin

text \<open>
  The interface of the event pollers, \<open>engine/src/network/iocpWrap.h\<close>, as a contract, with its two
  implementations: \<open>iocpEpoll\<close> (theory \<open>SocketSystem\<close>) and \<open>iocpKqueue.cc\<close>.  A kqueue holds the two
  filters of a socket separately; what a call of \<open>kevent\<close> answers is a parameter.
\<close>

section \<open>The contract\<close>

text \<open>
  \<open>interest\<close> is what the poller watches of a socket: the data of its events and whether it waits for
  writing.  A new socket is only read; a socket that could not be registered is not watched.
\<close>

locale event_poller =
  fixes interest :: "'p \<Rightarrow> int \<Rightarrow> (nat option \<times> bool) option"
    and register :: "int \<Rightarrow> nat option \<Rightarrow> 'p \<Rightarrow> bool \<times> 'p"
    and unregister :: "int \<Rightarrow> 'p \<Rightarrow> 'p"
    and to_write :: "int \<Rightarrow> nat option \<Rightarrow> bool \<Rightarrow> 'p \<Rightarrow> 'p"
    and ok :: "'p \<Rightarrow> bool"
  assumes register_new: "ok p \<Longrightarrow> interest p sock = None \<Longrightarrow>
      interest (snd (register sock ud p)) =
        (interest p)(sock := if fst (register sock ud p) then Some (ud, False) else None)"
    and unregister_gone: "ok p \<Longrightarrow> interest (unregister sock p) = (interest p)(sock := None)"
    and to_write_known: "ok p \<Longrightarrow> interest p sock = Some (ud, w) \<Longrightarrow>
      interest (to_write sock ud enable p) = (interest p)(sock \<mapsto> (ud, enable))"
    and ok_register: "ok p \<Longrightarrow> interest p sock = None \<Longrightarrow> ok (snd (register sock ud p))"
    and ok_unregister: "ok p \<Longrightarrow> ok (unregister sock p)"
    and ok_to_write: "ok p \<Longrightarrow> interest p sock = Some (ud, w) \<Longrightarrow> ok (to_write sock ud enable p)"
begin

text \<open>The life of a socket in a poller leaves no trace.\<close>

lemma life_of_socket:
  assumes "ok p" and "interest p sock = None" and "register sock ud p = (True, p1)"
  shows "interest (to_write sock ud True p1) sock = Some (ud, True) \<and>
    interest (unregister sock (to_write sock ud True p1)) = interest p"
proof -
  have p1: "interest p1 = (interest p)(sock \<mapsto> (ud, False))" "ok p1"
    using register_new[OF assms(1,2), of ud] ok_register[OF assms(1,2), of ud] assms(3) by simp_all
  then have known: "interest p1 sock = Some (ud, False)" by simp
  show ?thesis
    using p1(1) assms(2) to_write_known[OF p1(2) known] unregister_gone[OF ok_to_write[OF p1(2) known]]
    by (auto simp: fun_eq_iff)
qed

end

interpretation ep: event_poller "\<lambda>e. e" "ep_doRegister True" ep_doUnRegister ep_doToWrite "\<lambda>_. True"
  by unfold_locales (auto simp: ep_doRegister_def ep_doUnRegister_def ep_doToWrite_def domIff fun_eq_iff)


section \<open>kqueue\<close>

text \<open>The read filters with their data, the write filters with their data and whether they are enabled.\<close>

record kqueue =
  kq_read :: "int \<rightharpoonup> nat option"
  kq_write :: "int \<rightharpoonup> nat option \<times> bool"

text \<open>\<open>ok1\<close>, \<open>ok2\<close> and \<open>ok3\<close> say whether the three calls of \<open>kevent\<close> that can fail succeed.  Adding a write
  filter enables it.\<close>

definition kq_doUnRegister :: "int \<Rightarrow> kqueue \<Rightarrow> kqueue" where
  "kq_doUnRegister sock p = p\<lparr>kq_read := (kq_read p)(sock := None), kq_write := (kq_write p)(sock := None)\<rparr>"

definition kq_doRegister :: "bool \<Rightarrow> bool \<Rightarrow> bool \<Rightarrow> int \<Rightarrow> nat option \<Rightarrow> kqueue \<Rightarrow> bool \<times> kqueue" where
  "kq_doRegister ok1 ok2 ok3 sock ud p =
     (if \<not> ok1 then (False, p)
      else
        let p = p\<lparr>kq_read := (kq_read p)(sock \<mapsto> ud)\<rparr> in
        if \<not> ok2 then (False, p\<lparr>kq_read := (kq_read p)(sock := None)\<rparr>)
        else
          let p = p\<lparr>kq_write := (kq_write p)(sock \<mapsto> (ud, True))\<rparr> in
          if \<not> ok3 then (False, kq_doUnRegister sock p)
          else (True, p\<lparr>kq_write := (kq_write p)(sock \<mapsto> (ud, False))\<rparr>))"

definition kq_doToWrite :: "int \<Rightarrow> nat option \<Rightarrow> bool \<Rightarrow> kqueue \<Rightarrow> kqueue" where
  "kq_doToWrite sock ud enable p =
     (if kq_write p sock \<noteq> None then p\<lparr>kq_write := (kq_write p)(sock \<mapsto> (ud, enable))\<rparr> else p)"

text \<open>An event as the kernel reports it: its data, whether it is of the write filter, the flags \<open>EV_EOF\<close> and \<open>EV_ERROR\<close>.\<close>

record kevent =
  ke_udata :: "nat option"
  ke_write :: bool
  ke_eof :: bool
  ke_error :: bool

definition kq_event_of :: "kevent \<Rightarrow> iocpEvent" where
  "kq_event_of e =
     \<lparr>ev_s = ke_udata e, ev_isread = (\<not> ke_write e \<and> \<not> ke_eof e), ev_iswrite = (ke_write e \<and> \<not> ke_eof e),
      ev_iserror = ke_error e, ev_iseof = ke_eof e\<rparr>"

definition kq_onWait :: "bool \<Rightarrow> kevent list \<Rightarrow> iocpEvent list \<Rightarrow> int \<times> iocpEvent list" where
  "kq_onWait eintr got evts =
     (if got = [] then (if eintr then -2 else -1, evts)
      else (int (length got), map kq_event_of got @ drop (length got) evts))"


section \<open>kqueue as a poller\<close>

definition kq_interest :: "kqueue \<Rightarrow> int \<Rightarrow> (nat option \<times> bool) option" where
  "kq_interest p sock =
     (case kq_read p sock of
        None \<Rightarrow> None
      | Some ud \<Rightarrow> Some (ud, case kq_write p sock of None \<Rightarrow> False | Some (_, en) \<Rightarrow> en))"

text \<open>The two filters of a socket come and go together and carry the same data.\<close>

definition kq_ok :: "kqueue \<Rightarrow> bool" where
  "kq_ok p \<longleftrightarrow> kq_read p = (\<lambda>sock. map_option fst (kq_write p sock))"

lemmas kq_defs = kq_doRegister_def kq_doUnRegister_def kq_doToWrite_def kq_ok_def kq_interest_def

lemma kq_interest_write: "kq_ok p \<Longrightarrow> kq_interest p = kq_write p"
  by (rule ext) (auto simp: kq_defs split: option.splits)

lemma kq_ok_ops:
  "kq_ok p \<Longrightarrow> kq_write p sock = None \<Longrightarrow> kq_ok (snd (kq_doRegister ok1 ok2 ok3 sock ud p))"
  "kq_ok p \<Longrightarrow> kq_ok (kq_doUnRegister sock p)"
  "kq_ok p \<Longrightarrow> kq_write p sock = Some (ud, w) \<Longrightarrow> kq_ok (kq_doToWrite sock ud enable p)"
  by (auto simp: kq_defs Let_def fun_eq_iff)

lemma kq_write_ops:
  "kq_write p sock = None \<Longrightarrow> kq_write (snd (kq_doRegister ok1 ok2 ok3 sock ud p)) =
     (kq_write p)(sock := if fst (kq_doRegister ok1 ok2 ok3 sock ud p) then Some (ud, False) else None)"
  "kq_write (kq_doUnRegister sock p) = (kq_write p)(sock := None)"
  "kq_write p sock = Some (ud, w) \<Longrightarrow> kq_write (kq_doToWrite sock ud enable p) = (kq_write p)(sock \<mapsto> (ud, enable))"
  by (auto simp: kq_defs Let_def fun_eq_iff)

interpretation kq: event_poller kq_interest "kq_doRegister ok1 ok2 ok3" kq_doUnRegister kq_doToWrite kq_ok
  by unfold_locales (simp_all add: kq_interest_write kq_ok_ops kq_write_ops)


section \<open>Properties\<close>


definition demo_kqueue :: kqueue where
  "demo_kqueue = \<lparr>kq_read = [5 \<mapsto> Some 1], kq_write = [5 \<mapsto> (Some 1, False)]\<rparr>"


text \<open>But kqueue hides what can still be read of a socket whose other side has closed it: the
  event of such a socket is no read event, so \<open>doPoll\<close> closes it without a \<open>recv\<close>, whatever bytes
  are waiting; the actor gets \<open>CLOSE\<close> and no data.  The same event under epoll is received.\<close>

theorem kqueue_drops_last_bytes:
  assumes "m_state (m_sockGroup s i) = CONNECTED" and "ke_eof e" and "\<not> ke_error e"
    and "k_close k (m_sock (m_sockGroup s i)) \<noteq> None"
  shows "\<exists>s'. poll_event k (kq_event_of e) i s = Inr (False, s') \<and>
    sent_events s' = sent_events s @ [(m_opaque (m_sockGroup s i), onSocket M_SOCKET_CLOSE (m_handle (m_sockGroup s i)) 0 None 0)] \<and>
    m_state (m_sockGroup s' i) = INVALID \<and>
    poll_event k (event_of (ke_udata e, EPOLLIN OR EPOLLHUP)) i s = seqE (doRecvProc k i s) (\<lambda>(type, s). Inr (False, s))"
proof -
  let ?sk = "m_sockGroup s i"
  obtain s1 where s1: "forceClose k i s = Inr s1"
    using assms(1,4) by (auto simp: forceClose_def doClose_def Let_def)
  from forceClose_Inr[OF s1] obtain sk' where sk': "m_sockGroup s1 = (m_sockGroup s)(i := sk')" "m_state sk' = INVALID"
    "sent_events s1 = sent_events s" by blast
  have "poll_event k (kq_event_of e) i s =
      Inr (False, emit M_SOCKET_CLOSE (m_opaque ?sk) (m_handle ?sk) 0 None 0 s1)"
    using assms(1-3) s1 by (simp add: poll_event_def kq_event_of_def Let_def)
  moreover have "poll_event k (event_of (ke_udata e, EPOLLIN OR EPOLLHUP)) i s = seqE (doRecvProc k i s) (\<lambda>(type, s). Inr (False, s))"
    using assms(1) by (simp add: poll_event_def event_of_def Let_def EPOLLIN_def EPOLLOUT_def EPOLLHUP_def)
  ultimately show ?thesis using sk' by (intro exI conjI) (auto simp: emit_def)
qed


theorem kqueue_drops_last_bytes_witness:
  "\<exists>s'. poll_event demo_kernel (kq_event_of \<lparr>ke_udata = Some 3, ke_write = False, ke_eof = True, ke_error = False\<rparr>) 3 demo_sys =
      Inr (False, s') \<and>
    sent_events s' = sent_events demo_sys @
      [(m_opaque (m_sockGroup demo_sys 3), onSocket M_SOCKET_CLOSE (m_handle (m_sockGroup demo_sys 3)) 0 None 0)] \<and>
    m_state (m_sockGroup s' 3) = INVALID \<and>
    poll_event demo_kernel
        (event_of (ke_udata \<lparr>ke_udata = Some 3, ke_write = False, ke_eof = True, ke_error = False\<rparr>, EPOLLIN OR EPOLLHUP)) 3 demo_sys =
      seqE (doRecvProc demo_kernel 3 demo_sys) (\<lambda>(type, s). Inr (False, s))"
  by (rule kqueue_drops_last_bytes) (simp_all add: demo_sys_def demo_kernel_def set_slot_def)

end
