(* ===== verification/Delivery.thy ===== *)
theory Delivery
  imports ActorMail SocketApi Memory
begin

text \<open>
  How the parts meet: the message the socket system makes of a socket event is sent to the actor that
  owns the socket (\<open>forwardMessage\<close> of \<open>engine/src/network/socketSystem.cc\<close>), waits in its mailbox,
  and is handled by the protocol of the socket API.  A \<open>socketMessage\<close> travels as the memory it lies
  in; \<open>encode\<close> is its layout there and \<open>decode\<close> the view of the handler.
\<close>

definition M_ID_SOCKET :: "32 word" where "M_ID_SOCKET = 5"

definition SOCKET_MESSAGE_SIZE :: "64 word" where "SOCKET_MESSAGE_SIZE = 24"

text \<open>
  \<open>forwardMessage\<close> for a message in the block \<open>a\<close> whose buffer is the block \<open>b\<close>: what cannot be
  sent is freed.
\<close>

definition forwardMessage ::
    "actor_table \<Rightarrow> (nat \<Rightarrow> message \<Rightarrow> 's \<Rightarrow> 's) \<Rightarrow> 8 word list \<Rightarrow> nat \<Rightarrow> 8 word list \<Rightarrow> nat \<Rightarrow> nat option \<Rightarrow> 's \<Rightarrow> mem \<Rightarrow>
     (bool \<times> 's \<times> mem) res" where
  "forwardMessage t push junk opq payload a b s m =
     seqE (doSendMessageTo t push junk 0 (of_nat opq) M_ID_SOCKET 0 (Some payload) SOCKET_MESSAGE_SIZE s) (\<lambda>(r, s).
       if r \<noteq> 0 then
         seqE (memory_free b m) (\<lambda>m. seqE (memory_free (Some a) m) (\<lambda>m. Inr (False, s, m)))
       else Inr (True, s, m))"

text \<open>The mailboxes of the actors.\<close>

definition push_mail :: "nat \<Rightarrow> message \<Rightarrow> (nat \<Rightarrow> message actor) \<Rightarrow> nat \<Rightarrow> message actor" where
  "push_mail obj msg mail = mail(obj := push_message (mail obj) msg)"

text \<open>The message of a socket event in the mailbox of its actor.\<close>

definition socket_mail :: "8 word list \<Rightarrow> nat \<Rightarrow> 8 word list \<Rightarrow> message" where
  "socket_mail junk opq payload =
     getMessage junk (ucast M_ID_SOCKET) 0 (of_nat opq) 0 (Some payload) SOCKET_MESSAGE_SIZE"

lemma forward_live:
  assumes "0 < opq" and "opq < 2 ^ 32" and "getGrab t opq = Some obj"
  shows "forwardMessage t push_mail junk opq payload a b mail m =
     Inr (True, mail(obj := (mail obj)\<lparr>m_mqs := m_mqs (mail obj) @ [socket_mail junk opq payload]\<rparr>), m)"
proof -
  have "unat (of_nat opq :: 32 word) = opq" using assms(2) by (simp add: unat_of_nat take_bit_nat_eq_self)
  moreover have "(of_nat opq :: 32 word) \<noteq> 0" using assms(1) calculation by auto
  ultimately show ?thesis using assms(3)
    by (simp add: forwardMessage_def doSendMessageTo_def send_data_def SOCKET_MESSAGE_SIZE_def doSendMessage_def
        message_roundtrip push_mail_def push_message_def socket_mail_def)
qed

lemma forward_dead:
  assumes "0 < opq" and "opq < 2 ^ 32" and "getGrab t opq = None" and "a \<noteq> b"
    and "mb_sizes m a = Some n" and "mb_sizes m b = Some n'"
  shows "\<exists>m'. forwardMessage t push junk opq payload a (Some b) mail m = Inr (False, mail, m') \<and>
     mb_sizes m' = (mb_sizes m)(a := None, b := None)"
proof -
  have "unat (of_nat opq :: 32 word) = opq" using assms(2) by (simp add: unat_of_nat take_bit_nat_eq_self)
  moreover have "(of_nat opq :: 32 word) \<noteq> 0" using assms(1) calculation by auto
  ultimately show ?thesis using assms(3-6)
    by (auto simp: forwardMessage_def doSendMessageTo_def send_data_def SOCKET_MESSAGE_SIZE_def doSendMessage_def
        message_roundtrip memory_free_def cleanPrefix_def Let_def fun_eq_iff)
qed

section \<open>Properties\<close>


text \<open>A layout for the witness: the three numbers and the bytes, one after the other.\<close>

definition demo_encode :: "socketMessage \<Rightarrow> 8 word list" where
  "demo_encode x = le32 (of_int (sm_id x)) @ le32 (of_int (sm_type x)) @ le32 (of_int (sm_ext x)) @
     (case sm_buffer x of None \<Rightarrow> [] | Some d \<Rightarrow> d)"

definition demo_decode :: "8 word list \<Rightarrow> socketMessage" where
  "demo_decode p = \<lparr>sm_id = sint (of_le32 (take 4 p)), sm_type = sint (of_le32 (take 4 (drop 4 p))),
     sm_ext = sint (of_le32 (take 4 (drop 8 p))), sm_buffer = Some (drop 12 p)\<rparr>"

definition demo_mem :: mem where
  "demo_mem = \<lparr>mb_sizes = [1 \<mapsto> 24, 2 \<mapsto> 3], mb_used = 2\<rparr>"

lemma demo_layout:
  "demo_decode (demo_encode \<lparr>sm_id = 3, sm_type = 1, sm_ext = 3, sm_buffer = Some d\<rparr>) =
     \<lparr>sm_id = 3, sm_type = 1, sm_ext = 3, sm_buffer = Some d\<rparr>"
proof -
  have len: "length (le32 w) = 4" for w by (simp add: le32_def)
  show ?thesis by (simp add: demo_decode_def demo_encode_def len of_le32_le32)
qed


end
