(* ===== verification/SysLog.thy ===== *)
theory SysLog
  imports LogSystem "HOL-Library.Word"
begin

text \<open>
  The macros \<open>SYSLOG\<close> and \<open>SYSLOG0\<close> of \<open>engine/src/base.h\<close> for a text without further arguments, and
  what the bundled formatting library (\<open>3rd/cppformat-master/format.cc\<close>) makes of such a text: there
  is no argument a replacement field could stand for, so every one of them throws.
\<close>

section \<open>Formatting a text without arguments\<close>

text \<open>\<open>None\<close> is an exception.  Doubled braces become one, any other brace starts or ends a field.\<close>

definition is_brace :: "char \<Rightarrow> bool" where
  "is_brace c \<longleftrightarrow> c = CHR ''{'' \<or> c = CHR ''}''"

fun fmt_text :: "string \<Rightarrow> string option" where
  "fmt_text [] = Some []"
| "fmt_text [c] = (if is_brace c then None else Some [c])"
| "fmt_text (c # d # cs) =
     (if \<not> is_brace c then map_option ((#) c) (fmt_text (d # cs))
      else if d = c then map_option ((#) c) (fmt_text cs)
      else None)"

text \<open>The format \<open>{:08x}\<close> of a handle.\<close>

definition hex8 :: "32 word \<Rightarrow> string" where
  "hex8 w = map (\<lambda>i. ''0123456789abcdef'' ! unat (take_bit 4 (drop_bit (4 * i) w))) [7, 6, 5, 4, 3, 2, 1, 0]"


section \<open>The macros\<close>

definition sys_header :: "32 word \<Rightarrow> string" where
  "sys_header source = (if source = 0 then ''[:system] '' else ''[:'' @ hex8 source @ ''] '')"

text \<open>
  \<open>loc\<close> is \<open>[function:file:line]\<close> of the place of the call.  A text is a C string; \<open>None\<close> is a null
  pointer, which the formatting reads.
\<close>

definition SYSLOG0 :: "32 word \<Rightarrow> logLevel \<Rightarrow> string option \<Rightarrow> string \<Rightarrow> logSystem \<Rightarrow> logSystem res" where
  "SYSLOG0 source level text loc s =
     (case text of
        None \<Rightarrow> Inl NullDeref
      | Some t \<Rightarrow>
          (case fmt_text (c_str t) of
             Some body \<Rightarrow> log_doLog level (sys_header source @ body @ loc) s
           | None \<Rightarrow> log_doLog level (''[:system] '' @ ''format error'' @ loc) s))"

definition SYSLOG :: "32 word \<Rightarrow> logLevel \<Rightarrow> string option \<Rightarrow> string \<Rightarrow> logSystem \<Rightarrow> logSystem res" where
  "SYSLOG source level text loc s =
     (let header = sys_header source in
      case text of
        None \<Rightarrow> Inl NullDeref
      | Some t \<Rightarrow>
          (case fmt_text (c_str t) of
             Some body \<Rightarrow> log_doLog level (header @ body) s
           | None \<Rightarrow> seqE (SYSLOG0 source level text loc s) (log_doLog level header)))"


section \<open>Texts and their format\<close>

text \<open>The text whose format is \<open>t\<close>.\<close>

definition escape :: "string \<Rightarrow> string" where
  "escape t = concat (map (\<lambda>c. if is_brace c then [c, c] else [c]) t)"

lemma fmt_text_Cons: "\<not> is_brace c \<Longrightarrow> fmt_text (c # cs) = map_option ((#) c) (fmt_text cs)"
  by (cases cs) simp_all

lemma fmt_escape: "fmt_text (escape t) = Some t"
  by (induction t) (auto simp: escape_def fmt_text_Cons)

lemma escape_of_fmt: "fmt_text s = Some t \<Longrightarrow> s = escape t"
  by (induction s arbitrary: t rule: fmt_text.induct) (auto simp: escape_def split: if_splits)

lemma fmt_text_iff: "fmt_text s = Some t \<longleftrightarrow> s = escape t"
  using fmt_escape escape_of_fmt by blast

lemma escape_plain: "list_all (\<lambda>c. \<not> is_brace c) t \<Longrightarrow> escape t = t"
  by (induction t) (auto simp: escape_def)

lemma hex8_len: "length (hex8 w) = 8"
  by (simp add: hex8_def)

lemma hex_digit_inj:
  assumes "i < 16" and "j < 16" and "''0123456789abcdef'' ! i = ''0123456789abcdef'' ! j"
  shows "i = j"
proof -
  have "distinct ''0123456789abcdef''" "length ''0123456789abcdef'' = 16" by simp_all
  then show ?thesis using assms nth_eq_iff_index_eq by metis
qed

lemma hex8_inj: "hex8 v = hex8 w \<Longrightarrow> v = w"
proof -
  assume eq: "hex8 v = hex8 w"
  have nib: "take_bit 4 (drop_bit (4 * i) v) = take_bit 4 (drop_bit (4 * i) w)" if "i \<in> {0, 1, 2, 3, 4, 5, 6, 7}" for i
  proof -
    have "''0123456789abcdef'' ! unat (take_bit 4 (drop_bit (4 * i) v)) = ''0123456789abcdef'' ! unat (take_bit 4 (drop_bit (4 * i) w))"
      using eq that by (auto simp: hex8_def simp del: nth_Cons_numeral)
    moreover have "unat (take_bit 4 (x :: 32 word)) < 16" for x
      using take_bit_nat_less_exp[of 4 "unat x"] by (simp add: unsigned_take_bit_eq)
    ultimately show ?thesis using hex_digit_inj word_unat_eq_iff by blast
  qed
  show "v = w"
  proof (rule bit_word_eqI)
    fix n assume "n < LENGTH(32)"
    then have n: "n < 32" "n div 4 \<in> {0, 1, 2, 3, 4, 5, 6, 7}" "n mod 4 < 4" "4 * (n div 4) + n mod 4 = n" by auto
    have "bit (take_bit 4 (drop_bit (4 * (n div 4)) v)) (n mod 4) = bit (take_bit 4 (drop_bit (4 * (n div 4)) w)) (n mod 4)"
      using nib[OF n(2)] by simp
    then show "bit v n = bit w n" using n(3,4) by (simp add: bit_take_bit_iff bit_drop_bit_eq)
  qed
qed

lemma c_str_append: "c_str (s @ t) = (if CHR 0x00 \<in> set s then c_str s else s @ c_str t)"
  by (induction s) (auto simp: c_str_def)

lemma c_str_id: "CHR 0x00 \<notin> set s \<Longrightarrow> c_str s = s"
  by (auto simp: c_str_def takeWhile_eq_all_conv)

text \<open>What is logged for a text.\<close>

definition syslog_lines :: "32 word \<Rightarrow> logLevel \<Rightarrow> string \<Rightarrow> string \<Rightarrow> (logLevel \<times> string) list" where
  "syslog_lines source level t loc =
     (case fmt_text (c_str t) of
        Some body \<Rightarrow> [(level, sys_header source @ body)]
      | None \<Rightarrow> [(level, ''[:system] '' @ ''format error'' @ loc), (level, sys_header source)])"

lemma SYSLOG_lines: "SYSLOG source level (Some t) loc s = log_all (syslog_lines source level t loc) s"
proof -
  have ret: "seqE r Inr = r" for r :: "logSystem res" by (cases r) simp_all
  have nil: "log_all [] = Inr" by (rule ext) simp
  have one: "log_all [(l, m)] = log_doLog l m" for l m by (rule ext) (simp add: nil ret)
  show ?thesis
    by (cases "fmt_text (c_str t)") (simp_all add: SYSLOG_def SYSLOG0_def syslog_lines_def Let_def one nil ret del: append.simps)
qed

lemma log_all_append: "log_all (xs @ ys) s = seqE (log_all xs s) (log_all ys)"
proof (induction xs arbitrary: s)
  case (Cons x xs)
  then show ?case by (cases x; cases "log_doLog (fst x) (snd x) s") simp_all
qed simp

lemma SYSLOG_two:
  "seqE (SYSLOG h1 l1 (Some t1) loc1 s) (SYSLOG h2 l2 (Some t2) loc2) =
     log_all (syslog_lines h1 l1 t1 loc1 @ syslog_lines h2 l2 t2 loc2) s"
proof -
  have "SYSLOG h2 l2 (Some t2) loc2 = log_all (syslog_lines h2 l2 t2 loc2)" by (rule ext) (rule SYSLOG_lines)
  then show ?thesis by (simp add: SYSLOG_lines log_all_append)
qed

end
