(* ===== verification/LuaCore.thy ===== *)
theory LuaCore
  imports LuaStack SysLog Delivery
begin

text \<open>
  The functions a Lua script of an actor calls: \<open>engine/src/lualib/auto/luaCoreAuto.cc\<close>, with the
  entry \<open>luaStack::init\<close> makes in the registry.  The functions of the bundled Lua they use convert
  the values on the stack (\<open>3rd/lua/src/lapi.c\<close>, \<open>lauxlib.c\<close>).
\<close>

section \<open>Arguments\<close>

text \<open>A Lua error, which \<open>luaL_error\<close> and the checks of arguments raise, is \<open>None\<close>.\<close>

type_synonym 'a lua = "'a option res"

definition luaE :: "'a lua \<Rightarrow> ('a \<Rightarrow> 'b lua) \<Rightarrow> 'b lua" where
  "luaE m f = seqE m (\<lambda>r. case r of None \<Rightarrow> Inr None | Some x \<Rightarrow> f x)"

text \<open>
  \<open>num\<close> is the number a value converts to, cut towards zero: \<open>None\<close> for a value that is no number.
  \<open>cvt\<close> is the conversion of strings as in \<open>LuaStack\<close>, \<open>show\<close> the text of a number.
\<close>

definition luaL_checknumber :: "(lval \<Rightarrow> int option) \<Rightarrow> lval list \<Rightarrow> int \<Rightarrow> int lua" where
  "luaL_checknumber num st i = seqE (lua_get st i) (\<lambda>v. Inr (num v))"

definition luaL_checkinteger :: "(string \<Rightarrow> int option option) \<Rightarrow> lval list \<Rightarrow> int \<Rightarrow> int lua" where
  "luaL_checkinteger cvt st i =
     seqE (lua_get st i) (\<lambda>v. Inr (case v of
         LNum n \<Rightarrow> n
       | LStr s \<Rightarrow> (case cvt s of Some (Some i) \<Rightarrow> Some i | _ \<Rightarrow> None)
       | _ \<Rightarrow> None))"

definition lua_tonumber :: "(lval \<Rightarrow> int option) \<Rightarrow> lval list \<Rightarrow> int \<Rightarrow> int res" where
  "lua_tonumber num st i = seqE (lua_get st i) (\<lambda>v. Inr (case num v of None \<Rightarrow> 0 | Some n \<Rightarrow> n))"

definition lua_touserdata :: "lval list \<Rightarrow> int \<Rightarrow> nat option res" where
  "lua_touserdata st i = seqE (lua_get st i) (\<lambda>v. Inr (case v of LUser p \<Rightarrow> Some p | _ \<Rightarrow> None))"

text \<open>A number on the stack becomes the string.\<close>

definition lua_tostring :: "(int option \<Rightarrow> string) \<Rightarrow> lval list \<Rightarrow> int \<Rightarrow> (string option \<times> lval list) res" where
  "lua_tostring show st i =
     seqE (lua_at st i) (\<lambda>k.
       Inr (case st ! k of
         LStr s \<Rightarrow> (Some s, st)
       | LNum n \<Rightarrow> (Some (show n), st[k := LStr (show n)])
       | _ \<Rightarrow> (None, st)))"

text \<open>The conversions of a \<open>double\<close> to \<open>uint32_t\<close>, \<open>size_t\<close> and \<open>int\<close>.\<close>

definition to_u32 :: "int \<Rightarrow> 32 word res" where
  "to_u32 n = seqE (checkE (0 \<le> n \<and> n < 2 ^ 32) BadConversion) (\<lambda>_. Inr (word_of_int n))"

definition to_u64 :: "int \<Rightarrow> 64 word res" where
  "to_u64 n = seqE (checkE (0 \<le> n \<and> n < 2 ^ 64) BadConversion) (\<lambda>_. Inr (word_of_int n))"

definition to_i32 :: "int \<Rightarrow> int res" where
  "to_i32 n = seqE (checkE (- (2 ^ 31) \<le> n \<and> n < 2 ^ 31) BadConversion) (\<lambda>_. Inr n)"


section \<open>The actor of a Lua state\<close>

definition LUA_STACK_FIX_ACTOR :: string where
  "LUA_STACK_FIX_ACTOR = ''luastack_fix_type_acotr''"

definition lua_rawset :: "(lval \<Rightarrow> lval) \<Rightarrow> lval list \<Rightarrow> ((lval \<Rightarrow> lval) \<times> lval list) res" where
  "lua_rawset registry st =
     seqE (lua_get st (-2)) (\<lambda>key. seqE (lua_get st (-1)) (\<lambda>v. seqE (lua_pop 2 st) (\<lambda>st.
       Inr (registry(key := v), st))))"

definition stack_init :: "nat \<Rightarrow> (lval \<Rightarrow> lval) \<Rightarrow> lval list \<Rightarrow> ((lval \<Rightarrow> lval) \<times> lval list) res" where
  "stack_init stk registry st = lua_rawset registry (st @ [LStr LUA_STACK_FIX_ACTOR] @ [LUser stk])"

text \<open>\<open>m_aptr\<close> gives the actor of a \<open>luaStack\<close>.\<close>

definition lua_core_get_actor ::
    "(nat \<Rightarrow> nat) \<Rightarrow> (lval \<Rightarrow> lval) \<Rightarrow> lval list \<Rightarrow> (nat \<times> lval list) res" where
  "lua_core_get_actor m_aptr registry st =
     (let st = st @ [registry (LStr LUA_STACK_FIX_ACTOR)] in
      seqE (lua_touserdata st (-1)) (\<lambda>stk.
        case stk of
          None \<Rightarrow> Inl NullDeref
        | Some p \<Rightarrow> seqE (lua_pop 1 st) (\<lambda>st. Inr (m_aptr p, st))))"


section \<open>The functions\<close>

text \<open>\<open>send(destination, session, type [, data [, size]])\<close>; \<open>heap\<close> gives the bytes of a userdata.\<close>

definition lua_core_actor_send ::
    "(nat \<Rightarrow> nat) \<Rightarrow> (lval \<Rightarrow> lval) \<Rightarrow> (lval \<Rightarrow> int option) \<Rightarrow> (string \<Rightarrow> int option option) \<Rightarrow> (nat \<Rightarrow> 8 word list) \<Rightarrow>
     actor_table \<Rightarrow> (nat \<Rightarrow> message \<Rightarrow> 's \<Rightarrow> 's) \<Rightarrow> 8 word list \<Rightarrow> lval list \<Rightarrow> 's \<Rightarrow> (nat \<times> lval list \<times> 's) lua" where
  "lua_core_actor_send m_aptr registry num cvt heap t push junk st s =
     seqE (lua_core_get_actor m_aptr registry st) (\<lambda>(cobj, st).
       let argc = int (length st) - 1 in
       if argc \<ge> 3 then
         luaE (luaL_checknumber num st 2) (\<lambda>d. seqE (to_u32 d) (\<lambda>dest.
         luaE (luaL_checkinteger cvt st 3) (\<lambda>session.
         luaE (luaL_checkinteger cvt st 4) (\<lambda>type.
         seqE (if argc \<ge> 4 then seqE (lua_touserdata st 5) (\<lambda>p. Inr (map_option heap p)) else Inr (Some [0])) (\<lambda>data.
         luaE (if argc \<ge> 5 then luaE (luaL_checknumber num st 6) (\<lambda>d. seqE (to_u64 d) (\<lambda>sz. Inr (Some sz))) else Inr (Some 0)) (\<lambda>sz.
           seqE (doSendMessageTo t push junk (of_nat (hnd t cobj)) dest (word_of_int type) (word_of_int session) data sz s)
             (\<lambda>(r, s). Inr (Some (1, st @ [LNum (Some r)], s)))))))))
       else Inr None)"

definition logout_level :: "int \<Rightarrow> logLevel" where
  "logout_level type =
     (if type = level_code L_INFO then L_INFO
      else if type = level_code L_ERROR then L_ERROR
      else if type = level_code L_TRACE then L_TRACE
      else if type = level_code L_WARNING then L_WARNING
      else if type = level_code L_DEBUG then L_DEBUG
      else if type = level_code L_FATAL then L_FATAL
      else L_INFO)"

text \<open>\<open>logout(text, level)\<close>; \<open>loc\<close> is the place of the macro.\<close>

definition lua_core_actor_logout ::
    "(nat \<Rightarrow> nat) \<Rightarrow> (lval \<Rightarrow> lval) \<Rightarrow> (lval \<Rightarrow> int option) \<Rightarrow> (int option \<Rightarrow> string) \<Rightarrow> (nat \<Rightarrow> nat) \<Rightarrow> string \<Rightarrow>
     lval list \<Rightarrow> logSystem \<Rightarrow> (nat \<times> lval list \<times> logSystem) lua" where
  "lua_core_actor_logout m_aptr registry num show handle loc st s =
     seqE (lua_core_get_actor m_aptr registry st) (\<lambda>(cobj, st).
       let argc = int (length st) - 1 in
       if argc = 2 then
         seqE (lua_tonumber num st 3) (\<lambda>d. seqE (to_i32 d) (\<lambda>type.
           seqE (lua_tostring show st 2) (\<lambda>(text, st).
             seqE (SYSLOG (of_nat (handle cobj)) (logout_level type) text loc s) (\<lambda>s. Inr (Some (0, st, s))))))
       else Inr None)"

text \<open>\<open>exit()\<close>: also whether the actor enters the collector.\<close>

definition lua_core_actor_exit ::
    "(nat \<Rightarrow> nat) \<Rightarrow> (lval \<Rightarrow> lval) \<Rightarrow> lval list \<Rightarrow> (nat \<Rightarrow> 'm actor) \<Rightarrow> (nat \<times> bool \<times> (nat \<Rightarrow> 'm actor)) lua" where
  "lua_core_actor_exit m_aptr registry st actors =
     seqE (lua_core_get_actor m_aptr registry st) (\<lambda>(cobj, st).
       let argc = int (length st) - 1 in
       if argc = 0 then
         (let (enter, a) = actor_doExit (actors cobj) in Inr (Some (0, enter, actors(cobj := a))))
       else Inr None)"

text \<open>
  \<open>new(name, parameter)\<close>: the name must be a string or a number.  \<open>create\<close> is \<open>actor::doInit\<close> of the new actor; it
  gets the name and the parameter, which is a null pointer when it is no string.
\<close>

definition lua_core_actor_create ::
    "(int option \<Rightarrow> string) \<Rightarrow> (string \<Rightarrow> string option \<Rightarrow> actor_table \<Rightarrow> (nat \<times> actor_table \<times> bool) res) \<Rightarrow>
     lval list \<Rightarrow> actor_table \<Rightarrow> (nat \<times> lval list \<times> actor_table) lua" where
  "lua_core_actor_create show create st t =
     (let argc = int (length st) - 1 in
      if argc = 2 then
        seqE (lua_tostring show st 2) (\<lambda>(name, st). case name of
            None \<Rightarrow> Inr None
          | Some name \<Rightarrow>
              seqE (lua_tostring show st 3) (\<lambda>(parm, st).
                seqE (create name parm t) (\<lambda>(handle, t, released).
                  if handle = 0 then Inr (Some (0, st, t))
                  else Inr (Some (1, st @ [LNum (Some (int handle))], t)))))
      else Inr None)"

section \<open>Lemmas\<close>

text \<open>What the script of a state finds in the registry after \<open>stack_init\<close>.\<close>

lemma stack_init_ok:
  "\<exists>reg. stack_init stk reg0 st = Inr (reg, st) \<and> reg = reg0(LStr LUA_STACK_FIX_ACTOR := LUser stk)"
  by (simp add: stack_init_def lua_rawset_def lua_get_def lua_at_def lua_pop_def nth_append nat_add_distrib)

lemma get_actor:
  assumes "reg (LStr LUA_STACK_FIX_ACTOR) = LUser stk"
  shows "lua_core_get_actor m_aptr reg st = Inr (m_aptr stk, st)"
  using lua_get_top[of st "LUser stk"] lua_pop_app[of "[LUser stk]" 1 st] assms
  by (simp add: lua_core_get_actor_def lua_touserdata_def Let_def)

lemma registry_actor:
  assumes "stack_init stk reg0 st0 = Inr (reg, st0)"
  shows "reg (LStr LUA_STACK_FIX_ACTOR) = LUser stk"
  using stack_init_ok[of stk reg0 st0] assms by auto

text \<open>The data and the size \<open>send\<close> takes from the arguments after the type.\<close>

fun rest_data :: "(nat \<Rightarrow> 8 word list) \<Rightarrow> (lval \<Rightarrow> int option) \<Rightarrow> lval list \<Rightarrow> (8 word list option \<times> 64 word) lua" where
  "rest_data heap num [] = Inr (Some (Some [0], 0))"
| "rest_data heap num [v] = Inr (Some (case v of LUser p \<Rightarrow> Some (heap p) | _ \<Rightarrow> None, 0))"
| "rest_data heap num (v # w # _) =
     (case num w of
        None \<Rightarrow> Inr None
      | Some n \<Rightarrow> seqE (to_u64 n) (\<lambda>sz. Inr (Some (case v of LUser p \<Rightarrow> Some (heap p) | _ \<Rightarrow> None, sz))))"

lemma lua_get_nth: "0 < i \<Longrightarrow> i \<le> int (length st) \<Longrightarrow> lua_get st i = Inr (st ! nat (i - 1))"
  by (simp add: lua_get_def lua_at_def)

lemma script_send:
  assumes "reg (LStr LUA_STACK_FIX_ACTOR) = LUser stk" and "num vd = Some (int h)" and "h < 2 ^ 32"
    and "rest_data heap num rest = Inr (Some (data, sz))"
  shows "lua_core_actor_send m_aptr reg num cvt heap t push junk ([self, vd, LNum (Some se), LNum (Some ty)] @ rest) s =
     seqE (doSendMessageTo t push junk (of_nat (hnd t (m_aptr stk))) (of_nat h) (word_of_int ty) (word_of_int se) data sz s)
       (\<lambda>(r, s). Inr (Some (1, ([self, vd, LNum (Some se), LNum (Some ty)] @ rest) @ [LNum (Some r)], s)))"
proof -
  have h: "to_u32 (int h) = Inr (of_nat h)" using assms(3) by (simp add: to_u32_def)
  note defs = lua_core_actor_send_def get_actor[where reg=reg and stk=stk, OF assms(1)] luaE_def luaL_checknumber_def
    luaL_checkinteger_def lua_touserdata_def lua_get_nth assms(2) h Let_def
  consider "rest = []" | v where "rest = [v]" | v w r where "rest = v # w # r"
    by (cases rest; cases "tl rest") auto
  then show ?thesis
  proof cases
    case 1
    then show ?thesis using assms(4) by (simp add: defs)
  next
    case 2
    then show ?thesis using assms(4) by (cases v) (auto simp: defs)
  next
    case 3
    then show ?thesis using assms(4) by (cases v) (auto simp: defs res_simps split: option.splits)
  qed
qed

text \<open>A message of a script in the mailbox of a live actor.\<close>

definition script_mail ::
    "8 word list \<Rightarrow> nat \<Rightarrow> nat \<Rightarrow> int \<Rightarrow> int \<Rightarrow> 8 word list option \<times> 64 word \<Rightarrow> message" where
  "script_mail junk src h ty se d =
     getMessage junk (ucast (word_of_int ty :: 32 word)) (of_nat src) (of_nat h) (word_of_int se) (fst (send_data (fst d) (snd d))) (snd (send_data (fst d) (snd d)))"

lemma script_send_live:
  assumes "reg (LStr LUA_STACK_FIX_ACTOR) = LUser stk" and "num vd = Some (int h)" and "h < 2 ^ 32" and "0 < h"
    and "rest_data heap num rest = Inr (Some d)"
  shows "lua_core_actor_send m_aptr reg num cvt heap t push_mail junk ([self, vd, LNum (Some se), LNum (Some ty)] @ rest) mail =
     (let msg = script_mail junk (hnd t (m_aptr stk)) h ty se d; args = [self, vd, LNum (Some se), LNum (Some ty)] @ rest in
      case getGrab t h of
        None \<Rightarrow> Inr (Some (1, args @ [LNum (Some (-1))], mail))
      | Some obj \<Rightarrow> Inr (Some (1, args @ [LNum (Some 0)], mail(obj := (mail obj)\<lparr>m_mqs := m_mqs (mail obj) @ [msg]\<rparr>))))"
proof -
  have h: "unat (of_nat h :: 32 word) = h" using assms(3) by (simp add: unat_of_nat take_bit_nat_eq_self)
  then have "(of_nat h :: 32 word) \<noteq> 0" using assms(4) by auto
  moreover obtain data sz where d: "d = (data, sz)" by fastforce
  moreover have "rest_data heap num rest = Inr (Some (data, sz))" using assms(5) d by simp
  ultimately have eq: "lua_core_actor_send m_aptr reg num cvt heap t push_mail junk ([self, vd, LNum (Some se), LNum (Some ty)] @ rest) mail =
      seqE (doSendMessageTo t push_mail junk (of_nat (hnd t (m_aptr stk))) (of_nat h) (word_of_int ty) (word_of_int se) data sz mail)
        (\<lambda>(r, s). Inr (Some (1, ([self, vd, LNum (Some se), LNum (Some ty)] @ rest) @ [LNum (Some r)], s)))"
    by (intro script_send[where reg=reg and stk=stk and num=num and vd=vd and h=h, OF assms(1-3)])
  show ?thesis
    unfolding eq unfolding d using h \<open>(of_nat h :: 32 word) \<noteq> 0\<close>
    by (cases "send_data data sz") (auto simp: doSendMessageTo_def doSendMessage_def message_roundtrip push_mail_def push_message_def script_mail_def
        Let_def split: option.splits)
qed

lemma script_mail_fields:
  "getMessageId (script_mail junk src h ty se d) = ty mod 256"
  "msg_session (script_mail junk src h ty se d) = word_of_int se"
  "msg_src (script_mail junk src h ty se d) = of_nat src"
  "msg_data (script_mail junk src h ty se d) = fst (send_data (fst d) (snd d))"
  "getMessageSize (script_mail junk src h ty se d) = ucast (snd (send_data (fst d) (snd d)) AND 0xFFFFF)"
proof -
  have "uint (ucast (word_of_int ty :: 32 word) :: 8 word) = ty mod 256"
    by (simp add: unsigned_ucast_eq uint_word_of_int take_bit_eq_mod mod_mod_cancel)
  then show "getMessageId (script_mail junk src h ty se d) = ty mod 256" by (simp add: script_mail_def message_roundtrip)
qed (simp_all add: script_mail_def message_roundtrip)


section \<open>Properties\<close>

text \<open>C37: What a script sends arrives as it was meant in all but its text: with a living receiver the
  message stands last in its mailbox, under the handle of the script's actor, with the low byte of
  the type and the session.  Without data it carries four zero bytes, a userdata and its size
  arrive as they are, up to the twenty bits of a size; but a Lua string given as the data is
  dropped, and the call still answers 0.  With a dead receiver nothing changes and the answer is -1.\<close>

theorem script_text_is_lost:
  assumes "stack_init stk reg0 [] = Inr (reg, [])" and "num vd = Some (int h)" and "h < 2 ^ 32" and "0 < h"
    and "num vn = Some (int n)" and "0 < n" and "n < 2 ^ 20"
  shows "case getGrab t h of
      None \<Rightarrow> lua_core_actor_send m_aptr reg num cvt heap t push_mail junk [self, vd, LNum (Some se), LNum (Some ty), LStr text] mail =
          Inr (Some (1, [self, vd, LNum (Some se), LNum (Some ty), LStr text, LNum (Some (-1))], mail))
    | Some obj \<Rightarrow> \<exists>plain block lost.
        lua_core_actor_send m_aptr reg num cvt heap t push_mail junk [self, vd, LNum (Some se), LNum (Some ty)] mail =
          Inr (Some (1, [self, vd, LNum (Some se), LNum (Some ty), LNum (Some 0)],
            mail(obj := (mail obj)\<lparr>m_mqs := m_mqs (mail obj) @ [plain]\<rparr>))) \<and>
        lua_core_actor_send m_aptr reg num cvt heap t push_mail junk [self, vd, LNum (Some se), LNum (Some ty), LUser p, vn] mail =
          Inr (Some (1, [self, vd, LNum (Some se), LNum (Some ty), LUser p, vn, LNum (Some 0)],
            mail(obj := (mail obj)\<lparr>m_mqs := m_mqs (mail obj) @ [block]\<rparr>))) \<and>
        lua_core_actor_send m_aptr reg num cvt heap t push_mail junk [self, vd, LNum (Some se), LNum (Some ty), LStr text] mail =
          Inr (Some (1, [self, vd, LNum (Some se), LNum (Some ty), LStr text, LNum (Some 0)],
            mail(obj := (mail obj)\<lparr>m_mqs := m_mqs (mail obj) @ [lost]\<rparr>))) \<and>
        map getMessageId [plain, block, lost] = replicate 3 (ty mod 256) \<and>
        map msg_session [plain, block, lost] = replicate 3 (word_of_int se) \<and>
        map msg_src [plain, block, lost] = replicate 3 (of_nat (hnd t (m_aptr stk))) \<and>
        msg_data plain = Some [0, 0, 0, 0] \<and> getMessageSize plain = 4 \<and>
        msg_data block = Some (heap p) \<and> getMessageSize block = of_nat n \<and>
        msg_data lost = None \<and> getMessageSize lost = 0"
proof -
  have reg: "reg (LStr LUA_STACK_FIX_ACTOR) = LUser stk" by (rule registry_actor[OF assms(1)])
  note live = script_send_live[where reg=reg and stk=stk and t=t and num=num and vd=vd and h=h and m_aptr=m_aptr and junk=junk and mail=mail and cvt=cvt,
      OF reg assms(2-4)]
  have n64: "to_u64 (int n) = Inr (of_nat n)" using assms(7) by (simp add: to_u64_def)
  have u: "unat (of_nat n :: 64 word) = n" using assms(7) by (simp add: unat_of_nat take_bit_nat_eq_self)
  then have n0: "(of_nat n :: 64 word) \<noteq> 0" using assms(6) by auto
  have "take_bit 20 (of_nat n :: 64 word) = of_nat n"
    using assms(7) by (simp only: take_bit_of_nat take_bit_nat_eq_self)
  then have "(of_nat n :: 64 word) AND mask 20 = of_nat n" by (simp only: take_bit_eq_mask)
  then have "(of_nat n :: 64 word) AND 0xFFFFF = of_nat n" by (simp add: mask_eq_exp_minus_1)
  moreover have "ucast (of_nat n :: 64 word) = (of_nat (unat (of_nat n :: 64 word)) :: 32 word)"
    by (rule of_nat_unat[symmetric])
  ultimately have nmask: "ucast ((of_nat n :: 64 word) AND 0xFFFFF) = (of_nat n :: 32 word)"
    by (simp only: u)
  note plain = live[of heap "[]" "(Some [0], 0)" self se ty]
  note block = live[of heap "[LUser p, vn]" "(Some (heap p), of_nat n)" self se ty]
  note lost = live[of heap "[LStr text]" "(None, 0)" self se ty]
  show ?thesis
  proof (cases "getGrab t h")
    case None
    then show ?thesis using lost by simp
  next
    case (Some obj)
    let ?mail = "script_mail junk (hnd t (m_aptr stk)) h ty se"
    have "c_string [0] = []" by (simp add: c_string_def)
    then have fields: "msg_data (?mail (Some [0], 0)) = Some [0, 0, 0, 0]" "getMessageSize (?mail (Some [0], 0)) = 4"
      "msg_data (?mail (Some (heap p), of_nat n)) = Some (heap p)" "getMessageSize (?mail (Some (heap p), of_nat n)) = of_nat n"
      "msg_data (?mail (None, 0)) = None" "getMessageSize (?mail (None, 0)) = 0"
      using n0 nmask by (simp_all add: script_mail_fields send_data_def replicate_numeral_simp)
    show ?thesis
      unfolding Some option.simps
      by (intro exI[of _ "?mail (Some [0], 0)"] exI[of _ "?mail (Some (heap p), of_nat n)"] exI[of _ "?mail (None, 0)"] conjI)
        (use plain block lost Some assms(5) n64 fields in \<open>simp_all add: script_mail_fields(1-3) numeral_3_eq_3\<close>)
  qed
qed

theorem script_text_is_lost_witness:
  "case getGrab (tab 8 4 [None, None, None, Some 1] (\<lambda>_. 7)) 7 of
      None \<Rightarrow> lua_core_actor_send (\<lambda>_. 1) ((\<lambda>_. LNil)(LStr LUA_STACK_FIX_ACTOR := LUser 5)) (\<lambda>v. case v of LNum n \<Rightarrow> n | _ \<Rightarrow> None)
            (\<lambda>_. None) (\<lambda>_. [1, 2]) (tab 8 4 [None, None, None, Some 1] (\<lambda>_. 7)) push_mail []
            [LTable 0, LNum (Some (int 7)), LNum (Some 0), LNum (Some 4), LStr ''hi''] (\<lambda>_. new_actor) =
          Inr (Some (1, [LTable 0, LNum (Some (int 7)), LNum (Some 0), LNum (Some 4), LStr ''hi'', LNum (Some (-1))], \<lambda>_. new_actor))
    | Some obj \<Rightarrow> \<exists>plain block lost.
        lua_core_actor_send (\<lambda>_. 1) ((\<lambda>_. LNil)(LStr LUA_STACK_FIX_ACTOR := LUser 5)) (\<lambda>v. case v of LNum n \<Rightarrow> n | _ \<Rightarrow> None)
            (\<lambda>_. None) (\<lambda>_. [1, 2]) (tab 8 4 [None, None, None, Some 1] (\<lambda>_. 7)) push_mail []
            [LTable 0, LNum (Some (int 7)), LNum (Some 0), LNum (Some 4)] (\<lambda>_. new_actor) =
          Inr (Some (1, [LTable 0, LNum (Some (int 7)), LNum (Some 0), LNum (Some 4), LNum (Some 0)],
            (\<lambda>_. new_actor)(obj := new_actor\<lparr>m_mqs := m_mqs new_actor @ [plain]\<rparr>))) \<and>
        lua_core_actor_send (\<lambda>_. 1) ((\<lambda>_. LNil)(LStr LUA_STACK_FIX_ACTOR := LUser 5)) (\<lambda>v. case v of LNum n \<Rightarrow> n | _ \<Rightarrow> None)
            (\<lambda>_. None) (\<lambda>_. [1, 2]) (tab 8 4 [None, None, None, Some 1] (\<lambda>_. 7)) push_mail []
            [LTable 0, LNum (Some (int 7)), LNum (Some 0), LNum (Some 4), LUser 9, LNum (Some (int 2))] (\<lambda>_. new_actor) =
          Inr (Some (1, [LTable 0, LNum (Some (int 7)), LNum (Some 0), LNum (Some 4), LUser 9, LNum (Some (int 2)), LNum (Some 0)],
            (\<lambda>_. new_actor)(obj := new_actor\<lparr>m_mqs := m_mqs new_actor @ [block]\<rparr>))) \<and>
        lua_core_actor_send (\<lambda>_. 1) ((\<lambda>_. LNil)(LStr LUA_STACK_FIX_ACTOR := LUser 5)) (\<lambda>v. case v of LNum n \<Rightarrow> n | _ \<Rightarrow> None)
            (\<lambda>_. None) (\<lambda>_. [1, 2]) (tab 8 4 [None, None, None, Some 1] (\<lambda>_. 7)) push_mail []
            [LTable 0, LNum (Some (int 7)), LNum (Some 0), LNum (Some 4), LStr ''hi''] (\<lambda>_. new_actor) =
          Inr (Some (1, [LTable 0, LNum (Some (int 7)), LNum (Some 0), LNum (Some 4), LStr ''hi'', LNum (Some 0)],
            (\<lambda>_. new_actor)(obj := new_actor\<lparr>m_mqs := m_mqs new_actor @ [lost]\<rparr>))) \<and>
        map getMessageId [plain, block, lost] = replicate 3 (4 mod 256) \<and>
        map msg_session [plain, block, lost] = replicate 3 (word_of_int 0) \<and>
        map msg_src [plain, block, lost] = replicate 3 (of_nat (hnd (tab 8 4 [None, None, None, Some 1] (\<lambda>_. 7)) 1)) \<and>
        msg_data plain = Some [0, 0, 0, 0] \<and> getMessageSize plain = 4 \<and>
        msg_data block = Some [1, 2] \<and> getMessageSize block = of_nat 2 \<and>
        msg_data lost = None \<and> getMessageSize lost = 0"
  by (rule script_text_is_lost[where stk=5 and m_aptr="\<lambda>_. 1" and heap="\<lambda>_. [1, 2]" and p=9 and mail="\<lambda>_. new_actor"
        and h=7 and n=2 and vn="LNum (Some (int 2))" and ?reg0.0="\<lambda>_. LNil"])
    (simp_all add: stack_init_def lua_rawset_def lua_get_def lua_at_def lua_pop_def)

text \<open>C38: A script's line reaches the console: of a text with its braces doubled the very text, under the
  handle of the actor and the level the script names, which is \<open>INFO\<close> when it names none of the six.
  But the text goes in as a format: one with a single brace is lost, and two lines that do not hold
  it are written in its place.\<close>

theorem script_log_lines:
  assumes "opt_logPath opt = None" and "stack_init stk reg0 [] = Inr (reg, [])" and "num vl = Some l"
    and "- (2 ^ 31) \<le> l" and "l < 2 ^ 31" and "CHR 0x00 \<notin> set body" and "fmt_text (c_str bad) = None"
    and "hdr = sys_header (of_nat (handle (m_aptr stk)))"
    and "lv = (if 0 \<le> l \<and> l \<le> 5 then getLevel l else L_INFO)"
  shows "\<exists>s0 s1 s2 s3. log_doStart opt new_logSystem = Inr (0, s0) \<and>
    lua_core_actor_logout m_aptr reg num show handle loc [self, LStr (escape body), vl] s0 =
      Inr (Some (0, [self, LStr (escape body), vl], s1)) \<and>
    lua_core_actor_logout m_aptr reg num show handle loc [self, LStr bad, vl] s1 =
      Inr (Some (0, [self, LStr bad, vl], s2)) \<and>
    log_doDispatch s2 = Some (Inr s3) \<and>
    map_option lg_lines (l_log s3) =
      Some (visible (toLevel (getLevel (sint (opt_logLevel opt))))
        [(lv, hdr @ body), (lv, ''[:system] '' @ ''format error'' @ loc), (lv, hdr)])"
proof -
  have reg: "reg (LStr LUA_STACK_FIX_ACTOR) = LUser stk" by (rule registry_actor[OF assms(2)])
  have lv: "logout_level l = lv" using assms(9) by (auto simp: logout_level_def getLevel_def)
  have l: "to_i32 l = Inr l" using assms(4,5) by (simp add: to_i32_def)
  let ?h = "of_nat (handle (m_aptr stk)) :: 32 word"
  have call: "lua_core_actor_logout m_aptr reg num show handle loc [self, LStr t, vl] s =
      seqE (SYSLOG ?h lv (Some t) loc s) (\<lambda>s. Inr (Some (0, [self, LStr t, vl], s)))" for t s
    unfolding lua_core_actor_logout_def get_actor[where reg=reg and stk=stk, OF reg] seqE.simps case_prod_conv Let_def
    using assms(3) l by (simp add: lua_tonumber_def lua_get_nth lua_tostring_def lua_at_def lv)
  have nul: "c_str (escape body) = escape body"
    using assms(6) by (intro c_str_id) (auto simp: escape_def is_brace_def)
  have one: "SYSLOG ?h lv (Some (escape body)) loc = log_all [(lv, hdr @ body)]"
    by (rule ext) (simp only: SYSLOG_lines syslog_lines_def nul fmt_escape option.simps assms(8))
  have two: "SYSLOG ?h lv (Some bad) loc = log_all [(lv, ''[:system] '' @ ''format error'' @ loc), (lv, hdr)]"
    by (rule ext) (simp only: SYSLOG_lines syslog_lines_def assms(7,8) option.simps)
  let ?ms = "[(lv, hdr @ body)] @ [(lv, ''[:system] '' @ ''format error'' @ loc), (lv, hdr)]"
  have "length ?ms \<le> 2 ^ 29" by simp
  from log_run[OF assms(1) this] obtain s0 s2 s3 where run: "log_doStart opt new_logSystem = Inr (0, s0)"
    "log_all ?ms s0 = Inr s2" "log_doDispatch s2 = Some (Inr s3)"
    "map_option lg_lines (l_log s3) = Some (visible (toLevel (getLevel (sint (opt_logLevel opt)))) ?ms)" by blast
  from run(2) obtain s1 where s1: "log_all [(lv, hdr @ body)] s0 = Inr s1"
    "log_all [(lv, ''[:system] '' @ ''format error'' @ loc), (lv, hdr)] s1 = Inr s2"
    unfolding log_all_append by (auto simp only: seqE_Inr_iff)
  show ?thesis
    using run(1,3,4) s1 unfolding call one two
    by (intro exI[of _ s0] exI[of _ s1] exI[of _ s2] exI[of _ s3]) simp
qed

theorem script_log_lines_witness:
  "\<exists>s0 s1 s2 s3. log_doStart default_options new_logSystem = Inr (0, s0) \<and>
    lua_core_actor_logout (\<lambda>_. 1) ((\<lambda>_. LNil)(LStr LUA_STACK_FIX_ACTOR := LUser 5)) (\<lambda>v. case v of LNum n \<Rightarrow> n | _ \<Rightarrow> None)
        (\<lambda>_. []) (\<lambda>_. 7) ''[f]'' [LTable 0, LStr (escape ''{up}''), LNum (Some 4)] s0 =
      Inr (Some (0, [LTable 0, LStr (escape ''{up}''), LNum (Some 4)], s1)) \<and>
    lua_core_actor_logout (\<lambda>_. 1) ((\<lambda>_. LNil)(LStr LUA_STACK_FIX_ACTOR := LUser 5)) (\<lambda>v. case v of LNum n \<Rightarrow> n | _ \<Rightarrow> None)
        (\<lambda>_. []) (\<lambda>_. 7) ''[f]'' [LTable 0, LStr ''{up}'', LNum (Some 4)] s1 =
      Inr (Some (0, [LTable 0, LStr ''{up}'', LNum (Some 4)], s2)) \<and>
    log_doDispatch s2 = Some (Inr s3) \<and>
    map_option lg_lines (l_log s3) =
      Some (visible (toLevel (getLevel (sint (opt_logLevel default_options))))
        [(L_ERROR, ''[:00000007] '' @ ''{up}''), (L_ERROR, ''[:system] '' @ ''format error'' @ ''[f]''), (L_ERROR, ''[:00000007] '')])"
  by (rule script_log_lines[where stk=5 and l=4 and ?reg0.0="\<lambda>_. LNil"])
    (simp_all add: default_options_def stack_init_def lua_rawset_def lua_get_def lua_at_def lua_pop_def is_brace_def c_str_def
      sys_header_def hex8_def getLevel_def take_bit_eq_mod drop_bit_eq_div)

text \<open>A script can stop the whole engine: a message to the actor 0 fails an assertion, and a log text
  that is neither a string nor a number is read through a null pointer.\<close>

theorem script_stops_engine:
  assumes "stack_init stk reg0 [] = Inr (reg, [])" and "num vd = Some 0" and "num vl = Some l"
    and "- (2 ^ 31) \<le> l" and "l < 2 ^ 31"
  shows "lua_core_actor_send m_aptr reg num cvt heap t push junk [self, vd, LNum (Some se), LNum (Some ty)] s = Inl AssertFail \<and>
    lua_core_actor_logout m_aptr reg num show handle loc [self, LNil, vl] lg = Inl NullDeref"
proof
  have reg: "reg (LStr LUA_STACK_FIX_ACTOR) = LUser stk" by (rule registry_actor[OF assms(1)])
  have "lua_core_actor_send m_aptr reg num cvt heap t push junk ([self, vd, LNum (Some se), LNum (Some ty)] @ []) s =
     seqE (doSendMessageTo t push junk (of_nat (hnd t (m_aptr stk))) (of_nat 0) (word_of_int ty) (word_of_int se) (Some [0]) 0 s)
       (\<lambda>(r, s). Inr (Some (1, ([self, vd, LNum (Some se), LNum (Some ty)] @ []) @ [LNum (Some r)], s)))"
    by (rule script_send[where reg=reg and stk=stk and num=num and vd=vd and h=0]) (use reg assms(2) in simp_all)
  then show "lua_core_actor_send m_aptr reg num cvt heap t push junk [self, vd, LNum (Some se), LNum (Some ty)] s = Inl AssertFail"
    by (simp add: doSendMessageTo_def doSendMessage_def message_roundtrip split: prod.splits)
  have l: "to_i32 l = Inr l" using assms(4,5) by (simp add: to_i32_def)
  show "lua_core_actor_logout m_aptr reg num show handle loc [self, LNil, vl] lg = Inl NullDeref"
    unfolding lua_core_actor_logout_def get_actor[where reg=reg and stk=stk, OF reg] seqE.simps case_prod_conv Let_def
    using assms(3) l by (simp add: lua_tonumber_def lua_get_nth lua_tostring_def lua_at_def SYSLOG_def Let_def)
qed

theorem script_stops_engine_witness:
  "lua_core_actor_send (\<lambda>_. 1) ((\<lambda>_. LNil)(LStr LUA_STACK_FIX_ACTOR := LUser 5)) (\<lambda>v. case v of LNum n \<Rightarrow> n | _ \<Rightarrow> None)
      (\<lambda>_. None) (\<lambda>_. []) new_table push_mail [] [LTable 0, LNum (Some 0), LNum (Some 0), LNum (Some 4)] (\<lambda>_. new_actor) = Inl AssertFail \<and>
    lua_core_actor_logout (\<lambda>_. 1) ((\<lambda>_. LNil)(LStr LUA_STACK_FIX_ACTOR := LUser 5)) (\<lambda>v. case v of LNum n \<Rightarrow> n | _ \<Rightarrow> None)
      (\<lambda>_. []) (\<lambda>_. 7) [] [LTable 0, LNil, LNum (Some 4)] new_logSystem = Inl NullDeref"
  by (rule script_stops_engine[where stk=5 and l=4 and ?reg0.0="\<lambda>_. LNil"])
    (simp_all add: stack_init_def lua_rawset_def lua_get_def lua_at_def lua_pop_def)

end
