(* ===== verification/SocketWrap.thy ===== *)
theory SocketWrap
  imports WolfBase "HOL-Library.Word"
begin

text \<open>
  The guards and conversions of \<open>engine/src/network/socketWrap.cc\<close> around the calls of the operating
  system, for Linux: the answers of the calls are parameters, and so are the conversion of an
  address (\<open>inet_addr\<close>) and \<open>errno\<close>.  \<open>close\<close> and \<open>listen\<close> are in \<open>SocketHandle\<close>.
\<close>

section \<open>Ports and addresses\<close>

text \<open>\<open>htons\<close> and \<open>ntohs\<close> on a little-endian machine.\<close>

definition swap16 :: "16 word \<Rightarrow> 16 word" where
  "swap16 p = word_rotr 8 p"

text \<open>An IPv4 address as it lies in memory, both fields in the order of the network.\<close>

record sockaddr_in =
  sin_port :: "16 word"
  s_addr :: "32 word"

definition netPort :: "16 word \<Rightarrow> 16 word" where
  "netPort port = swap16 port"

definition netAddr :: "(string \<Rightarrow> 32 word) \<Rightarrow> string option \<Rightarrow> 32 word" where
  "netAddr inet_addr ip = (case ip of None \<Rightarrow> 0 | Some s \<Rightarrow> inet_addr s)"

definition ip4Addr :: "(string \<Rightarrow> 32 word) \<Rightarrow> string option \<Rightarrow> 32 word \<Rightarrow> sockaddr_in" where
  "ip4Addr inet_addr ip port = \<lparr>sin_port = netPort (ucast port), s_addr = netAddr inet_addr ip\<rparr>"


section \<open>Calls\<close>

definition sw_shutdown :: "int \<Rightarrow> int \<Rightarrow> int" where
  "sw_shutdown r err = (if r = 0 then 0 else err)"

definition sw_bind :: "int \<Rightarrow> int \<Rightarrow> int" where
  "sw_bind r err = (if r = 0 then 0 else err)"

definition sw_setopt :: "int \<Rightarrow> int \<Rightarrow> int" where
  "sw_setopt r err = (if r = 0 then 0 else err)"

text \<open>\<open>setNonblock\<close>: \<open>getfl\<close> is the answer of the first \<open>fcntl\<close>, \<open>setfl\<close> that of the second for the flags it is given.\<close>

definition O_NONBLOCK :: "32 word" where "O_NONBLOCK = 0x800"

definition setNonblock :: "int \<Rightarrow> (32 word \<Rightarrow> int) \<Rightarrow> int \<Rightarrow> int" where
  "setNonblock getfl setfl err =
     (if getfl = -1 then err
      else (let r = setfl (or (word_of_int getfl) O_NONBLOCK) in if r = -1 then err else 0))"

definition isvalidate :: "int \<Rightarrow> bool" where
  "isvalidate sock = (sock \<noteq> 0)"

text \<open>
  A call that reads or writes is made with its socket and arguments or not at all.  \<open>recv\<close> is given
  the size and answers with the bytes, \<open>sendto\<close> the address and the bytes.
\<close>

definition sw_recv :: "(int \<Rightarrow> int) \<Rightarrow> bool \<Rightarrow> int \<Rightarrow> int" where
  "sw_recv recv data sz = (if \<not> data \<or> sz \<le> 0 then -1 else recv sz)"

definition sw_sendto :: "(sockaddr_in \<Rightarrow> 8 word list \<Rightarrow> int) \<Rightarrow> 32 word \<Rightarrow> 32 word \<Rightarrow> 8 word list option \<Rightarrow> int \<Rightarrow> int" where
  "sw_sendto sendto ip port data sz =
     (case data of
        None \<Rightarrow> -1
      | Some d \<Rightarrow>
          if sz \<le> 0 then -1
          else sendto \<lparr>sin_port = ucast port, s_addr = ip\<rparr> (take (nat sz) d))"

text \<open>\<open>recvfrom\<close>: the operating system answers with its result and may fill the address in.\<close>

definition sw_recvfrom ::
    "(int \<Rightarrow> sockaddr_in \<Rightarrow> int \<times> sockaddr_in) \<Rightarrow> bool \<Rightarrow> int \<Rightarrow> int \<times> (32 word \<times> 32 word) option" where
  "sw_recvfrom recvfrom data sz =
     (if \<not> data \<or> sz \<le> 0 then (-1, None)
      else
        let (r, addr) = recvfrom sz \<lparr>sin_port = 0, s_addr = 0\<rparr>
        in (r, Some (s_addr addr, ucast (swap16 (sin_port addr)))))"


section \<open>Properties\<close>

lemma bit_swap16: "bit (swap16 p) n \<longleftrightarrow> (if n < 8 then bit p (n + 8) else n < 16 \<and> bit p (n - 8))"
proof (cases "n < 16")
  case True
  then have "(n + 8) mod 16 = (if n < 8 then n + 8 else n - 8)"
    by (auto simp: mod_if)
  then show ?thesis using True by (simp add: swap16_def bit_word_rotr_iff)
qed (auto simp: swap16_def bit_word_rotr_iff)

lemma swap16_swap16 [simp]: "swap16 (swap16 p) = p"
proof (rule bit_word_eqI)
  fix n assume "n < LENGTH(16)"
  then have "n < 8 \<or> 8 \<le> n \<and> n - 8 < 8" by auto
  then show "bit (swap16 (swap16 p)) n = bit p n" by (auto simp: bit_swap16)
qed

lemma swap16_bytes: "swap16 (or (push_bit 8 (ucast (a :: 8 word))) (ucast (b :: 8 word))) = or (push_bit 8 (ucast b)) (ucast a)"
  by (rule bit_word_eqI) (auto simp: bit_swap16 bit_simps dest: bit_imp_le_length)

text \<open>An answer to a datagram does not come back: sent to the address and port \<open>recvfrom\<close> reported, it goes
  to the port with its two bytes exchanged, because \<open>recvfrom\<close> converts the port to the order of the
  machine and \<open>sendto\<close> does not convert it back.  It reaches its sender just when the two bytes of the
  port are equal; \<open>ip4Addr\<close>, which converts, gives the address of the sender back.\<close>

theorem datagram_answer_swaps_port:
  assumes "recvfrom n \<lparr>sin_port = 0, s_addr = 0\<rparr> = (r, a)" and "0 < n" and "0 < m"
    and "sin_port a = or (push_bit 8 (ucast (hi :: 8 word))) (ucast (lo :: 8 word))"
  shows "\<exists>ip port. sw_recvfrom recvfrom True n = (r, Some (ip, port)) \<and>
    sw_sendto sendto ip port (Some d) m = sendto \<lparr>sin_port = swap16 (sin_port a), s_addr = s_addr a\<rparr> (take (nat m) d) \<and>
    (\<lparr>sin_port = swap16 (sin_port a), s_addr = s_addr a\<rparr> = a \<longleftrightarrow> hi = lo) \<and>
    ip4Addr (\<lambda>_. ip) (Some text) port = a"
proof -
  have ucast: "ucast (ucast p :: 32 word) = p" for p :: "16 word"
    by (rule bit_word_eqI) (simp add: bit_simps)
  have "swap16 (sin_port a) = sin_port a \<longleftrightarrow> hi = lo"
  proof
    assume eq: "swap16 (sin_port a) = sin_port a"
    show "hi = lo"
    proof (rule bit_word_eqI)
      fix k assume "k < LENGTH(8)"
      then have k: "k < 8" by simp
      have "bit (swap16 (sin_port a)) k = bit (sin_port a) k" using eq by simp
      then show "bit hi k = bit lo k" unfolding assms(4) swap16_bytes using k by (auto simp: bit_simps)
    qed
  qed (simp add: assms(4) swap16_bytes)
  then show ?thesis
    using assms(1-3) by (cases a) (auto simp: sw_recvfrom_def sw_sendto_def ip4Addr_def netPort_def netAddr_def ucast Let_def)
qed

theorem datagram_answer_swaps_port_witness:
  "\<exists>ip port. sw_recvfrom (\<lambda>n a. (3, \<lparr>sin_port = 0x1234, s_addr = 9\<rparr>)) True 8 = (3, Some (ip, port)) \<and>
    sw_sendto (\<lambda>a d. int (length d)) ip port (Some [1, 2]) 2 = int (length (take (nat 2) [1 :: 8 word, 2])) \<and>
    (\<lparr>sin_port = swap16 (sin_port \<lparr>sin_port = 0x1234, s_addr = 9\<rparr>), s_addr = s_addr \<lparr>sin_port = 0x1234, s_addr = 9\<rparr>\<rparr> =
       \<lparr>sin_port = 0x1234, s_addr = 9\<rparr> \<longleftrightarrow> (0x12 :: 8 word) = 0x34) \<and>
    ip4Addr (\<lambda>_. ip) (Some ''10.0.0.9'') port = \<lparr>sin_port = 0x1234, s_addr = 9\<rparr>"
  by (rule datagram_answer_swaps_port) simp_all

text \<open>A call without memory or size is refused before it is made; a socket becomes non-blocking with its
  other flags kept.\<close>

lemma refused_calls:
  "sw_recv recv False sz = -1" "sz \<le> 0 \<Longrightarrow> sw_recv recv b sz = -1"
  "sw_sendto sendto ip port None sz = -1" "sz \<le> 0 \<Longrightarrow> sw_sendto sendto ip port data sz = -1"
  by (auto simp: sw_recv_def sw_sendto_def split: option.splits)

end
