(* ===== verification/Coroutine.thy ===== *)
theory Coroutine
  imports Worker
begin

text \<open>
  The stacks of the coroutines: \<open>engine/src/operation/context.h\<close>, \<open>task.cc\<close> and the guard page of
  \<open>fcontext.cc\<close>, and several workers that pass tasks with such stacks to each other.  The functions
  of boost that make and switch a stack are parameters.
\<close>

section \<open>Switching stacks\<close>

text \<open>
  A thread runs the loop of its worker or a coroutine.  A suspended computation is known by a handle,
  an \<open>fcontext_t\<close>: \<open>susp m c\<close> is the computation behind \<open>c\<close>, if there is one.  \<open>jump m x c\<close> resumes it
  and gives it the handle of the caller \<open>x\<close>; \<open>None\<close> is undefined behaviour.  \<open>mk m k\<close> is a handle
  that will enter the coroutine \<open>k\<close>.
\<close>

datatype computation = Loop nat | Co nat

type_synonym ('c, 'm) jump_fun = "'m \<Rightarrow> computation \<Rightarrow> 'c \<Rightarrow> ('c \<times> computation \<times> 'm) option"

type_synonym ('c, 'm) make_fun = "'m \<Rightarrow> nat \<Rightarrow> 'c \<times> 'm"

text \<open>What boost documents: a handle can be used once, the new one of the caller is not in use.\<close>

definition jump_ok :: "('m \<Rightarrow> 'c \<Rightarrow> computation option) \<Rightarrow> ('c, 'm) jump_fun \<Rightarrow> bool" where
  "jump_ok susp jump \<longleftrightarrow>
     (\<forall>m x c. case susp m c of
        None \<Rightarrow> jump m x c = None
      | Some y \<Rightarrow> (\<exists>c' m'. jump m x c = Some (c', y, m') \<and> susp m c' = None \<and> susp m' = (susp m)(c := None, c' \<mapsto> x)))"

definition make_ok :: "('m \<Rightarrow> 'c \<Rightarrow> computation option) \<Rightarrow> ('c, 'm) make_fun \<Rightarrow> bool" where
  "make_ok susp mk \<longleftrightarrow>
     (\<forall>m k. susp m (fst (mk m k)) = None \<and> susp (snd (mk m k)) = (susp m)(fst (mk m k) \<mapsto> Co k))"

text \<open>
  The pool: the workers with their tasks, \<open>m_ctx\<close> of every context, the thread-local handle of every
  thread, what every thread runs, and the tasks in the hand of the dispatcher.
\<close>

record ('c, 'm) pool =
  p_w :: "nat \<Rightarrow> worker"
  p_ts :: "nat \<Rightarrow> task"
  p_ctx :: "nat \<Rightarrow> 'c"
  p_tls :: "nat \<Rightarrow> 'c"
  p_m :: 'm
  p_on :: "nat \<Rightarrow> computation"
  p_made :: "nat set"
  p_held :: "nat list"

text \<open>
  The first statement a resumed computation executes on the thread \<open>th\<close>: a coroutine keeps the
  handle in the thread's local variable, whether it comes out of \<open>SwapOut\<close> or starts; the loop of a
  worker, in the \<open>SwapIn\<close> of its running task, keeps it in \<open>m_ctx\<close>.
\<close>

definition landed :: "nat \<Rightarrow> computation \<Rightarrow> 'c \<Rightarrow> ('c, 'm) pool \<Rightarrow> ('c, 'm) pool" where
  "landed th who c s =
     (case who of
        Co k \<Rightarrow> s\<lparr>p_tls := (p_tls s)(th := c), p_on := (p_on s)(th := Co k)\<rparr>
      | Loop w \<Rightarrow>
          (case m_runnable (p_w s w) of
             None \<Rightarrow> s\<lparr>p_on := (p_on s)(th := Loop w)\<rparr>
           | Some k \<Rightarrow> s\<lparr>p_ctx := (p_ctx s)(k := c), p_on := (p_on s)(th := Loop w)\<rparr>))"

definition SwapIn :: "('c, 'm) jump_fun \<Rightarrow> nat \<Rightarrow> nat \<Rightarrow> ('c, 'm) pool \<Rightarrow> ('c, 'm) pool res" where
  "SwapIn jump th k s =
     (case jump (p_m s) (p_on s th) (p_ctx s k) of
        None \<Rightarrow> Inl UseAfterFree
      | Some (c, who, m) \<Rightarrow> Inr (landed th who c (s\<lparr>p_m := m\<rparr>)))"

definition SwapOut :: "('c, 'm) jump_fun \<Rightarrow> nat \<Rightarrow> ('c, 'm) pool \<Rightarrow> ('c, 'm) pool res" where
  "SwapOut jump th s =
     (case jump (p_m s) (p_on s th) (p_tls s th) of
        None \<Rightarrow> Inl UseAfterFree
      | Some (c, who, m) \<Rightarrow> Inr (landed th who c (s\<lparr>p_m := m\<rparr>)))"

definition new_context :: "('c, 'm) make_fun \<Rightarrow> nat \<Rightarrow> ('c, 'm) pool \<Rightarrow> ('c, 'm) pool" where
  "new_context mk k s =
     (let (c, m) = mk (p_m s) k in s\<lparr>p_ctx := (p_ctx s)(k := c), p_m := m, p_made := insert k (p_made s)\<rparr>)"


section \<open>Workers that share tasks\<close>

definition set_worker :: "nat \<Rightarrow> worker \<Rightarrow> ('c, 'm) pool \<Rightarrow> ('c, 'm) pool" where
  "set_worker i w s = s\<lparr>p_w := (p_w s)(i := w)\<rparr>"

text \<open>A round of \<open>process\<close> up to the switch: a task is popped and entered.\<close>

definition pool_run :: "('c, 'm) jump_fun \<Rightarrow> nat \<Rightarrow> ('c, 'm) pool \<Rightarrow> ('c, 'm) pool res" where
  "pool_run jump th s =
     (let (r, w, ts) = process_pop th (p_w s th) (p_ts s); s = set_worker th w (s\<lparr>p_ts := ts\<rparr>) in
      case r of None \<Rightarrow> Inr s | Some k \<Rightarrow> SwapIn jump th k s)"

text \<open>\<open>operCoYield\<close> in a coroutine, and the loop of the thread after it.\<close>

definition pool_yield :: "('c, 'm) jump_fun \<Rightarrow> nat \<Rightarrow> ('c, 'm) pool \<Rightarrow> ('c, 'm) pool res" where
  "pool_yield jump th s =
     seqE (coYield (p_w s th) (p_ts s)) (\<lambda>ts.
       seqE (SwapOut jump th (s\<lparr>p_ts := ts\<rparr>)) (\<lambda>s.
         Inr (case p_on s th of
                Loop w \<Rightarrow> set_worker w (process_after (p_w s w) (p_ts s)) s
              | Co k \<Rightarrow> s)))"

text \<open>
  The steps of the threads.  A task is created into the queue of a worker; a coroutine suspends
  itself, finishes (in \<open>execute\<close>) or yields; anybody wakes a suspended one; the dispatcher steals and
  hands out.  With \<open>careful\<close> the dispatcher leaves alone the woken task that is still running; the
  code does not.
\<close>

inductive pool_step ::
    "bool \<Rightarrow> ('c, 'm) jump_fun \<Rightarrow> ('c, 'm) make_fun \<Rightarrow> ('c, 'm) pool \<Rightarrow> ('c, 'm) pool \<Rightarrow> bool"
  for careful jump mk where
  p_create: "k \<notin> p_made s \<Longrightarrow>
     pool_step careful jump mk s (set_worker i (addTask (p_w s i) k) (new_context mk k s))"
| p_run: "p_on s th = Loop th \<Longrightarrow> pool_run jump th s = Inr s' \<Longrightarrow> pool_step careful jump mk s s'"
| p_move: "p_on s th = Loop th \<Longrightarrow> m_runnableQueue (p_w s th) = [] \<Longrightarrow>
     pool_step careful jump mk s (set_worker th (moveRunnable (p_w s th)) s)"
| p_suspend: "p_on s th = Co k \<Longrightarrow> suspendBySelf (p_w s th) (p_ts s) k = Inr (e, w, ts) \<Longrightarrow>
     pool_step careful jump mk s (set_worker th w (s\<lparr>p_ts := ts\<rparr>))"
| p_finish: "p_on s th = Co k \<Longrightarrow> tk_state (p_ts s k) = Runnable \<Longrightarrow>
     pool_step careful jump mk s (s\<lparr>p_ts := (p_ts s)(k := (p_ts s k)\<lparr>tk_state := Done\<rparr>)\<rparr>)"
| p_yield: "p_on s th = Co k \<Longrightarrow> pool_yield jump th s = Inr s' \<Longrightarrow> pool_step careful jump mk s s'"
| p_wakeup: "se_tk e = Some k \<Longrightarrow> tk_worker (p_ts s k) = Some i \<Longrightarrow>
     wakeup alive other (p_w s i) (p_ts s) e = Inr (ok, w, ts) \<Longrightarrow>
     pool_step careful jump mk s (set_worker i w (s\<lparr>p_ts := ts\<rparr>))"
| p_steal: "steal (p_w s i) n = (l, w) \<Longrightarrow>
     (if careful \<and> n = 0 then case p_on s i of Co k \<Rightarrow> k \<notin> set (m_runnableQueue (p_w s i)) | Loop _ \<Rightarrow> True else True) \<Longrightarrow>
     pool_step careful jump mk s (set_worker i w (s\<lparr>p_held := p_held s @ l\<rparr>))"
| p_give: "p_held s = xs @ l @ ys \<Longrightarrow>
     pool_step careful jump mk s (set_worker i (addTasks (p_w s i) l) (s\<lparr>p_held := xs @ ys\<rparr>))"

definition pool_init :: "('m \<Rightarrow> 'c \<Rightarrow> computation option) \<Rightarrow> ('c, 'm) pool \<Rightarrow> bool" where
  "pool_init susp s \<longleftrightarrow>
     p_w s = (\<lambda>_. new_worker) \<and> p_on s = Loop \<and> p_made s = {} \<and> p_held s = [] \<and> susp (p_m s) = Map.empty"


section \<open>Where the tasks are\<close>

definition places :: "worker \<Rightarrow> nat list" where
  "places w = m_runnableQueue w @ m_newQueue w @ m_waitQueue w"

text \<open>
  Every task is in one place at most.  A thread in its loop has no running task; one that is in a
  coroutine has it as its running task, and the loop of the worker is suspended behind the thread's
  handle.  A coroutine runs on one thread at most and is suspended behind its \<open>m_ctx\<close> otherwise.  A
  running task is nowhere, unless it has suspended itself: then it waits in its own worker, or was
  woken and is runnable there.
\<close>

definition queues_ok :: "(nat \<Rightarrow> worker) \<Rightarrow> nat list \<Rightarrow> nat set \<Rightarrow> bool" where
  "queues_ok w held made \<longleftrightarrow>
     (\<forall>i. distinct (places (w i)) \<and> set (places (w i)) \<subseteq> made - set held) \<and>
     (\<forall>i j. i \<noteq> j \<longrightarrow> set (places (w i)) \<inter> set (places (w j)) = {}) \<and>
     distinct held \<and> set held \<subseteq> made"

definition threads_ok :: "('m \<Rightarrow> 'c \<Rightarrow> computation option) \<Rightarrow> ('c, 'm) pool \<Rightarrow> bool" where
  "threads_ok susp s \<longleftrightarrow>
     (\<forall>th. case p_on s th of
        Loop i \<Rightarrow> i = th \<and> m_runnable (p_w s th) = None
      | Co k \<Rightarrow> m_runnable (p_w s th) = Some k \<and> susp (p_m s) (p_tls s th) = Some (Loop th) \<and> k \<in> p_made s) \<and>
     (\<forall>th th' k. p_on s th = Co k \<and> p_on s th' = Co k \<longrightarrow> th = th') \<and>
     (\<forall>k \<in> p_made s. (\<forall>th. p_on s th \<noteq> Co k) \<longrightarrow> susp (p_m s) (p_ctx s k) = Some (Co k))"

definition running_ok :: "('c, 'm) pool \<Rightarrow> bool" where
  "running_ok s \<longleftrightarrow>
     (\<forall>th k. p_on s th = Co k \<longrightarrow>
        tk_worker (p_ts s k) = Some th \<and> k \<notin> set (p_held s) \<and> (\<forall>j. j \<noteq> th \<longrightarrow> k \<notin> set (places (p_w s j))) \<and> k \<notin> set (m_newQueue (p_w s th)) \<and>
        (tk_state (p_ts s k) = Runnable \<longrightarrow> k \<notin> set (places (p_w s th)))) \<and>
     (\<forall>i. \<forall>k \<in> set (m_waitQueue (p_w s i)). tk_worker (p_ts s k) = Some i)"

definition pool_inv :: "('m \<Rightarrow> 'c \<Rightarrow> computation option) \<Rightarrow> ('c, 'm) pool \<Rightarrow> bool" where
  "pool_inv susp s \<longleftrightarrow> queues_ok (p_w s) (p_held s) (p_made s) \<and> threads_ok susp s \<and> running_ok s"

lemma pool_init_inv: "pool_init susp s \<Longrightarrow> pool_inv susp s"
  by (auto simp: pool_init_def pool_inv_def queues_ok_def threads_ok_def running_ok_def places_def new_worker_def)

text \<open>What the operations of a worker do to its queues and its running task.\<close>

lemma places_simps [simp]:
  "places (notifyCondition w) = places w" "m_runnable (notifyCondition w) = m_runnable w"
  "m_newQueue (notifyCondition w) = m_newQueue w" "m_waitQueue (notifyCondition w) = m_waitQueue w"
  "m_runnableQueue (notifyCondition w) = m_runnableQueue w"
  "places (process_after w ts) = places w" "m_runnable (process_after w ts) = None"
  "m_newQueue (process_after w ts) = m_newQueue w" "m_waitQueue (process_after w ts) = m_waitQueue w"
  by (simp_all add: notifyCondition_def places_def process_after_def worker_gc_def Let_def split: option.split task_state.split)

lemma queues_upd:
  assumes "queues_ok w held made" and "made \<subseteq> made'" and "distinct (places w')" and "distinct held'"
    and "set (places w') \<inter> set held' = {}"
    and "set (places w') \<union> set held' \<subseteq> set (places (w i)) \<union> set held \<union> (made' - made)"
  shows "queues_ok (w(i := w')) held' made'"
proof -
  have other: "set (places (w j)) \<inter> (set (places w') \<union> set held') = {}" if "j \<noteq> i" for j
  proof -
    have "set (places (w j)) \<inter> set (places (w i)) = {}" using assms(1) that by (simp add: queues_ok_def)
    moreover have "set (places (w j)) \<subseteq> made - set held" using assms(1) by (simp add: queues_ok_def)
    ultimately show ?thesis using assms(6) by blast
  qed
  have own: "set (places w') \<union> set held' \<subseteq> made'"
  proof -
    have "set (places (w i)) \<subseteq> made" "set held \<subseteq> made" using assms(1) by (auto simp: queues_ok_def)
    then show ?thesis using assms(2,6) by blast
  qed
  have others: "distinct (places (w j)) \<and> set (places (w j)) \<subseteq> made' - set held'" if "j \<noteq> i" for j
  proof -
    have "distinct (places (w j)) \<and> set (places (w j)) \<subseteq> made" using assms(1) by (auto simp: queues_ok_def)
    then show ?thesis using other[OF that] assms(2) by blast
  qed
  have pairs: "set (places (w j)) \<inter> set (places (w k)) = {}" if "j \<noteq> k" for j k
    using assms(1) that by (simp add: queues_ok_def)
  have new: "set (places (w j)) \<inter> set (places w') = {}" "set (places w') \<inter> set (places (w j)) = {}" if "j \<noteq> i" for j
    using other[OF that] by auto
  show ?thesis
    unfolding queues_ok_def
  proof (intro conjI allI impI)
    fix j k :: nat assume "j \<noteq> k"
    then show "set (places ((w(i := w')) j)) \<inter> set (places ((w(i := w')) k)) = {}"
      using pairs new by (cases "j = i"; cases "k = i") simp_all
  next
    fix j show "distinct (places ((w(i := w')) j))" using others assms(3) by (cases "j = i") simp_all
  next
    fix j show "set (places ((w(i := w')) j)) \<subseteq> made' - set held'"
      using others own assms(5) by (cases "j = i") auto
  qed (use own assms(4) in simp_all)
qed

lemma queues_same:
  assumes "queues_ok w held made" and "set (places w') = set (places (w i))" and "distinct (places w')"
  shows "queues_ok (w(i := w')) held made"
proof (rule queues_upd[OF assms(1)])
  show "distinct held" "set (places w') \<inter> set held = {}" using assms(1,2) by (auto simp: queues_ok_def)
qed (use assms in auto)

lemma queues_distinct:
  "queues_ok w held made \<Longrightarrow> distinct (places (w i))" "queues_ok w held made \<Longrightarrow> set (places (w i)) \<subseteq> made - set held"
  "queues_ok w held made \<Longrightarrow> i \<noteq> j \<Longrightarrow> set (places (w i)) \<inter> set (places (w j)) = {}"
  "queues_ok w held made \<Longrightarrow> distinct held \<and> set held \<subseteq> made"
  by (simp_all add: queues_ok_def)

lemma steal_places:
  assumes "steal w n = (l, w')" and "distinct (places w)"
  shows "distinct (places w')" "distinct l" "set l \<inter> set (places w') = {}" "set (places w') \<union> set l = set (places w)"
    "m_runnable w' = m_runnable w" "m_waitQueue w' = m_waitQueue w"
    "set (m_newQueue w') \<subseteq> set (m_newQueue w)" "set l \<subseteq> set (m_newQueue w) \<union> (if n = 0 then set (m_runnableQueue w) else {})"
proof -
  have "distinct (places w') \<and> distinct l \<and> set l \<inter> set (places w') = {} \<and> set (places w') \<union> set l = set (places w) \<and>
    m_runnable w' = m_runnable w \<and> m_waitQueue w' = m_waitQueue w \<and> set (m_newQueue w') \<subseteq> set (m_newQueue w) \<and>
    set l \<subseteq> set (m_newQueue w) \<union> (if n = 0 then set (m_runnableQueue w) else {})"
  proof (cases "n > 0")
    case True
    then obtain rest where r: "popBack (m_newQueue w) n = (l, rest)" "w' = w\<lparr>m_newQueue := rest\<rparr>"
      using assms(1) by (auto simp: steal_def split: prod.splits)
    then have "m_newQueue w = rest @ l" using popBack_split by metis
    then show ?thesis using r(2) True assms(2) by (auto simp: places_def)
  next
    case False
    then show ?thesis using assms by (auto simp: steal_def places_def)
  qed
  then show "distinct (places w')" "distinct l" "set l \<inter> set (places w') = {}" "set (places w') \<union> set l = set (places w)"
    "m_runnable w' = m_runnable w" "m_waitQueue w' = m_waitQueue w"
    "set (m_newQueue w') \<subseteq> set (m_newQueue w)" "set l \<subseteq> set (m_newQueue w) \<union> (if n = 0 then set (m_runnableQueue w) else {})"
    by blast+
qed

lemma wakeup_places:
  assumes "wakeup alive other w ts e = Inr (ok, w', ts')" and "se_tk e = Some k" and "distinct (places w)"
  shows "distinct (places w')" "set (places w') = set (places w)" "m_runnable w' = m_runnable w"
    "m_newQueue w' = m_newQueue w" "set (m_waitQueue w') \<subseteq> set (m_waitQueue w)"
    "tk_worker (ts' x) = tk_worker (ts x)" "tk_state (ts' x) = tk_state (ts x)"
proof -
  have "(w' = w \<and> ts' = ts) \<or> (k \<in> set (m_waitQueue w) \<and>
      (w' = w\<lparr>m_waitQueue := remove1 k (m_waitQueue w), m_runnableQueue := m_runnableQueue w @ [k]\<rparr> \<or>
       w' = notifyCondition (w\<lparr>m_waitQueue := remove1 k (m_waitQueue w), m_runnableQueue := m_runnableQueue w @ [k]\<rparr>)) \<and>
      ts' = ts(k := (ts k)\<lparr>tk_supperId := tk_supperId (ts k) + 1\<rparr>))"
    using assms(1,2) by (auto simp: wakeup_def wakeupBySelf_def res_simps Let_def split: if_splits option.splits)
  moreover have "distinct (m_waitQueue w)" using assms(3) by (simp add: places_def)
  ultimately show "distinct (places w')" "set (places w') = set (places w)" "m_runnable w' = m_runnable w"
    "m_newQueue w' = m_newQueue w" "set (m_waitQueue w') \<subseteq> set (m_waitQueue w)"
    "tk_worker (ts' x) = tk_worker (ts x)" "tk_state (ts' x) = tk_state (ts x)"
    using assms(3) by (auto simp: places_def)
qed

lemma set_worker_simps [simp]:
  "p_w (set_worker i w s) = (p_w s)(i := w)" "p_ts (set_worker i w s) = p_ts s" "p_ctx (set_worker i w s) = p_ctx s"
  "p_tls (set_worker i w s) = p_tls s" "p_m (set_worker i w s) = p_m s" "p_on (set_worker i w s) = p_on s"
  "p_made (set_worker i w s) = p_made s" "p_held (set_worker i w s) = p_held s"
  by (simp_all add: set_worker_def)

section \<open>Switching keeps the invariant\<close>

lemma jump_known:
  assumes "jump_ok susp jump" and "susp m c = Some y"
  obtains c' m' where "jump m x c = Some (c', y, m')" "susp m c' = None" "susp m' = (susp m)(c := None, c' \<mapsto> x)" "c' \<noteq> c"
proof -
  have "case susp m c of None \<Rightarrow> jump m x c = None
      | Some y \<Rightarrow> \<exists>c' m'. jump m x c = Some (c', y, m') \<and> susp m c' = None \<and> susp m' = (susp m)(c := None, c' \<mapsto> x)"
    using assms(1) by (simp add: jump_ok_def)
  then obtain c' m' where j: "jump m x c = Some (c', y, m')" "susp m c' = None" "susp m' = (susp m)(c := None, c' \<mapsto> x)"
    using assms(2) by auto
  then have "c' \<noteq> c" using assms(2) by auto
  then show ?thesis using that j by blast
qed

lemma jump_unknown:
  assumes "jump_ok susp jump" and "susp m c = None"
  shows "jump m x c = None"
proof -
  have "case susp m c of None \<Rightarrow> jump m x c = None
      | Some y \<Rightarrow> \<exists>c' m'. jump m x c = Some (c', y, m') \<and> susp m c' = None \<and> susp m' = (susp m)(c := None, c' \<mapsto> x)"
    using assms(1) by (simp add: jump_ok_def)
  then show ?thesis using assms(2) by simp
qed

lemma pool_invD:
  assumes "pool_inv susp s"
  shows "p_on s th = Loop i \<Longrightarrow> i = th \<and> m_runnable (p_w s th) = None"
    "p_on s th = Co k \<Longrightarrow> m_runnable (p_w s th) = Some k \<and> susp (p_m s) (p_tls s th) = Some (Loop th) \<and> k \<in> p_made s"
    "p_on s th = Co k \<Longrightarrow> p_on s th' = Co k \<Longrightarrow> th = th'"
    "k \<in> p_made s \<Longrightarrow> (\<And>th. p_on s th \<noteq> Co k) \<Longrightarrow> susp (p_m s) (p_ctx s k) = Some (Co k)"
    "p_on s th = Co k \<Longrightarrow> k \<notin> set (p_held s)"
    "p_on s th = Co k \<Longrightarrow> k \<in> set (places (p_w s j)) \<Longrightarrow> j = th"
    "p_on s th = Co k \<Longrightarrow> k \<notin> set (m_newQueue (p_w s th))"
    "p_on s th = Co k \<Longrightarrow> tk_state (p_ts s k) = Runnable \<Longrightarrow> k \<notin> set (places (p_w s th))"
    "k \<in> set (m_waitQueue (p_w s i)) \<Longrightarrow> tk_worker (p_ts s k) = Some i"
    "queues_ok (p_w s) (p_held s) (p_made s)"
    "p_on s th = Co k \<Longrightarrow> tk_worker (p_ts s k) = Some th"
proof -
  have t: "case p_on s th of Loop i \<Rightarrow> i = th \<and> m_runnable (p_w s th) = None
      | Co k \<Rightarrow> m_runnable (p_w s th) = Some k \<and> susp (p_m s) (p_tls s th) = Some (Loop th) \<and> k \<in> p_made s" for th
    using assms by (simp add: pool_inv_def threads_ok_def)
  show "p_on s th = Loop i \<Longrightarrow> i = th \<and> m_runnable (p_w s th) = None" using t[of th] by simp
  show "p_on s th = Co k \<Longrightarrow> m_runnable (p_w s th) = Some k \<and> susp (p_m s) (p_tls s th) = Some (Loop th) \<and> k \<in> p_made s"
    using t[of th] by simp
  show "p_on s th = Co k \<Longrightarrow> p_on s th' = Co k \<Longrightarrow> th = th'"
    "k \<in> p_made s \<Longrightarrow> (\<And>th. p_on s th \<noteq> Co k) \<Longrightarrow> susp (p_m s) (p_ctx s k) = Some (Co k)"
    using assms unfolding pool_inv_def threads_ok_def by blast+
  show "p_on s th = Co k \<Longrightarrow> k \<notin> set (p_held s)"
    "p_on s th = Co k \<Longrightarrow> k \<in> set (places (p_w s j)) \<Longrightarrow> j = th"
    "p_on s th = Co k \<Longrightarrow> k \<notin> set (m_newQueue (p_w s th))"
    "p_on s th = Co k \<Longrightarrow> tk_state (p_ts s k) = Runnable \<Longrightarrow> k \<notin> set (places (p_w s th))"
    "k \<in> set (m_waitQueue (p_w s i)) \<Longrightarrow> tk_worker (p_ts s k) = Some i"
    "p_on s th = Co k \<Longrightarrow> tk_worker (p_ts s k) = Some th"
    using assms unfolding pool_inv_def running_ok_def by blast+
  show "queues_ok (p_w s) (p_held s) (p_made s)" using assms by (simp add: pool_inv_def)
qed

text \<open>A worker that pops a task enters it: no other thread is in it, and its handle is fresh.\<close>

lemma pool_run_inv:
  assumes inv: "pool_inv susp s" and jump: "jump_ok susp jump" and on: "p_on s th = Loop th"
  shows "\<exists>s'. pool_run jump th s = Inr s' \<and> pool_inv susp s' \<and>
    (case m_runnableQueue (p_w s th) of [] \<Rightarrow> p_on s' = p_on s | k # _ \<Rightarrow> p_on s' = (p_on s)(th := Co k))"
proof (cases "m_runnableQueue (p_w s th)")
  case Nil
  let ?w = "(p_w s th)\<lparr>m_runnable := None\<rparr>"
  have run: "pool_run jump th s = Inr (set_worker th ?w s)"
    using Nil by (simp add: pool_run_def process_pop_def set_worker_def)
  have none: "m_runnable (p_w s th) = None" using pool_invD(1)[OF inv on] by simp
  then have "?w = p_w s th" by simp
  then have "set_worker th ?w s = s" unfolding set_worker_def by simp
  then show ?thesis using run inv Nil by simp
next
  case (Cons k q)
  note D = pool_invD[OF inv]
  let ?w = "(p_w s th)\<lparr>m_runnableQueue := q, m_runnable := Some k, m_nts := m_nts (p_w s th) + 1\<rparr>"
  let ?ts = "(p_ts s)(k := (p_ts s k)\<lparr>tk_state := Runnable, tk_worker := Some th\<rparr>)"
  let ?s = "set_worker th ?w (s\<lparr>p_ts := ?ts\<rparr>)"
  have here: "k \<in> set (places (p_w s th))" using Cons by (simp add: places_def)
  have off: "p_on s th' \<noteq> Co k" for th'
    using D(6)[of th' k th] here on by auto
  have made: "k \<in> p_made s" and nheld: "k \<notin> set (p_held s)" using queues_distinct(2)[OF D(10), of th] here by auto
  have susp: "susp (p_m s) (p_ctx s k) = Some (Co k)" using D(4)[OF made off] .
  obtain c m where j: "jump (p_m s) (Loop th) (p_ctx s k) = Some (c, Co k, m)" "susp (p_m s) c = None"
    "susp m = (susp (p_m s))(p_ctx s k := None, c \<mapsto> Loop th)" "c \<noteq> p_ctx s k"
    using jump_known[OF jump susp] by metis
  let ?s' = "?s\<lparr>p_m := m, p_tls := (p_tls s)(th := c), p_on := (p_on s)(th := Co k)\<rparr>"
  have run: "pool_run jump th s = Inr ?s'"
    using Cons j(1) on by (simp add: pool_run_def process_pop_def set_worker_def SwapIn_def landed_def)
  have dist: "distinct (places (p_w s th))" by (rule queues_distinct(1)[OF D(10)])
  have w: "distinct (places ?w)" "set (places ?w) \<subseteq> set (places (p_w s th))" "k \<notin> set (places ?w)"
    using Cons dist by (auto simp: places_def)
  have "queues_ok ((p_w s)(th := ?w)) (p_held s) (p_made s)"
    by (rule queues_upd[OF D(10)]) (use w queues_distinct(2,4)[OF D(10)] in auto)
  moreover have "threads_ok susp ?s'"
    unfolding threads_ok_def
  proof (intro conjI allI ballI impI)
    fix t show "case p_on ?s' t of Loop i \<Rightarrow> i = t \<and> m_runnable (p_w ?s' t) = None
      | Co k \<Rightarrow> m_runnable (p_w ?s' t) = Some k \<and> susp (p_m ?s') (p_tls ?s' t) = Some (Loop t) \<and> k \<in> p_made ?s'"
    proof (cases "t = th")
      case True
      then show ?thesis using j(3) made by (simp add: set_worker_def)
    next
      case False
      have "p_tls s t \<noteq> p_ctx s k \<and> p_tls s t \<noteq> c" if "p_on s t = Co k2" for k2
        using D(2)[OF that] susp j(2) by auto
      then show ?thesis using False D(1,2)[of t] j(3) by (cases "p_on s t") (auto simp: set_worker_def)
    qed
  next
    fix t t' k2 assume "p_on ?s' t = Co k2 \<and> p_on ?s' t' = Co k2"
    then show "t = t'" using off D(3)[of t k2 t'] by (auto simp: set_worker_def split: if_splits)
  next
    fix k2 assume k2: "k2 \<in> p_made ?s'" "\<forall>t. p_on ?s' t \<noteq> Co k2"
    from k2(2) have "p_on s t \<noteq> Co k2" for t using on by (cases "t = th") (auto simp: set_worker_def dest: spec[of _ t])
    then have s2: "susp (p_m s) (p_ctx s k2) = Some (Co k2)" using D(4)[of k2] k2(1) by (simp add: set_worker_def)
    have "k2 \<noteq> k" using k2(2) by (auto simp: set_worker_def dest: spec[of _ th])
    then have "p_ctx s k2 \<noteq> p_ctx s k" "p_ctx s k2 \<noteq> c" using s2 susp j(2) by auto
    then show "susp (p_m ?s') (p_ctx ?s' k2) = Some (Co k2)" using s2 j(3) by (simp add: set_worker_def)
  qed
  moreover have "running_ok ?s'"
    unfolding running_ok_def
  proof (intro conjI allI ballI impI)
    fix t k2 assume t: "p_on ?s' t = Co k2"
    have c: "(t = th \<and> k2 = k) \<or> (t \<noteq> th \<and> p_on s t = Co k2 \<and> k2 \<noteq> k)" using t off by (auto simp: set_worker_def split: if_splits)
    show "tk_worker (p_ts ?s' k2) = Some t" using c D(11)[of t k2] by auto
    show "k2 \<notin> set (p_held ?s')" using c nheld D(5)[of t k2] by (auto simp: set_worker_def)
    show "k2 \<notin> set (m_newQueue (p_w ?s' t))" using c D(7)[of t k2] w(3) by (auto simp: set_worker_def places_def)
    show "k2 \<notin> set (places (p_w ?s' t))" if "tk_state (p_ts ?s' k2) = Runnable"
      using c w(3) that D(8)[of t k2] by (auto simp: set_worker_def)
    fix j assume "j \<noteq> t"
    then show "k2 \<notin> set (places (p_w ?s' j))"
      using c w(2) D(6)[of t k2 j] D(6)[of t k2 th] queues_distinct(3)[OF D(10), of th j] here by (auto simp: set_worker_def)
  next
    fix i k2 assume k2: "k2 \<in> set (m_waitQueue (p_w ?s' i))"
    then have "k2 \<in> set (m_waitQueue (p_w s i))" by (auto simp: set_worker_def split: if_splits)
    moreover have "k2 \<noteq> k"
    proof (cases "i = th")
      case True
      then show ?thesis using w(3) k2 by (auto simp: set_worker_def places_def)
    next
      case False
      then show ?thesis using k2 queues_distinct(3)[OF D(10), of th i] here by (auto simp: set_worker_def places_def)
    qed
    ultimately show "tk_worker (p_ts ?s' k2) = Some i" using D(9)[of k2 i] by (simp add: set_worker_def)
  qed
  ultimately have "pool_inv susp ?s'" by (simp add: pool_inv_def set_worker_def)
  then show ?thesis using run Cons by (auto simp: set_worker_def)
qed

text \<open>A coroutine that yields comes back into the loop of the thread it runs on.\<close>

lemma pool_yield_inv:
  assumes inv: "pool_inv susp s" and jump: "jump_ok susp jump" and on: "p_on s th = Co k"
  shows "\<exists>s'. pool_yield jump th s = Inr s' \<and> pool_inv susp s' \<and> p_on s' = (p_on s)(th := Loop th)"
proof -
  note D = pool_invD[OF inv]
  have run: "m_runnable (p_w s th) = Some k" and tls: "susp (p_m s) (p_tls s th) = Some (Loop th)" and made: "k \<in> p_made s"
    using D(2)[OF on] by auto
  obtain c m where j: "jump (p_m s) (Co k) (p_tls s th) = Some (c, Loop th, m)" "susp (p_m s) c = None"
    "susp m = (susp (p_m s))(p_tls s th := None, c \<mapsto> Co k)" "c \<noteq> p_tls s th"
    using jump_known[OF jump tls] by metis
  let ?ts = "(p_ts s)(k := (p_ts s k)\<lparr>tk_yieldCount := tk_yieldCount (p_ts s k) + 1\<rparr>)"
  let ?w = "process_after (p_w s th) ?ts"
  let ?s' = "set_worker th ?w (s\<lparr>p_ts := ?ts, p_m := m, p_ctx := (p_ctx s)(k := c), p_on := (p_on s)(th := Loop th)\<rparr>)"
  have yield: "pool_yield jump th s = Inr ?s'"
    using run on j(1) by (simp add: pool_yield_def coYield_def SwapOut_def landed_def set_worker_def)
  have pl: "set (places (p_w ?s' i)) = set (places (p_w s i))" for i by (simp add: set_worker_def)
  have "queues_ok ((p_w s)(th := ?w)) (p_held s) (p_made s)"
    by (rule queues_same[OF D(10)]) (use queues_distinct(1)[OF D(10)] in simp_all)
  moreover have "threads_ok susp ?s'"
    unfolding threads_ok_def
  proof (intro conjI allI ballI impI)
    fix t show "case p_on ?s' t of Loop i \<Rightarrow> i = t \<and> m_runnable (p_w ?s' t) = None
      | Co k \<Rightarrow> m_runnable (p_w ?s' t) = Some k \<and> susp (p_m ?s') (p_tls ?s' t) = Some (Loop t) \<and> k \<in> p_made ?s'"
    proof (cases "t = th")
      case True
      then show ?thesis by (simp add: set_worker_def)
    next
      case False
      have "p_tls s t \<noteq> p_tls s th \<and> p_tls s t \<noteq> c" if "p_on s t = Co k2" for k2
        using D(2)[OF that] tls j(2) False by auto
      then show ?thesis using False D(1,2)[of t] j(3) by (cases "p_on s t") (auto simp: set_worker_def)
    qed
  next
    fix t t' k2 assume "p_on ?s' t = Co k2 \<and> p_on ?s' t' = Co k2"
    then show "t = t'" using D(3)[of t k2 t'] by (auto simp: set_worker_def split: if_splits)
  next
    fix k2 assume k2: "k2 \<in> p_made ?s'" "\<forall>t. p_on ?s' t \<noteq> Co k2"
    show "susp (p_m ?s') (p_ctx ?s' k2) = Some (Co k2)"
    proof (cases "k2 = k")
      case True
      then show ?thesis using j(3) by (simp add: set_worker_def)
    next
      case False
      have "p_on s t \<noteq> Co k2" for t using k2(2) on False by (cases "t = th") (auto simp: set_worker_def dest: spec[of _ t])
      then have s2: "susp (p_m s) (p_ctx s k2) = Some (Co k2)" using D(4)[of k2] k2(1) by (simp add: set_worker_def)
      then have "p_ctx s k2 \<noteq> p_tls s th" "p_ctx s k2 \<noteq> c" using tls j(2) by auto
      then show ?thesis using s2 j(3) False by (simp add: set_worker_def)
    qed
  qed
  moreover have "running_ok ?s'"
    unfolding running_ok_def
  proof (intro conjI allI ballI impI)
    fix t k2 assume t: "p_on ?s' t = Co k2"
    have c: "t \<noteq> th" "p_on s t = Co k2" using t by (auto simp: set_worker_def split: if_splits)
    then have neq: "k2 \<noteq> k" using D(3)[OF on] by blast
    show "tk_worker (p_ts ?s' k2) = Some t" using D(11)[OF c(2)] neq by simp
    show "k2 \<notin> set (p_held ?s')" using D(5)[OF c(2)] by (simp add: set_worker_def)
    show "k2 \<notin> set (m_newQueue (p_w ?s' t))" using D(7)[OF c(2)] c(1) by (simp add: set_worker_def)
    show "k2 \<notin> set (places (p_w ?s' t))" if "tk_state (p_ts ?s' k2) = Runnable"
      using D(8)[OF c(2)] that neq c(1) by (simp add: set_worker_def)
    show "k2 \<notin> set (places (p_w ?s' j))" if "j \<noteq> t" for j using D(6)[OF c(2), of j] that unfolding pl by blast
  next
    fix i k2 assume "k2 \<in> set (m_waitQueue (p_w ?s' i))"
    then have "k2 \<in> set (m_waitQueue (p_w s i))" by (simp add: set_worker_def split: if_splits)
    then show "tk_worker (p_ts ?s' k2) = Some i" using D(9)[of k2 i] by (auto simp: set_worker_def)
  qed
  ultimately have "pool_inv susp ?s'" by (simp add: pool_inv_def set_worker_def)
  then show ?thesis using yield by (auto simp: set_worker_def)
qed

text \<open>Steps that neither switch nor create: the running tasks and the handles stay.\<close>

lemma pool_frame:
  assumes inv: "pool_inv susp s" and ctx: "p_ctx s' = p_ctx s" "p_tls s' = p_tls s" "p_m s' = p_m s" "p_on s' = p_on s" "p_made s' = p_made s"
    and w: "p_w s' = (p_w s)(i := w')" "m_runnable w' = m_runnable (p_w s i)"
    and q: "queues_ok (p_w s') (p_held s') (p_made s)" "running_ok s'"
  shows "pool_inv susp s'"
proof -
  have r: "m_runnable (p_w s' t) = m_runnable (p_w s t)" for t using w by simp
  have "threads_ok susp s'" using inv unfolding pool_inv_def threads_ok_def r ctx by blast
  then show ?thesis using q ctx(5) by (simp add: pool_inv_def)
qed

lemma running_upd:
  assumes inv: "pool_inv susp s"
    and eq: "p_on s' = p_on s" "p_w s' = (p_w s)(i := w')" "\<And>k. tk_worker (p_ts s' k) = tk_worker (p_ts s k)"
      "\<And>k. tk_state (p_ts s' k) = Runnable \<Longrightarrow> tk_state (p_ts s k) = Runnable"
    and places: "\<And>k. k \<in> set (places w') \<Longrightarrow> k \<in> set (places (p_w s i)) \<or> (\<forall>th. p_on s th \<noteq> Co k)"
      "\<And>k. k \<in> set (m_newQueue w') \<Longrightarrow> k \<in> set (m_newQueue (p_w s i)) \<or> (\<forall>th. p_on s th \<noteq> Co k)"
      "\<And>k. k \<in> set (m_waitQueue w') \<Longrightarrow> k \<in> set (m_waitQueue (p_w s i))"
      "\<And>k. k \<in> set (p_held s') \<Longrightarrow> k \<in> set (p_held s) \<or> (\<forall>th. p_on s th \<noteq> Co k)"
  shows "running_ok s'"
  unfolding running_ok_def
proof (intro conjI allI ballI impI)
  note D = pool_invD[OF inv]
  fix t k assume t: "p_on s' t = Co k"
  then have on: "p_on s t = Co k" by (simp add: eq(1))
  show "tk_worker (p_ts s' k) = Some t" using D(11)[OF on] eq(3) by simp
  show "k \<notin> set (p_held s')" using places(4)[of k] D(5)[OF on] on by blast
  show "k \<notin> set (m_newQueue (p_w s' t))" using places(2)[of k] D(7)[OF on] on by (auto simp: eq(2))
  show "k \<notin> set (places (p_w s' t))" if "tk_state (p_ts s' k) = Runnable"
    using places(1)[of k] D(8)[OF on eq(4)[OF that]] on by (auto simp: eq(2))
  show "k \<notin> set (places (p_w s' j))" if "j \<noteq> t" for j
    using places(1)[of k] D(6)[OF on, of j] that on by (auto simp: eq(2) split: if_splits)
next
  fix j k assume "k \<in> set (m_waitQueue (p_w s' j))"
  then have "k \<in> set (m_waitQueue (p_w s j))" using places(3)[of k] by (auto simp: eq(2) split: if_splits)
  then show "tk_worker (p_ts s' k) = Some j" using pool_invD(9)[OF inv] eq(3) by simp
qed

text \<open>Every step of the careful pool.\<close>

lemma add_places [simp]:
  "set (places (addTasks w l)) = set (places w) \<union> set l"
  "distinct (places (addTasks w l)) \<longleftrightarrow> distinct (places w) \<and> distinct l \<and> set l \<inter> set (places w) = {}"
  "m_runnable (addTasks w l) = m_runnable w" "m_waitQueue (addTasks w l) = m_waitQueue w"
  "m_newQueue (addTasks w l) = m_newQueue w @ l"
  unfolding addTasks_def by (auto simp: places_simps) (auto simp: places_def)

lemma addTask_one: "addTask w k = addTasks w [k]"
  by (simp add: addTask_def addTasks_def)

lemma pool_create_inv:
  assumes inv: "pool_inv susp s" and mk: "make_ok susp mk" and new: "k \<notin> p_made s"
  shows "pool_inv susp (set_worker i (addTask (p_w s i) k) (new_context mk k s))"
proof -
  note D = pool_invD[OF inv]
  obtain c m where cm: "mk (p_m s) k = (c, m)" by fastforce
  then have fresh: "susp (p_m s) c = None" and m: "susp m = (susp (p_m s))(c \<mapsto> Co k)"
    using mk unfolding make_ok_def by (metis fst_conv snd_conv)+
  let ?w = "addTask (p_w s i) k"
  let ?s = "set_worker i ?w (s\<lparr>p_ctx := (p_ctx s)(k := c), p_m := m, p_made := insert k (p_made s)\<rparr>)"
  have eq: "set_worker i ?w (new_context mk k s) = ?s" by (simp add: new_context_def cm)
  have off: "p_on s t \<noteq> Co k" for t using D(2)[of t k] new by auto
  have none: "k \<notin> set (places (p_w s i))" using queues_distinct(2)[OF D(10), of i] new by auto
  have "queues_ok ((p_w s)(i := ?w)) (p_held s) (insert k (p_made s))"
    by (rule queues_upd[OF D(10)])
      (use queues_distinct(1,2)[OF D(10), of i] queues_distinct(4)[OF D(10)] new none in \<open>auto simp: addTask_one\<close>)
  moreover have "threads_ok susp ?s"
    unfolding threads_ok_def
  proof (intro conjI allI ballI impI)
    fix t
    have "p_tls s t \<noteq> c" if "p_on s t = Co k2" for k2 using D(2)[OF that] fresh by auto
    then show "case p_on ?s t of Loop i \<Rightarrow> i = t \<and> m_runnable (p_w ?s t) = None
      | Co k \<Rightarrow> m_runnable (p_w ?s t) = Some k \<and> susp (p_m ?s) (p_tls ?s t) = Some (Loop t) \<and> k \<in> p_made ?s"
      using D(1,2)[of t] m by (cases "p_on s t") (auto simp: addTask_one)
  next
    fix t t' k2 assume "p_on ?s t = Co k2 \<and> p_on ?s t' = Co k2"
    then show "t = t'" using D(3)[of t k2 t'] by simp
  next
    fix k2 assume k2: "k2 \<in> p_made ?s" "\<forall>t. p_on ?s t \<noteq> Co k2"
    show "susp (p_m ?s) (p_ctx ?s k2) = Some (Co k2)"
    proof (cases "k2 = k")
      case False
      then have "susp (p_m s) (p_ctx s k2) = Some (Co k2)" using D(4)[of k2] k2 by simp
      then show ?thesis using fresh m False by auto
    qed (use m in simp)
  qed
  moreover have "running_ok ?s"
    by (rule running_upd[OF inv, where i=i and w'="?w"]) (use off in \<open>auto simp: addTask_one\<close>)
  ultimately show ?thesis unfolding eq by (simp add: pool_inv_def)
qed

lemma pool_suspend_inv:
  assumes inv: "pool_inv susp s" and on: "p_on s th = Co k" and sus: "suspendBySelf (p_w s th) (p_ts s) k = Inr (e, w, ts)"
  shows "pool_inv susp (set_worker th w (s\<lparr>p_ts := ts\<rparr>))"
proof -
  note D = pool_invD[OF inv]
  have eff: "w = (p_w s th)\<lparr>m_waitQueue := m_waitQueue (p_w s th) @ [k]\<rparr>" "tk_state (p_ts s k) = Runnable"
    "\<And>x. tk_worker (ts x) = tk_worker (p_ts s x)" "tk_state (ts k) = Block" "\<And>x. x \<noteq> k \<Longrightarrow> ts x = p_ts s x"
    using sus by (auto simp: suspendBySelf_def res_simps Let_def split: if_splits)
  have none: "k \<notin> set (places (p_w s th))" by (rule D(8)[OF on eff(2)])
  have made: "k \<in> p_made s" "k \<notin> set (p_held s)" using D(2)[OF on] D(5)[OF on] by simp_all
  have pl: "set (places w) = insert k (set (places (p_w s th)))" "distinct (places w)"
    using none queues_distinct(1)[OF D(10), of th] by (auto simp: eff(1) places_def)
  let ?s = "set_worker th w (s\<lparr>p_ts := ts\<rparr>)"
  show ?thesis
  proof (rule pool_frame[OF inv, where i=th and w'=w])
    have away: "k \<notin> set (places (p_w s j))" for j using D(6)[OF on, of j] none by blast
    have off: "t = th" if "p_on s t = Co k" for t using D(3)[OF on that] by simp
    show "queues_ok (p_w ?s) (p_held ?s) (p_made s)"
      unfolding queues_ok_def
    proof (intro conjI allI impI)
      fix i j :: nat assume "i \<noteq> j"
      then show "set (places (p_w ?s i)) \<inter> set (places (p_w ?s j)) = {}"
        using queues_distinct(3)[OF D(10), of i j] pl(1) away by auto
    next
      fix i show "distinct (places (p_w ?s i))" using queues_distinct(1)[OF D(10), of i] pl(2) by simp
    next
      fix i show "set (places (p_w ?s i)) \<subseteq> p_made s - set (p_held ?s)"
        using queues_distinct(2)[OF D(10), of i] pl(1) made by auto
    qed (use queues_distinct(4)[OF D(10)] in simp_all)
    show "running_ok ?s"
      unfolding running_ok_def
    proof (intro conjI allI ballI impI)
      fix t k2 assume t: "p_on ?s t = Co k2"
      then have on2: "p_on s t = Co k2" by simp
      show "tk_worker (p_ts ?s k2) = Some t" using D(11)[OF on2] eff(3) by simp
      show "k2 \<notin> set (p_held ?s)" using D(5)[OF on2] by simp
      show "k2 \<notin> set (m_newQueue (p_w ?s t))" using D(7)[OF on2] eff(1) by auto
      show "k2 \<notin> set (places (p_w ?s t))" if "tk_state (p_ts ?s k2) = Runnable"
        using that eff(4) eff(5)[of k2] D(8)[OF on2] pl(1) by (cases "k2 = k") auto
      show "k2 \<notin> set (places (p_w ?s j))" if "j \<noteq> t" for j
        using D(6)[OF on2, of j] pl(1) that off[of t] on2 by auto
    next
      fix i k2 assume "k2 \<in> set (m_waitQueue (p_w ?s i))"
      then have "k2 \<in> set (m_waitQueue (p_w s i)) \<or> (k2 = k \<and> i = th)" using eff(1) by (auto split: if_splits)
      then show "tk_worker (p_ts ?s k2) = Some i" using D(9)[of k2 i] D(11)[OF on] eff(3) by auto
    qed
  qed (use eff(1) in simp_all)
qed

text \<open>Steps that only move tasks between places.\<close>

lemma pool_move_inv:
  assumes inv: "pool_inv susp s"
    and w: "distinct (places w')" "m_runnable w' = m_runnable (p_w s i)" "m_waitQueue w' \<noteq> [] \<Longrightarrow> set (m_waitQueue w') \<subseteq> set (m_waitQueue (p_w s i))"
    and held: "distinct held'" "set (places w') \<inter> set held' = {}"
    and all: "set (places w') \<union> set held' \<subseteq> set (places (p_w s i)) \<union> set (p_held s)"
    and off: "\<And>k th. k \<in> (set (places w') - set (places (p_w s i))) \<union> (set (m_newQueue w') - set (m_newQueue (p_w s i))) \<union> (set held' - set (p_held s)) \<Longrightarrow>
        p_on s th \<noteq> Co k"
    and ts: "\<And>k. tk_worker (ts k) = tk_worker (p_ts s k)" "\<And>k. tk_state (ts k) = Runnable \<Longrightarrow> tk_state (p_ts s k) = Runnable"
  shows "pool_inv susp (set_worker i w' (s\<lparr>p_ts := ts, p_held := held'\<rparr>))"
proof (rule pool_frame[OF inv, where i=i and w'=w'])
  let ?s = "set_worker i w' (s\<lparr>p_ts := ts, p_held := held'\<rparr>)"
  note D = pool_invD[OF inv]
  have "queues_ok ((p_w s)(i := w')) held' (p_made s)"
    by (rule queues_upd[OF D(10)]) (use w(1) held all in simp_all)
  then show "queues_ok (p_w ?s) (p_held ?s) (p_made s)" by simp
  show "running_ok ?s"
  proof (rule running_upd[OF inv, where i=i and w'=w'])
    show "k \<in> set (m_waitQueue w') \<Longrightarrow> k \<in> set (m_waitQueue (p_w s i))" for k using w(3) by fastforce
    show "k \<in> set (places w') \<Longrightarrow> k \<in> set (places (p_w s i)) \<or> (\<forall>th. p_on s th \<noteq> Co k)" for k using off[of k] by blast
    show "k \<in> set (m_newQueue w') \<Longrightarrow> k \<in> set (m_newQueue (p_w s i)) \<or> (\<forall>th. p_on s th \<noteq> Co k)" for k using off[of k] by blast
    show "k \<in> set (p_held ?s) \<Longrightarrow> k \<in> set (p_held s) \<or> (\<forall>th. p_on s th \<noteq> Co k)" for k using off[of k] by auto
  qed (use ts in simp_all)
qed (use w(2) in simp_all)

lemma pool_step_inv:
  assumes "pool_step True jump mk s t" and mk: "make_ok susp mk" and jump: "jump_ok susp jump" and inv: "pool_inv susp s"
  shows "pool_inv susp t"
  using assms(1)
proof (cases rule: pool_step.cases)
  case (p_create k i)
  then show ?thesis using pool_create_inv[OF inv mk] by simp
next
  case (p_run th)
  then show ?thesis using pool_run_inv[OF inv jump, of th] by auto
next
  case (p_move th)
  note D = pool_invD[OF inv]
  have "places (moveRunnable (p_w s th)) = places (p_w s th)" using p_move(3) by (simp add: moveRunnable_def places_def)
  then have "pool_inv susp (set_worker th (moveRunnable (p_w s th)) (s\<lparr>p_ts := p_ts s, p_held := p_held s\<rparr>))"
    by (intro pool_move_inv[OF inv])
      (use queues_distinct(1,2)[OF D(10), of th] queues_distinct(4)[OF D(10)] in \<open>auto simp: moveRunnable_def\<close>)
  then show ?thesis using p_move(1) by simp
next
  case (p_suspend th k e w ts)
  then show ?thesis using pool_suspend_inv[OF inv p_suspend(2,3)] by simp
next
  case (p_finish th k)
  let ?s = "s\<lparr>p_ts := (p_ts s)(k := (p_ts s k)\<lparr>tk_state := Done\<rparr>)\<rparr>"
  have "running_ok ?s"
    by (rule running_upd[OF inv, where i=th and w'="p_w s th"]) (simp_all split: if_splits)
  then have "pool_inv susp ?s"
    by (intro pool_frame[OF inv, where i=th and w'="p_w s th"]) (use pool_invD(10)[OF inv] in simp_all)
  then show ?thesis using p_finish(1) by simp
next
  case (p_yield th k)
  then show ?thesis using pool_yield_inv[OF inv jump p_yield(1)] by auto
next
  case (p_wakeup e k i alive other ok w ts)
  note D = pool_invD[OF inv]
  note W = wakeup_places[OF p_wakeup(4,2) queues_distinct(1)[OF D(10), of i]]
  have "pool_inv susp (set_worker i w (s\<lparr>p_ts := ts, p_held := p_held s\<rparr>))"
    by (rule pool_move_inv[OF inv]) (use W queues_distinct(2)[OF D(10), of i] queues_distinct(4)[OF D(10)] in auto)
  then show ?thesis using p_wakeup(1) by simp
next
  case (p_steal i n l w)
  note D = pool_invD[OF inv]
  note S = steal_places[OF p_steal(2) queues_distinct(1)[OF D(10), of i]]
  have off: "p_on s th \<noteq> Co k" if "k \<in> set l" for k th
  proof
    assume on: "p_on s th = Co k"
    have "k \<in> set (places (p_w s i))" using S(4) that by blast
    then have i: "i = th" using D(6)[OF on] by blast
    then have "k \<notin> set (m_newQueue (p_w s i))" using D(7)[OF on] by simp
    then have "n = 0 \<and> k \<in> set (m_runnableQueue (p_w s i))" using S(8) that by (auto split: if_splits)
    then show False using p_steal(3) on i by simp
  qed
  have "pool_inv susp (set_worker i w (s\<lparr>p_ts := p_ts s, p_held := p_held s @ l\<rparr>))"
    by (rule pool_move_inv[OF inv])
      (use S off queues_distinct(2)[OF D(10), of i] queues_distinct(4)[OF D(10)] in auto)
  then show ?thesis using p_steal(1) by simp
next
  case (p_give xs l ys i)
  note D = pool_invD[OF inv]
  have h: "distinct (xs @ l @ ys)" "set (xs @ l @ ys) \<subseteq> p_made s" using queues_distinct(4)[OF D(10)] p_give(2) by simp_all
  have "pool_inv susp (set_worker i (addTasks (p_w s i) l) (s\<lparr>p_ts := p_ts s, p_held := xs @ ys\<rparr>))"
    by (rule pool_move_inv[OF inv])
      (use h p_give(2) D(5) queues_distinct(1,2)[OF D(10), of i] in auto)
  then show ?thesis using p_give(1) by simp
qed

interpretation cpool: invariant_machine "pool_init susp"
  "\<lambda>s t. jump_ok susp jump \<and> make_ok susp mk \<and> pool_step True jump mk s t" "pool_inv susp"
  by unfold_locales (use pool_init_inv pool_step_inv in blast)+

lemma careful_reach_inv:
  assumes "jump_ok susp jump" and "make_ok susp mk" and "reach (pool_init susp) (pool_step True jump mk) s"
  shows "pool_inv susp s"
proof -
  have "reach (pool_init susp) (\<lambda>s t. jump_ok susp jump \<and> make_ok susp mk \<and> pool_step True jump mk s t) s"
    using assms(3) by (induction rule: reach.induct) (auto intro: reach_init reach_step simp: assms(1,2))
  then show ?thesis by (rule cpool.reach_inv)
qed


section \<open>Properties\<close>

text \<open>C12: If the dispatcher leaves a woken task to its worker until it has yielded, coroutines are safe on
  any number of workers, however tasks are created, suspended, woken, stolen and handed on: a worker
  in its loop can always enter the task it pops, which no other thread is in; a coroutine that yields
  gets back into the loop of the very thread it runs on; and no coroutine runs on two threads.\<close>

theorem careful_pool_safe:
  assumes "jump_ok susp jump" and "make_ok susp mk" and "reach (pool_init susp) (pool_step True jump mk) s"
  shows "(case p_on s th of
      Loop i \<Rightarrow> i = th \<and> (\<exists>s'. pool_run jump th s = Inr s' \<and>
        (case m_runnableQueue (p_w s th) of
           [] \<Rightarrow> p_on s' = p_on s
         | k # _ \<Rightarrow> (\<forall>th'. p_on s th' \<noteq> Co k) \<and> p_on s' = (p_on s)(th := Co k)))
    | Co k \<Rightarrow> (\<exists>s'. pool_yield jump th s = Inr s' \<and> p_on s' = (p_on s)(th := Loop th)) \<and>
        (\<forall>th'. p_on s th' = Co k \<longleftrightarrow> th' = th))"
proof -
  have inv: "pool_inv susp s" by (rule careful_reach_inv[OF assms])
  note D = pool_invD[OF inv]
  show ?thesis
  proof (cases "p_on s th")
    case (Loop i)
    then have i: "i = th" using D(1) by blast
    then have on: "p_on s th = Loop th" using Loop by simp
    have off: "p_on s th' \<noteq> Co k" if "m_runnableQueue (p_w s th) = k # q" for k q th'
    proof
      assume "p_on s th' = Co k"
      then have "th = th'" using D(6)[of th' k th] that by (simp add: places_def)
      then show False using on \<open>p_on s th' = Co k\<close> by simp
    qed
    obtain s' where s': "pool_run jump th s = Inr s'"
      "case m_runnableQueue (p_w s th) of [] \<Rightarrow> p_on s' = p_on s | k # _ \<Rightarrow> p_on s' = (p_on s)(th := Co k)"
      using pool_run_inv[OF inv assms(1) on] by blast
    have "case m_runnableQueue (p_w s th) of
        [] \<Rightarrow> p_on s' = p_on s | k # _ \<Rightarrow> (\<forall>th'. p_on s th' \<noteq> Co k) \<and> p_on s' = (p_on s)(th := Co k)"
      using s'(2) off by (cases "m_runnableQueue (p_w s th)") simp_all
    then show ?thesis unfolding Loop using s'(1) i by (simp only: computation.case) blast
  next
    case (Co k)
    have "p_on s th' = Co k \<longleftrightarrow> th' = th" for th' using D(3)[OF Co] Co by blast
    moreover have "\<exists>s'. pool_yield jump th s = Inr s' \<and> p_on s' = (p_on s)(th := Loop th)"
      using pool_yield_inv[OF inv assms(1) Co] by blast
    ultimately show ?thesis unfolding Co by simp
  qed
qed


text \<open>An implementation of the two functions of boost for the witnesses: handles count up.\<close>

definition demo_susp :: "computation option list \<Rightarrow> nat \<Rightarrow> computation option" where
  "demo_susp m c = (if c < length m then m ! c else None)"

definition demo_jump :: "(nat, computation option list) jump_fun" where
  "demo_jump m x c =
     (case demo_susp m c of None \<Rightarrow> None | Some y \<Rightarrow> Some (length m, y, m[c := None] @ [Some x]))"

definition demo_mk :: "(nat, computation option list) make_fun" where
  "demo_mk m k = (length m, m @ [Some (Co k)])"

lemma demo_ok: "jump_ok demo_susp demo_jump" "make_ok demo_susp demo_mk"
  by (auto simp: jump_ok_def make_ok_def demo_susp_def demo_jump_def demo_mk_def nth_append fun_eq_iff nth_list_update split: option.splits)

definition demo_pool :: "(nat, computation option list) pool" where
  "demo_pool = \<lparr>p_w = (\<lambda>_. new_worker), p_ts = (\<lambda>_. new_task), p_ctx = (\<lambda>_. 0), p_tls = (\<lambda>_. 0), p_m = [],
     p_on = Loop, p_made = {}, p_held = []\<rparr>"

lemma demo_pool_init: "pool_init demo_susp demo_pool"
  by (simp add: pool_init_def demo_pool_def demo_susp_def fun_eq_iff)

definition demo_pool1 :: "(nat, computation option list) pool" where
  "demo_pool1 = set_worker 0 (addTask (p_w demo_pool 0) 5) (new_context demo_mk 5 demo_pool)"

definition demo_pool2 :: "(nat, computation option list) pool" where
  "demo_pool2 = set_worker 0 (moveRunnable (p_w demo_pool1 0)) demo_pool1"

lemma demo_pool_queue: "p_on demo_pool2 = Loop" "m_runnableQueue (p_w demo_pool2 0) = [5]"
  by (simp_all add: demo_pool2_def demo_pool1_def demo_pool_def new_context_def demo_mk_def moveRunnable_def addTask_one
      addTasks_def new_worker_def notifyCondition_def)

lemma demo_pool_reach: "reach (pool_init demo_susp) (pool_step True demo_jump demo_mk) demo_pool2"
proof -
  have "reach (pool_init demo_susp) (pool_step True demo_jump demo_mk) demo_pool1"
    unfolding demo_pool1_def by (rule reach_step, rule reach_init, rule demo_pool_init, rule p_create) (simp add: demo_pool_def)
  then show ?thesis
    unfolding demo_pool2_def
    by (rule reach_step, intro p_move)
      (simp_all add: demo_pool1_def demo_pool_def new_context_def demo_mk_def addTask_one addTasks_def new_worker_def notifyCondition_def)
qed

theorem careful_pool_safe_witness:
  "\<exists>s'. pool_run demo_jump 0 demo_pool2 = Inr s' \<and> p_on s' = Loop(0 := Co 5)"
  using careful_pool_safe[OF demo_ok demo_pool_reach, of 0] by (simp add: demo_pool_queue)



section \<open>The memory of a stack\<close>

text \<open>
  \<open>protectStack\<close> on Linux; \<open>mprotect addr len\<close> says whether the pages could be locked.  The size is
  compared as an \<open>int\<close>, the address is rounded up to 4096 whatever the size of a page is.
\<close>

definition guard_page :: "64 word \<Rightarrow> 64 word" where
  "guard_page stack = (if and stack 0xFFF \<noteq> 0 then and stack (not 0xFFF) + 0x1000 else stack)"

definition protectStack :: "(64 word \<Rightarrow> int \<Rightarrow> bool) \<Rightarrow> int \<Rightarrow> 64 word \<Rightarrow> 64 word \<Rightarrow> int \<Rightarrow> bool" where
  "protectStack mprotect getpagesize stack sz pageSize =
     (if pageSize = 0 then False
      else if sint (ucast sz :: 32 word) \<le> getpagesize * (pageSize + 1) then False
      else mprotect (guard_page stack) (getpagesize * pageSize))"

definition unprotectStack :: "64 word \<Rightarrow> int \<Rightarrow> int \<Rightarrow> (64 word \<times> int) option" where
  "unprotectStack stack getpagesize pageSize =
     (if pageSize = 0 then None else Some (guard_page stack, getpagesize * pageSize))"

text \<open>A context as memory: its stack, and \<open>m_protectPage\<close>, which the constructor sets only when a page was locked.\<close>

record stack_mem =
  sm_stack :: "64 word option"
  sm_size :: "32 word"
  sm_protect :: "int option"

definition context_new :: "(64 word \<Rightarrow> int \<Rightarrow> bool) \<Rightarrow> int \<Rightarrow> int \<Rightarrow> 64 word \<Rightarrow> 32 word \<Rightarrow> stack_mem" where
  "context_new mprotect getpagesize pages stack sz =
     \<lparr>sm_stack = Some stack, sm_size = sz,
      sm_protect = (if pages \<noteq> 0 \<and> protectStack mprotect getpagesize stack (ucast sz) pages then Some pages else None)\<rparr>"

text \<open>The destructor: what it unlocks and the memory it frees.\<close>

definition context_destroy :: "int \<Rightarrow> stack_mem \<Rightarrow> ((64 word \<times> int) option \<times> 64 word option) res" where
  "context_destroy getpagesize c =
     (case sm_stack c of
        None \<Rightarrow> Inr (None, None)
      | Some stack \<Rightarrow>
          (case sm_protect c of
             None \<Rightarrow> Inl Uninitialised
           | Some p \<Rightarrow> Inr (if p \<noteq> 0 then unprotectStack stack getpagesize p else None, Some stack)))"

lemma guard_page_unat:
  assumes "unat stack + 4096 < 2 ^ 64"
  shows "unat stack \<le> unat (guard_page stack)" "unat (guard_page stack) < unat stack + 4096" "4096 dvd unat (guard_page stack)"
proof -
  have m: "(0xFFF :: 64 word) = mask 12" by (simp add: mask_eq_exp_minus_1)
  have low: "unat (and stack 0xFFF) = unat stack mod 4096"
    unfolding m take_bit_eq_mask[symmetric] by (simp add: unsigned_take_bit_eq take_bit_eq_mod unat_mod)
  have "and stack (not (mask 12)) = push_bit 12 (drop_bit 12 stack)"
    by (rule bit_word_eqI) (auto simp: bit_simps)
  then have high: "unat (and stack (not 0xFFF)) = 4096 * (unat stack div 4096)"
  proof -
    have "unat stack < 2 ^ 64" using unsigned_less[of stack, where ?'a=nat] by simp
    then have "unat stack div 4096 * 4096 < 2 ^ 64" by (rule le_less_trans[rotated]) simp
    then show ?thesis using \<open>and stack (not (mask 12)) = push_bit 12 (drop_bit 12 stack)\<close>
      unfolding m by (simp add: push_bit_eq_mult drop_bit_eq_div unat_word_ariths unat_div)
  qed
  have dm: "unat stack = 4096 * (unat stack div 4096) + unat stack mod 4096" "unat stack mod 4096 < 4096" by simp_all
  have zero: "and stack 0xFFF = 0 \<longleftrightarrow> unat stack mod 4096 = 0" using low by (simp add: unat_eq_0[symmetric] del: unat_eq_0)
  have up: "unat (and stack (not 0xFFF) + 0x1000) = 4096 * (unat stack div 4096) + 4096"
    using assms high dm by (simp add: unat_word_ariths)
  have "unat (guard_page stack) = (if unat stack mod 4096 = 0 then unat stack else 4096 * (unat stack div 4096) + 4096)"
    using up zero by (simp add: guard_page_def)
  moreover obtain q r where qr: "unat stack div 4096 = q" "unat stack mod 4096 = r" "unat stack = 4096 * q + r" "r < 4096"
    using dm by blast
  ultimately have "unat (guard_page stack) = (if r = 0 then 4096 * q + r else 4096 * q + 4096)" by (simp only: qr)
  then show "unat stack \<le> unat (guard_page stack)" "unat (guard_page stack) < unat stack + 4096" "4096 dvd unat (guard_page stack)"
    using qr(3,4) by (auto split: if_splits)
qed

text \<open>The page that guards a stack lies inside it: when \<open>protectStack\<close> succeeds on pages of 4096 bytes, the
  range it locked begins in the first page of the stack's memory and leaves at least one byte of it
  above; the destructor unlocks the same range.  Without guard pages, which is the default and nothing
  changes it, or when the lock fails, the destructor decides on a member that was never set.\<close>

theorem guard_inside_stack:
  assumes "unat stack + unat sz < 2 ^ 64" and "0 < pages" and "pages < 2 ^ 18"
    and "protectStack mprotect 4096 stack (ucast sz) pages"
  shows "mprotect (guard_page stack) (4096 * pages) \<and> 4096 dvd unat (guard_page stack) \<and>
    unat stack \<le> unat (guard_page stack) \<and> int (unat (guard_page stack)) + 4096 * pages < int (unat stack + unat (sz :: 32 word)) \<and>
    context_destroy 4096 (context_new mprotect 4096 pages stack sz) = Inr (Some (guard_page stack, 4096 * pages), Some stack) \<and>
    context_destroy 4096 (context_new mprotect 4096 0 stack sz) = Inl Uninitialised"
proof -
  have sz: "4096 * (pages + 1) < sint (ucast (ucast sz :: 64 word) :: 32 word)" and mp: "mprotect (guard_page stack) (4096 * pages)"
    using assms(2,4) by (auto simp: protectStack_def not_le split: if_splits)
  have "ucast (ucast sz :: 64 word) = sz" by (rule bit_word_eqI) (simp add: bit_simps)
  then have "4096 * (pages + 1) < sint sz" using sz by simp
  moreover have "sint sz \<le> int (unat sz)"
  proof -
    have "- (2 ^ 31) \<le> uint sz" by (rule order_trans[of _ 0]) simp_all
    then show ?thesis by (simp add: sint_uint signed_take_bit_int_less_eq_self_iff)
  qed
  ultimately have big: "4096 * pages + 4096 < int (unat sz)" by simp
  then have "unat stack + 4096 < 2 ^ 64" using assms(1,2) by linarith
  note g = guard_page_unat[OF this]
  have "int (unat (guard_page stack)) + 4096 * pages < int (unat stack + unat sz)" using g(2) big by linarith
  then show ?thesis
    using g mp assms(2,4) by (simp add: context_new_def context_destroy_def unprotectStack_def)
qed

theorem guard_inside_stack_witness:
  "True \<and> 4096 dvd unat (guard_page 0x10010) \<and>
    unat (0x10010 :: 64 word) \<le> unat (guard_page 0x10010) \<and>
    int (unat (guard_page 0x10010)) + 4096 * 1 < int (unat (0x10010 :: 64 word) + unat (0x20000 :: 32 word)) \<and>
    context_destroy 4096 (context_new (\<lambda>_ _. True) 4096 1 0x10010 0x20000) = Inr (Some (guard_page 0x10010, 4096 * 1), Some 0x10010) \<and>
    context_destroy 4096 (context_new (\<lambda>_ _. True) 4096 0 0x10010 0x20000) = Inl Uninitialised"
  by (rule guard_inside_stack[where mprotect="\<lambda>_ _. True"]) (simp_all add: protectStack_def)

end
