(* ===== verification/ActorRun.thy ===== *)
theory ActorRun
  imports ActorComponent
begin

text \<open>
  Actors at work: the mailboxes and the work queue of \<open>ActorMail\<close>, the components of
  \<open>ActorComponent\<close> and the coroutines that run their code, as one machine.  It says what becomes of a
  coroutine that waits inside a handler, and of one that waits while its actor is launched.
\<close>

section \<open>Coroutines and the world\<close>

text \<open>
  The dispatch function of a protocol is the one for errors, which \<open>actorComponent\<close> brings, or one of
  the component's own.  A coroutine runs code of a component; it makes an entry to wait with
  (\<open>doCreateCo\<close>, after which its task counts as blocked while it still runs), waits in a session, or was
  woken and has not gone on yet.
\<close>

datatype handler = ErrorHandler | UserHandler nat

datatype phase = Running | Suspending "nat co_entry" | Waiting int "nat co_entry" | Woken int "nat co_entry"

type_synonym cpt = "(handler, nat) component"

text \<open>
  \<open>co t\<close> is the stack of actors whose code the coroutine \<open>t\<close> runs, innermost first: the handler of an
  actor may create another actor, whose \<open>onLaunch\<close> then runs in the same coroutine.  \<open>handling h\<close> is the
  coroutine in which \<open>doRun\<close> of \<open>h\<close> is.
\<close>

record world =
  mail :: "message actor_sys"
  cpts :: "nat \<Rightarrow> cpt"
  co :: "nat \<rightharpoonup> nat list \<times> phase"
  handling :: "nat \<rightharpoonup> nat"
  used :: "nat set"
  entries :: "nat co_entry set"
  launched :: "nat set"

definition state_of :: "(nat \<rightharpoonup> nat list \<times> phase) \<Rightarrow> nat \<Rightarrow> task_state option" where
  "state_of c t = (case c t of None \<Rightarrow> None | Some (_, Running) \<Rightarrow> Some Runnable | Some _ \<Rightarrow> Some Block)"

definition wake :: "nat option \<Rightarrow> (nat \<rightharpoonup> nat list \<times> phase) \<Rightarrow> (nat \<rightharpoonup> nat list \<times> phase)" where
  "wake t c =
     (case t of
        None \<Rightarrow> c
      | Some t \<Rightarrow> (case c t of Some (st, Waiting s e) \<Rightarrow> c(t \<mapsto> (st, Woken s e)) | _ \<Rightarrow> c))"

text \<open>A message is put into the mailbox of a registered actor; the second half of \<open>push\<close> is a step of its own.\<close>

definition post_to :: "message \<Rightarrow> message actor_sys \<Rightarrow> message actor_sys res" where
  "post_to msg m =
     (let h = unat (msg_dst msg) in
      seqE (checkE (msg_dst msg \<noteq> 0) AssertFail) (\<lambda>_.
        Inr (if h \<in> registered m
             then m\<lparr>boxes := (boxes m)(h := push_message (boxes m h) msg),
               pushing := (pushing m)(h := pushing m h + 1), sent := (sent m)(h := sent m h @ [msg])\<rparr>
             else m)))"

text \<open>What an action of \<open>dispatchMessage\<close>, in the component of \<open>h\<close> for \<open>msg\<close>, does to the world.\<close>

definition perform_basic :: "(handler, nat) action \<Rightarrow> world \<Rightarrow> world res" where
  "perform_basic a w =
     (case a of
        Wakeup t \<Rightarrow> Inr (w\<lparr>co := wake t (co w)\<rparr>)
      | UnRegister dst \<Rightarrow> Inr (w\<lparr>mail := (mail w)\<lparr>registered := registered (mail w) - {unat dst}\<rparr>\<rparr>)
      | SendError src session \<Rightarrow>
          (let (data, sz) = send_data (Some [0]) 0 in
           seqE (post_to (getMessage [] 1 src src (word_of_int session) data sz) (mail w)) (\<lambda>m. Inr (w\<lparr>mail := m\<rparr>)))
      | _ \<Rightarrow> Inr w)"

definition perform :: "nat \<Rightarrow> message \<Rightarrow> (handler, nat) action \<Rightarrow> world \<Rightarrow> world res" where
  "perform h msg a w =
     (case a of
        CallDispatch ErrorHandler session src \<Rightarrow>
          seqE (errorDispatch (cpts w h) session src (msg_data msg)) (\<lambda>(c, as).
            case as of
              [] \<Rightarrow> Inr (w\<lparr>cpts := (cpts w)(h := c)\<rparr>)
            | b # _ \<Rightarrow> perform_basic b (w\<lparr>cpts := (cpts w)(h := c)\<rparr>))
      | CallDispatch (UserHandler n) session src \<Rightarrow> Inr w
      | _ \<Rightarrow> perform_basic a w)"

text \<open>
  A coroutine \<open>t\<close> takes a message of \<open>h\<close>: it leaves the mailbox, \<open>dispatchMessage\<close> runs, and the
  coroutine is then in the handler, if there is one.  At most one action results (lemma \<open>dispatch_one\<close>).
\<close>

definition take_message ::
    "(nat \<Rightarrow> cpt \<Rightarrow> cpt) \<Rightarrow> nat \<Rightarrow> nat \<Rightarrow> message \<Rightarrow> message actor \<Rightarrow> world \<Rightarrow> world res" where
  "take_message run h t msg a w =
     (let m = mail w;
          m' = m\<lparr>tasks := remove1 h (tasks m), boxes := (boxes m)(h := a), running := h # running m,
            dispatched := (dispatched m)(h := dispatched m h @ [msg])\<rparr>
      in seqE (dispatchMessage (state_of (co w)) run (cpts w h) msg) (\<lambda>(e, c, as).
           let w' = w\<lparr>mail := m', cpts := (cpts w)(h := c), co := (co w)(t \<mapsto> ([h], Running)),
             handling := (handling w)(h \<mapsto> t), used := insert t (used w)\<rparr>
           in case as of [] \<Rightarrow> Inr w' | b # _ \<Rightarrow> perform h msg b w'))"

text \<open>
  The steps.  \<open>w_mail\<close> are those of the mailboxes in which no message is taken and no handler ends;
  \<open>w_launch\<close> and \<open>w_launch_in\<close> call \<open>onLaunch\<close> of a new actor, from outside or from a running coroutine.
  Running code may make an entry, wait with it, wake another one, set a timer, register a protocol.
\<close>

inductive world_step :: "(nat \<Rightarrow> cpt \<Rightarrow> cpt) \<Rightarrow> world \<Rightarrow> world \<Rightarrow> bool" for run where
  w_mail: "actor_step (mail w) m \<Longrightarrow> running m = running (mail w) \<Longrightarrow> dispatched m = dispatched (mail w) \<Longrightarrow>
     world_step run w (w\<lparr>mail := m\<rparr>)"
| w_launch: "h \<notin> launched w \<Longrightarrow> t \<notin> used w \<Longrightarrow>
     world_step run w (w\<lparr>mail := (mail w)\<lparr>registered := insert h (registered (mail w))\<rparr>, launched := insert h (launched w),
       cpts := (cpts w)(h := component_doInit ErrorHandler ErrorHandler new_component),
       co := (co w)(t \<mapsto> ([h], Running)), used := insert t (used w)\<rparr>)"
| w_launch_in: "h \<notin> launched w \<Longrightarrow> co w t = Some (st, Running) \<Longrightarrow>
     world_step run w (w\<lparr>mail := (mail w)\<lparr>registered := insert h (registered (mail w))\<rparr>, launched := insert h (launched w),
       cpts := (cpts w)(h := component_doInit ErrorHandler ErrorHandler new_component),
       co := (co w)(t \<mapsto> (h # st, Running))\<rparr>)"
| w_launched: "co w t = Some (h # st, Running) \<Longrightarrow> handling w h \<noteq> Some t \<Longrightarrow>
     world_step run w (w\<lparr>co := (co w)(t := (if st = [] then None else Some (st, Running)))\<rparr>)"
| w_take: "h \<in> set (tasks (mail w)) \<Longrightarrow> h \<in> registered (mail w) \<Longrightarrow> t \<notin> used w \<Longrightarrow>
     dispatch_take (boxes (mail w) h) = (Some msg, a) \<Longrightarrow> take_message run h t msg a w = Inr w' \<Longrightarrow>
     world_step run w w'"
| w_suspend: "co w t = Some (st, Running) \<Longrightarrow> e = \<lparr>co_id = i, co_task = Some t, co_func = None\<rparr> \<Longrightarrow> i \<notin> co_id ` entries w \<Longrightarrow>
     world_step run w (w\<lparr>co := (co w)(t \<mapsto> (st, Suspending e)), entries := insert e (entries w)\<rparr>)"
| w_wait: "co w t = Some (h # st, Suspending e) \<Longrightarrow> doWait_begin (cpts w h) e = Inr (ok, session, c) \<Longrightarrow>
     world_step run w (w\<lparr>cpts := (cpts w)(h := c),
       co := (if ok then (co w)(t \<mapsto> (h # st, Waiting session e)) else co w)\<rparr>)"
| w_wakeup: "co w t = Some (h # st, Running) \<Longrightarrow> e \<in> entries w \<Longrightarrow> doWakeup (cpts w h) e \<Longrightarrow>
     world_step run w (w\<lparr>co := wake (co_task e) (co w)\<rparr>)"
| w_resume: "co w t = Some (h # st, Woken session e) \<Longrightarrow>
     world_step run w (w\<lparr>cpts := (cpts w)(h := doWait_end (cpts w h) session e), co := (co w)(t \<mapsto> (h # st, Running))\<rparr>)"
| w_timeout: "co w t = Some (h # st, Running) \<Longrightarrow> doTimeout (cpts w h) i f = Inr (r, c) \<Longrightarrow>
     world_step run w (w\<lparr>cpts := (cpts w)(h := c)\<rparr>)"
| w_protocol: "co w t = Some (h # st, Running) \<Longrightarrow>
     world_step run w (w\<lparr>cpts := (cpts w)(h := doRegisterProtocol (cpts w h) p)\<rparr>)"
| w_done: "handling w h = Some t \<Longrightarrow> co w t = Some ([h], Running) \<Longrightarrow>
     world_step run w (w\<lparr>mail := (mail w)\<lparr>running := remove1 h (running (mail w)), works := works (mail w) @ [h]\<rparr>,
       co := (co w)(t := None), handling := (handling w)(h := None)\<rparr>)"

definition world_start :: world where
  "world_start = \<lparr>mail = actor_start {}, cpts = (\<lambda>_. new_component), co = Map.empty, handling = Map.empty,
     used = {}, entries = {}, launched = {}\<rparr>"

section \<open>What a dispatch does\<close>

text \<open>Operations that start no wait: entries of coroutines only leave the tables of the component.\<close>

definition sub_cpt :: "cpt \<Rightarrow> cpt \<Rightarrow> bool" where
  "sub_cpt c' c \<longleftrightarrow>
     (\<forall>s e. m_suspedSession c' s = Some e \<and> co_task e \<noteq> None \<longrightarrow> m_suspedSession c s = Some e) \<and>
     (\<forall>i s. m_suspedSleep c' i = Some s \<longrightarrow> m_suspedSleep c i = Some s)"

definition callback_ok :: "(nat \<Rightarrow> cpt \<Rightarrow> cpt) \<Rightarrow> bool" where
  "callback_ok run \<longleftrightarrow> (\<forall>f c. sub_cpt (run f c) c)"

lemma sub_cpt_refl [simp]: "sub_cpt c c"
  by (simp add: sub_cpt_def)

lemma sub_cpt_trans: "sub_cpt a b \<Longrightarrow> sub_cpt b c \<Longrightarrow> sub_cpt a c"
  unfolding sub_cpt_def by blast

lemma sub_cpt_remove [simp]:
  "sub_cpt (removeSusped c s) c" "sub_cpt (removeSleepSusped c i) c" "sub_cpt (doWait_end c s e) c"
  by (auto simp: sub_cpt_def removeSusped_def removeSleepSusped_def doWait_end_def split: if_splits)

lemma sub_cpt_timeout: "doTimeout c i f = Inr (r, c') \<Longrightarrow> sub_cpt c' c"
  by (auto simp: doTimeout_def genSession_def insertSusped_def sub_cpt_def Let_def res_simps split: if_splits)

lemma sub_cpt_protocol: "sub_cpt (doRegisterProtocol c p) c"
  by (simp add: doRegisterProtocol_def sub_cpt_def split: option.split)

definition owned :: "cpt \<Rightarrow> nat option \<Rightarrow> bool" where
  "owned c t \<longleftrightarrow> t = None \<or> (\<exists>s e. m_suspedSession c s = Some e \<and> co_task e = t)"

lemma owned_none: "owned c None"
  by (simp add: owned_def)

lemma owned_sub: "owned c' t \<Longrightarrow> sub_cpt c' c \<Longrightarrow> owned c t"
  unfolding owned_def sub_cpt_def by (metis)

lemma unknown_actions:
  "unknownResponse msg = Inr as \<Longrightarrow> \<exists>x y. as = [UnknownResponse x y]"
  "unknownRequest msg = Inr as \<Longrightarrow> \<exists>x y z. as = [UnknownRequest x y z]"
  "unknownDispatch msg = Inr as \<Longrightarrow> (\<exists>x y z. as = [UnknownRequest x y z]) \<or> (\<exists>x y. as = [SendError x y])"
  by (auto simp: unknownResponse_def unknownRequest_def unknownDispatch_def res_simps split: if_splits)

text \<open>A dispatch is at most one action; a coroutine it wakes had a session in the component.\<close>

lemma dispatch_one:
  assumes "dispatchMessage tst run c msg = Inr (e, c', as)" and "callback_ok run"
  shows "sub_cpt c' c" "as = [] \<or> (\<exists>b. as = [b] \<and> (\<forall>t. b = Wakeup t \<longrightarrow> owned c t))"
proof -
  have run: "sub_cpt (removeSusped (run f c) s) c" for f s
    using assms(2) by (intro sub_cpt_trans[OF sub_cpt_remove(1)]) (simp add: callback_ok_def)
  show "sub_cpt c' c"
    using assms(1) run by (auto simp: dispatchMessage_def dispatch_resoue_def dispatch_timeout_def Let_def res_simps split: if_splits option.splits)
  show "as = [] \<or> (\<exists>b. as = [b] \<and> (\<forall>t. b = Wakeup t \<longrightarrow> owned c t))"
    using assms(1)
    by (auto simp: dispatchMessage_def dispatch_resoue_def dispatch_timeout_def dispatch_other_def Let_def res_simps
        owned_def getSusped_def bind_eq_Some_conv split: if_splits option.splits dest!: unknown_actions)
qed

lemma errorDispatch_one:
  assumes "errorDispatch c session src data = Inr (c', as)"
  shows "sub_cpt c' c" "as = [] \<or> as = [LogError src] \<or> (\<exists>t. as = [Wakeup t] \<and> owned c t)"
  using assms sub_cpt_trans[OF sub_cpt_remove(1) sub_cpt_remove(2)]
  by (auto simp: errorDispatch_def owned_def getSusped_def split: option.splits if_splits)

text \<open>Steps of the mailboxes in which no message is taken and no handler ends.\<close>

definition quiet :: "message actor_sys \<Rightarrow> message actor_sys \<Rightarrow> bool" where
  "quiet m m' \<longleftrightarrow> actor_step\<^sup>*\<^sup>* m m' \<and> running m' = running m \<and> dispatched m' = dispatched m \<and> registered m' \<subseteq> registered m"

lemma quiet_refl [simp]: "quiet m m"
  by (simp add: quiet_def)

lemma quiet_unregister: "quiet m (m\<lparr>registered := registered m - {h}\<rparr>)"
  using as_unregister[of m h] by (auto simp: quiet_def)

lemma quiet_post: "post_to msg m = Inr m' \<Longrightarrow> quiet m m'"
  using as_push[of m "unat (msg_dst msg)" msg] by (auto simp: post_to_def quiet_def Let_def res_simps split: if_splits)

lemma quiet_step: "actor_step m m' \<Longrightarrow> running m' = running m \<Longrightarrow> dispatched m' = dispatched m \<Longrightarrow> quiet m m'"
proof -
  assume a: "actor_step m m'" "running m' = running m" "dispatched m' = dispatched m"
  then have "registered m' \<subseteq> registered m" by (auto elim!: actor_step.cases)
  then show "quiet m m'" using a by (simp add: quiet_def r_into_rtranclp)
qed

lemma perform_basic_effect:
  assumes "perform_basic b w = Inr w'" and "\<And>t. b = Wakeup t \<Longrightarrow> owned c0 t"
  shows "\<exists>m cc. w' = w\<lparr>mail := m, co := cc\<rparr> \<and> quiet (mail w) m \<and> (\<exists>t. owned c0 t \<and> cc = wake t (co w))"
proof -
  have none: "wake None (co w) = co w" "owned c0 None" by (simp_all add: wake_def owned_def)
  show ?thesis
  proof (cases b)
    case (Wakeup t)
    have "w' = w\<lparr>mail := mail w, co := wake t (co w)\<rparr>" using assms(1) Wakeup by (auto simp: perform_basic_def)
    then show ?thesis using assms(2)[OF Wakeup] quiet_refl by blast
  next
    case (UnRegister dst)
    have "w' = w\<lparr>mail := (mail w)\<lparr>registered := registered (mail w) - {unat dst}\<rparr>, co := wake None (co w)\<rparr>"
      using assms(1) UnRegister none by (auto simp: perform_basic_def)
    then show ?thesis using none(2) quiet_unregister by blast
  next
    case (SendError src session)
    then obtain m where "post_to (getMessage [] 1 src src (word_of_int session) (fst (send_data (Some [0]) 0)) (snd (send_data (Some [0]) 0))) (mail w) = Inr m"
      and w': "w' = w\<lparr>mail := m\<rparr>"
      using assms(1) by (auto simp: perform_basic_def res_simps split: prod.splits)
    then have "quiet (mail w) m" by (blast dest: quiet_post)
    moreover have "w' = w\<lparr>mail := m, co := wake None (co w)\<rparr>" using w' none by simp
    ultimately show ?thesis using none(2) by blast
  qed (use assms(1) none in \<open>auto simp: perform_basic_def intro!: exI[of _ "mail w"] exI[of _ "co w"] exI[of _ "None :: nat option"]\<close>)
qed

lemma perform_effect:
  assumes "perform h msg b w = Inr w'" and "\<And>t. b = Wakeup t \<Longrightarrow> owned c0 t" and "sub_cpt (cpts w h) c0"
  shows "\<exists>m c cc t. w' = w\<lparr>mail := m, cpts := (cpts w)(h := c), co := cc\<rparr> \<and> quiet (mail w) m \<and> sub_cpt c (cpts w h) \<and>
    owned c0 t \<and> cc = wake t (co w)"
proof (cases "\<exists>session src. b = CallDispatch ErrorHandler session src")
  case True
  then obtain session src where b: "b = CallDispatch ErrorHandler session src" by blast
  then obtain c as where e: "errorDispatch (cpts w h) session src (msg_data msg) = Inr (c, as)"
    and w': "(case as of [] \<Rightarrow> Inr (w\<lparr>cpts := (cpts w)(h := c)\<rparr>) | b # _ \<Rightarrow> perform_basic b (w\<lparr>cpts := (cpts w)(h := c)\<rparr>)) = Inr w'"
    using assms(1) by (auto simp: perform_def res_simps)
  note one = errorDispatch_one[OF e]
  have own: "b = Wakeup t \<Longrightarrow> as = [b] \<Longrightarrow> owned c0 t" for b t
    using one(2) owned_sub[OF _ assms(3)] by auto
  show ?thesis
  proof (cases as)
    case Nil
    then have "w\<lparr>cpts := (cpts w)(h := c)\<rparr> = w'" using w' by simp
    then have "w' = w\<lparr>mail := mail w, cpts := (cpts w)(h := c), co := wake None (co w)\<rparr>" by (auto simp: wake_def)
    then show ?thesis using one(1) quiet_refl owned_none by blast
  next
    case (Cons x xs)
    then have "as = [x]" and p: "perform_basic x (w\<lparr>cpts := (cpts w)(h := c)\<rparr>) = Inr w'" using one(2) w' by auto
    from perform_basic_effect[OF p own[OF _ \<open>as = [x]\<close>]] obtain m t where
      "w' = (w\<lparr>cpts := (cpts w)(h := c)\<rparr>)\<lparr>mail := m, co := wake t (co w)\<rparr>" "quiet (mail w) m" "owned c0 t" by auto
    moreover have "(w\<lparr>cpts := (cpts w)(h := c)\<rparr>)\<lparr>mail := m, co := wake t (co w)\<rparr> =
        w\<lparr>mail := m, cpts := (cpts w)(h := c), co := wake t (co w)\<rparr>" by simp
    ultimately have "w' = w\<lparr>mail := m, cpts := (cpts w)(h := c), co := wake t (co w)\<rparr>" "quiet (mail w) m" "owned c0 t" by metis+
    then show ?thesis using one(1) by blast
  qed
next
  case False
  show ?thesis
  proof (cases "\<exists>n session src. b = CallDispatch (UserHandler n) session src")
    case True
    then have "w' = w\<lparr>mail := mail w, cpts := (cpts w)(h := cpts w h), co := wake None (co w)\<rparr>"
      using assms(1) by (auto simp: perform_def wake_def)
    then show ?thesis using quiet_refl sub_cpt_refl owned_none by blast
  next
    case other: False
    have "perform_basic b w = Inr w'"
      using assms(1) False other by (cases b) (auto simp: perform_def split: handler.splits)
    from perform_basic_effect[OF this assms(2)] obtain m t where
      "w' = w\<lparr>mail := m, co := wake t (co w)\<rparr>" "quiet (mail w) m" "owned c0 t" by blast
    then have "w' = w\<lparr>mail := m, cpts := (cpts w)(h := cpts w h), co := wake t (co w)\<rparr>" by simp
    then show ?thesis using \<open>quiet (mail w) m\<close> \<open>owned c0 t\<close> sub_cpt_refl by blast
  qed
qed

lemma take_effect:
  assumes "take_message run h t msg a w = Inr w'" and "callback_ok run"
  shows "\<exists>m c cc x. w' = w\<lparr>mail := m, cpts := (cpts w)(h := c), co := cc, handling := (handling w)(h \<mapsto> t), used := insert t (used w)\<rparr> \<and>
    quiet ((mail w)\<lparr>tasks := remove1 h (tasks (mail w)), boxes := (boxes (mail w))(h := a), running := h # running (mail w),
      dispatched := (dispatched (mail w))(h := dispatched (mail w) h @ [msg])\<rparr>) m \<and>
    sub_cpt c (cpts w h) \<and> owned (cpts w h) x \<and> cc = wake x ((co w)(t \<mapsto> ([h], Running)))"
proof -
  let ?m = "(mail w)\<lparr>tasks := remove1 h (tasks (mail w)), boxes := (boxes (mail w))(h := a), running := h # running (mail w),
      dispatched := (dispatched (mail w))(h := dispatched (mail w) h @ [msg])\<rparr>"
  obtain e c as where d: "dispatchMessage (state_of (co w)) run (cpts w h) msg = Inr (e, c, as)"
    using assms(1) by (auto simp: take_message_def Let_def res_simps)
  define w1 where "w1 = w\<lparr>mail := ?m, cpts := (cpts w)(h := c), co := (co w)(t \<mapsto> ([h], Running)),
             handling := (handling w)(h \<mapsto> t), used := insert t (used w)\<rparr>"
  have w': "(case as of [] \<Rightarrow> Inr w1 | b # _ \<Rightarrow> perform h msg b w1) = Inr w'"
    using assms(1) d by (simp add: take_message_def Let_def w1_def cong: list.case_cong)
  note one = dispatch_one[OF d assms(2)]
  show ?thesis
  proof (cases as)
    case Nil
    then have "w' = w\<lparr>mail := ?m, cpts := (cpts w)(h := c), co := wake None ((co w)(t \<mapsto> ([h], Running))),
        handling := (handling w)(h \<mapsto> t), used := insert t (used w)\<rparr>"
      using w' by (simp add: w1_def wake_def)
    then show ?thesis using one(1) quiet_refl owned_none by blast
  next
    case (Cons b bs)
    then have p: "perform h msg b w1 = Inr w'" and own: "\<And>t. b = Wakeup t \<Longrightarrow> owned (cpts w h) t" using one(2) w' by auto
    have "sub_cpt (cpts w1 h) (cpts w h)" using one(1) by (simp add: w1_def)
    from perform_effect[OF p own this] obtain m c' x where
      "w' = w1\<lparr>mail := m, cpts := (cpts w1)(h := c'), co := wake x (co w1)\<rparr>" "quiet (mail w1) m" "sub_cpt c' (cpts w1 h)" "owned (cpts w h) x"
      by blast
    moreover have "sub_cpt c' (cpts w h)" using calculation(3) one(1) sub_cpt_trans by (simp add: w1_def)
    ultimately show ?thesis
      by (intro exI[of _ m] exI[of _ c'] exI[of _ "wake x (co w1)"] exI[of _ x]) (simp add: w1_def)
  qed
qed

section \<open>Who waits where\<close>

definition waits_at :: "(nat \<rightharpoonup> nat list \<times> phase) \<Rightarrow> nat \<Rightarrow> int \<Rightarrow> nat co_entry \<Rightarrow> nat \<Rightarrow> bool" where
  "waits_at c h s e t \<longleftrightarrow> (\<exists>st. c t = Some (h # st, Waiting s e) \<or> c t = Some (h # st, Woken s e))"

fun phase_entry :: "phase \<Rightarrow> nat co_entry option" where
  "phase_entry Running = None"
| "phase_entry (Suspending e) = Some e"
| "phase_entry (Waiting s e) = Some e"
| "phase_entry (Woken s e) = Some e"

text \<open>
  A session with a coroutine, and an entry of the table of sleepers, belong to a coroutine that waits
  in code of that component, or was woken there and has not gone on.
\<close>

definition co_ok :: "(nat \<rightharpoonup> nat list \<times> phase) \<Rightarrow> nat set \<Rightarrow> nat set \<Rightarrow> nat co_entry set \<Rightarrow> bool" where
  "co_ok c us la en \<longleftrightarrow>
     (\<forall>t st ph. c t = Some (st, ph) \<longrightarrow> t \<in> us \<and> set st \<subseteq> la \<and>
        (\<forall>e. phase_entry ph = Some e \<longrightarrow> e \<in> en \<and> co_task e = Some t)) \<and> inj_on co_id en"

definition tab_ok :: "(nat \<rightharpoonup> nat list \<times> phase) \<Rightarrow> (nat \<Rightarrow> cpt) \<Rightarrow> bool" where
  "tab_ok c f \<longleftrightarrow>
     (\<forall>h s e t. m_suspedSession (f h) s = Some e \<and> co_task e = Some t \<longrightarrow> waits_at c h s e t) \<and>
     (\<forall>h i s. m_suspedSleep (f h) i = Some s \<longrightarrow> (\<exists>t e. co_id e = i \<and> waits_at c h s e t))"

definition world_inv :: "world \<Rightarrow> bool" where
  "world_inv w \<longleftrightarrow> actor_inv (mail w) \<and> dom (handling w) \<subseteq> set (running (mail w)) \<and>
     registered (mail w) \<subseteq> launched w \<and> co_ok (co w) (used w) (launched w) (entries w) \<and> tab_ok (co w) (cpts w)"

lemma wake_cases:
  "wake x c t = c t \<or> (\<exists>st s e. x = Some t \<and> c t = Some (st, Waiting s e) \<and> wake x c t = Some (st, Woken s e))"
  by (auto simp: wake_def split: option.splits phase.splits prod.splits)

lemma waits_at_wake: "waits_at c h s e t \<Longrightarrow> waits_at (wake x c) h s e t"
  unfolding waits_at_def using wake_cases[of x c t] by auto

lemma tab_ok_wake: "tab_ok c f \<Longrightarrow> tab_ok (wake x c) f"
  unfolding tab_ok_def by (meson waits_at_wake)

lemma co_ok_wake: "co_ok c us la en \<Longrightarrow> co_ok (wake x c) us la en"
proof -
  assume ok: "co_ok c us la en"
  have "t \<in> us \<and> set st \<subseteq> la \<and> (\<forall>e. phase_entry ph = Some e \<longrightarrow> e \<in> en \<and> co_task e = Some t)"
    if t: "wake x c t = Some (st, ph)" for t st ph
  proof -
    obtain ph' where "c t = Some (st, ph')" "phase_entry ph' = phase_entry ph"
      using wake_cases[of x c t] t by (metis Pair_inject option.inject phase_entry.simps(3,4))
    then show ?thesis using ok unfolding co_ok_def by metis
  qed
  then show ?thesis using ok by (simp add: co_ok_def)
qed

lemma tab_ok_sub: "tab_ok c f \<Longrightarrow> sub_cpt c' (f h) \<Longrightarrow> tab_ok c (f(h := c'))"
  unfolding tab_ok_def sub_cpt_def by (auto 6 0 simp: fun_upd_def)

lemma tab_ok_upd:
  "tab_ok c f \<Longrightarrow> (\<And>h s e. \<not> waits_at c h s e t) \<Longrightarrow> tab_ok (c(t := v)) f"
proof -
  assume ok: "tab_ok c f" and no: "\<And>h s e. \<not> waits_at c h s e t"
  have "waits_at (c(t := v)) h s e t'" if "waits_at c h s e t'" for h s e t'
    using that no by (cases "t' = t") (auto simp: waits_at_def)
  then show ?thesis using ok unfolding tab_ok_def by blast
qed

lemma co_ok_upd:
  "co_ok c us la en \<Longrightarrow> t \<in> us \<Longrightarrow> set st \<subseteq> la \<Longrightarrow>
   (\<And>e. phase_entry ph = Some e \<Longrightarrow> e \<in> en \<and> co_task e = Some t) \<Longrightarrow> co_ok (c(t \<mapsto> (st, ph))) us la en"
  unfolding co_ok_def by auto

lemma co_ok_mono: "co_ok c us la en \<Longrightarrow> us \<subseteq> us' \<Longrightarrow> la \<subseteq> la' \<Longrightarrow> co_ok c us' la' en"
  unfolding co_ok_def by blast

lemma co_ok_none: "co_ok c us la en \<Longrightarrow> co_ok (c(t := None)) us la en"
  unfolding co_ok_def by (auto split: if_splits)

lemma not_waits [simp]:
  "c t = Some (st, Running) \<Longrightarrow> \<not> waits_at c h s e t"
  "c t = Some (st, Suspending e') \<Longrightarrow> \<not> waits_at c h s e t"
  "c t = None \<Longrightarrow> \<not> waits_at c h s e t"
  by (auto simp: waits_at_def)

lemma tab_ok_fresh: "tab_ok c f \<Longrightarrow> tab_ok c (f(h := component_doInit d d' new_component))"
  by (rule tab_ok_sub)
    (simp_all add: component_doInit_def doRegisterProtocol_def sub_cpt_def new_component_def split: option.split)

lemma tab_ok_wait:
  assumes "tab_ok c f" and "c t = Some (h # st, Suspending e)" and "doWait_begin (f h) e = Inr (ok, session, c')" and task: "co_task e = Some t"
  shows "tab_ok (if ok then c(t \<mapsto> (h # st, Waiting session e)) else c) (f(h := c'))"
proof -
  let ?c = "c(t \<mapsto> (h # st, Waiting session e))"
  have keep: "waits_at ?c h' s e' t'" if "waits_at c h' s e' t'" for h' s e' t'
    using that assms(2) by (cases "t' = t") (auto simp: waits_at_def)
  have new: "waits_at ?c h session e t" by (simp add: waits_at_def)
  show ?thesis
  proof (cases ok)
    case True
    have tabs: "m_suspedSession c' = (m_suspedSession (f h))(session \<mapsto> e)" "m_suspedSleep c' = (m_suspedSleep (f h))(co_id e \<mapsto> session)"
      using assms(3) True by (auto simp: session_defs res_simps split: if_splits prod.splits)
    show ?thesis
      unfolding tab_ok_def
    proof (intro conjI allI impI)
      fix h' s e' t' assume a: "m_suspedSession ((f(h := c')) h') s = Some e' \<and> co_task e' = Some t'"
      show "waits_at (if ok then ?c else c) h' s e' t'"
      proof (cases "h' = h \<and> s = session")
        case True2: True
        then have "e' = e \<and> t' = t" using a tabs task by auto
        then show ?thesis using True2 new True by simp
      next
        case False
        then have "m_suspedSession (f h') s = Some e'" using a tabs(1) by (auto split: if_splits)
        then have "waits_at c h' s e' t'" using assms(1) a unfolding tab_ok_def by blast
        then show ?thesis using keep True by simp
      qed
    next
      fix h' i s assume a: "m_suspedSleep ((f(h := c')) h') i = Some s"
      show "\<exists>t e. co_id e = i \<and> waits_at (if ok then ?c else c) h' s e t"
      proof (cases "h' = h \<and> i = co_id e")
        case eq: True
        then have "s = session" using a tabs(2) by simp
        then show ?thesis using eq new True by auto
      next
        case False
        then have "m_suspedSleep (f h') i = Some s" using a tabs(2) by (auto split: if_splits)
        then have "\<exists>t e. co_id e = i \<and> waits_at c h' s e t" using assms(1) unfolding tab_ok_def by blast
        then show ?thesis using keep True by (simp only: if_True) blast
      qed
    qed
  next
    case False
    have "sub_cpt c' (f h)"
      using assms(3) False by (auto simp: session_defs res_simps sub_cpt_def split: if_splits prod.splits)
    then show ?thesis using tab_ok_sub[OF assms(1)] False by simp
  qed
qed


lemma tab_ok_resume:
  assumes "tab_ok c f" and "c t = Some (h # st, Woken session e)" and "co_task e = Some t"
  shows "tab_ok (c(t \<mapsto> (h # st, Running))) (f(h := doWait_end (f h) session e))"
proof -
  let ?c = "c(t \<mapsto> (h # st, Running))" and ?f = "f(h := doWait_end (f h) session e)"
  have only: "h' = h \<and> s' = session \<and> e' = e" if "waits_at c h' s' e' t" for h' s' e'
    using that assms(2) by (simp add: waits_at_def)
  have keep: "waits_at ?c h' s' e' t'" if "waits_at c h' s' e' t'" "t' \<noteq> t" for h' s' e' t'
    using that by (simp add: waits_at_def)
  have sub: "m_suspedSession (?f h') s' = Some x \<Longrightarrow> m_suspedSession (f h') s' = Some x \<and> (h' = h \<longrightarrow> s' \<noteq> session)"
    "m_suspedSleep (?f h') i = Some s' \<Longrightarrow> m_suspedSleep (f h') i = Some s' \<and> (h' = h \<longrightarrow> i \<noteq> co_id e)" for h' s' x i
    by (auto simp: doWait_end_def removeSusped_def removeSleepSusped_def split: if_splits)
  show ?thesis
    unfolding tab_ok_def
  proof (intro conjI allI impI)
    fix h' s' e' t' assume a: "m_suspedSession (?f h') s' = Some e' \<and> co_task e' = Some t'"
    then have w: "waits_at c h' s' e' t'" using assms(1) sub(1) unfolding tab_ok_def by blast
    moreover have "t' \<noteq> t" using only[of h' s' e'] sub(1) a w by blast
    ultimately show "waits_at ?c h' s' e' t'" by (rule keep)
  next
    fix h' i s' assume a: "m_suspedSleep (?f h') i = Some s'"
    then obtain t' e' where w: "co_id e' = i" "waits_at c h' s' e' t'" using assms(1) sub(2) unfolding tab_ok_def by blast
    moreover have "t' \<noteq> t" using only[of h' s' e'] sub(2)[OF a] w by blast
    ultimately show "\<exists>t e. co_id e = i \<and> waits_at ?c h' s' e t" using keep by blast
  qed
qed

lemma actor_inv_registered: "actor_inv (m\<lparr>registered := r\<rparr>) = actor_inv m"
  by (simp add: actor_inv_def activity_def)

lemma quiet_inv: "quiet m m' \<Longrightarrow> actor_inv m \<Longrightarrow> actor_inv m'"
  unfolding quiet_def by (blast intro: act.steps_inv)

lemma world_invD:
  assumes "world_inv w"
  shows "actor_inv (mail w)" "dom (handling w) \<subseteq> set (running (mail w))" "registered (mail w) \<subseteq> launched w"
    "co_ok (co w) (used w) (launched w) (entries w)" "tab_ok (co w) (cpts w)"
    "co w t = Some (st, ph) \<Longrightarrow> t \<in> used w \<and> set st \<subseteq> launched w"
    "co w t = Some (st, ph) \<Longrightarrow> phase_entry ph = Some e \<Longrightarrow> e \<in> entries w \<and> co_task e = Some t"
    "t \<notin> used w \<Longrightarrow> co w t = None"
proof -
  show "actor_inv (mail w)" "dom (handling w) \<subseteq> set (running (mail w))" "registered (mail w) \<subseteq> launched w"
    "co_ok (co w) (used w) (launched w) (entries w)" "tab_ok (co w) (cpts w)"
    using assms by (simp_all add: world_inv_def)
  then show "co w t = Some (st, ph) \<Longrightarrow> t \<in> used w \<and> set st \<subseteq> launched w"
    "co w t = Some (st, ph) \<Longrightarrow> phase_entry ph = Some e \<Longrightarrow> e \<in> entries w \<and> co_task e = Some t"
    unfolding co_ok_def by blast+
  show "t \<notin> used w \<Longrightarrow> co w t = None"
    using \<open>co_ok (co w) (used w) (launched w) (entries w)\<close> unfolding co_ok_def by (metis not_None_eq surj_pair)
qed

text \<open>Taking a message: where the actor was before, and what it leaves.\<close>

lemma take_parts:
  assumes "world_inv w" and "h \<in> set (tasks (mail w))" and "h \<in> registered (mail w)"
    and "dispatch_take (boxes (mail w) h) = (Some msg, a)"
    and "quiet ((mail w)\<lparr>tasks := remove1 h (tasks (mail w)), boxes := (boxes (mail w))(h := a), running := h # running (mail w),
      dispatched := (dispatched (mail w))(h := dispatched (mail w) h @ [msg])\<rparr>) m"
  shows "actor_inv m" "h \<notin> set (running (mail w))" "running m = h # running (mail w)" "registered m \<subseteq> registered (mail w)"
    "dispatched m = (dispatched (mail w))(h := dispatched (mail w) h @ [msg])" "handling w h = None"
proof -
  note I = world_invD[OF assms(1)]
  show "actor_inv m" by (rule quiet_inv[OF assms(5)], rule actor_step_inv[OF as_take I(1)]) (rule assms)+
  have "0 < count_list (tasks (mail w)) h" by (rule count_list_mem[OF assms(2)])
  then have "count_list (running (mail w)) h = 0" using activity_le[OF I(1), of h] by (simp add: activity_def)
  then show "h \<notin> set (running (mail w))" by (simp add: count_list_0_iff)
  then show "handling w h = None" using I(2) by blast
  show "running m = h # running (mail w)" "registered m \<subseteq> registered (mail w)"
    "dispatched m = (dispatched (mail w))(h := dispatched (mail w) h @ [msg])"
    using assms(5) by (simp_all add: quiet_def)
qed


lemma world_step_inv:
  assumes "world_step run w w'" and ok: "callback_ok run" and inv: "world_inv w"
  shows "world_inv w'"
  using assms(1)
proof (cases rule: world_step.cases)
  note I = world_invD[OF inv]
  {
    case (w_mail m)
    have "quiet (mail w) m" by (rule quiet_step) (use w_mail in simp_all)
    then have "actor_inv m" "registered m \<subseteq> registered (mail w)" using quiet_inv I(1) by (auto simp: quiet_def)
    then show ?thesis using I w_mail by (auto simp: world_inv_def)
  next
    case (w_launch h t)
    have none: "co w t = None" by (rule I(8)) (rule w_launch)
    have "co_ok ((co w)(t \<mapsto> ([h], Running))) (insert t (used w)) (insert h (launched w)) (entries w)"
      by (rule co_ok_upd[OF co_ok_mono[OF I(4)]]) auto
    moreover have "tab_ok ((co w)(t \<mapsto> ([h], Running))) ((cpts w)(h := component_doInit ErrorHandler ErrorHandler new_component))"
      by (rule tab_ok_upd[OF tab_ok_fresh[OF I(5)]]) (simp add: none)
    ultimately show ?thesis using I(1,2,3) w_launch by (auto simp: world_inv_def actor_inv_registered)
  next
    case (w_launch_in h t st)
    have "co_ok ((co w)(t \<mapsto> (h # st, Running))) (used w) (insert h (launched w)) (entries w)"
      by (rule co_ok_upd[OF co_ok_mono[OF I(4)]]) (use I(6)[OF w_launch_in(3)] in auto)
    moreover have "tab_ok ((co w)(t \<mapsto> (h # st, Running))) ((cpts w)(h := component_doInit ErrorHandler ErrorHandler new_component))"
      by (rule tab_ok_upd[OF tab_ok_fresh[OF I(5)]]) (simp add: w_launch_in)
    ultimately show ?thesis using I(1,2,3) w_launch_in by (auto simp: world_inv_def actor_inv_registered)
  next
    case (w_launched t h st)
    have "co_ok ((co w)(t := if st = [] then None else Some (st, Running))) (used w) (launched w) (entries w)"
      using I(6)[OF w_launched(2)] by (auto intro: co_ok_none[OF I(4)] co_ok_upd[OF I(4)])
    moreover have "tab_ok ((co w)(t := if st = [] then None else Some (st, Running))) (cpts w)"
      by (rule tab_ok_upd[OF I(5)]) (simp add: w_launched)
    ultimately show ?thesis using I(1,2,3) w_launched by (simp add: world_inv_def)
  next
    case (w_take h t msg a)
    obtain m c x where e: "w' = w\<lparr>mail := m, cpts := (cpts w)(h := c), co := wake x ((co w)(t \<mapsto> ([h], Running))),
        handling := (handling w)(h \<mapsto> t), used := insert t (used w)\<rparr>"
      "quiet ((mail w)\<lparr>tasks := remove1 h (tasks (mail w)), boxes := (boxes (mail w))(h := a), running := h # running (mail w),
      dispatched := (dispatched (mail w))(h := dispatched (mail w) h @ [msg])\<rparr>) m" "sub_cpt c (cpts w h)"
      using take_effect[OF w_take(5) ok] by blast
    note T = take_parts[OF inv w_take(1,2,4) e(2)]
    have none: "co w t = None" by (rule I(8)) (rule w_take)
    have "h \<in> launched w" using w_take(2) I(3) by blast
    then have "co_ok ((co w)(t \<mapsto> ([h], Running))) (insert t (used w)) (launched w) (entries w)"
      by (intro co_ok_upd[OF co_ok_mono[OF I(4)]]) auto
    moreover have "tab_ok ((co w)(t \<mapsto> ([h], Running))) ((cpts w)(h := c))"
      by (rule tab_ok_upd[OF tab_ok_sub[OF I(5) e(3)]]) (simp add: none)
    ultimately show ?thesis using T(1,3,4) I(2,3) e(1) by (auto simp: world_inv_def co_ok_wake tab_ok_wake)
  next
    case (w_suspend t st e i)
    have "co_ok ((co w)(t \<mapsto> (st, Suspending e))) (used w) (launched w) (insert e (entries w))"
    proof (rule co_ok_upd)
      show "co_ok (co w) (used w) (launched w) (insert e (entries w))"
        using I(4) w_suspend(3,4) unfolding co_ok_def by auto
    qed (use I(6)[OF w_suspend(2)] w_suspend(3) in auto)
    moreover have "tab_ok ((co w)(t \<mapsto> (st, Suspending e))) (cpts w)"
      by (rule tab_ok_upd[OF I(5)]) (simp add: w_suspend)
    ultimately show ?thesis using I(1,2,3) w_suspend by (simp add: world_inv_def)
  next
    case (w_wait t h st e ok session c)
    have task: "e \<in> entries w \<and> co_task e = Some t" by (rule I(7)[OF w_wait(2)]) simp
    have "co_ok ((co w)(t \<mapsto> (h # st, Waiting session e))) (used w) (launched w) (entries w)"
      by (rule co_ok_upd[OF I(4)]) (use I(6)[OF w_wait(2)] task in auto)
    then have "co_ok (if ok then (co w)(t \<mapsto> (h # st, Waiting session e)) else co w) (used w) (launched w) (entries w)"
      using I(4) by simp
    moreover note tab_ok_wait[OF I(5) w_wait(2,3)] task
    ultimately show ?thesis using I(1,2,3) w_wait by (simp add: world_inv_def)
  next
    case (w_wakeup t h st e)
    then show ?thesis using I(1-5) by (simp add: world_inv_def co_ok_wake tab_ok_wake)
  next
    case (w_resume t h st session e)
    have task: "co_task e = Some t" using I(7)[OF w_resume(2)] by simp
    have "co_ok ((co w)(t \<mapsto> (h # st, Running))) (used w) (launched w) (entries w)"
      by (rule co_ok_upd[OF I(4)]) (use I(6)[OF w_resume(2)] in auto)
    moreover note tab_ok_resume[OF I(5) w_resume(2) task]
    ultimately show ?thesis using I(1,2,3) w_resume by (simp add: world_inv_def)
  next
    case (w_timeout t h st i f r c)
    then show ?thesis using I(1-4) tab_ok_sub[OF I(5) sub_cpt_timeout] by (simp add: world_inv_def)
  next
    case (w_protocol t h st p)
    then show ?thesis using I(1-4) tab_ok_sub[OF I(5) sub_cpt_protocol] by (simp add: world_inv_def)
  next
    case (w_done h t)
    let ?m = "(mail w)\<lparr>running := remove1 h (running (mail w)), works := works (mail w) @ [h]\<rparr>"
    have "h \<in> set (running (mail w))" using I(2) w_done(2) by blast
    then have "actor_inv ?m" by (intro actor_step_inv[OF as_done I(1)])
    moreover have "dom ((handling w)(h := None)) \<subseteq> set (remove1 h (running (mail w)))"
    proof
      fix x assume "x \<in> dom ((handling w)(h := None))"
      then have "x \<noteq> h" "x \<in> set (running (mail w))" using I(2) by (auto split: if_splits)
      then show "x \<in> set (remove1 h (running (mail w)))" by (simp add: in_set_remove1)
    qed
    moreover have "tab_ok ((co w)(t := None)) (cpts w)" by (rule tab_ok_upd[OF I(5)]) (simp add: w_done)
    ultimately show ?thesis using I(3) co_ok_none[OF I(4)] w_done by (simp add: world_inv_def)
  }
qed

interpretation world: invariant_machine "\<lambda>w. w = world_start" "\<lambda>w w'. callback_ok run \<and> world_step run w w'" world_inv
proof
  show "w = world_start \<Longrightarrow> world_inv w" for w
    by (auto simp: world_start_def world_inv_def co_ok_def tab_ok_def new_component_def actor_start_def actor_inv_def
        activity_def new_actor_def)
  show "world_inv w \<Longrightarrow> callback_ok run \<and> world_step run w w' \<Longrightarrow> world_inv w'" for w w'
    using world_step_inv by blast
qed

lemma world_reach_inv:
  assumes "callback_ok run" and "reach (\<lambda>w. w = world_start) (world_step run) w"
  shows "world_inv w"
proof -
  have "world_step run = (\<lambda>w w'. callback_ok run \<and> world_step run w w')" using assms(1) by simp
  then show ?thesis using assms(2) world.reach_inv by metis
qed


section \<open>A handler that waits\<close>

text \<open>
  The coroutine in the handler of \<open>h\<close> waits, and so does every other coroutine that is inside code of
  \<open>h\<close>: a creator still in \<open>onLaunch\<close> of \<open>h\<close>, for instance.
\<close>

definition trapped :: "nat \<Rightarrow> (nat \<rightharpoonup> nat) \<Rightarrow> (nat \<rightharpoonup> nat list \<times> phase) \<Rightarrow> bool" where
  "trapped h hn c \<longleftrightarrow> (\<exists>t s e. hn h = Some t \<and> c t = Some ([h], Waiting s e)) \<and>
     (\<forall>t st ph. c t = Some (st, ph) \<and> h \<in> set st \<longrightarrow> (\<exists>st' s e. st = h # st' \<and> ph = Waiting s e))"

lemma trapped_wake:
  assumes "trapped h hn c" and "\<And>t. x = Some t \<Longrightarrow> \<exists>h2 s e. h2 \<noteq> h \<and> waits_at c h2 s e t"
  shows "trapped h hn (wake x c)"
proof -
  have other: "h \<notin> set st" if xt: "x = Some t" and ct: "c t = Some (st, ph)" for t st ph
  proof
    assume "h \<in> set st"
    then obtain st' where "st = h # st'" using assms(1) ct unfolding trapped_def by blast
    then show False using assms(2)[OF xt] ct by (auto simp: waits_at_def)
  qed
  have same: "wake x c t = c t" if "c t = Some (st, ph)" "h \<in> set st" for t st ph
    using wake_cases[of x c t] other that by force
  have before: "\<exists>ph'. c t = Some (st, ph')" if "wake x c t = Some (st, ph)" for t st ph
    using wake_cases[of x c t] that by (metis Pair_inject option.inject)
  show ?thesis
    unfolding trapped_def
  proof (intro conjI allI impI)
    obtain t s e where "hn h = Some t" "c t = Some ([h], Waiting s e)" using assms(1) by (auto simp: trapped_def)
    then show "\<exists>t s e. hn h = Some t \<and> wake x c t = Some ([h], Waiting s e)" using same[of t "[h]"] by auto
  next
    fix t st ph assume a: "wake x c t = Some (st, ph) \<and> h \<in> set st"
    then obtain ph' where c: "c t = Some (st, ph')" using before by blast
    then have "wake x c t = c t" using same a by blast
    then show "\<exists>st' s e. st = h # st' \<and> ph = Waiting s e" using assms(1) a unfolding trapped_def by metis
  qed
qed

lemma trapped_handling: "h2 \<noteq> h \<Longrightarrow> trapped h (hn(h2 := v)) c = trapped h hn c"
  by (simp add: trapped_def)

lemma trapped_upd:
  assumes "trapped h hn c" and "\<And>st ph. c t = Some (st, ph) \<Longrightarrow> h \<notin> set st" and "\<And>st ph. v = Some (st, ph) \<Longrightarrow> h \<notin> set st"
  shows "trapped h hn (c(t := v))"
proof -
  obtain t0 s e where "hn h = Some t0" "c t0 = Some ([h], Waiting s e)" using assms(1) by (auto simp: trapped_def)
  moreover have "t0 \<noteq> t" using calculation(2) assms(2) by force
  ultimately have "hn h = Some t0 \<and> (c(t := v)) t0 = Some ([h], Waiting s e)" by simp
  moreover have "\<exists>st' s e. st = h # st' \<and> ph = Waiting s e" if "(c(t := v)) t' = Some (st, ph)" "h \<in> set st" for t' st ph
    using that assms(1,3) unfolding trapped_def by (cases "t' = t") (auto split: if_splits)
  ultimately show ?thesis unfolding trapped_def by blast
qed

lemma trapped_other:
  assumes "trapped h hn c" and "c t = Some (h2 # st, ph)" and "ph = Running \<or> (\<exists>e. ph = Suspending e) \<or> (\<exists>s e. ph = Woken s e)"
  shows "h2 \<noteq> h" "h \<notin> set st"
  using assms unfolding trapped_def by (metis list.set_intros(1,2) phase.distinct)+

lemma owned_target:
  assumes "tab_ok c f" and "owned (f h2) x" and "x = Some t"
  shows "\<exists>s e. waits_at c h2 s e t"
  using assms unfolding owned_def tab_ok_def by blast

lemma sleeper_target:
  assumes "world_inv w" and "doWakeup (cpts w h2) e" and "e \<in> entries w" and "co_task e = Some t"
  shows "\<exists>s e. waits_at (co w) h2 s e t"
proof -
  note I = world_invD[OF assms(1)]
  obtain s where "m_suspedSleep (cpts w h2) (co_id e) = Some s"
    using assms(2) by (auto simp: doWakeup_def getSleepSusped_def split: option.splits)
  then obtain t' e' where e': "co_id e' = co_id e" "waits_at (co w) h2 s e' t'"
    using I(5) unfolding tab_ok_def by blast
  then have "e' \<in> entries w \<and> co_task e' = Some t'" using I(7) unfolding waits_at_def by (metis phase_entry.simps(3,4))
  then have "e' = e" using I(4) assms(3) e'(1) unfolding co_ok_def inj_on_def by blast
  then show ?thesis using e' assms(4) \<open>e' \<in> entries w \<and> co_task e' = Some t'\<close> by auto
qed

lemma trapped_step:
  assumes "world_step run w w'" and ok: "callback_ok run" and inv: "world_inv w" and trap: "trapped h (handling w) (co w)"
  shows "trapped h (handling w') (co w') \<and> dispatched (mail w') h = dispatched (mail w) h"
  using assms(1)
proof (cases rule: world_step.cases)
  note I = world_invD[OF inv]
  have busy: "h \<in> set (running (mail w))" "h \<in> launched w"
    using trap I(2) I(6)[of _ "[h]"] unfolding trapped_def by auto
  {
    case (w_mail m)
    then show ?thesis using trap by simp
  next
    case (w_launch h2 t)
    have "co w t = None" by (rule I(8)) (rule w_launch)
    then have "trapped h (handling w) ((co w)(t \<mapsto> ([h2], Running)))"
      using busy(2) w_launch by (intro trapped_upd[OF trap]) auto
    then show ?thesis using w_launch by simp
  next
    case (w_launch_in h2 t st)
    have st: "h \<notin> set st" using trap w_launch_in(3) unfolding trapped_def by blast
    have "trapped h (handling w) ((co w)(t \<mapsto> (h2 # st, Running)))"
      by (rule trapped_upd[OF trap]) (use st busy(2) w_launch_in in auto)
    then show ?thesis using w_launch_in by simp
  next
    case (w_launched t h2 st)
    note o = trapped_other[OF trap w_launched(2)]
    have "trapped h (handling w) ((co w)(t := (if st = [] then None else Some (st, Running))))"
      by (rule trapped_upd[OF trap]) (use o w_launched in \<open>auto split: if_splits\<close>)
    then show ?thesis using w_launched by simp
  next
    case (w_take h2 t msg a)
    obtain m c x where e: "w' = w\<lparr>mail := m, cpts := (cpts w)(h2 := c), co := wake x ((co w)(t \<mapsto> ([h2], Running))),
        handling := (handling w)(h2 \<mapsto> t), used := insert t (used w)\<rparr>"
      "quiet ((mail w)\<lparr>tasks := remove1 h2 (tasks (mail w)), boxes := (boxes (mail w))(h2 := a), running := h2 # running (mail w),
      dispatched := (dispatched (mail w))(h2 := dispatched (mail w) h2 @ [msg])\<rparr>) m" "owned (cpts w h2) x"
      using take_effect[OF w_take(5) ok] by blast
    note T = take_parts[OF inv w_take(1,2,4) e(2)]
    have h2: "h2 \<noteq> h" using T(2) busy(1) by blast
    have none: "co w t = None" by (rule I(8)) (rule w_take)
    have up: "trapped h (handling w) ((co w)(t \<mapsto> ([h2], Running)))"
      by (rule trapped_upd[OF trap]) (use none h2 in auto)
    have "trapped h (handling w) (wake x ((co w)(t \<mapsto> ([h2], Running))))"
    proof (rule trapped_wake[OF up])
      fix t' assume "x = Some t'"
      from owned_target[OF I(5) e(3) this] obtain s e where t': "waits_at (co w) h2 s e t'" by blast
      then have "t' \<noteq> t" using none by auto
      then show "\<exists>h3 s e. h3 \<noteq> h \<and> waits_at ((co w)(t \<mapsto> ([h2], Running))) h3 s e t'"
        using h2 t' unfolding waits_at_def by (metis fun_upd_apply)
    qed
    then show ?thesis using e(1) h2 T(5) by (simp add: trapped_handling)
  next
    case (w_suspend t st e i)
    have st: "h \<notin> set st" using trap w_suspend(2) unfolding trapped_def by blast
    have "trapped h (handling w) ((co w)(t \<mapsto> (st, Suspending e)))"
      by (rule trapped_upd[OF trap]) (use st w_suspend in auto)
    then show ?thesis using w_suspend by simp
  next
    case (w_wait t h2 st e ok session c)
    note o = trapped_other[OF trap w_wait(2)]
    have "trapped h (handling w) ((co w)(t \<mapsto> (h2 # st, Waiting session e)))"
      by (rule trapped_upd[OF trap]) (use o w_wait in auto)
    then show ?thesis using w_wait trap by simp
  next
    case (w_wakeup t h2 st e)
    note o = trapped_other[OF trap w_wakeup(2)]
    have "trapped h (handling w) (wake (co_task e) (co w))"
      by (rule trapped_wake[OF trap]) (use o sleeper_target[OF inv w_wakeup(4,3)] in blast)
    then show ?thesis using w_wakeup by simp
  next
    case (w_resume t h2 st session e)
    note o = trapped_other[OF trap w_resume(2)]
    have "trapped h (handling w) ((co w)(t \<mapsto> (h2 # st, Running)))"
      by (rule trapped_upd[OF trap]) (use o w_resume in auto)
    then show ?thesis using w_resume by simp
  next
    case (w_timeout t h2 st i f r c)
    then show ?thesis using trap by simp
  next
    case (w_protocol t h2 st p)
    then show ?thesis using trap by simp
  next
    case (w_done h2 t)
    note o = trapped_other[OF trap w_done(3)]
    have "trapped h (handling w) ((co w)(t := None))"
      by (rule trapped_upd[OF trap]) (use o w_done in auto)
    then show ?thesis using w_done o by (simp add: trapped_handling)
  }
qed

lemma trapped_steps:
  assumes "(world_step run)\<^sup>*\<^sup>* w w'" and "callback_ok run" and "world_inv w" and "trapped h (handling w) (co w)"
  shows "world_inv w' \<and> trapped h (handling w') (co w') \<and> dispatched (mail w') h = dispatched (mail w) h"
  using assms(1)
proof (induction rule: rtranclp_induct)
  case (step x y)
  then show ?case using world_step_inv[OF step(2) assms(2)] trapped_step[OF step(2) assms(2)] by simp
qed (use assms in simp)

text \<open>C3: A coroutine that waits inside a handler of its actor never goes on: the actor is posted again only when
  the handler is over, and what would end the wait is a message to the same actor.  Whatever happens
  later, the coroutine waits, nothing is dispatched to the actor any more, and everything sent to it
  piles up in its mailbox; this holds also while a creator is still waiting in its \<open>onLaunch\<close>.\<close>

theorem waiting_handler_never_returns:
  assumes "callback_ok run" and "reach (\<lambda>w. w = world_start) (world_step run) w" and "trapped h (handling w) (co w)"
    and "(world_step run)\<^sup>*\<^sup>* w w'"
  shows "trapped h (handling w') (co w') \<and> dispatched (mail w') h = dispatched (mail w) h \<and>
    sent (mail w') h = dispatched (mail w) h @ m_mqs (boxes (mail w') h)"
proof -
  note T = trapped_steps[OF assms(4,1) world_reach_inv[OF assms(1,2)] assms(3)]
  then have "sent (mail w') h = dispatched (mail w') h @ m_mqs (boxes (mail w') h)"
    by (simp add: world_inv_def actor_inv_def)
  then show ?thesis using T by simp
qed

text \<open>The run: actor 7 is launched, gets a message and waits in its handler.\<close>

definition demo_cpt :: "cpt \<Rightarrow> cpt" where
  "demo_cpt c = doRegisterProtocol c \<lparr>p_msgId = 4, p_dispatch = Some (UserHandler 0), p_pack = None, p_unpack = Some (UserHandler 1)\<rparr>"

definition demo_msg :: message where
  "demo_msg = \<lparr>msg_src = 9, msg_dst = 7, msg_session = 5, msg_data = None, msg_ext = [4, 0, 0, 0, 0]\<rparr>"

definition demo_entry :: "nat co_entry" where
  "demo_entry = \<lparr>co_id = 1, co_task = Some 1, co_func = None\<rparr>"

definition demo_box :: "bool \<Rightarrow> message list \<Rightarrow> message actor" where
  "demo_box g ms = \<lparr>m_inglobal = g, m_indeath = False, m_death_us = 0, m_mqs = ms, m_cpt = True\<rparr>"

definition demo_mail :: "message actor \<Rightarrow> nat list \<Rightarrow> nat list \<Rightarrow> nat list \<Rightarrow> nat \<Rightarrow> message list \<Rightarrow> message list \<Rightarrow> message actor_sys" where
  "demo_mail b ws ts rs p se di = \<lparr>boxes = (\<lambda>_. demo_box False [])(7 := b), registered = {7}, works = ws, tasks = ts,
     running = rs, pushing = (\<lambda>_. 0)(7 := p), sent = (\<lambda>_. [])(7 := se), dispatched = (\<lambda>_. [])(7 := di)\<rparr>"

definition demo_world :: "message actor_sys \<Rightarrow> cpt \<Rightarrow> (nat \<rightharpoonup> nat list \<times> phase) \<Rightarrow> (nat \<rightharpoonup> nat) \<Rightarrow> nat set \<Rightarrow> nat co_entry set \<Rightarrow> world" where
  "demo_world m c k hn us en = \<lparr>mail = m, cpts = (\<lambda>_. new_component)(7 := c), co = k, handling = hn, used = us,
     entries = en, launched = {7}\<rparr>"

definition demo_c0 :: cpt where
  "demo_c0 = demo_cpt (component_doInit ErrorHandler ErrorHandler new_component)"

definition demo_c1 :: cpt where
  "demo_c1 = demo_c0\<lparr>m_session := 1, m_suspedSession := [1 \<mapsto> demo_entry], m_suspedSleep := [1 \<mapsto> 1]\<rparr>"

definition demo_waiting :: world where
  "demo_waiting = demo_world (demo_mail (demo_box True []) [] [] [7] 0 [demo_msg] [demo_msg]) demo_c1
     [1 \<mapsto> ([7], Waiting 1 demo_entry)] [7 \<mapsto> 1] {0, 1} {demo_entry}"

lemma const_upd: "(\<lambda>_. x)(a := x) = (\<lambda>_. x)"
  by (rule ext) simp

lemma demo_onLaunch:
  "reach (\<lambda>w. w = world_start) (world_step run) (demo_world (demo_mail (demo_box False []) [] [] [] 0 [] [])
     (component_doInit ErrorHandler ErrorHandler new_component) [0 \<mapsto> ([7], Running)] Map.empty {0} {})"
proof (rule reach_step[OF reach_init])
  show "world_step run world_start (demo_world (demo_mail (demo_box False []) [] [] [] 0 [] [])
      (component_doInit ErrorHandler ErrorHandler new_component) [0 \<mapsto> ([7], Running)] Map.empty {0} {})"
    using w_launch[of 7 world_start 0 run]
    by (simp add: const_upd demo_world_def demo_mail_def world_start_def actor_start_def new_actor_def demo_box_def)
qed simp

lemma demo_launched:
  "reach (\<lambda>w. w = world_start) (world_step run) (demo_world (demo_mail (demo_box False []) [] [] [] 0 [] []) demo_c0 Map.empty Map.empty {0} {})"
proof -
  let ?c = "component_doInit ErrorHandler ErrorHandler new_component"
  let ?m = "demo_mail (demo_box False []) [] [] [] 0 [] []"
  let ?r = "reach (\<lambda>w. w = world_start) (world_step run)"
  have "world_step run (demo_world ?m ?c [0 \<mapsto> ([7], Running)] Map.empty {0} {})
      (demo_world ?m demo_c0 [0 \<mapsto> ([7], Running)] Map.empty {0} {})"
    using w_protocol[of "demo_world ?m ?c [0 \<mapsto> ([7], Running)] Map.empty {0} {}" 0 7 "[]" run
        "\<lparr>p_msgId = 4, p_dispatch = Some (UserHandler 0), p_pack = None, p_unpack = Some (UserHandler 1)\<rparr>"]
    by (simp add: demo_world_def demo_c0_def demo_cpt_def)
  with demo_onLaunch have "?r (demo_world ?m demo_c0 [0 \<mapsto> ([7], Running)] Map.empty {0} {})" by (rule reach_step)
  moreover have "world_step run (demo_world ?m demo_c0 [0 \<mapsto> ([7], Running)] Map.empty {0} {})
      (demo_world ?m demo_c0 Map.empty Map.empty {0} {})"
    using w_launched[of "demo_world ?m demo_c0 [0 \<mapsto> ([7], Running)] Map.empty {0} {}" 0 7 "[]" run]
    by (simp add: demo_world_def)
  ultimately show ?thesis by (rule reach_step)
qed

lemma demo_dispatch:
  "dispatchMessage tst run demo_c0 demo_msg = Inr (NoReturn, demo_c0, [CallDispatch (UserHandler 0) 5 9])"
  by (simp add: dispatchMessage_def dispatch_other_def demo_msg_def getMessageId_def M_ID_RESOUE_def M_ID_TIMEOUT_def
      M_ID_QUIT_def getProtocol_def demo_c0_def demo_cpt_def component_doInit_def doRegisterProtocol_def new_component_def)

lemma demo_waiting_reached: "reach (\<lambda>w. w = world_start) (world_step run) demo_waiting"
proof -
  let ?r = "reach (\<lambda>w. w = world_start) (world_step run)"
  let ?w = "\<lambda>m. demo_world m demo_c0 Map.empty Map.empty {0} {}"
  let ?m0 = "demo_mail (demo_box False []) [] [] [] 0 [] []"
  let ?m1 = "demo_mail (demo_box False [demo_msg]) [] [] [] 1 [demo_msg] []"
  let ?m2 = "demo_mail (demo_box True [demo_msg]) [7] [] [] 0 [demo_msg] []"
  let ?m3 = "demo_mail (demo_box True [demo_msg]) [] [7] [] 0 [demo_msg] []"
  let ?m4 = "demo_mail (demo_box True []) [] [] [7] 0 [demo_msg] [demo_msg]"
  let ?h = "[7 \<mapsto> 1 :: nat]"
  have mail: "world_step run (?w m) (?w m')" if "actor_step m m'" "running m' = running m" "dispatched m' = dispatched m" for m m'
    using w_mail[of "?w m" m' run] that by (simp add: demo_world_def)
  note d = demo_mail_def demo_box_def fun_eq_iff
  have "?r (?w ?m0)" by (rule demo_launched)
  moreover have "world_step run (?w ?m0) (?w ?m1)"
    using as_push[of ?m0 7 demo_msg] by (intro mail) (simp_all add: d push_message_def cong: if_cong)
  ultimately have "?r (?w ?m1)" by (rule reach_step)
  moreover have "world_step run (?w ?m1) (?w ?m2)"
    using as_flag[of ?m1 7 True "demo_box True [demo_msg]"] by (intro mail) (simp_all add: d push_register_def)
  ultimately have "?r (?w ?m2)" by (rule reach_step)
  moreover have "world_step run (?w ?m2) (?w ?m3)"
    using as_create[of ?m2 7 "[]"] by (intro mail) (simp_all add: d)
  ultimately have "?r (?w ?m3)" by (rule reach_step)
  moreover have "world_step run (?w ?m3) (demo_world ?m4 demo_c0 [1 \<mapsto> ([7], Running)] ?h {0, 1} {})"
  proof (rule w_take[of 7 _ 1 demo_msg "demo_box True []"])
    show "take_message run 7 1 demo_msg (demo_box True []) (?w ?m3) = Inr (demo_world ?m4 demo_c0 [1 \<mapsto> ([7], Running)] ?h {0, 1} {})"
      by (simp add: take_message_def demo_dispatch perform_def demo_world_def d Let_def insert_commute)
  qed (simp_all add: demo_world_def d dispatch_take_def)
  ultimately have "?r (demo_world ?m4 demo_c0 [1 \<mapsto> ([7], Running)] ?h {0, 1} {})" by (rule reach_step)
  moreover have "world_step run (demo_world ?m4 demo_c0 [1 \<mapsto> ([7], Running)] ?h {0, 1} {})
      (demo_world ?m4 demo_c0 [1 \<mapsto> ([7], Suspending demo_entry)] ?h {0, 1} {demo_entry})"
    using w_suspend[of "demo_world ?m4 demo_c0 [1 \<mapsto> ([7], Running)] ?h {0, 1} {}" 1 "[7]" demo_entry 1 run]
    by (simp add: demo_world_def demo_entry_def)
  ultimately have "?r (demo_world ?m4 demo_c0 [1 \<mapsto> ([7], Suspending demo_entry)] ?h {0, 1} {demo_entry})" by (rule reach_step)
  moreover have "world_step run (demo_world ?m4 demo_c0 [1 \<mapsto> ([7], Suspending demo_entry)] ?h {0, 1} {demo_entry}) demo_waiting"
  proof -
    have c0: "m_session demo_c0 = 0" "m_suspedSession demo_c0 = Map.empty" "m_suspedSleep demo_c0 = Map.empty"
      by (simp_all add: demo_c0_def demo_cpt_def component_doInit_def doRegisterProtocol_def new_component_def split: option.split)
    have "doWait_begin demo_c0 demo_entry = Inr (True, 1, demo_c1)"
      by (simp add: session_defs c0 demo_c1_def demo_entry_def)
    then show ?thesis
      using w_wait[of "demo_world ?m4 demo_c0 [1 \<mapsto> ([7], Suspending demo_entry)] ?h {0, 1} {demo_entry}" 1 7 "[]" demo_entry True 1 demo_c1 run]
      by (simp add: demo_world_def demo_waiting_def)
  qed
  ultimately show ?thesis by (rule reach_step)
qed

lemma demo_trapped: "trapped 7 (handling demo_waiting) (co demo_waiting)"
  by (auto simp: trapped_def demo_waiting_def demo_world_def split: if_splits)

theorem waiting_handler_never_returns_witness:
  "\<exists>w. reach (\<lambda>w. w = world_start) (world_step (\<lambda>_ c. c)) w \<and> dispatched (mail w) 7 = [demo_msg] \<and>
     (\<forall>w'. (world_step (\<lambda>_ c. c))\<^sup>*\<^sup>* w w' \<longrightarrow> dispatched (mail w') 7 = [demo_msg])"
proof -
  have ok: "callback_ok (\<lambda>_ c. c)" by (simp add: callback_ok_def)
  have d: "dispatched (mail demo_waiting) 7 = [demo_msg]" by (simp add: demo_waiting_def demo_world_def demo_mail_def)
  have "dispatched (mail w') 7 = [demo_msg]" if "(world_step (\<lambda>_ c. c))\<^sup>*\<^sup>* demo_waiting w'" for w'
    using waiting_handler_never_returns[OF ok demo_waiting_reached demo_trapped that] d by simp
  then show ?thesis using d demo_waiting_reached by blast
qed

section \<open>A creator that waits\<close>

lemma used_finite: "callback_ok run \<Longrightarrow> reach (\<lambda>w. w = world_start) (world_step run) w \<Longrightarrow> finite (used w)"
proof -
  assume ok: "callback_ok run" and r: "reach (\<lambda>w. w = world_start) (world_step run) w"
  from r show "finite (used w)"
  proof (induction rule: reach.induct)
    case (reach_init s)
    then show ?case by (simp add: world_start_def)
  next
    case (reach_step s t)
    from reach_step(2,3) show ?case
    proof (cases rule: world_step.cases)
      case (w_take h x msg a)
      from take_effect[OF w_take(5) ok] obtain m c cc where
        "t = s\<lparr>mail := m, cpts := (cpts s)(h := c), co := cc, handling := (handling s)(h \<mapsto> x), used := insert x (used s)\<rparr>" by blast
      then show ?thesis using reach_step(3) by simp
    qed simp_all
  qed
qed

lemma create_all:
  assumes "h \<in> set (works (mail w)) \<union> set (tasks (mail w))"
  shows "\<exists>ws ts. (world_step run)\<^sup>*\<^sup>* w (w\<lparr>mail := (mail w)\<lparr>works := ws, tasks := ts\<rparr>\<rparr>) \<and> h \<in> set ts"
  using assms
proof (induction "works (mail w)" arbitrary: w)
  case Nil
  have "(world_step run)\<^sup>*\<^sup>* w (w\<lparr>mail := (mail w)\<lparr>works := works (mail w), tasks := tasks (mail w)\<rparr>\<rparr>)" by simp
  then show ?case using Nil by (metis Un_iff empty_iff list.set(1))
next
  case (Cons x xs)
  let ?w = "w\<lparr>mail := (mail w)\<lparr>works := xs, tasks := x # tasks (mail w)\<rparr>\<rparr>"
  have s: "world_step run w ?w" by (rule w_mail) (use Cons(2) in \<open>auto intro!: as_create\<close>)
  have "h \<in> insert x (set xs) \<union> set (tasks (mail w))" using Cons(2,3) by (metis list.simps(15))
  then have "h \<in> set (works (mail ?w)) \<union> set (tasks (mail ?w))" by simp
  then obtain ws ts where "(world_step run)\<^sup>*\<^sup>* ?w (?w\<lparr>mail := (mail ?w)\<lparr>works := ws, tasks := ts\<rparr>\<rparr>)" "h \<in> set ts"
    using Cons(1)[of ?w] by auto
  then have "(world_step run)\<^sup>*\<^sup>* w (w\<lparr>mail := (mail w)\<lparr>works := ws, tasks := ts\<rparr>\<rparr>)"
    using converse_rtranclp_into_rtranclp[of "world_step run", OF s] by simp
  then show ?case using \<open>h \<in> set ts\<close> by blast
qed

text \<open>C4: The answer to a coroutine that waits while it launches an actor does arrive, if it is the first message
  to the actor: the machine can push it, post the actor, create the coroutine and dispatch it, which
  ends the session, wakes the waiting coroutine and lets it go on where it left.\<close>

theorem launch_wait_is_answered:
  assumes "callback_ok run" and "reach (\<lambda>w. w = world_start) (world_step run) w"
    and "co w t = Some (h # st, Waiting s e)" and "m_suspedSession (cpts w h) s = Some e"
    and "h \<in> registered (mail w)" and "\<not> m_inglobal (boxes (mail w) h)" and "m_mqs (boxes (mail w) h) = []"
    and "getMessageId msg = M_ID_RESOUE" and "sint (msg_session msg) = s"
  shows "\<exists>w'. (world_step run)\<^sup>*\<^sup>* w w' \<and> co w' t = Some (h # st, Running) \<and>
    dispatched (mail w') h = dispatched (mail w) h @ [msg] \<and>
    m_suspedSession (cpts w' h) s = None \<and> m_suspedSleep (cpts w' h) (co_id e) = None"
proof -
  note I = world_invD[OF world_reach_inv[OF assms(1,2)]]
  have task: "co_task e = Some t" using I(7)[OF assms(3)] by simp
  have cpt: "m_cpt (boxes (mail w) h)" using I(1) by (simp add: actor_inv_def)
  obtain t' where t': "t' \<notin> used w" using used_finite[OF assms(1,2)] ex_new_if_finite infinite_UNIV_nat by blast
  then have "t' \<noteq> t" using I(6)[OF assms(3)] by blast
  let ?b = "boxes (mail w) h"
  define m1 where "m1 = (mail w)\<lparr>boxes := (boxes (mail w))(h := push_message ?b msg),
     pushing := (pushing (mail w))(h := pushing (mail w) h + 1), sent := (sent (mail w))(h := sent (mail w) h @ [msg])\<rparr>"
  define a2 where "a2 = (push_message ?b msg)\<lparr>m_inglobal := True\<rparr>"
  define m2 where "m2 = m1\<lparr>boxes := (boxes m1)(h := a2), pushing := (pushing m1)(h := pushing m1 h - 1), works := works m1 @ [h]\<rparr>"
  have "actor_step (mail w) m1" unfolding m1_def by (rule as_push)
  then have s1: "world_step run w (w\<lparr>mail := m1\<rparr>)" by (rule w_mail) (simp_all add: m1_def)
  have "actor_step m1 (m1\<lparr>boxes := (boxes m1)(h := a2), pushing := (pushing m1)(h := pushing m1 h - 1),
      works := (if True then works m1 @ [h] else works m1)\<rparr>)"
    by (rule as_flag) (use assms(6) in \<open>simp_all add: m1_def a2_def push_register_def push_message_def\<close>)
  then have "actor_step m1 m2" by (simp add: m2_def)
  then have "world_step run (w\<lparr>mail := m1\<rparr>) ((w\<lparr>mail := m1\<rparr>)\<lparr>mail := m2\<rparr>)" by (intro w_mail) (simp_all add: m2_def)
  then have s2: "world_step run (w\<lparr>mail := m1\<rparr>) (w\<lparr>mail := m2\<rparr>)" by simp
  obtain ws ts where s3: "(world_step run)\<^sup>*\<^sup>* (w\<lparr>mail := m2\<rparr>) (w\<lparr>mail := m2\<lparr>works := ws, tasks := ts\<rparr>\<rparr>)" "h \<in> set ts"
    using create_all[of h "w\<lparr>mail := m2\<rparr>" run] by (auto simp: m2_def)
  let ?m3 = "m2\<lparr>works := ws, tasks := ts\<rparr>"
  let ?w3 = "w\<lparr>mail := ?m3\<rparr>"
  define a4 where "a4 = a2\<lparr>m_mqs := []\<rparr>"
  have take: "dispatch_take (boxes ?m3 h) = (Some msg, a4)"
    using cpt assms(7) by (simp add: m2_def a2_def a4_def dispatch_take_def push_message_def)
  have disp: "dispatchMessage (state_of (co w)) run (cpts w h) msg = Inr (Returns, removeSusped (cpts w h) s, [Wakeup (Some t)])"
    using assms(3,4,8,9) task by (simp add: dispatchMessage_def dispatch_resoue_def getSusped_def state_of_def)
  define w4 where "w4 = w\<lparr>mail := ?m3\<lparr>tasks := remove1 h ts, boxes := (boxes ?m3)(h := a4), running := h # running ?m3,
            dispatched := (dispatched ?m3)(h := dispatched ?m3 h @ [msg])\<rparr>,
          cpts := (cpts w)(h := removeSusped (cpts w h) s), co := (co w)(t' \<mapsto> ([h], Running), t \<mapsto> (h # st, Woken s e)),
          handling := (handling w)(h \<mapsto> t'), used := insert t' (used w)\<rparr>"
  have "take_message run h t' msg a4 ?w3 = Inr w4"
    using disp assms(3) \<open>t' \<noteq> t\<close> by (simp add: take_message_def perform_def perform_basic_def wake_def w4_def Let_def)
  then have s4: "world_step run ?w3 w4"
    by (intro w_take[of h _ t' msg a4]) (use s3(2) t' take assms(5) in \<open>simp_all add: m2_def m1_def\<close>)
  define w5 where "w5 = w4\<lparr>cpts := (cpts w4)(h := doWait_end (cpts w4 h) s e), co := (co w4)(t \<mapsto> (h # st, Running))\<rparr>"
  have s5: "world_step run w4 w5" unfolding w5_def by (rule w_resume) (simp add: w4_def)
  have "(world_step run)\<^sup>*\<^sup>* w w5"
    using converse_rtranclp_into_rtranclp[OF s1 converse_rtranclp_into_rtranclp[OF s2 s3(1)]] s4 s5
    by (meson rtranclp.rtrancl_into_rtrancl)
  moreover have "dispatched (mail w5) h = dispatched (mail w) h @ [msg]" by (simp add: w5_def w4_def m2_def m1_def)
  ultimately show ?thesis
    by (intro exI[of _ w5]) (simp add: w5_def doWait_end_def removeSusped_def removeSleepSusped_def)
qed


theorem launch_wait_is_answered_witness:
  "\<exists>w w'. reach (\<lambda>w. w = world_start) (world_step (\<lambda>_ c. c)) w \<and> (world_step (\<lambda>_ c. c))\<^sup>*\<^sup>* w w' \<and>
     (\<exists>s e. co w 0 = Some ([7], Waiting s e)) \<and> co w' 0 = Some ([7], Running)"
proof -
  let ?r = "reach (\<lambda>w. w = world_start) (world_step (\<lambda>_ c. c))"
  let ?c = "component_doInit ErrorHandler ErrorHandler new_component :: cpt"
  let ?m = "demo_mail (demo_box False []) [] [] [] 0 [] []"
  let ?e = "\<lparr>co_id = 1, co_task = Some 0, co_func = None\<rparr> :: nat co_entry"
  let ?msg = "demo_msg\<lparr>msg_session := 1, msg_ext := [3, 0, 0, 0, 0]\<rparr>"
  let ?w1 = "demo_world ?m ?c [0 \<mapsto> ([7], Suspending ?e)] Map.empty {0} {?e}"
  let ?w = "demo_world ?m (?c\<lparr>m_session := 1, m_suspedSession := [1 \<mapsto> ?e], m_suspedSleep := [1 \<mapsto> 1]\<rparr>)
     [0 \<mapsto> ([7], Waiting 1 ?e)] Map.empty {0} {?e}"
  have c: "m_session ?c = 0" "m_suspedSession ?c = Map.empty" "m_suspedSleep ?c = Map.empty"
    by (simp_all add: component_doInit_def doRegisterProtocol_def new_component_def split: option.split)
  have "world_step (\<lambda>_ c. c) (demo_world ?m ?c [0 \<mapsto> ([7], Running)] Map.empty {0} {}) ?w1"
    using w_suspend[of "demo_world ?m ?c [0 \<mapsto> ([7], Running)] Map.empty {0} {}" 0 "[7]" ?e 1 "\<lambda>_ c. c"]
    by (simp add: demo_world_def)
  with demo_onLaunch have r1: "?r ?w1" by (rule reach_step)
  have "doWait_begin ?c ?e = Inr (True, 1, ?c\<lparr>m_session := 1, m_suspedSession := [1 \<mapsto> ?e], m_suspedSleep := [1 \<mapsto> 1]\<rparr>)"
    by (simp add: session_defs c)
  then have "world_step (\<lambda>_ c. c) ?w1 ?w"
    using w_wait[of ?w1 0 7 "[]" ?e True 1 _ "\<lambda>_ c. c"] by (simp add: demo_world_def)
  with r1 have r: "?r ?w" by (rule reach_step)
  have ok: "callback_ok (\<lambda>_ c. c)" by (simp add: callback_ok_def)
  have w: "co ?w 0 = Some ([7], Waiting 1 ?e)" "m_suspedSession (cpts ?w 7) 1 = Some ?e" "7 \<in> registered (mail ?w)"
    "\<not> m_inglobal (boxes (mail ?w) 7)" "m_mqs (boxes (mail ?w) 7) = []"
    by (simp_all add: demo_world_def demo_mail_def demo_box_def)
  have "getMessageId ?msg = M_ID_RESOUE" "sint (msg_session ?msg) = 1"
    by (simp_all add: getMessageId_def M_ID_RESOUE_def)
  from launch_wait_is_answered[OF ok r w this] obtain w' where
    "(world_step (\<lambda>_ c. c))\<^sup>*\<^sup>* ?w w'" "co w' 0 = Some ([7], Running)" by blast
  then show ?thesis using r w(1) by blast
qed

end
