(* ===== verification/ActorTimer.thy ===== *)
theory ActorTimer
  imports ActorComponent Clock
begin

text \<open>
  The timers of a component, from \<open>actorComponent::doTimeout\<close> through \<open>actor::doTimeOut\<close> and the timer
  wheel of \<open>Clock\<close> back to its function, and what happens to the messages that are left in the mailbox
  of an actor when it is deleted (\<open>engine/src/module/actor.cc\<close>, \<open>actorComponent.cc\<close>).
\<close>

section \<open>Timers\<close>

text \<open>The block that \<open>doTimeOut\<close> hands to the timer, and the message its callback sends.\<close>

record timeSingle =
  ts_handle :: "32 word"
  ts_session :: "32 word"

definition timeout_message :: "8 word list \<Rightarrow> timeSingle \<Rightarrow> message" where
  "timeout_message junk tm = getMessage junk 2 0 (ts_handle tm) (ts_session tm) None 0"

text \<open>The callback sends it to the actor; here it is put down in the list of what was sent.\<close>

definition timer_func :: "8 word list \<Rightarrow> timeSingle \<Rightarrow> message list \<Rightarrow> message list" where
  "timer_func junk tm out = out @ [timeout_message junk tm]"

definition actor_doTimeOut ::
    "8 word list \<Rightarrow> 32 word \<Rightarrow> 32 word \<Rightarrow> 32 word \<Rightarrow> timeSingle clock \<times> message list \<Rightarrow> timeEntery \<times> timeSingle clock \<times> message list" where
  "actor_doTimeOut junk handle time session cw =
     timeOut (quiet (timer_func junk)) time \<lparr>ts_handle = handle, ts_session = session\<rparr> cw"

text \<open>\<open>actorComponent::doTimeout\<close> as a whole: the session, and the timer.\<close>

definition component_doTimeout ::
    "8 word list \<Rightarrow> 32 word \<Rightarrow> 32 word \<Rightarrow> 64 word \<Rightarrow> 'f \<Rightarrow> ('d, 'f) component \<Rightarrow> timeSingle clock \<times> message list \<Rightarrow>
     (('d, 'f) component \<times> timeSingle clock \<times> message list) res" where
  "component_doTimeout junk handle time i f c cw =
     seqE (doTimeout c i f) (\<lambda>(session, c').
       case session of
         None \<Rightarrow> Inr (c', cw)
       | Some s \<Rightarrow> Inr (c', snd (actor_doTimeOut junk handle time (word_of_int s) cw)))"

lemma timeout_message_parts:
  "getMessageId (timeout_message junk tm) = M_ID_TIMEOUT" "msg_session (timeout_message junk tm) = ts_session tm"
  "text_ok (timeout_message junk tm)"
  using message_roundtrip[of junk 2 0 "ts_handle tm" "ts_session tm" None 0]
  by (simp_all add: timeout_message_def M_ID_TIMEOUT_def text_ok_def)

text \<open>The message runs the function of its session once; the same message again finds nothing.\<close>

lemma timeout_dispatch:
  assumes "getSusped c (sint (ts_session tm)) = Some co" and "co_func co = Some f"
  shows "dispatchMessage tst run c (timeout_message junk tm) =
      Inr (Returns, removeSusped (run f c) (sint (ts_session tm)), [RunFunc f])"
    "\<exists>a. dispatchMessage tst run (removeSusped d (sint (ts_session tm))) (timeout_message junk tm) =
      Inr (Returns, removeSusped d (sint (ts_session tm)), [UnknownResponse a (msg_src (timeout_message junk tm))])"
  using assms timeout_message_parts[of junk tm]
  by (auto simp: dispatchMessage_def dispatch_timeout_def unknownResponse_def getSusped_def removeSusped_def
      M_ID_TIMEOUT_def M_ID_RESOUE_def Let_def)

text \<open>A timer on a clock that has none is the clock with one timer.\<close>

lemma timeOut_one:
  assumes "t \<noteq> 0"
  shows "timeOut cb t d (new_clock 0 0 0, w) = ((Some 0, 2), one_timer t d, w)"
  using assms by (simp add: timeOut_def one_timer_def new_clock_def Let_def)




section \<open>Messages nobody reads\<close>

text \<open>
  What \<open>local_dropevent\<close> of a mailbox is to do with a message: the data is freed, and an error message is
  sent.  \<open>freed\<close> collects the blocks, \<open>push\<close> is the parameter of \<open>doSendMessage\<close>.
\<close>

definition local_dropevent ::
    "actor_table \<Rightarrow> (nat \<Rightarrow> message \<Rightarrow> 's \<Rightarrow> 's) \<Rightarrow> 8 word list \<Rightarrow> message \<Rightarrow> 8 word list option list \<times> 's \<Rightarrow>
     (8 word list option list \<times> 's) res" where
  "local_dropevent t push junk val fs =
     (let (freed, s) = fs; freed = freed @ [msg_data val]; source = msg_dst val in
      seqE (checkE (source \<noteq> 0) AssertFail) (\<lambda>_.
        seqE (doSendMessageTo t push junk source source 1 0 None 0 s) (\<lambda>(_, s). Inr (freed, s))))"

text \<open>
  The destructor of the queue pops what is left and calls the virtual \<open>local_dropevent\<close>.  While it runs
  the derived part of the object is gone, so that the function called is the one of the queue itself,
  which does nothing.
\<close>

definition queue_dropevent :: "message \<Rightarrow> 'r \<Rightarrow> 'r" where
  "queue_dropevent val fs = fs"

fun mailbox_destroy :: "message list \<Rightarrow> 'r \<Rightarrow> 'r" where
  "mailbox_destroy [] fs = fs"
| "mailbox_destroy (m # ms) fs = mailbox_destroy ms (queue_dropevent m fs)"

text \<open>The same loop with the function of the mailbox.\<close>

fun drop_all ::
    "actor_table \<Rightarrow> (nat \<Rightarrow> message \<Rightarrow> 's \<Rightarrow> 's) \<Rightarrow> 8 word list \<Rightarrow> message list \<Rightarrow> 8 word list option list \<times> 's \<Rightarrow>
     (8 word list option list \<times> 's) res" where
  "drop_all t push junk [] fs = Inr fs"
| "drop_all t push junk (m # ms) fs =
     seqE (local_dropevent t push junk m fs) (drop_all t push junk ms)"

lemma mailbox_destroy_nothing: "mailbox_destroy ms fs = fs"
  by (induction ms) (simp_all add: queue_dropevent_def)

lemma dropevent_unknown:
  assumes "msg_dst m \<noteq> 0" and "getGrab t (unat (msg_dst m)) = None"
  shows "local_dropevent t push junk m (freed, s) = Inr (freed @ [msg_data m], s)"
  using assms by (simp add: local_dropevent_def doSendMessageTo_def doSendMessage_def send_data_def getMessage_def Let_def)

text \<open>The messages left in the mailbox of an actor that is deleted leak: none of their blocks is freed and nobody is
  told.  Were the function of the mailbox called, each block would be freed once and in order, but the
  error message would go to the receiver of the lost message, the deleted actor itself: with the actor
  out of the table no sender hears of it, whatever session it waits in, and with the actor still in
  the table it would be sent one error message without a session for each.\<close>

theorem lost_messages_not_answered:
  assumes "\<And>m. m \<in> set ms \<Longrightarrow> msg_dst m \<noteq> 0 \<and> unat (msg_dst m) = h"
  shows "mailbox_destroy ms (freed, s) = (freed, s) \<and> drop_all t push junk ms (freed, s) =
    Inr (freed @ map msg_data ms,
      (case getGrab t h of
         None \<Rightarrow> s
       | Some obj \<Rightarrow> foldl (\<lambda>s m. push obj (getMessage junk 1 (msg_dst m) (msg_dst m) 0 None 0) s) s ms))"
  unfolding mailbox_destroy_nothing
proof (rule conjI[OF refl], use assms in \<open>induction ms arbitrary: freed s\<close>)
  case Nil
  then show ?case by (simp split: option.split)
next
  case (Cons m ms)
  then have m: "msg_dst m \<noteq> 0" "unat (msg_dst m) = h" by simp_all
  show ?case
  proof (cases "getGrab t h")
    case None
    then show ?thesis using Cons m dropevent_unknown[of m t push junk freed s] by simp
  next
    case (Some obj)
    have "local_dropevent t push junk m (freed, s) =
        Inr (freed @ [msg_data m], push obj (getMessage junk 1 (msg_dst m) (msg_dst m) 0 None 0) s)"
      using m Some message_roundtrip[of junk 1 "msg_dst m" "msg_dst m" 0 None 0]
      by (simp add: local_dropevent_def doSendMessageTo_def doSendMessage_def send_data_def Let_def)
    then show ?thesis using Cons Some by simp
  qed
qed

theorem lost_messages_not_answered_witness:
  "mailbox_destroy [resume_message, resume_message] ([] :: 8 word list option list, []) = ([], [] :: message list) \<and>
   drop_all new_table (\<lambda>_ m s. s @ [m]) [] [resume_message, resume_message] ([], []) = Inr ([None, None], [])"
proof -
  have g: "getGrab new_table 2 = None" by (simp add: getGrab_def new_table_def slot_def)
  have m: "\<And>m. m \<in> set [resume_message, resume_message] \<Longrightarrow> msg_dst m \<noteq> 0 \<and> unat (msg_dst m) = 2"
    by (simp add: resume_message_def)
  have "msg_data resume_message = None" by (simp add: resume_message_def)
  then show ?thesis
    using lost_messages_not_answered[where ms="[resume_message, resume_message]" and h=2 and t=new_table and push="\<lambda>_ m s. s @ [m]"
        and junk="[]" and freed="[]" and s="[]", OF m]
    by (simp only: g option.case list.map append_Nil simp_thms)
qed

end
