(* ===== verification/ActorLife.thy ===== *)
theory ActorLife
  imports ActorMail ComponentGroup PostThread
begin

text \<open>
  Start and end of the actor system: \<open>actorSystem::doStart\<close> and \<open>doShutdown\<close>
  (\<open>engine/src/module/actorSystem.cc\<close>) with the outer loop of the collector's thread
  (\<open>actorGcc.cc\<close>), which the shutdown joins.
\<close>

section \<open>The loop of the collector\<close>

text \<open>
  \<open>doLoop\<close> with the flag as it is from some time on; a round sleeps and passes over the queue.  With
  the flag set, \<open>doShutdown\<close> has stopped the thread that hands out messages, so that the numbers of
  suspended sessions \<open>susp\<close> stay as they are.
\<close>

partial_function (option) gcc_doLoop ::
    "32 word \<Rightarrow> 32 word \<Rightarrow> (nat \<Rightarrow> nat option) \<Rightarrow> bool \<Rightarrow> 'm gcc_state \<Rightarrow> 'm gcc_state option" where
  "gcc_doLoop sleep timeout susp shutdown g =
     (if shutdown \<and> m_qGcc g = [] then Some g
      else gcc_doLoop sleep timeout susp shutdown (gcc_pass sleep timeout susp 0 g))"

text \<open>\<open>doStart\<close>: the search path and the two threads; without a path, or without the first thread, the process ends.\<close>

definition system_doStart :: "string option \<Rightarrow> int \<Rightarrow> componentGroup \<Rightarrow> componentGroup res" where
  "system_doStart path workStart g =
     (case path of
        None \<Rightarrow> Inl ExitProcess
      | Some p \<Rightarrow>
          let g = group_doInit p g in
          seqE (checkE (workStart = 0) ExitProcess) (\<lambda>_. Inr g))"

definition actorGcc_doShutdown :: "32 word \<Rightarrow> 32 word \<Rightarrow> (nat \<Rightarrow> nat option) \<Rightarrow> 'm gcc_state \<Rightarrow> 'm gcc_state option" where
  "actorGcc_doShutdown sleep timeout susp g = gcc_doLoop sleep timeout susp True g"

definition system_doShutdown ::
    "32 word \<Rightarrow> 32 word \<Rightarrow> (nat \<Rightarrow> nat option) \<Rightarrow> post \<times> post_pc \<Rightarrow> 'm gcc_state \<Rightarrow> ((post \<times> post_pc) \<times> 'm gcc_state) option" where
  "system_doShutdown sleep timeout susp mp g =
     (case actorGcc_doShutdown sleep timeout susp g of
        None \<Rightarrow> None
      | Some g' \<Rightarrow> Some (post_doShutdown (fst mp) (snd mp), g'))"


section \<open>How long it runs\<close>

text \<open>What an entry of the queue may still cost: one visit, or the visits until its time is over.\<close>

definition entry_cost :: "32 word \<Rightarrow> 'm gcc_state \<Rightarrow> nat \<Rightarrow> nat" where
  "entry_cost timeout g h =
     (case g_actors g h of
        None \<Rightarrow> 1
      | Some a \<Rightarrow> if m_indeath a then 1 + (unat timeout + 1 - unat (m_death_us a)) else 1)"

definition queue_cost :: "32 word \<Rightarrow> 'm gcc_state \<Rightarrow> nat" where
  "queue_cost timeout g = sum_list (map (entry_cost timeout g) (m_qGcc g))"

definition deaths_ok :: "32 word \<Rightarrow> 'm gcc_state \<Rightarrow> bool" where
  "deaths_ok timeout g \<longleftrightarrow> distinct (m_qGcc g) \<and>
     (\<forall>h \<in> set (m_qGcc g). \<forall>a. g_actors g h = Some a \<longrightarrow> m_death_us a \<le> timeout)"

definition nobody_suspended :: "(nat \<Rightarrow> nat option) \<Rightarrow> 'm gcc_state \<Rightarrow> bool" where
  "nobody_suspended susp g \<longleftrightarrow> (\<forall>h \<in> set (m_qGcc g). dying g h \<longrightarrow> isSuspedEmpty (susp h))"

lemma visit_cost:
  assumes q: "m_qGcc g \<noteq> []" and ok: "deaths_ok timeout g" and no: "nobody_suspended susp g"
    and sl: "sleep \<noteq> 0" "unat timeout + unat sleep < 2 ^ 32"
  shows "queue_cost timeout (gcc_visit sleep timeout susp g) < queue_cost timeout g"
    "deaths_ok timeout (gcc_visit sleep timeout susp g)" "nobody_suspended susp (gcc_visit sleep timeout susp g)"
proof -
  obtain h hs where hs: "m_qGcc g = h # hs" using q by (cases "m_qGcc g") auto
  have dist: "h \<notin> set hs" "distinct hs" using ok hs by (simp_all add: deaths_ok_def)
  show "nobody_suspended susp (gcc_visit sleep timeout susp g)"
    using no gcc_visit_queue[of sleep timeout susp g] by (auto simp: nobody_suspended_def gcc_visit_dying)
  show "queue_cost timeout (gcc_visit sleep timeout susp g) < queue_cost timeout g" "deaths_ok timeout (gcc_visit sleep timeout susp g)"
  proof -
    have "queue_cost timeout (gcc_visit sleep timeout susp g) < queue_cost timeout g \<and> deaths_ok timeout (gcc_visit sleep timeout susp g)"
    proof (cases "\<exists>a. g_actors g h = Some a \<and> m_indeath a")
      case False
      then have v: "gcc_visit sleep timeout susp g = g\<lparr>m_qGcc := hs\<rparr>" using hs by (auto simp: gcc_visit_def Let_def split: option.split)
      have "entry_cost timeout (g\<lparr>m_qGcc := hs\<rparr>) = entry_cost timeout g" by (simp add: entry_cost_def fun_eq_iff)
      moreover have "0 < entry_cost timeout g h" by (simp add: entry_cost_def split: option.split)
      ultimately show ?thesis using v hs ok by (simp add: queue_cost_def deaths_ok_def)
    next
      case True
      then obtain a where a: "g_actors g h = Some a" "m_indeath a" by blast
      let ?us = "m_death_us a + sleep"
      let ?g = "g\<lparr>m_qGcc := hs, g_actors := (g_actors g)(h \<mapsto> a\<lparr>m_death_us := ?us\<rparr>)\<rparr>"
      have susp: "isSuspedEmpty (susp h)" using no a hs by (auto simp: nobody_suspended_def dying_def)
      have le: "m_death_us a \<le> timeout" using ok a hs by (simp add: deaths_ok_def)
      then have "unat (m_death_us a) + unat sleep < 2 ^ 32" using sl(2) by (simp add: word_le_nat_alt)
      then have us: "unat ?us = unat (m_death_us a) + unat sleep" by (simp add: unat_word_ariths)
      have pos: "0 < unat sleep" using sl(1) by (simp add: unat_gt_0)
      have rest: "entry_cost timeout (?g\<lparr>m_qGcc := q, g_quit := qu\<rparr>) x = entry_cost timeout g x" if "x \<in> set hs" for x q qu
        using that dist(1) by (auto simp: entry_cost_def)
      then have rest_sum: "map (entry_cost timeout (?g\<lparr>m_qGcc := q, g_quit := qu\<rparr>)) hs = map (entry_cost timeout g) hs" for q qu
        by (auto intro: map_cong)
      show ?thesis
      proof (cases "?us > timeout")
        case True
        then have v: "gcc_visit sleep timeout susp g = ?g\<lparr>m_qGcc := hs, g_quit := g_quit g @ [h]\<rparr>"
          using hs a susp by (simp add: gcc_visit_def Let_def)
        have "queue_cost timeout (gcc_visit sleep timeout susp g) = sum_list (map (entry_cost timeout g) hs)"
          unfolding v queue_cost_def using rest_sum[where q=hs and qu="g_quit g @ [h]"] by (simp del: map_eq_conv)
        moreover have "0 < entry_cost timeout g h" using a by (simp add: entry_cost_def)
        ultimately show ?thesis using hs ok dist v by (auto simp: queue_cost_def deaths_ok_def)
      next
        case False
        then have v: "gcc_visit sleep timeout susp g = ?g\<lparr>m_qGcc := hs @ [h], g_quit := g_quit g\<rparr>"
          using hs a susp by (simp add: gcc_visit_def Let_def)
        have "unat ?us \<le> unat timeout" using False by (simp add: word_le_nat_alt not_less)
        then have "entry_cost timeout (?g\<lparr>m_qGcc := hs @ [h], g_quit := g_quit g\<rparr>) h < entry_cost timeout g h"
          using us pos a by (simp add: entry_cost_def)
        then have "queue_cost timeout (gcc_visit sleep timeout susp g) < queue_cost timeout g"
          unfolding v queue_cost_def using rest_sum[where q="hs @ [h]" and qu="g_quit g"] hs by (simp del: map_eq_conv)
        moreover have "deaths_ok timeout (gcc_visit sleep timeout susp g)"
          using v hs ok dist False by (auto simp: deaths_ok_def not_less)
        ultimately show ?thesis by blast
      qed
    qed
    then show "queue_cost timeout (gcc_visit sleep timeout susp g) < queue_cost timeout g" "deaths_ok timeout (gcc_visit sleep timeout susp g)"
      by blast+
  qed
qed

lemma pass_cost:
  assumes "sleep \<noteq> 0" and "unat timeout + unat sleep < 2 ^ 32" and "deaths_ok timeout g" and "nobody_suspended susp g"
  shows "queue_cost timeout (gcc_pass sleep timeout susp i g) + (if i < length (m_qGcc g) then 1 else 0) \<le> queue_cost timeout g \<and>
    deaths_ok timeout (gcc_pass sleep timeout susp i g) \<and> nobody_suspended susp (gcc_pass sleep timeout susp i g)"
  using assms
proof (induction sleep timeout susp i g rule: gcc_pass.induct)
  case (1 sl ti su i g)
  show ?case
  proof (cases "i < length (m_qGcc g)")
    case True
    then have "m_qGcc g \<noteq> []" by auto
    note v = visit_cost[OF this 1(4,5,2,3)]
    have "gcc_pass sl ti su i g = gcc_pass sl ti su (i + 1) (gcc_visit sl ti su g)"
      using True by (subst gcc_pass.simps) simp
    then show ?thesis using 1(1)[OF True 1(2,3) v(2,3)] v(1) True by simp
  next
    case False
    then have "gcc_pass sl ti su i g = g" by (subst gcc_pass.simps) simp
    then show ?thesis using 1(4,5) False by simp
  qed
qed

lemma gcc_pass_dying: "dying (gcc_pass sleep timeout susp i x) h = dying x h"
proof (induction sleep timeout susp i x rule: gcc_pass.induct)
  case (1 sl ti su i x)
  then show ?case by (subst gcc_pass.simps) (simp add: gcc_visit_dying)
qed

lemma gcc_doLoop_ends:
  assumes "sleep \<noteq> 0" and "unat timeout + unat sleep < 2 ^ 32" and "deaths_ok timeout g" and "nobody_suspended susp g"
  shows "\<exists>g'. gcc_doLoop sleep timeout susp True g = Some g' \<and> m_qGcc g' = [] \<and>
    (\<forall>h. h \<in> set (m_qGcc g) \<union> set (g_quit g) \<longrightarrow> dying g h \<longrightarrow> h \<in> set (g_quit g'))"
  using assms(3,4)
proof (induction "queue_cost timeout g" arbitrary: g rule: less_induct)
  case less
  show ?case
  proof (cases "m_qGcc g = []")
    case True
    then show ?thesis by (subst gcc_doLoop.simps) simp
  next
    case False
    let ?g = "gcc_pass sleep timeout susp 0 g"
    have c: "queue_cost timeout ?g < queue_cost timeout g" "deaths_ok timeout ?g" "nobody_suspended susp ?g"
      using pass_cost[OF assms(1,2) less(2,3), of 0] False by auto
    obtain g' where g': "gcc_doLoop sleep timeout susp True ?g = Some g'" "m_qGcc g' = []"
      "\<forall>h. h \<in> set (m_qGcc ?g) \<union> set (g_quit ?g) \<longrightarrow> dying ?g h \<longrightarrow> h \<in> set (g_quit g')"
      using less(1)[OF c] by blast
    have "gcc_doLoop sleep timeout susp True g = Some g'" using g'(1) False by (subst gcc_doLoop.simps) simp
    then show ?thesis using g'(2,3) gcc_pass_dying[of sleep timeout susp 0 g] gcc_pass_effect[of _ sleep timeout susp 0 g] by blast
  qed
qed

lemma gcc_doLoop_stuck:
  assumes "dying g h" and "h \<in> set (m_qGcc g)" and "h \<notin> set (g_quit g)" and "\<not> isSuspedEmpty (susp h)"
  shows "gcc_doLoop sleep timeout susp sd g = None"
proof (cases "gcc_doLoop sleep timeout susp sd g")
  case (Some g')
  have "dying g h \<longrightarrow> h \<in> set (m_qGcc g) \<longrightarrow> h \<notin> set (g_quit g) \<longrightarrow> isSuspedEmpty (susp h)"
  proof (rule gcc_doLoop.raw_induct[OF _ Some, of "\<lambda>sleep timeout susp sd g g'. dying g h \<longrightarrow> h \<in> set (m_qGcc g) \<longrightarrow>
      h \<notin> set (g_quit g) \<longrightarrow> isSuspedEmpty (susp h)"], intro impI)
    fix f sl ti su sd and g g' :: "'a gcc_state"
    assume IH: "\<And>sl ti su sd g g'. f sl ti su sd g = Some g' \<Longrightarrow>
        dying g h \<longrightarrow> h \<in> set (m_qGcc g) \<longrightarrow> h \<notin> set (g_quit g) \<longrightarrow> isSuspedEmpty (su h)"
      and run: "(if sd \<and> m_qGcc g = [] then Some g else f sl ti su sd (gcc_pass sl ti su 0 g)) = Some g'"
      and h: "dying g h" "h \<in> set (m_qGcc g)" "h \<notin> set (g_quit g)"
    show "isSuspedEmpty (su h)"
    proof (rule ccontr)
      assume no: "\<not> isSuspedEmpty (su h)"
      let ?g = "gcc_pass sl ti su 0 g"
      have "h \<notin> set (g_quit ?g)" using gcc_pass_effect[of h sl ti su 0 g] h(3) no by blast
      moreover have "h \<in> set (m_qGcc ?g)" using gcc_pass_effect[of h sl ti su 0 g] h calculation by blast
      moreover have "dying ?g h" using h(1) by (simp add: gcc_pass_dying)
      moreover have "f sl ti su sd ?g = Some g'" using run h(2) by (auto split: if_splits)
      ultimately show False using IH[of sl ti su sd ?g g'] no by blast
    qed
  qed
  then show ?thesis using assms by blast
qed simp

lemma shutdown_waits:
  assumes "sleep \<noteq> 0" and "unat timeout + unat sleep < 2 ^ 32" and "deaths_ok timeout g" and "g_quit g = []"
  shows "if nobody_suspended susp g
    then \<exists>g'. system_doShutdown sleep timeout susp (m, p) g = Some (post_doShutdown m p, g') \<and> m_qGcc g' = [] \<and>
      {h \<in> set (m_qGcc g). dying g h} \<subseteq> set (g_quit g')
    else system_doShutdown sleep timeout susp (m, p) g = None"
proof (cases "nobody_suspended susp g")
  case True
  obtain g' where "gcc_doLoop sleep timeout susp True g = Some g'" "m_qGcc g' = []"
    "\<forall>h. h \<in> set (m_qGcc g) \<union> set (g_quit g) \<longrightarrow> dying g h \<longrightarrow> h \<in> set (g_quit g')"
    using gcc_doLoop_ends[OF assms(1-3) True] by blast
  then have "system_doShutdown sleep timeout susp (m, p) g = Some (post_doShutdown m p, g')"
    "{h \<in> set (m_qGcc g). dying g h} \<subseteq> set (g_quit g')" "m_qGcc g' = []"
    by (auto simp: system_doShutdown_def actorGcc_doShutdown_def)
  then show ?thesis using True by (simp only: if_True) blast
next
  case False
  then obtain h where "h \<in> set (m_qGcc g)" "dying g h" "\<not> isSuspedEmpty (susp h)"
    unfolding nobody_suspended_def by blast
  then have "gcc_doLoop sleep timeout susp True g = None"
    by (intro gcc_doLoop_stuck[of g h]) (use assms(4) in simp_all)
  then show ?thesis using False by (simp add: system_doShutdown_def actorGcc_doShutdown_def)
qed


text \<open>Actor 3 was told to exit and has a coroutine that waits; actor 4 has none.\<close>

definition dying_actors :: "nat list \<Rightarrow> unit gcc_state" where
  "dying_actors q = \<lparr>m_qGcc = q, g_actors = (\<lambda>_. Some (new_actor\<lparr>m_indeath := True\<rparr>)), g_quit = []\<rparr>"


end
