(* ===== verification/SocketLife.thy ===== *)
theory SocketLife
  imports SocketSystem
begin

text \<open>
  Start and end of the socket system: construction and destruction of the command channel
  (\<open>engine/src/network/socketChannel.cc\<close>), \<open>socketSystem::doStart\<close> and \<open>doShutdown\<close>, and the loop of
  the poll thread, \<open>doPoll\<close> (\<open>socketSystem.cc\<close>), which the shutdown joins.
\<close>

section \<open>The ends of the pipe\<close>

definition CHANNEL_INVALID :: int where "CHANNEL_INVALID = -1"
definition FD_SETSIZE :: int where "FD_SETSIZE = 1024"

record ctrls =
  m_recvCtrl :: int
  m_sendCtrl :: int

text \<open>The constructor; \<open>fds\<close> is what \<open>pipe\<close> gives, \<open>ok\<close> the answer of the poller.\<close>

definition socketChannel_new :: "(int \<times> int) option \<Rightarrow> bool \<Rightarrow> epoll \<Rightarrow> (ctrls \<times> channel \<times> epoll) res" where
  "socketChannel_new fds ok e =
     (case fds of
        None \<Rightarrow> Inl AssertFail
      | Some (r, w) \<Rightarrow>
          (let (reg, e) = ep_doRegister ok r None e in
           seqE (checkE reg AssertFail) (\<lambda>_.
           seqE (checkE (r < FD_SETSIZE) AssertFail) (\<lambda>_.
             Inr (\<lparr>m_recvCtrl = r, m_sendCtrl = w\<rparr>, new_channel, e)))))"

definition isInvalid :: "ctrls \<Rightarrow> channel \<Rightarrow> bool" where
  "isInvalid c ch \<longleftrightarrow> m_recvCtrl c \<noteq> CHANNEL_INVALID \<and> m_sendCtrl c \<noteq> CHANNEL_INVALID \<and> m_controlCtrl ch \<noteq> CHANNEL_INVALID"

text \<open>\<open>doCloseCtrl\<close>: the descriptor that is closed, if any, and the member afterwards.\<close>

definition doCloseCtrl :: "int \<Rightarrow> epoll \<Rightarrow> int list \<times> int \<times> epoll" where
  "doCloseCtrl ctrl e =
     (if ctrl \<noteq> CHANNEL_INVALID then ([ctrl], CHANNEL_INVALID, ep_doUnRegister ctrl e) else ([], ctrl, e))"

definition socketChannel_destroy :: "ctrls \<Rightarrow> channel \<Rightarrow> epoll \<Rightarrow> int list \<times> ctrls \<times> channel \<times> epoll" where
  "socketChannel_destroy c ch e =
     (let (x, r, e) = doCloseCtrl (m_recvCtrl c) e; (y, w, e) = doCloseCtrl (m_sendCtrl c) e
      in (x @ y, \<lparr>m_recvCtrl = r, m_sendCtrl = w\<rparr>, ch\<lparr>m_controlCtrl := CHANNEL_INVALID\<rparr>, e))"

section \<open>The poll thread\<close>

text \<open>
  What happens around one round of the loop: the bytes other threads have written into the pipe before
  it, whether \<open>select\<close> was interrupted, what the reads answer and find on the stack, what the poller
  answers, and the rest of the operating system.
\<close>

record poll_env =
  e_sent :: "8 word list"
  e_select_intr :: bool
  e_reads :: "read_answer list"
  e_junk :: "8 word list"
  e_wait_intr :: bool
  e_waited :: "(nat option \<times> 32 word) list"
  e_kernel :: kernel
  e_mem :: "64 word \<Rightarrow> 8 word list"

definition pipe_gets :: "8 word list \<Rightarrow> sys \<Rightarrow> sys" where
  "pipe_gets bs s = s\<lparr>m_channel := (m_channel s)\<lparr>pipe_bytes := pipe_bytes (m_channel s) @ bs\<rparr>\<rparr>"

text \<open>A round: the channel is asked, then the poller, then an event is handled.\<close>

definition poll_iter :: "poll_env \<Rightarrow> int \<Rightarrow> int \<Rightarrow> sys \<Rightarrow> (poll_next \<times> sys) res" where
  "poll_iter v idx n s =
     (let s = pipe_gets (e_sent v) s in
      seqE (doWait (registered (e_kernel v) (e_mem v)) (e_select_intr v) (e_reads v) (e_junk v) idx n (m_channel s) s)
        (\<lambda>(as, ch, s). poll_round (e_kernel v) (e_wait_intr v) (e_waited v) (m_error ch) idx n (s\<lparr>m_channel := ch\<rparr>)))"

text \<open>The loop, for as many rounds as the environment lasts; \<open>PollReturn\<close> ends it and the thread.\<close>

fun doPoll :: "poll_env list \<Rightarrow> int \<Rightarrow> int \<Rightarrow> sys \<Rightarrow> (poll_next \<times> sys) res" where
  "doPoll [] idx n s = Inr (PollGo idx n, s)"
| "doPoll (v # vs) idx n s =
     seqE (poll_iter v idx n s) (\<lambda>(r, s).
       case r of PollReturn \<Rightarrow> Inr (PollReturn, s) | PollGo idx n \<Rightarrow> doPoll vs idx n s)"

text \<open>
  \<open>doStart\<close> makes the poller and the channel and starts the thread with \<open>idx\<close> 0 and an \<open>n\<close> nothing was
  stored in.  \<open>doShutdown\<close> writes the exit command, with the eight bytes of its member, and joins the
  thread: it returns when the loop does.
\<close>

definition socketSystem_doStart :: "(int \<times> int) option \<Rightarrow> bool \<Rightarrow> 32 word \<Rightarrow> 32 word \<Rightarrow> 32 word \<Rightarrow> iocpEvent list \<Rightarrow> (ctrls \<times> sys) res" where
  "socketSystem_doStart fds ok sq warn buf evts =
     seqE (socketChannel_new fds ok Map.empty) (\<lambda>(c, ch, e).
       Inr (c, (new_sys sq warn buf evts)\<lparr>m_channel := ch, m_epoll := e\<rparr>))"

definition exit_request :: "kernel \<Rightarrow> sys \<Rightarrow> sys res" where
  "exit_request k s =
     seqE (chan_doSend (k_write k) 0x58 8 (k_pad k) (put 0 (le64 0) (k_union k)) (m_channel s)) (\<lambda>ch. Inr (s\<lparr>m_channel := ch\<rparr>))"

definition socketSystem_doShutdown :: "kernel \<Rightarrow> poll_env list \<Rightarrow> int \<Rightarrow> int \<Rightarrow> sys \<Rightarrow> (bool \<times> sys) res" where
  "socketSystem_doShutdown k vs idx n s =
     seqE (exit_request k s) (\<lambda>s. seqE (doPoll vs idx n s) (\<lambda>(r, s). Inr (r = PollReturn, s)))"


section \<open>What the rounds do to the channel\<close>

lemma finish_close_channel: "finish_close k i h opq r s = Inr (x, s') \<Longrightarrow> m_channel s' = m_channel s"
  using forceClose_Inr[of k i s] by (auto simp: finish_close_def res_simps)

lemma event_channel:
  "doConnectProc k i s = Inr (r, s') \<Longrightarrow> m_channel s' = m_channel s"
  "doAcceptProc k i s = Inr (r, s') \<Longrightarrow> m_channel s' = m_channel s"
  "doRecvProc k i s = Inr (r, s') \<Longrightarrow> m_channel s' = m_channel s"
  "doSendProc k i s = Inr (r, s') \<Longrightarrow> m_channel s' = m_channel s"
proof -
  note fc = forceClose_Inr[of k i s]
  show "doConnectProc k i s = Inr (r, s') \<Longrightarrow> m_channel s' = m_channel s"
    using fc by (auto simp: doConnectProc_def Let_def res_simps split: if_splits prod.splits)
  have "getReserve s = (h, t) \<Longrightarrow> m_channel t = m_channel s" for h t
    using reserve_loop_result[of _ s h t] by (simp add: getReserve_def)
  then show "doAcceptProc k i s = Inr (r, s') \<Longrightarrow> m_channel s' = m_channel s"
    by (auto simp: doAcceptProc_def Let_def res_simps split: if_splits prod.splits)
  show "doRecvProc k i s = Inr (r, s') \<Longrightarrow> m_channel s' = m_channel s"
    using fc finish_close_channel
    by (fastforce simp: doRecvProc_def Let_def res_simps split: if_splits recv_answer.splits)
  show "doSendProc k i s = Inr (r, s') \<Longrightarrow> m_channel s' = m_channel s"
    by (auto simp: doSendProc_def Let_def split: if_splits option.splits dest!: finish_close_channel)
qed

lemma poll_event_channel: "poll_event k e i s = Inr (b, s') \<Longrightarrow> m_channel s' = m_channel s"
  using forceClose_Inr[of k i s]
  by (auto simp: poll_event_def Let_def res_simps split: if_splits socketState.splits dest!: event_channel)

text \<open>A round whose channel reported nothing leaves it as it is, and ends the loop only if the poller fails.\<close>

lemma poll_round_quiet:
  assumes "poll_round k ei w (Some CH_NOEINTR) idx n s = Inr (r, s')" and "ei \<or> w \<noteq> []"
  shows "m_channel s' = m_channel s \<and> r \<noteq> PollReturn"
  using assms
  by (auto simp: poll_round_def ep_onWait_def Let_def res_simps split: if_splits prod.splits option.splits
      dest!: poll_event_channel)

definition poller_works :: "poll_env \<Rightarrow> bool" where
  "poller_works v \<longleftrightarrow> e_wait_intr v \<or> e_waited v \<noteq> []"

lemma deaf_iter:
  assumes "m_controlCtrl (m_channel s) = 0 \<or> pipe_bytes (m_channel s) @ e_sent v = []" and "poller_works v"
    and "poll_iter v idx n s = Inr (r, s')"
  shows "m_controlCtrl (m_channel s') = 0 \<and> pipe_bytes (m_channel s') = pipe_bytes (m_channel s) @ e_sent v \<and> r \<noteq> PollReturn"
proof -
  let ?s = "pipe_gets (e_sent v) s"
  define ch where "ch = (m_channel ?s)\<lparr>m_controlCtrl := 0, m_error := Some CH_NOEINTR\<rparr>"
  have "(m_channel ?s)\<lparr>m_error := Some CH_NOEINTR\<rparr> = ch" if "m_controlCtrl (m_channel ?s) = 0"
    using that by (simp add: ch_def)
  then have "doWait (registered (e_kernel v) (e_mem v)) (e_select_intr v) (e_reads v) (e_junk v) idx n (m_channel ?s) ?s = Inr (e_reads v, ch, ?s)"
    using assms(1) by (auto simp: doWait_def isRecv_def pipe_gets_def ch_def)
  then have "poll_round (e_kernel v) (e_wait_intr v) (e_waited v) (Some CH_NOEINTR) idx n (?s\<lparr>m_channel := ch\<rparr>) = Inr (r, s')"
    using assms(3) by (simp add: poll_iter_def ch_def Let_def)
  from poll_round_quiet[OF this] assms(2) show ?thesis by (simp add: poller_works_def ch_def pipe_gets_def)
qed

lemma deaf_poll:
  assumes "m_controlCtrl (m_channel s) = 0" and "list_all poller_works vs" and "doPoll vs idx n s = Inr (r, s')"
  shows "m_controlCtrl (m_channel s') = 0 \<and> r \<noteq> PollReturn \<and> pipe_bytes (m_channel s') = pipe_bytes (m_channel s) @ concat (map e_sent vs)"
  using assms
proof (induction vs arbitrary: idx n s)
  case (Cons v vs)
  obtain r1 s1 where it: "poll_iter v idx n s = Inr (r1, s1)"
    "(case r1 of PollReturn \<Rightarrow> Inr (PollReturn, s1) | PollGo idx n \<Rightarrow> doPoll vs idx n s1) = Inr (r, s')"
    using Cons(4) by (auto simp: res_simps)
  have "poller_works v" using Cons(3) by simp
  from deaf_iter[OF disjI1[OF Cons(2)] this it(1)] have d: "m_controlCtrl (m_channel s1) = 0"
    "pipe_bytes (m_channel s1) = pipe_bytes (m_channel s) @ e_sent v" "r1 \<noteq> PollReturn" by simp_all
  then obtain i m where "doPoll vs i m s1 = Inr (r, s')" using it(2) by (cases r1) auto
  from Cons(1)[OF d(1) _ this] Cons(3) d(2) show ?case by simp
qed auto

text \<open>The ten bytes of the exit command, read back as a frame of eight bytes with its letter.\<close>

lemma exit_frame:
  assumes "length pad = 6" and "length u = 256" and "m_controlCtrl ch \<noteq> 0"
    and "pipe_bytes ch = take 10 (packet 0x58 8 pad u)"
  shows "\<exists>as ch'. doWait hs False (ReadData # ReadData # rest) junk idx n ch s = Inr (as, ch', s) \<and> m_error ch' = Some CH_EXIT"
proof -
  obtain a b c d e f where pad: "pad = [a, b, c, d, e, f]"
    using assms(1) by (auto simp: length_Suc_conv numeral_eq_Suc)
  obtain x y zs where u: "u = x # y # zs" using assms(2) by (cases u; cases "tl u") auto
  have "pipe_bytes ch = [0x58, 8, a, b, c, d, e, f, x, y]" using assms(4) by (simp add: packet_def pad u)
  then show ?thesis
    using assms(3) by (simp add: doWait_def isRecv_def doProccess_def recv_frame_def)
qed

section \<open>Shutting down\<close>

lemma exit_unread:
  assumes "pipe_bytes (m_channel s0) = []" and "e_sent v = []" and "list_all poller_works (v # us @ vs)"
    and "doPoll (v # us) idx n s0 = Inr (PollGo i m, s)"
    and "socketSystem_doShutdown k vs i m s = Inr (ended, s')"
  shows "\<not> ended \<and> (\<exists>before after. pipe_bytes (m_channel s') = before @ take 10 (packet 0x58 8 (k_pad k) (put 0 (le64 0) (k_union k))) @ after)"
proof -
  obtain r1 s1 where it: "poll_iter v idx n s0 = Inr (r1, s1)"
    "(case r1 of PollReturn \<Rightarrow> Inr (PollReturn, s1) | PollGo idx n \<Rightarrow> doPoll us idx n s1) = Inr (PollGo i m, s)"
    using assms(4) by (auto simp: res_simps)
  have "m_controlCtrl (m_channel s1) = 0"
    using deaf_iter[OF _ _ it(1)] assms(1-3) by simp
  moreover obtain i1 m1 where "doPoll us i1 m1 s1 = Inr (PollGo i m, s)" using it(2) by (cases r1) auto
  ultimately have s: "m_controlCtrl (m_channel s) = 0" using deaf_poll[of s1 us] assms(3) by auto
  let ?x = "take 10 (packet 0x58 8 (k_pad k) (put 0 (le64 0) (k_union k)))"
  have wr: "doWrite as d ch = Inr ch2 \<Longrightarrow> ch2 = ch\<lparr>pipe_bytes := pipe_bytes ch @ d\<rparr>" for as d ch ch2
    by (induction as d ch rule: doWrite.induct) (auto simp: res_simps)
  obtain ch r where e: "chan_doSend (k_write k) 0x58 8 (k_pad k) (put 0 (le64 0) (k_union k)) (m_channel s) = Inr ch"
    "doPoll vs i m (s\<lparr>m_channel := ch\<rparr>) = Inr (r, s')" "ended = (r = PollReturn)"
    using assms(5) by (auto simp: socketSystem_doShutdown_def exit_request_def res_simps)
  have "ch = (m_channel s)\<lparr>pipe_bytes := pipe_bytes (m_channel s) @ ?x\<rparr>" using wr[OF e(1)[unfolded chan_doSend_def]] by simp
  then have "m_controlCtrl (m_channel s') = 0 \<and> r \<noteq> PollReturn \<and>
      pipe_bytes (m_channel s') = pipe_bytes (m_channel s) @ ?x @ concat (map e_sent vs)"
    using deaf_poll[OF _ _ e(2)] s assms(3) by simp
  then show ?thesis using e(3) by blast
qed

text \<open>Once the poll thread has looked for a request when there was none, which it does as soon as it starts
  unless a request is already waiting, \<open>doShutdown\<close> does not return as long as the poller itself works:
  whatever the rounds before and after it do, the exit command stays in the pipe, unread.\<close>

theorem shutdown_hangs:
  assumes "pipe_bytes (m_channel s0) = []" and "e_sent v = []" and "list_all poller_works (v # us @ vs)"
    and "doPoll (v # us) idx n s0 = Inr (PollGo i m, s)"
    and "socketSystem_doShutdown k vs i m s = Inr (ended, s')"
  shows "\<not> ended \<and> (\<exists>before after. pipe_bytes (m_channel s') = before @ take 10 (packet 0x58 8 (k_pad k) (put 0 (le64 0) (k_union k))) @ after)"
  by (rule exit_unread[OF assms])

lemma exit_read:
  assumes "m_controlCtrl (m_channel s) \<noteq> 0" and "pipe_bytes (m_channel s) = []" and "length (k_pad k) = 6"
    and "length (k_union k) = 256" and "k_write k = [Wrote 10]" and "e_sent v = []" and "\<not> e_select_intr v"
    and "e_reads v = [ReadData, ReadData]"
  shows "\<exists>s'. socketSystem_doShutdown k (v # vs) idx n s = Inr (True, s') \<and> m_sockGroup s' = m_sockGroup s \<and>
    m_epoll s' = m_epoll s \<and> sent_events s' = sent_events s"
proof -
  let ?p = "packet 0x58 8 (k_pad k) (put 0 (le64 0) (k_union k))"
  let ?ch = "(m_channel s)\<lparr>pipe_bytes := take 10 ?p\<rparr>"
  let ?s = "s\<lparr>m_channel := ?ch\<rparr>"
  have len: "length (take 10 ?p) = 10" using assms(3,4) by (simp add: packet_def)
  have x: "exit_request k s = Inr ?s"
    using assms(2,5) len by (simp add: exit_request_def chan_doSend_def)
  have pg: "pipe_gets (e_sent v) ?s = ?s" using assms(6) by (simp add: pipe_gets_def)
  have "length (put 0 (le64 0) (k_union k)) = 256" using assms(4) by simp
  from exit_frame[OF assms(3) this, of ?ch "registered (e_kernel v) (e_mem v)" "[]" "e_junk v" idx n ?s] obtain as ch' where
    "doWait (registered (e_kernel v) (e_mem v)) False [ReadData, ReadData] (e_junk v) idx n ?ch ?s = Inr (as, ch', ?s)" "m_error ch' = Some CH_EXIT"
    using assms(1) by auto
  then have "poll_iter v idx n ?s = Inr (PollReturn, ?s\<lparr>m_channel := ch'\<rparr>)"
    using pg assms(7,8) by (simp add: poll_iter_def Let_def poll_round_def)
  then have "socketSystem_doShutdown k (v # vs) idx n s = Inr (True, ?s\<lparr>m_channel := ch'\<rparr>)"
    using x by (simp add: socketSystem_doShutdown_def)
  then show ?thesis by simp
qed

text \<open>Before that, on a channel that still listens and whose pipe is empty, the first round after the exit command
  ends the loop, so that \<open>doShutdown\<close> returns; nothing else of the system changes.\<close>

theorem shutdown_in_time:
  assumes "m_controlCtrl (m_channel s) \<noteq> 0" and "pipe_bytes (m_channel s) = []" and "length (k_pad k) = 6"
    and "length (k_union k) = 256" and "k_write k = [Wrote 10]" and "e_sent v = []" and "\<not> e_select_intr v"
    and "e_reads v = [ReadData, ReadData]"
  shows "\<exists>s'. socketSystem_doShutdown k (v # vs) idx n s = Inr (True, s') \<and> m_sockGroup s' = m_sockGroup s \<and>
    m_epoll s' = m_epoll s \<and> sent_events s' = sent_events s"
  using exit_read[OF assms] .

text \<open>A system as \<open>doStart\<close> leaves it, and rounds in which the poller reports an event of no socket.\<close>

definition demo_env :: poll_env where
  "demo_env = \<lparr>e_sent = [], e_select_intr = False, e_reads = [ReadData, ReadData], e_junk = [], e_wait_intr = False,
     e_waited = [(None, EPOLLIN)], e_kernel = demo_kernel, e_mem = (\<lambda>_. [])\<rparr>"

definition fresh_sys :: sys where
  "fresh_sys = new_sys 0 0 0 (replicate 4 (event_of (None, 0)))"

lemma demo_start:
  "socketSystem_doStart (Some (5, 6)) True 0 0 0 (replicate 4 (event_of (None, 0))) =
    Inr (\<lparr>m_recvCtrl = 5, m_sendCtrl = 6\<rparr>, fresh_sys\<lparr>m_epoll := [5 \<mapsto> (None, False)]\<rparr>)"
  by (simp add: socketSystem_doStart_def socketChannel_new_def ep_doRegister_def FD_SETSIZE_def fresh_sys_def new_sys_def Let_def)

lemma demo_iter:
  "poll_iter demo_env i 7 (fresh_sys\<lparr>m_channel := ch\<rparr>) =
     Inr (PollGo (i + 1) 7, fresh_sys\<lparr>m_channel := ch\<lparr>m_controlCtrl := 0, m_error := Some CH_NOEINTR\<rparr>\<rparr>)"
  if "i = 0 \<or> i = 1" and "m_controlCtrl ch = 0 \<or> pipe_bytes ch = []"
proof -
  have w: "doWait hs intr as junk i 7 ch s = Inr (as, ch\<lparr>m_controlCtrl := 0, m_error := Some CH_NOEINTR\<rparr>, s)"
    for hs :: "sys handlers" and intr as junk s
    using that(2) by (cases "m_controlCtrl ch = 0") (auto simp: doWait_def isRecv_def)
  have e: "m_evts fresh_sys ! nat i = event_of (None, 0)" "length (m_evts fresh_sys) = 4"
    using that(1) by (auto simp: fresh_sys_def new_sys_def)
  show ?thesis
    using that(1) w e by (auto simp: poll_iter_def demo_env_def pipe_gets_def poll_round_def ep_onWait_def event_of_def Let_def)
qed

theorem shutdown_in_time_witness:
  "\<exists>s'. socketSystem_doShutdown (demo_kernel\<lparr>k_write := [Wrote 10]\<rparr>) [demo_env] 0 7 fresh_sys = Inr (True, s') \<and> sent_events s' = []"
  using shutdown_in_time[of fresh_sys "demo_kernel\<lparr>k_write := [Wrote 10]\<rparr>" demo_env "[]" 0 7]
  by (auto simp: fresh_sys_def new_sys_def new_channel_def demo_kernel_def demo_env_def)

theorem shutdown_hangs_witness:
  "\<exists>s s'. doPoll [demo_env] 0 7 fresh_sys = Inr (PollGo 1 7, s) \<and>
     socketSystem_doShutdown (demo_kernel\<lparr>k_write := [Wrote 10]\<rparr>) [demo_env] 1 7 s = Inr (False, s')"
proof -
  let ?k = "demo_kernel\<lparr>k_write := [Wrote 10]\<rparr>"
  let ?c = "new_channel\<lparr>m_controlCtrl := 0, m_error := Some CH_NOEINTR\<rparr>"
  have f: "fresh_sys = fresh_sys\<lparr>m_channel := new_channel\<rparr>" by (simp add: fresh_sys_def new_sys_def)
  have a: "doPoll [demo_env] 0 7 fresh_sys = Inr (PollGo 1 7, fresh_sys\<lparr>m_channel := ?c\<rparr>)"
    using demo_iter[of 0 new_channel] f by (simp add: new_channel_def)
  let ?s = "fresh_sys\<lparr>m_channel := ?c\<rparr>"
  obtain s2 where x: "exit_request ?k ?s = Inr s2" "s2 = fresh_sys\<lparr>m_channel := m_channel s2\<rparr>" "m_controlCtrl (m_channel s2) = 0"
    by (simp add: exit_request_def chan_doSend_def demo_kernel_def packet_def put_def)
  then have "doPoll [demo_env] 1 7 s2 = Inr (PollGo 2 7, fresh_sys\<lparr>m_channel := (m_channel s2)\<lparr>m_controlCtrl := 0, m_error := Some CH_NOEINTR\<rparr>\<rparr>)"
    using demo_iter[of 1 "m_channel s2"] by simp
  then have "\<exists>r s'. socketSystem_doShutdown ?k [demo_env] 1 7 ?s = Inr (r, s')"
    using x(1) by (intro exI[of _ False]) (simp add: socketSystem_doShutdown_def del: doPoll.simps)
  then obtain r s' where b: "socketSystem_doShutdown ?k [demo_env] 1 7 ?s = Inr (r, s')" by blast
  have w: "list_all poller_works (demo_env # [] @ [demo_env])" by (simp add: poller_works_def demo_env_def)
  have "\<not> r"
    using shutdown_hangs[OF _ _ w a b] by (simp add: fresh_sys_def new_sys_def new_channel_def demo_env_def)
  then show ?thesis using a b by auto
qed

end
