(* ===== verification/SocketTest.thy ===== *)
theory SocketTest
  imports SocketApi Delivery ActorComponent
begin

text \<open>
  The component \<open>SocketTest\<close> (\<open>component/SocketTest/src/SocketTest.cc\<close>), a client of the socket
  interface of \<open>SocketApi\<close>: launching it, accepting a client, the table of clients and the loop that
  reads from one.  A call that waits splits a function as in \<open>SocketApi\<close>.
\<close>

section \<open>Launching\<close>

definition test_doRequire :: "'d \<Rightarrow> 'd \<Rightarrow> ('d, 'f) component \<Rightarrow> ('d, 'f) component" where
  "test_doRequire disp unp c =
     doRegisterProtocol c \<lparr>p_msgId = ucast M_ID_SOCKET, p_dispatch = Some disp, p_pack = None, p_unpack = Some unp\<rparr>"

definition test_doListen :: "kernel \<Rightarrow> nat \<Rightarrow> int \<Rightarrow> sys \<Rightarrow> (int \<times> sys) res" where
  "test_doListen k opq backlog s = doSocketListen k opq backlog s"

text \<open>\<open>onLaunch\<close> returns -1, or its coroutine \<open>co\<close> waits in \<open>doStart\<close> of the listening socket.\<close>

datatype launch = LaunchReturns int | LaunchWaits int

definition onLaunch ::
    "kernel \<Rightarrow> nat \<Rightarrow> nat \<Rightarrow> nat \<Rightarrow> 'd \<Rightarrow> 'd \<Rightarrow> ('d, 'f) component \<Rightarrow> sys \<Rightarrow> api \<Rightarrow>
     (launch \<times> ('d, 'f) component \<times> sys \<times> api) res" where
  "onLaunch k a co opq disp unp c s g =
     (let c = test_doRequire disp unp c in
      seqE (test_doListen k opq 1024 s) (\<lambda>(sock, s).
        if sock = -1 then Inr (LaunchReturns (-1), c, s, g)
        else seqE (doSocketStart k opq sock s) (\<lambda>s.
          seqE (api_doStart_begin a co opq sock True g) (\<lambda>g. Inr (LaunchWaits sock, c, s, g)))))"

text \<open>The component never launches: when \<open>onLaunch\<close> returns at all it returns -1, because listening never
  succeeds, and the actor is then not in the table any more and its handle is 0, while every other
  actor is found as before.
\<close>

theorem test_component_never_launches:
  assumes "register_actor t obj = Some (Inr (h, t'))" and "h \<noteq> 0" and "pow2_cap (m_actorCap t')" and "m_actorCap t' \<le> length (m_actors t')"
    and "onLaunch k a co opq disp unp c s g = Inr (r, c', s', g')"
  shows "r = LaunchReturns (-1) \<and> g' = g \<and> getProtocol c' 5 \<noteq> None \<and>
    (\<exists>t''. actor_doInit True True (\<lambda>_. case r of LaunchReturns n \<Rightarrow> n | LaunchWaits _ \<Rightarrow> 0) t obj = Some (Inr (0, t'', False)) \<and>
      getGrab t'' = (getGrab t')(h := None))"
proof -
  obtain sock s1 where l: "doSocketListen k opq 1024 s = Inr (sock, s1)"
    using assms(5) by (auto simp: onLaunch_def test_doListen_def Let_def res_simps)
  then have "sock = -1" using doSocketListen_never[OF l] by (simp add: SOCKET_HANDLE_INVALID_def)
  then have r: "r = LaunchReturns (-1)" "c' = test_doRequire disp unp c" "g' = g"
    using assms(5) l by (simp_all add: onLaunch_def test_doListen_def Let_def)
  have "getProtocol c' 5 \<noteq> None"
    using proto.look_put[of c "\<lparr>p_msgId = ucast M_ID_SOCKET, p_dispatch = Some disp, p_pack = None, p_unpack = Some unp\<rparr>" 5]
    by (simp add: r(2) test_doRequire_def M_ID_SOCKET_def)
  then show ?thesis
    using r assms(1,2) unregister_refines(2)[OF assms(3,4), of h]
    by (intro conjI exI[of _ "snd (doUnRegister t' h)"]) (simp_all add: actor_doInit_def)
qed

theorem test_component_never_launches_witness:
  "\<exists>t' t''. register_actor new_table 5 = Some (Inr (1, t')) \<and> actor_doInit True True (\<lambda>_. -1) new_table 5 = Some (Inr (0, t'', False)) \<and>
     getGrab t'' = (getGrab t')(1 := None)"
proof -
  let ?t = "\<lparr>m_actorSer = 2, m_actorCap = 4, m_actors = [None, Some 5, None, None], hnd = (\<lambda>_. 0)(5 := 1), m_entryId = 0\<rparr>"
  let ?k = "demo_kernel\<lparr>k_addrinfo := None\<rparr>"
  have r: "register_actor new_table 5 = Some (Inr (1, ?t))"
    unfolding new_table_tab by (simp add: tab_eval del: add_2_eq_Suc add_2_eq_Suc')
  have l: "onLaunch ?k 0 20 1 () () (new_component :: (unit, unit) component) (new_sys 0 0 0 []) demo_api =
      Inr (LaunchReturns (-1), test_doRequire () () new_component, new_sys 0 0 0 [], demo_api)"
    by (simp add: onLaunch_def test_doListen_def doSocketListen_def doSocketBind_def demo_kernel_def SOCKET_HANDLE_INVALID_def Let_def)
  have c: "pow2_cap (m_actorCap ?t)" "m_actorCap ?t \<le> length (m_actors ?t)" by (auto simp: pow2_cap_def intro: exI[of _ 2])
  from test_component_never_launches[OF r _ c l] r show ?thesis by auto
qed


section \<open>Clients\<close>

record clientTest =
  ct_sock :: int
  ct_addr :: "8 word list"
  ct_buffer :: "8 word list"
  ct_size :: int
  ct_auto :: int

definition TEST_MAX_BUFFER :: int where "TEST_MAX_BUFFER = 2048"

type_synonym clients = "int \<rightharpoonup> nat"

definition getClient :: "int \<Rightarrow> clients \<Rightarrow> nat option" where
  "getClient i m = m i"

definition addClient :: "int \<Rightarrow> nat \<Rightarrow> clients \<Rightarrow> clients" where
  "addClient i p m = m(i \<mapsto> p)"

definition removeClient :: "int \<Rightarrow> clients \<Rightarrow> clients" where
  "removeClient i m = m(i := None)"

interpretation cl: keyed_table "\<lambda>m i. map_option (Pair i) (getClient i m)" "\<lambda>m e. addClient (fst e) (snd e) m" fst
  by unfold_locales (auto simp: getClient_def addClient_def)

text \<open>A new client; the address is copied into 64 bytes.\<close>

definition new_client :: "8 word list \<Rightarrow> int \<Rightarrow> 8 word list \<Rightarrow> clientTest res" where
  "new_client junk clientId addr =
     seqE (checkE (length addr < 64) OutOfBounds) (\<lambda>_.
       Inr \<lparr>ct_sock = clientId, ct_addr = addr, ct_buffer = junk, ct_size = 0, ct_auto = 0\<rparr>)"

text \<open>
  \<open>onAccept\<close> after \<open>doStart\<close> of the client answered: an int, which can only be -1 or the socket, or the
  text of an error.  \<open>sendRet\<close> is the result of \<open>doSend\<close>.  The result is whether the loop is entered.
\<close>

definition accept_started :: "int \<Rightarrow> api_result \<Rightarrow> int \<Rightarrow> nat \<Rightarrow> clients \<Rightarrow> api \<Rightarrow> (bool \<times> clients \<times> api) res" where
  "accept_started clientId ret sendRet p m g =
     (case ret of
        RInt n \<Rightarrow>
          if n = -1 then Inr (False, m, g)
          else seqE (doSetLimit clientId (TEST_MAX_BUFFER * 2) g) (\<lambda>g.
            let g = doSetNodelay clientId g in
            if sendRet \<noteq> 0 then Inr (False, m, g) else Inr (True, addClient clientId p m, g))
      | RString e \<Rightarrow> Inr (False, m, g)
      | _ \<Rightarrow> Inl ExitProcess)"

text \<open>What follows a read of \<open>tmp\<close> bytes: the client leaves the table, or the loop goes on.\<close>

definition after_read :: "int \<Rightarrow> int \<Rightarrow> clientTest \<Rightarrow> clients \<Rightarrow> clientTest option \<times> clients" where
  "after_read clientId tmp p m =
     (if tmp = -1 then (None, removeClient clientId m)
      else (let size = ct_size p + tmp in
        (Some (p\<lparr>ct_size := (if size \<ge> TEST_MAX_BUFFER then 0 else size)\<rparr>), m)))"

definition store_read :: "clientTest \<Rightarrow> 8 word list \<Rightarrow> clientTest" where
  "store_read p out = p\<lparr>ct_buffer := take (nat (ct_size p)) (ct_buffer p) @ out\<rparr>"

text \<open>A round of the loop: it goes on, waits in \<open>doRead\<close> of the coroutine, or ends.\<close>

datatype round = Goes clientTest | Waits clientTest | Ends

definition next_round :: "clientTest option \<Rightarrow> round" where
  "next_round p = (case p of None \<Rightarrow> Ends | Some p \<Rightarrow> Goes p)"

definition round_begin :: "nat \<Rightarrow> int \<Rightarrow> clientTest \<Rightarrow> clients \<Rightarrow> api \<Rightarrow> (round \<times> clients \<times> api) res" where
  "round_begin co clientId p m g =
     seqE (doRead_begin co clientId (drop (nat (ct_size p)) (ct_buffer p)) (TEST_MAX_BUFFER - ct_size p) g) (\<lambda>(r, out, g).
       case r of
         None \<Rightarrow> Inr (Waits (store_read p out), m, g)
       | Some tmp \<Rightarrow> (let (p, m) = after_read clientId tmp (store_read p out) m in Inr (next_round p, m, g)))"

definition round_end :: "nat \<Rightarrow> int \<Rightarrow> clientTest \<Rightarrow> clients \<Rightarrow> api \<Rightarrow> (round \<times> clients \<times> api) res" where
  "round_end a clientId p m g =
     seqE (doRead_end a (drop (nat (ct_size p)) (ct_buffer p)) (TEST_MAX_BUFFER - ct_size p) g) (\<lambda>(tmp, out, g).
       let (p, m) = after_read clientId tmp (store_read p out) m in Inr (next_round p, m, g))"

definition client_ok :: "clientTest \<Rightarrow> bool" where
  "client_ok p \<longleftrightarrow> 0 \<le> ct_size p \<and> ct_size p < TEST_MAX_BUFFER \<and> length (ct_buffer p) = nat TEST_MAX_BUFFER"

section \<open>Reading from a client\<close>

text \<open>Reading \<open>n\<close> bytes from a socket: nothing happens when fewer are there.\<close>

lemma read_on_socket:
  assumes "sock_valid g a" and "0 < n" and "n \<le> length out" and "n < 2 ^ 32"
  shows "\<exists>r out' g'. with_buffer a (\<lambda>b p. seqE (buf_doRead out (int n) b p) (\<lambda>(r, out, b, p). Inr ((r, out), b, p))) g = Inr ((r, out'), g') \<and>
    length out' = length out \<and> sock_valid g' a \<and> g_sockets g' = g_sockets g \<and>
    (\<exists>b. g_objs g' a = (g_objs g a)\<lparr>o_buffer := b\<rparr>) \<and>
    (if n \<le> length (api_stream g a) then r = int n \<and> api_stream g' a = drop n (api_stream g a) else r = -1 \<and> g' = g)"
proof -
  let ?b = "o_buffer (g_objs g a)"
  have ok: "buffer_ok ?b (g_pool g)" and al: "g_alive g (o_opaque (g_objs g a))" using assms(1) by (simp_all add: sock_valid_def)
  have sz: "b_size ?b = length (api_stream g a)" "b_size ?b < 2 ^ 32" using ok by (simp_all add: buffer_ok_def api_stream_def)
  show ?thesis
  proof (cases "n \<le> length (api_stream g a)")
    case True
    then have small: "int n mod 2 ^ 32 = int n" using sz by simp
    obtain b' p' where pop: "popBuffer out n ?b (g_pool g) =
      Inr (if n = length (hd (b_chunks ?b)) - b_offset ?b then out else take n (stream ?b) @ drop n out, b', p')"
      "b_size b' = b_size ?b" "buffer_ok (b'\<lparr>b_size := b_size b' - n\<rparr>) p'" "stream (b'\<lparr>b_size := b_size b' - n\<rparr>) = drop n (stream ?b)"
      using popBuffer_ok[OF ok assms(2), of out] True sz(1) by auto
    let ?out = "if n = length (hd (b_chunks ?b)) - b_offset ?b then out else take n (stream ?b) @ drop n out"
    let ?b' = "b'\<lparr>b_size := b_size b' - n\<rparr>"
    let ?g = "set_obj a ((g_objs g a)\<lparr>o_buffer := ?b'\<rparr>) (g\<lparr>g_pool := p'\<rparr>)"
    have "buf_doRead out (int n) ?b (g_pool g) = Inr (int n, ?out, ?b', p')"
      using pop(1,2) small True sz(1) assms(2) by (simp add: buf_doRead_def)
    then have "with_buffer a (\<lambda>b p. seqE (buf_doRead out (int n) b p) (\<lambda>(r, out, b, p). Inr ((r, out), b, p))) g = Inr ((int n, ?out), ?g)"
      by (simp add: with_buffer_def)
    moreover have "length ?out = length out" using assms(3) True by (simp add: api_stream_def)
    moreover have "sock_valid ?g a \<and> g_sockets ?g = g_sockets g \<and> (\<exists>b. g_objs ?g a = (g_objs g a)\<lparr>o_buffer := b\<rparr>)"
      using pop(3) al by (auto simp: sock_valid_def set_obj_def)
    moreover have "api_stream ?g a = drop n (api_stream g a)" using pop(4) by (simp add: api_stream_def)
    ultimately show ?thesis using True by auto
  next
    case False
    have "buf_doRead out (int n) ?b (g_pool g) = Inr (-1, out, ?b, g_pool g)" using False sz(1) assms(4) by (simp add: buf_doRead_def)
    moreover have "set_obj a ((g_objs g a)\<lparr>o_buffer := ?b\<rparr>) (g\<lparr>g_pool := g_pool g\<rparr>) = g" by (simp add: set_obj_def)
    ultimately have "with_buffer a (\<lambda>b p. seqE (buf_doRead out (int n) b p) (\<lambda>(r, out, b, p). Inr ((r, out), b, p))) g = Inr ((-1, out), g)"
      by (simp add: with_buffer_def)
    then show ?thesis using False assms(1) by (auto intro!: exI[of _ ?b])
  qed
qed


lemma client_room:
  assumes "client_ok p" and "n = nat (TEST_MAX_BUFFER - ct_size p)"
  shows "0 < n" "n \<le> length (drop (nat (ct_size p)) (ct_buffer p))" "n < 2 ^ 32" "TEST_MAX_BUFFER - ct_size p = int n"
    "length (drop (nat (ct_size p)) (ct_buffer p)) = n" "ct_size p + int n = 2048" "2048 - ct_size p = int n"
    "0 \<le> ct_size p" "ct_size p < 2048" "length (ct_buffer p) = 2048"
  using assms by (auto simp: client_ok_def TEST_MAX_BUFFER_def)

lemma store_read_length:
  "client_ok p \<Longrightarrow> length out' = length (drop (nat (ct_size p)) (ct_buffer p)) \<Longrightarrow> length (ct_buffer (store_read p out')) = 2048"
  by (simp add: client_ok_def TEST_MAX_BUFFER_def store_read_def)

lemma round_begin_blocks:
  assumes "sock_valid g a" and "g_sockets g sid = Some a" and "client_ok p" and "n = nat (TEST_MAX_BUFFER - ct_size p)"
    and "o_readRequired (g_objs g a) = AnyNone" and "o_co (g_objs g a) = None"
  shows "\<exists>p' g' r m'. round_begin co sid p m g = Inr (r, m', g') \<and>
      (if n \<le> length (api_stream g a) then r = Goes p' \<and> client_ok p' \<and> ct_size p' = 0 \<and> m' = m \<and> api_stream g' a = drop n (api_stream g a)
       else if o_connected (g_objs g a) then r = Waits p' \<and> client_ok p' \<and> ct_size p' = ct_size p \<and> m' = m \<and>
         o_readRequired (g_objs g' a) = AnyInt (int n) \<and> o_co (g_objs g' a) = Some co
       else r = Ends \<and> getClient sid m' = None)"
proof -
  let ?out = "drop (nat (ct_size p)) (ct_buffer p)"
  note n = client_room[OF assms(3,4)] and store = store_read_length[OF assms(3)]
  obtain r out' g' where R: "with_buffer a (\<lambda>b p. seqE (buf_doRead ?out (int n) b p) (\<lambda>(r, out, b, p). Inr ((r, out), b, p))) g = Inr ((r, out'), g')"
    "length out' = length ?out"
    "if n \<le> length (api_stream g a) then r = int n \<and> api_stream g' a = drop n (api_stream g a) else r = -1 \<and> g' = g"
    using read_on_socket[OF assms(1) n(1,2,3)] by blast
  show ?thesis
  proof (cases "n \<le> length (api_stream g a)")
    case True
    then have "round_begin co sid p m g = Inr (Goes ((store_read p out')\<lparr>ct_size := 0\<rparr>), m, g')"
      using R n(6,7) assms(2) by (simp add: round_begin_def doRead_begin_def api_getSocket_def after_read_def next_round_def
          store_read_def TEST_MAX_BUFFER_def)
    then show ?thesis using True R store by (auto simp: client_ok_def TEST_MAX_BUFFER_def)
  next
    case False
    then have g': "r = -1" "g' = g" using R(3) by simp_all
    show ?thesis
    proof (cases "o_connected (g_objs g a)")
      case True
      let ?g = "set_obj a ((g_objs g a)\<lparr>o_readRequired := AnyInt (int n), o_co := Some co\<rparr>) g"
      have "doSuspend_begin co a (set_obj a ((g_objs g a)\<lparr>o_readRequired := AnyInt (int n)\<rparr>) g) = Inr ?g"
        using assms(1,6) by (simp add: doSuspend_begin_def getAssertPtr_def sock_valid_def set_obj_def Let_def)
      then have "round_begin co sid p m g = Inr (Waits (store_read p out'), m, ?g)"
        using R(1) g' n(4) assms(2,5) True by (simp add: round_begin_def doRead_begin_def api_getSocket_def)
      then show ?thesis using False True R(2) store n(8-10)
        by (auto simp: client_ok_def TEST_MAX_BUFFER_def store_read_def)
    next
      case off: False
      then have "round_begin co sid p m g = Inr (Ends, removeClient sid m, g)"
        using R(1) g' n(4) assms(2) by (simp add: round_begin_def doRead_begin_def api_getSocket_def after_read_def next_round_def)
      then show ?thesis using False off by (auto simp: getClient_def removeClient_def)
    qed
  qed
qed

lemma round_end_blocks:
  assumes "sock_valid g2 a" and "o_closing (g_objs g2 a) = None" and "client_ok p" and "n = nat (TEST_MAX_BUFFER - ct_size p)"
  shows "\<exists>p' g' r m'. round_end a sid p m g2 = Inr (r, m', g') \<and>
      (if n \<le> length (api_stream g2 a) then r = Goes p' \<and> client_ok p' \<and> ct_size p' = 0 \<and> m' = m \<and> api_stream g' a = drop n (api_stream g2 a)
       else if api_stream g2 a \<noteq> [] then r = Goes p' \<and> client_ok p' \<and> m' = m \<and>
         ct_size p' = ct_size p + int (length (api_stream g2 a)) \<and> api_stream g' a = []
       else r = Ends \<and> getClient sid m' = None)"
proof -
  let ?out = "drop (nat (ct_size p)) (ct_buffer p)"
  note n = client_room[OF assms(3,4)] and store = store_read_length[OF assms(3)]
  have g2: "doSuspend_end a g2 = g2" using assms(2) by (simp add: doSuspend_end_def)
  obtain r out' g' where R: "with_buffer a (\<lambda>b p. seqE (buf_doRead ?out (int n) b p) (\<lambda>(r, out, b, p). Inr ((r, out), b, p))) g2 = Inr ((r, out'), g')"
    "length out' = length ?out"
    "if n \<le> length (api_stream g2 a) then r = int n \<and> api_stream g' a = drop n (api_stream g2 a) else r = -1 \<and> g' = g2"
    using read_on_socket[OF assms(1) n(1,2,3)] by blast
  show ?thesis
  proof (cases "n \<le> length (api_stream g2 a)")
    case True
    then have "round_end a sid p m g2 = Inr (Goes ((store_read p out')\<lparr>ct_size := 0\<rparr>), m, g')"
      using R n(6,7) g2 by (simp add: round_end_def doRead_end_def after_read_def next_round_def store_read_def TEST_MAX_BUFFER_def)
    then show ?thesis using True R store by (auto simp: client_ok_def TEST_MAX_BUFFER_def)
  next
    case False
    then have g': "r = -1" "g' = g2" using R(3) by simp_all
    let ?k = "b_size (o_buffer (g_objs g2 a))"
    have k: "?k = length (api_stream g2 a)" using assms(1) by (simp add: sock_valid_def buffer_ok_def api_stream_def)
    have first: "doRead_end a ?out (int n) g2 =
        seqE (with_buffer a (\<lambda>b p. seqE (buf_doRead out' (int ?k) b p) (\<lambda>(r, out, b, p). Inr ((r, out), b, p))) g2)
          (\<lambda>((r, out), g). Inr (r, out, g))"
      using R(1) g' g2 by (simp add: doRead_end_def)
    show ?thesis
    proof (cases "api_stream g2 a = []")
      case True
      then have "buf_doRead out' (int ?k) (o_buffer (g_objs g2 a)) (g_pool g2) = Inr (-1, out', o_buffer (g_objs g2 a), g_pool g2)"
        using k by (simp add: buf_doRead_def)
      then have "\<exists>g3. with_buffer a (\<lambda>b p. seqE (buf_doRead out' (int ?k) b p) (\<lambda>(r, out, b, p). Inr ((r, out), b, p))) g2 = Inr ((-1, out'), g3)"
        by (simp add: with_buffer_def)
      then obtain g3 where "doRead_end a ?out (int n) g2 = Inr (-1, out', g3)" using first by auto
      then have "round_end a sid p m g2 = Inr (Ends, removeClient sid m, g3)"
        using n(4) by (simp add: round_end_def after_read_def next_round_def)
      then show ?thesis using False True by (auto simp: getClient_def removeClient_def)
    next
      case some: False
      have kn: "0 < ?k" "?k \<le> length out'" "?k < 2 ^ 32" "?k < n" using some k False R(2) n by simp_all
      obtain r2 out2 g3 where R2: "with_buffer a (\<lambda>b p. seqE (buf_doRead out' (int ?k) b p) (\<lambda>(r, out, b, p). Inr ((r, out), b, p))) g2 = Inr ((r2, out2), g3)"
        "length out2 = length out'"
        "if ?k \<le> length (api_stream g2 a) then r2 = int ?k \<and> api_stream g3 a = drop ?k (api_stream g2 a) else r2 = -1 \<and> g3 = g2"
        using read_on_socket[OF assms(1) kn(1,2,3)] by blast
      then have r2: "r2 = int ?k" "api_stream g3 a = []" using k by simp_all
      have "doRead_end a ?out (int n) g2 = Inr (int ?k, out2, g3)" using first R2(1) r2(1) by simp
      then have "round_end a sid p m g2 = Inr (Goes ((store_read p out2)\<lparr>ct_size := ct_size p + int ?k\<rparr>), m, g3)"
        using n(6,7) kn(4) by (simp add: round_end_def after_read_def next_round_def store_read_def TEST_MAX_BUFFER_def)
      then show ?thesis using False some r2(2) R2(2) R(2) store[of out2] k kn(4) n(6,8-10)
        by (auto simp: client_ok_def TEST_MAX_BUFFER_def)
    qed
  qed
qed

text \<open>C31: The component reads its clients in blocks: a round either gets exactly the rest of the buffer, after which
  the buffer is empty again, or waits for it; when the wait ends with less, the connection is closed, and
  it takes what is left, or removes the client when nothing is.  In every case no byte is written outside
  the 2048 bytes of the buffer, and the state of the client is again as a round needs it.\<close>

theorem test_client_blocks:
  assumes "sock_valid g a" and "g_sockets g sid = Some a" and "client_ok p" and "n = nat (TEST_MAX_BUFFER - ct_size p)"
    and "o_readRequired (g_objs g a) = AnyNone" and "o_co (g_objs g a) = None"
    and "sock_valid g2 a" and "o_closing (g_objs g2 a) = None"
  shows "(\<exists>p' g' r m'. round_begin co sid p m g = Inr (r, m', g') \<and>
      (if n \<le> length (api_stream g a) then r = Goes p' \<and> client_ok p' \<and> ct_size p' = 0 \<and> m' = m \<and> api_stream g' a = drop n (api_stream g a)
       else if o_connected (g_objs g a) then r = Waits p' \<and> client_ok p' \<and> ct_size p' = ct_size p \<and> m' = m \<and>
         o_readRequired (g_objs g' a) = AnyInt (int n) \<and> o_co (g_objs g' a) = Some co
       else r = Ends \<and> getClient sid m' = None)) \<and>
    (\<exists>p' g' r m'. round_end a sid p m g2 = Inr (r, m', g') \<and>
      (if n \<le> length (api_stream g2 a) then r = Goes p' \<and> client_ok p' \<and> ct_size p' = 0 \<and> m' = m \<and> api_stream g' a = drop n (api_stream g2 a)
       else if api_stream g2 a \<noteq> [] then r = Goes p' \<and> client_ok p' \<and> m' = m \<and>
         ct_size p' = ct_size p + int (length (api_stream g2 a)) \<and> api_stream g' a = []
       else r = Ends \<and> getClient sid m' = None))"
  using round_begin_blocks[OF assms(1-6), of co m] round_end_blocks[OF assms(7,8,3,4), of sid m] by (rule conjI)

definition demo_client :: clientTest where
  "demo_client = \<lparr>ct_sock = 3, ct_addr = [], ct_buffer = replicate 2048 0, ct_size = 2047, ct_auto = 0\<rparr>"

theorem test_client_blocks_witness:
  "\<exists>p' g' r m'. round_begin 5 3 demo_client [3 \<mapsto> 0] (set_obj 0 (demo_oper\<lparr>o_readRequired := AnyNone, o_co := None\<rparr>) demo_api) = Inr (r, m', g') \<and>
     r = Waits p' \<and> ct_size p' = 2047"
proof -
  let ?g = "set_obj 0 (demo_oper\<lparr>o_readRequired := AnyNone, o_co := None\<rparr>) demo_api"
  have v: "sock_valid ?g 0" "g_sockets ?g 3 = Some 0" "o_readRequired (g_objs ?g 0) = AnyNone" "o_co (g_objs ?g 0) = None"
    "o_closing (g_objs ?g 0) = None" "o_connected (g_objs ?g 0)" "api_stream ?g 0 = []"
    by (simp_all add: demo_defs api_stream_def)
  have c: "client_ok demo_client" "1 = nat (TEST_MAX_BUFFER - ct_size demo_client)" "ct_size demo_client = 2047"
    by (simp_all add: client_ok_def TEST_MAX_BUFFER_def demo_client_def)
  show ?thesis
    using test_client_blocks[OF v(1,2) c(1,2) v(3,4,1,5), of 5 "[3 \<mapsto> 0]"] v(6,7) c(3) by simp blast
qed

end
