(* ===== verification/LuaState.thy ===== *)
theory LuaState
  imports LuaCore
begin

text \<open>
  How the Lua state of an actor is made: \<open>luaStack::create\<close>, \<open>init\<close> and \<open>addLoader\<close>
  (\<open>engine/src/lualib/manual/luaStack.cc\<close>), the registration of the functions of the engine
  (\<open>lualib/auto/luaCoreAuto.cc\<close>, \<open>luaNetworkAuto.cc\<close>) and what the component \<open>lnlua\<close> sets before it runs its
  script.  Below it are the table functions of the bundled Lua (\<open>3rd/lua/src/lapi.c\<close>, \<open>lauxlib.c\<close>) and
  the mapping of classes of the bundled tolua (\<open>3rd/tolua/src/lib/tolua_map.c\<close>, \<open>tolua_event.c\<close>).  The
  state after \<open>luaL_openlibs\<close>, the C functions and the events of tables with a metatable are parameters.
\<close>

section \<open>The state and its tables\<close>

text \<open>
  Tables are numbered; the registry is the first.  A new table is one no number was given to, and is
  empty.
\<close>

record lua =
  stk :: "lval list"
  tables :: "nat \<Rightarrow> lval \<Rightarrow> lval"
  metas :: "nat \<Rightarrow> nat option"
  fresh :: nat
  gc_stopped :: bool

definition REGISTRY :: nat where "REGISTRY = 0"

definition key :: "string \<Rightarrow> lval" where "key s = LStr s"

definition idx :: "nat \<Rightarrow> lval" where "idx n = LNum (Some (int n))"

text \<open>What reading an absent field of a table with a metatable gives, and writing one does.\<close>

record events =
  index_event :: "lua \<Rightarrow> nat \<Rightarrow> lval \<Rightarrow> lval"
  newindex_event :: "nat \<Rightarrow> lval \<Rightarrow> lval \<Rightarrow> lua \<Rightarrow> lua res"

type_synonym lop = "lua \<Rightarrow> lua res"

fun run :: "lop list \<Rightarrow> lop" where
  "run [] L = Inr L"
| "run (f # fs) L = seqE (f L) (run fs)"

definition on_stack :: "(lval list \<Rightarrow> lval list res) \<Rightarrow> lop" where
  "on_stack f L = seqE (f (stk L)) (\<lambda>s. Inr (L\<lparr>stk := s\<rparr>))"

definition push :: "lval \<Rightarrow> lop" where
  "push v = on_stack (\<lambda>s. Inr (s @ [v]))"

text \<open>A null pointer is pushed as nil.\<close>

definition pushstring :: "string option \<Rightarrow> lop" where
  "pushstring s = push (case s of None \<Rightarrow> LNil | Some s \<Rightarrow> LStr s)"

definition pushvalue :: "int \<Rightarrow> lop" where
  "pushvalue i = on_stack (\<lambda>s. seqE (lua_get s i) (\<lambda>v. Inr (s @ [v])))"

definition pop :: "nat \<Rightarrow> lop" where
  "pop n = on_stack (lua_pop n)"

definition insert_at :: "int \<Rightarrow> lop" where
  "insert_at i = on_stack (lua_insert i)"

definition remove_at :: "int \<Rightarrow> lop" where
  "remove_at i = on_stack (\<lambda>s. seqE (lua_at s i) (\<lambda>k. Inr (take k s @ drop (k + 1) s)))"

definition if_top :: "(lval \<Rightarrow> bool) \<Rightarrow> lop list \<Rightarrow> lop list \<Rightarrow> lop" where
  "if_top P a b L = seqE (lua_get (stk L) (-1)) (\<lambda>v. run (if P v then a else b) L)"

definition is_table :: "lval \<Rightarrow> bool" where
  "is_table v = (case v of LTable _ \<Rightarrow> True | _ \<Rightarrow> False)"

text \<open>An operation on a table, which takes another value for one, reads memory that is none.\<close>

definition with_table :: "lval \<Rightarrow> (nat \<Rightarrow> lop) \<Rightarrow> lop" where
  "with_table v f L = (case v of LTable t \<Rightarrow> f t L | _ \<Rightarrow> Inl OutOfBounds)"

definition at_table :: "int \<Rightarrow> (nat \<Rightarrow> lop) \<Rightarrow> lop" where
  "at_table i f L = seqE (lua_get (stk L) i) (\<lambda>v. with_table v f L)"

definition newtable :: lop where
  "newtable L =
     Inr (L\<lparr>stk := stk L @ [LTable (fresh L)], tables := (tables L)(fresh L := \<lambda>_. LNil),
            metas := (metas L)(fresh L := None), fresh := fresh L + 1\<rparr>)"

definition rawget_of :: "nat \<Rightarrow> lop" where
  "rawget_of t L =
     seqE (lua_get (stk L) (-1)) (\<lambda>k. seqE (lua_pop 1 (stk L)) (\<lambda>s. Inr (L\<lparr>stk := s @ [tables L t k]\<rparr>)))"

text \<open>The key nil is an error, which is not caught while the state is made.\<close>

definition rawset_of :: "nat \<Rightarrow> lop" where
  "rawset_of t L =
     seqE (lua_get (stk L) (-2)) (\<lambda>k. seqE (checkE (k \<noteq> LNil) ExitProcess) (\<lambda>_.
       seqE (lua_rawset (tables L t) (stk L)) (\<lambda>(tb, s). Inr (L\<lparr>stk := s, tables := (tables L)(t := tb)\<rparr>))))"

definition rawgeti :: "int \<Rightarrow> nat \<Rightarrow> lop" where
  "rawgeti i n = at_table i (\<lambda>t L. Inr (L\<lparr>stk := stk L @ [tables L t (idx n)]\<rparr>))"

definition rawseti :: "int \<Rightarrow> nat \<Rightarrow> lop" where
  "rawseti i n = at_table i (\<lambda>t L.
     seqE (lua_get (stk L) (-1)) (\<lambda>v. seqE (lua_pop 1 (stk L)) (\<lambda>s.
       Inr (L\<lparr>stk := s, tables := (tables L)(t := (tables L t)(idx n := v))\<rparr>))))"

definition getfield_of :: "events \<Rightarrow> string \<Rightarrow> nat \<Rightarrow> lop" where
  "getfield_of ev k t L =
     (let v = tables L t (key k) in
      push (if v = LNil \<and> metas L t \<noteq> None then index_event ev L t (key k) else v) L)"

definition setfield_of :: "events \<Rightarrow> string \<Rightarrow> nat \<Rightarrow> lop" where
  "setfield_of ev k t L =
     seqE (lua_get (stk L) (-1)) (\<lambda>v. seqE (lua_pop 1 (stk L)) (\<lambda>s.
       if tables L t (key k) = LNil \<and> metas L t \<noteq> None then newindex_event ev t (key k) v (L\<lparr>stk := s\<rparr>)
       else Inr (L\<lparr>stk := s, tables := (tables L)(t := (tables L t)(key k := v))\<rparr>)))"

text \<open>\<open>lua_settable\<close>, for a key that is a string or a table.\<close>

definition settable_of :: "events \<Rightarrow> nat \<Rightarrow> lop" where
  "settable_of ev t L =
     seqE (lua_get (stk L) (-2)) (\<lambda>k. seqE (lua_get (stk L) (-1)) (\<lambda>v. seqE (lua_pop 2 (stk L)) (\<lambda>s.
       if tables L t k = LNil \<and> metas L t \<noteq> None then newindex_event ev t k v (L\<lparr>stk := s\<rparr>)
       else Inr (L\<lparr>stk := s, tables := (tables L)(t := (tables L t)(k := v))\<rparr>))))"

text \<open>The table of globals is the second entry of the registry.\<close>

definition with_globals :: "(nat \<Rightarrow> lop) \<Rightarrow> lop" where
  "with_globals f L = with_table (tables L REGISTRY (idx 2)) f L"

definition setmetatable :: "int \<Rightarrow> lop" where
  "setmetatable i = at_table i (\<lambda>t L.
     seqE (lua_get (stk L) (-1)) (\<lambda>m. seqE (lua_pop 1 (stk L)) (\<lambda>s.
       case m of
         LNil \<Rightarrow> Inr (L\<lparr>stk := s, metas := (metas L)(t := None)\<rparr>)
       | LTable m \<Rightarrow> Inr (L\<lparr>stk := s, metas := (metas L)(t := Some m)\<rparr>)
       | _ \<Rightarrow> Inl OutOfBounds)))"

text \<open>\<open>lua_getmetatable\<close> of the table at the top: what follows when there is one, which is pushed, and when not.\<close>

definition if_metatable :: "lop list \<Rightarrow> lop list \<Rightarrow> lop" where
  "if_metatable a b = at_table (-1) (\<lambda>t L.
     case metas L t of Some m \<Rightarrow> run (push (LTable m) # a) L | None \<Rightarrow> run b L)"


section \<open>The auxiliary library of Lua\<close>

text \<open>\<open>luaL_findtable\<close> for a name without a dot, in the table at the top, which it replaces; a name that is in use ends
  with an error.\<close>

definition luaL_findtable :: "events \<Rightarrow> string \<Rightarrow> lop" where
  "luaL_findtable ev name =
     (\<lambda>L. run [push (LStr name), at_table (-2) rawget_of,
        if_top (\<lambda>v. v = LNil)
          [pop 1, newtable, push (LStr name), pushvalue (-2), at_table (-4) (settable_of ev)]
          [if_top is_table [] [\<lambda>_. Inl ExitProcess]],
        remove_at (-2)] L)"

definition luaL_pushmodule :: "events \<Rightarrow> string \<Rightarrow> lop" where
  "luaL_pushmodule ev name =
     run [push (LTable REGISTRY), luaL_findtable ev ''_LOADED'', at_table (-1) (getfield_of ev name),
       if_top is_table []
         [pop 1, with_globals (\<lambda>g. push (LTable g)), luaL_findtable ev name, pushvalue (-1), at_table (-3) (setfield_of ev name)],
       remove_at (-2)]"

text \<open>\<open>luaL_register\<close> with an empty list of functions leaves the table of the module at the top.\<close>

definition luaL_register_none :: "events \<Rightarrow> string \<Rightarrow> lop" where
  "luaL_register_none ev name = run [luaL_pushmodule ev name, insert_at (-1), pop 0]"

definition luaL_getmetatable :: "events \<Rightarrow> string \<Rightarrow> lop" where
  "luaL_getmetatable ev name = getfield_of ev name REGISTRY"


section \<open>Classes of tolua\<close>

definition tolua_function :: "string \<Rightarrow> nat \<Rightarrow> lop" where
  "tolua_function name f = run [push (LStr name), push (LFun f), at_table (-3) rawset_of]"

definition class_event_names :: "string list" where
  "class_event_names =
     [''__index'', ''__newindex'', ''__add'', ''__sub'', ''__mul'', ''__div'', ''__lt'', ''__le'', ''__eq'', ''__call'']"

text \<open>\<open>cf\<close> numbers the C functions by their names; here those of \<open>tolua_event.c\<close> by the event they serve.\<close>

definition tolua_classevents :: "(string \<Rightarrow> nat) \<Rightarrow> lop" where
  "tolua_classevents cf =
     run (map (\<lambda>e. tolua_function e (cf e)) class_event_names @
       [push (LStr ''__gc''), push (LStr ''tolua_gc_event''), rawget_of REGISTRY, at_table (-3) rawset_of])"

text \<open>\<open>new\<close> and \<open>old\<close> are what follows when the name was new, and when not.\<close>

definition tolua_newmetatable :: "events \<Rightarrow> (string \<Rightarrow> nat) \<Rightarrow> string \<Rightarrow> lop list \<Rightarrow> lop" where
  "tolua_newmetatable ev cf name new =
     run [luaL_getmetatable ev name,
       if_top (\<lambda>v. v \<noteq> LNil) [pop 1]
         ([pop 1, newtable, push (LStr name), at_table (-2) (setfield_of ev ''__name''),
           pushvalue (-1), setfield_of ev name REGISTRY,
           pushvalue (-1), push (LStr name), settable_of ev REGISTRY,
           tolua_classevents cf, pop 1] @ new)]"

text \<open>The loop over \<open>lua_next\<close>: the entries of the table at the top go into the one below.\<close>

definition copy_entries :: lop where
  "copy_entries = at_table (-1) (\<lambda>b. at_table (-2) (\<lambda>t L.
     Inr (L\<lparr>tables := (tables L)(t := \<lambda>k. if tables L b k \<noteq> LNil then tables L b k else tables L t k)\<rparr>)))"

definition mapsuper :: "events \<Rightarrow> string \<Rightarrow> string \<Rightarrow> lop" where
  "mapsuper ev name base =
     run [push (LStr ''tolua_super''), rawget_of REGISTRY, luaL_getmetatable ev name, at_table (-2) rawget_of,
       if_top (\<lambda>v. v = LNil)
         [pop 1, newtable, luaL_getmetatable ev name, pushvalue (-2), at_table (-4) rawset_of] [],
       push (LStr base), push (LBool True), at_table (-3) rawset_of,
       luaL_getmetatable ev base, at_table (-3) rawget_of,
       if_top is_table [copy_entries] [],
       pop 3]"

definition set_ubox :: lop where
  "set_ubox =
     run [if_top (\<lambda>v. v \<noteq> LNil) [push (LStr ''tolua_ubox''), at_table (-2) rawget_of] [push LNil],
       if_top (\<lambda>v. v \<noteq> LNil)
         [push (LStr ''tolua_ubox''), insert_at (-2), at_table (-4) rawset_of]
         [pop 1, push (LStr ''tolua_ubox''), newtable, newtable, push (LStr ''__mode''), push (LStr ''v''),
          at_table (-3) rawset_of, setmetatable (-2), at_table (-4) rawset_of]]"

definition mapinheritance :: "events \<Rightarrow> string \<Rightarrow> string \<Rightarrow> lop" where
  "mapinheritance ev name base =
     run [luaL_getmetatable ev name,
       (if base \<noteq> [] then run [luaL_getmetatable ev base, set_ubox, setmetatable (-2), pop 1]
        else if_metatable [pop 2] [luaL_getmetatable ev ''tolua_commonclass'', set_ubox, setmetatable (-2), pop 1])]"

text \<open>\<open>strncat\<close> takes at most 120 characters of a name.\<close>

definition const_name :: "string \<Rightarrow> string" where
  "const_name s = ''const '' @ take 120 s"

definition tolua_usertype :: "events \<Rightarrow> (string \<Rightarrow> nat) \<Rightarrow> string \<Rightarrow> lop" where
  "tolua_usertype ev cf type =
     tolua_newmetatable ev cf (const_name type)
       [tolua_newmetatable ev cf type [mapsuper ev type (const_name type)]]"

text \<open>With no collector, as the engine calls it.\<close>

definition tolua_cclass :: "events \<Rightarrow> string \<Rightarrow> string \<Rightarrow> string \<Rightarrow> lop" where
  "tolua_cclass ev lname name base =
     run [mapinheritance ev name base, mapinheritance ev (const_name name) name,
       mapsuper ev (const_name name) (const_name base), mapsuper ev name base,
       push (LStr lname), luaL_getmetatable ev name, at_table (-3) rawset_of]"

definition tolua_beginmodule :: "string option \<Rightarrow> lop" where
  "tolua_beginmodule name =
     (case name of
        Some name \<Rightarrow> run [push (LStr name), at_table (-2) rawget_of]
      | None \<Rightarrow> with_globals (\<lambda>g. push (LTable g)))"

definition tolua_endmodule :: lop where
  "tolua_endmodule = pop 1"

text \<open>Without variables.\<close>

definition tolua_module :: "string option \<Rightarrow> lop" where
  "tolua_module name =
     (case name of
        Some name \<Rightarrow>
          run [push (LStr name), at_table (-2) rawget_of,
            if_top is_table []
              [pop 1, newtable, push (LStr name), pushvalue (-2), at_table (-4) rawset_of],
            pop 1]
      | None \<Rightarrow> run [with_globals (\<lambda>g. push (LTable g)), pop 1])"

definition tolua_functions :: "string list" where
  "tolua_functions = [''type'', ''takeownership'', ''releaseownership'', ''cast'', ''inherit'', ''setpeer'', ''getpeer'']"

text \<open>\<open>tolua_open\<close> does its work once: the tables in the registry, then the module \<open>tolua\<close>.\<close>

definition tolua_registry :: "(string \<Rightarrow> nat) \<Rightarrow> lop list" where
  "tolua_registry cf =
     [push (LStr ''tolua_opened''), push (LBool True), rawset_of REGISTRY,
      push (LStr ''tolua_ubox''), newtable, newtable, push (LStr ''__mode''), push (LStr ''v''),
      at_table (-3) rawset_of, setmetatable (-2), rawset_of REGISTRY,
      push (LStr ''tolua_super''), newtable, rawset_of REGISTRY,
      push (LStr ''tolua_gc''), newtable, rawset_of REGISTRY,
      push (LStr ''tolua_gc_event''), push (LStr ''tolua_gc''), rawget_of REGISTRY,
      push (LStr ''tolua_super''), rawget_of REGISTRY, pop 2, push (LFun (cf ''class_gc_event'')), rawset_of REGISTRY]"

definition tolua_own_module :: "(string \<Rightarrow> nat) \<Rightarrow> lop list" where
  "tolua_own_module cf =
     [tolua_module None, tolua_beginmodule None, tolua_module (Some ''tolua''), tolua_beginmodule (Some ''tolua'')] @
     map (\<lambda>n. tolua_function n (cf n)) tolua_functions @ [tolua_endmodule, tolua_endmodule]"

definition tolua_open :: "events \<Rightarrow> (string \<Rightarrow> nat) \<Rightarrow> lop" where
  "tolua_open ev cf L =
     (let top = length (stk L) in
      run [push (LStr ''tolua_opened''), rawget_of REGISTRY,
        if_top (\<lambda>v. case v of LBool _ \<Rightarrow> True | _ \<Rightarrow> False) []
          (tolua_registry cf @ [tolua_newmetatable ev cf ''tolua_commonclass'' []] @ tolua_own_module cf),
        on_stack (\<lambda>s. Inr (lua_settop top s))] L)"


section \<open>The functions of the engine\<close>

definition core_functions :: "(string \<times> string) list" where
  "core_functions =
     [(''new'', ''lua_core_actor_create''), (''callback'', ''lua_core_actor_callback''), (''send'', ''lua_core_actor_send''),
      (''logout'', ''lua_core_actor_logout''), (''timeout'', ''lua_core_actor_timeout''),
      (''susped'', ''lua_core_actor_susped''), (''wakeup'', ''lua_core_actor_wakeup''), (''exit'', ''lua_core_actor_exit'')]"

definition register_core_actor :: "events \<Rightarrow> (string \<Rightarrow> nat) \<Rightarrow> lop" where
  "register_core_actor ev cf =
     run ([tolua_usertype ev cf ''ccore.Actor'', tolua_cclass ev ''Actor'' ''ccore.Actor'' [], tolua_beginmodule (Some ''Actor'')] @
       map (\<lambda>(n, f). tolua_function n (cf f)) core_functions @ [tolua_endmodule])"

definition registerAllCore :: "events \<Rightarrow> (string \<Rightarrow> nat) \<Rightarrow> lop" where
  "registerAllCore ev cf =
     run [tolua_open ev cf, tolua_module (Some ''ccore''), tolua_beginmodule (Some ''ccore''), register_core_actor ev cf,
       tolua_endmodule]"

definition network_functions :: "(string \<times> string) list" where
  "network_functions =
     [(''listen'', ''lua_network_socket_listen''), (''open'', ''lua_network_socket_open''),
      (''connect'', ''lua_network_socket_connect''), (''close'', ''lua_network_socket_close'')]"

definition register_network_socket :: "events \<Rightarrow> (string \<Rightarrow> nat) \<Rightarrow> lop" where
  "register_network_socket ev cf =
     run ([tolua_usertype ev cf ''cnet.Socket'', tolua_cclass ev ''Socket'' ''cnet.Socket'' [], tolua_beginmodule (Some ''Socket'')] @
       map (\<lambda>(n, f). tolua_function n (cf f)) network_functions @ [tolua_endmodule])"

definition registerAllNetwork :: "events \<Rightarrow> (string \<Rightarrow> nat) \<Rightarrow> lop" where
  "registerAllNetwork ev cf =
     run [tolua_open ev cf, tolua_module (Some ''cnet''), tolua_beginmodule (Some ''cnet''), register_network_socket ev cf,
       tolua_endmodule]"


section \<open>luaStack\<close>

text \<open>The loop of \<open>addLoader\<close>: from \<open>i\<close> down to 3, entry \<open>i - 1\<close> goes to \<open>i\<close>.\<close>

fun shift_ops :: "nat \<Rightarrow> lop list" where
  "shift_ops i = (if i > 2 then rawgeti (-2) (i - 1) # rawseti (-3) i # shift_ops (i - 1) else [])"

declare shift_ops.simps [simp del]

text \<open>\<open>len\<close> is the length Lua gives a table (\<open>lua_rawlen\<close>), some border of it.\<close>

definition luaStack_addLoader :: "events \<Rightarrow> ((lval \<Rightarrow> lval) \<Rightarrow> nat) \<Rightarrow> nat option \<Rightarrow> lop" where
  "luaStack_addLoader ev len func =
     (case func of
        None \<Rightarrow> Inr
      | Some f \<Rightarrow>
          run [with_globals (getfield_of ev ''package''), at_table (-1) (getfield_of ev ''searchers''), push (LFun f),
            at_table (-2) (\<lambda>t L. run (shift_ops (len (tables L t) + 1)) L),
            rawseti (-2) 2, at_table (-2) (setfield_of ev ''searchers''), pop 1])"

text \<open>\<open>newstate\<close> is the answer of \<open>lua_newstate\<close>, \<open>this\<close> the address of the object.\<close>

definition luaStack_init ::
    "events \<Rightarrow> (string \<Rightarrow> nat) \<Rightarrow> ((lval \<Rightarrow> lval) \<Rightarrow> nat) \<Rightarrow> (lua \<Rightarrow> lua) \<Rightarrow> lua option \<Rightarrow> nat \<Rightarrow> lua res" where
  "luaStack_init ev cf len openlibs newstate this =
     (case newstate of
        None \<Rightarrow> Inl NullDeref
      | Some L \<Rightarrow>
          run [push (LStr LUA_STACK_FIX_ACTOR), push (LUser this), rawset_of REGISTRY,
            luaL_register_none ev ''_G'', registerAllCore ev cf, registerAllNetwork ev cf,
            luaStack_addLoader ev len (Some (cf ''lua_loader''))] (openlibs (L\<lparr>gc_stopped := True\<rparr>)))"

definition setSearchPath :: "events \<Rightarrow> string option \<Rightarrow> lop" where
  "setSearchPath ev path = run [pushstring path, with_globals (setfield_of ev ''LUA_PATH'')]"

definition setSearchCPath :: "events \<Rightarrow> string option \<Rightarrow> lop" where
  "setSearchCPath ev cpath = run [pushstring cpath, with_globals (setfield_of ev ''LUA_CPATH'')]"

definition reload :: "events \<Rightarrow> string option \<Rightarrow> lop" where
  "reload ev name = run [pushstring name, with_globals (setfield_of ev ''LUA_PRELOAD'')]"

definition luaStack_clean :: lop where
  "luaStack_clean = on_stack (\<lambda>s. Inr (lua_settop 0 s))"

definition pushInt :: "int \<Rightarrow> lop" where "pushInt i = push (LNum (Some i))"

definition pushBoolean :: "bool \<Rightarrow> lop" where "pushBoolean b = push (LBool b)"

definition pushNil :: lop where "pushNil = push LNil"

text \<open>\<open>luaLoadBuffer\<close>: the code of the loader, the lines it logs and the chunk or message it leaves at the top.\<close>

definition load_error :: "int \<Rightarrow> string \<Rightarrow> string" where
  "load_error r name =
     ''[LUA ERROR] load \"'' @ name @
     (if r = 3 then ''\", error: syntax error during pre-compilation.''
      else if r = 4 then ''\", error: memory allocation error.''
      else if r = 7 then ''\", error: cannot open/read file.''
      else ''\", error: unknown'')"

definition luaLoadBuffer :: "lua_loader_fn \<Rightarrow> 8 word list \<Rightarrow> string \<Rightarrow> lua \<Rightarrow> int \<times> string list \<times> lua" where
  "luaLoadBuffer load chunk name L =
     (let (r, v) = load chunk in (r, if r \<noteq> 0 then [load_error r name] else [], L\<lparr>stk := stk L @ [v]\<rparr>))"

text \<open>What \<open>lnlua\<close> does with its new stack before it runs the script; the paths come from the options.\<close>

definition lnlua_prepare ::
    "events \<Rightarrow> (string \<Rightarrow> nat) \<Rightarrow> ((lval \<Rightarrow> lval) \<Rightarrow> nat) \<Rightarrow> (lua \<Rightarrow> lua) \<Rightarrow> lua option \<Rightarrow> nat \<Rightarrow>
     string option \<Rightarrow> string option \<Rightarrow> string option \<Rightarrow> lua res" where
  "lnlua_prepare ev cf len openlibs newstate this path cpath preload =
     seqE (luaStack_init ev cf len openlibs newstate this)
       (run [setSearchPath ev path, setSearchCPath ev cpath, reload ev preload])"


section \<open>Single operations\<close>

named_theorems lua_ops \<open>evaluation of operations on a state given by its fields\<close>

lemma lua_at_end: "0 < k \<Longrightarrow> k \<le> length ys \<Longrightarrow> lua_at (s @ ys) (- int k) = Inr (length s + (length ys - k))"
  by (simp add: lua_at_def nat_diff_distrib' of_nat_diff)

lemma lua_get_end: "0 < k \<Longrightarrow> k \<le> length ys \<Longrightarrow> lua_get (s @ ys) (- int k) = Inr (ys ! (length ys - k))"
  by (simp add: lua_get_def lua_at_end nth_append del: add_diff_assoc)

lemma lua_pop_end: "k \<le> length ys \<Longrightarrow> lua_pop k (s @ ys) = Inr (s @ take (length ys - k) ys)"
  by (simp add: lua_pop_def)

lemma lua_get_1 [lua_ops]:
  "lua_get (s @ [a]) (-1) = Inr a" "lua_get (s @ [b, a]) (-1) = Inr a" "lua_get (s @ [c, b, a]) (-1) = Inr a"
  "lua_get (s @ [d, c, b, a]) (-1) = Inr a" "lua_get (s @ [e, d, c, b, a]) (-1) = Inr a"
  "lua_get (s @ [f, e, d, c, b, a]) (-1) = Inr a"
  using lua_get_end[of 1 "[a]" s] lua_get_end[of 1 "[b, a]" s] lua_get_end[of 1 "[c, b, a]" s]
    lua_get_end[of 1 "[d, c, b, a]" s] lua_get_end[of 1 "[e, d, c, b, a]" s] lua_get_end[of 1 "[f, e, d, c, b, a]" s] by simp_all

lemma lua_get_2 [lua_ops]:
  "lua_get (s @ [b, a]) (-2) = Inr b" "lua_get (s @ [c, b, a]) (-2) = Inr b"
  "lua_get (s @ [d, c, b, a]) (-2) = Inr b" "lua_get (s @ [e, d, c, b, a]) (-2) = Inr b"
  "lua_get (s @ [f, e, d, c, b, a]) (-2) = Inr b"
  using lua_get_end[of 2 "[b, a]" s] lua_get_end[of 2 "[c, b, a]" s] lua_get_end[of 2 "[d, c, b, a]" s]
    lua_get_end[of 2 "[e, d, c, b, a]" s] lua_get_end[of 2 "[f, e, d, c, b, a]" s] by simp_all

lemma lua_get_3 [lua_ops]:
  "lua_get (s @ [c, b, a]) (-3) = Inr c" "lua_get (s @ [d, c, b, a]) (-3) = Inr c"
  "lua_get (s @ [e, d, c, b, a]) (-3) = Inr c" "lua_get (s @ [f, e, d, c, b, a]) (-3) = Inr c"
  using lua_get_end[of 3 "[c, b, a]" s] lua_get_end[of 3 "[d, c, b, a]" s] lua_get_end[of 3 "[e, d, c, b, a]" s]
    lua_get_end[of 3 "[f, e, d, c, b, a]" s] by simp_all

lemma lua_get_4 [lua_ops]:
  "lua_get (s @ [d, c, b, a]) (-4) = Inr d" "lua_get (s @ [e, d, c, b, a]) (-4) = Inr d"
  "lua_get (s @ [f, e, d, c, b, a]) (-4) = Inr d"
  using lua_get_end[of 4 "[d, c, b, a]" s] lua_get_end[of 4 "[e, d, c, b, a]" s] lua_get_end[of 4 "[f, e, d, c, b, a]" s]
  by simp_all

lemma lua_pop_1 [lua_ops]:
  "lua_pop (Suc 0) (s @ [a]) = Inr s" "lua_pop (Suc 0) (s @ [b, a]) = Inr (s @ [b])"
  "lua_pop (Suc 0) (s @ [c, b, a]) = Inr (s @ [c, b])" "lua_pop (Suc 0) (s @ [d, c, b, a]) = Inr (s @ [d, c, b])"
  "lua_pop (Suc 0) (s @ [e, d, c, b, a]) = Inr (s @ [e, d, c, b])"
  "lua_pop (Suc 0) (s @ [f, e, d, c, b, a]) = Inr (s @ [f, e, d, c, b])"
  by (simp_all add: lua_pop_def)

lemma lua_pop_2 [lua_ops]:
  "lua_pop 2 (s @ [b, a]) = Inr s" "lua_pop 2 (s @ [c, b, a]) = Inr (s @ [c])"
  "lua_pop 2 (s @ [d, c, b, a]) = Inr (s @ [d, c])" "lua_pop 2 (s @ [e, d, c, b, a]) = Inr (s @ [e, d, c])"
  "lua_pop 2 (s @ [f, e, d, c, b, a]) = Inr (s @ [f, e, d, c])"
  "lua_pop 3 (s @ [c, b, a]) = Inr s" "lua_pop 3 (s @ [d, c, b, a]) = Inr (s @ [d])" "lua_pop 0 s = Inr s"
  by (simp_all add: lua_pop_def numeral_eq_Suc)

lemma lua_moves [lua_ops]:
  "lua_insert (-1) (s @ [a]) = Inr (s @ [a])"
  "lua_insert (-2) (s @ [c, b, a]) = Inr (s @ [c, a, b])" "lua_insert (-2) (s @ [d, c, b, a]) = Inr (s @ [d, c, a, b])"
  "lua_insert (-2) (s @ [e, d, c, b, a]) = Inr (s @ [e, d, c, a, b])"
  using lua_at_end[of 1 "[a]" s] lua_at_end[of 2 "[c, b, a]" s] lua_at_end[of 2 "[d, c, b, a]" s]
    lua_at_end[of 2 "[e, d, c, b, a]" s] by (simp_all add: lua_insert_def)

lemma lua_at_2 [lua_ops]:
  "lua_at (s @ [b, a]) (-2) = Inr (length s)" "lua_at (s @ [c, b, a]) (-2) = Inr (length s + 1)"
  using lua_at_end[of 2 "[b, a]" s] lua_at_end[of 2 "[c, b, a]" s] by simp_all

lemma lua_end_7 [lua_ops]:
  "lua_get (s @ [h, f, e, d, c, b, a]) (-1) = Inr a" "lua_get (s @ [h, f, e, d, c, b, a]) (-2) = Inr b"
  "lua_get (s @ [h, f, e, d, c, b, a]) (-3) = Inr c"
  "lua_pop (Suc 0) (s @ [h, f, e, d, c, b, a]) = Inr (s @ [h, f, e, d, c, b])"
  "lua_pop 2 (s @ [h, f, e, d, c, b, a]) = Inr (s @ [h, f, e, d, c])"
  using lua_get_end[of 1 "[h, f, e, d, c, b, a]" s] lua_get_end[of 2 "[h, f, e, d, c, b, a]" s]
    lua_get_end[of 3 "[h, f, e, d, c, b, a]" s] by (simp_all add: lua_pop_def)

lemmas [lua_ops] = on_stack_def push_def pushvalue_def pop_def insert_at_def remove_at_def if_top_def with_table_def
  at_table_def newtable_def rawget_of_def rawset_of_def rawgeti_def rawseti_def getfield_of_def setfield_of_def
  settable_of_def with_globals_def setmetatable_def if_metatable_def is_table_def lua_rawset_def Let_def

lemma run_append [lua_ops]: "run (fs @ gs) L = seqE (run fs L) (run gs)"
  by (induction fs arbitrary: L) (simp_all, metis seqE.simps seqE_Inl_iff sum.exhaust)

lemma tolua_function_eq [lua_ops]:
  "tolua_function name f \<lparr>stk = s @ [LTable t], tables = T, metas = M, fresh = n, gc_stopped = g\<rparr> =
     Inr \<lparr>stk = s @ [LTable t], tables = T(t := (T t)(LStr name := LFun f)), metas = M, fresh = n, gc_stopped = g\<rparr>"
  by (simp add: tolua_function_def lua_ops)

lemma tolua_functions_eq:
  "run (map (\<lambda>(m, f). tolua_function m (cf f)) fs) \<lparr>stk = s @ [LTable t], tables = T, metas = M, fresh = n, gc_stopped = g\<rparr> =
     Inr \<lparr>stk = s @ [LTable t], tables = T(t := foldl (\<lambda>tb (m, f). tb(LStr m := LFun (cf f))) (T t) fs), metas = M,
       fresh = n, gc_stopped = g\<rparr>"
  by (induction fs arbitrary: T) (auto simp: tolua_function_eq)


section \<open>Classes\<close>

lemma run_done [lua_ops]: "seqE m (run []) = m"
  by (cases m) simp_all

text \<open>A class table: the events, the collector of tolua and its name.\<close>

definition class_table :: "(string \<Rightarrow> nat) \<Rightarrow> lval \<Rightarrow> string \<Rightarrow> lval \<Rightarrow> lval" where
  "class_table cf gc name =
     (foldl (\<lambda>tb e. tb(LStr e := LFun (cf e))) ((\<lambda>_. LNil)(LStr ''__name'' := LStr name)) class_event_names)(LStr ''__gc'' := gc)"

lemma class_events_run:
  "run (map (\<lambda>e. tolua_function e (cf e)) es) \<lparr>stk = s @ [LTable t], tables = T, metas = M, fresh = n, gc_stopped = g\<rparr> =
     Inr \<lparr>stk = s @ [LTable t], tables = T(t := foldl (\<lambda>tb e. tb(LStr e := LFun (cf e))) (T t) es), metas = M,
       fresh = n, gc_stopped = g\<rparr>"
  by (induction es arbitrary: T) (auto simp: tolua_function_eq)

lemma classevents_eq [lua_ops]:
  "tolua_classevents cf \<lparr>stk = s @ [LTable t], tables = T, metas = M, fresh = n, gc_stopped = g\<rparr> =
     Inr \<lparr>stk = s @ [LTable t],
       tables = T(t := (foldl (\<lambda>tb e. tb(LStr e := LFun (cf e))) (T t) class_event_names)
         (LStr ''__gc'' := (T(t := foldl (\<lambda>tb e. tb(LStr e := LFun (cf e))) (T t) class_event_names)) 0 (LStr ''tolua_gc_event''))),
       metas = M, fresh = n, gc_stopped = g\<rparr>"
  by (simp add: tolua_classevents_def lua_ops class_events_run REGISTRY_def)

lemma newmetatable_eq [lua_ops]:
  assumes "T 0 (LStr name) = LNil" and "M 0 = None" and "n \<noteq> 0" and "name \<noteq> ''tolua_gc_event''"
  shows "tolua_newmetatable ev cf name new \<lparr>stk = s, tables = T, metas = M, fresh = n, gc_stopped = g\<rparr> =
     run new \<lparr>stk = s, tables = T(0 := (T 0)(LStr name := LTable n, LTable n := LStr name),
         n := class_table cf (T 0 (LStr ''tolua_gc_event'')) name),
       metas = M(n := None), fresh = n + 1, gc_stopped = g\<rparr>"
  using assms
  by (simp add: tolua_newmetatable_def luaL_getmetatable_def REGISTRY_def key_def lua_ops class_table_def fun_upd_twist)

lemma mapsuper_new [lua_ops]:
  assumes "T 0 (LStr ''tolua_super'') = LTable sp" and "T 0 (LStr name) = LTable a" and "T sp (LTable a) = LNil"
    and "T 0 (LStr base) = (case bt of None \<Rightarrow> LNil | Some b \<Rightarrow> LTable b)"
    and "T sp (case bt of None \<Rightarrow> LNil | Some b \<Rightarrow> LTable b) = LNil"
    and "M 0 = None" and "0 < n" and "sp \<noteq> 0" and "sp < n" and "a < n" and "bt \<noteq> Some a"
  shows "mapsuper ev name base \<lparr>stk = s, tables = T, metas = M, fresh = n, gc_stopped = g\<rparr> =
     Inr \<lparr>stk = s, tables = T(sp := (T sp)(LTable a := LTable n), n := (\<lambda>_. LNil)(LStr base := LBool True)),
       metas = M(n := None), fresh = n + 1, gc_stopped = g\<rparr>"
  using assms
  by (cases bt) (simp_all add: mapsuper_def luaL_getmetatable_def REGISTRY_def key_def lua_ops fun_upd_twist)


lemma mapsuper_old [lua_ops]:
  assumes "T 0 (LStr ''tolua_super'') = LTable sp" and "T 0 (LStr name) = LTable a" and "T sp (LTable a) = LTable sa"
    and "T 0 (LStr base) = LNil" and "T sp LNil = LNil" and "M 0 = None" and "sp \<noteq> sa" and "sa \<noteq> 0"
  shows "mapsuper ev name base \<lparr>stk = s, tables = T, metas = M, fresh = n, gc_stopped = g\<rparr> =
     Inr \<lparr>stk = s, tables = T(sa := (T sa)(LStr base := LBool True)), metas = M, fresh = n, gc_stopped = g\<rparr>"
  using assms
  by (simp add: mapsuper_def luaL_getmetatable_def REGISTRY_def key_def lua_ops fun_upd_twist)

text \<open>The class of a base class that has no objects yet; the weak table of objects is made.\<close>

lemma mapinheritance_root [lua_ops]:
  assumes "T 0 (LStr name) = LTable a" and "M a = None" and "T 0 (LStr ''tolua_commonclass'') = LTable cc"
    and "T cc (LStr ''tolua_ubox'') = LNil" and "M 0 = None" and "cc < n" and "a < n" and "0 < n"
  shows "mapinheritance ev name [] \<lparr>stk = s, tables = T, metas = M, fresh = n, gc_stopped = g\<rparr> =
     Inr \<lparr>stk = s, tables = T(n := \<lambda>_. LNil, n + 1 := (\<lambda>_. LNil)(LStr ''__mode'' := LStr ''v''),
         a := (T a)(LStr ''tolua_ubox'' := LTable n)),
       metas = M(n := Some (n + 1), n + 1 := None, a := Some cc), fresh = n + 2, gc_stopped = g\<rparr>"
  using assms
  by (simp add: mapinheritance_def set_ubox_def luaL_getmetatable_def REGISTRY_def key_def lua_ops fun_upd_twist)

lemma mapinheritance_sub [lua_ops]:
  assumes "T 0 (LStr name) = LTable a" and "T 0 (LStr base) = LTable b" and "T b (LStr ''tolua_ubox'') = LTable u"
    and "M 0 = None" and "base \<noteq> []"
  shows "mapinheritance ev name base \<lparr>stk = s, tables = T, metas = M, fresh = n, gc_stopped = g\<rparr> =
     Inr \<lparr>stk = s, tables = T(a := (T a)(LStr ''tolua_ubox'' := LTable u)), metas = M(a := Some b), fresh = n, gc_stopped = g\<rparr>"
  using assms
  by (simp add: mapinheritance_def set_ubox_def luaL_getmetatable_def REGISTRY_def key_def lua_ops fun_upd_twist)


lemmas mapsuper_some = mapsuper_new[where bt="Some b" for b, simplified option.case option.inject]
lemmas mapsuper_none = mapsuper_new[where bt=None, simplified option.case option.distinct not_False_eq_True simp_thms]

declare mapsuper_new [lua_ops del] mapsuper_some [lua_ops] mapsuper_none [lua_ops]

lemma usertype_eq [lua_ops]:
  assumes "T 0 (LStr ''tolua_super'') = LTable sp" "T 0 (LStr name) = LNil" "T 0 (LStr (const_name name)) = LNil"
    and "M 0 = None" "\<And>k. n \<le> k \<Longrightarrow> T sp (LTable k) = LNil" "0 < sp" "sp < n" "const_name name \<noteq> name"
    and "name \<notin> {''tolua_super'', ''tolua_gc_event''}" "const_name name \<notin> {''tolua_super'', ''tolua_gc_event''}"
  shows "tolua_usertype ev cf name \<lparr>stk = s, tables = T, metas = M, fresh = n, gc_stopped = g\<rparr> =
     Inr \<lparr>stk = s, tables = T(0 := (T 0)(LStr (const_name name) := LTable n, LTable n := LStr (const_name name),
           LStr name := LTable (n + 1), LTable (n + 1) := LStr name),
         n := class_table cf (T 0 (LStr ''tolua_gc_event'')) (const_name name),
         n + 1 := class_table cf (T 0 (LStr ''tolua_gc_event'')) name,
         sp := (T sp)(LTable (n + 1) := LTable (n + 2)), n + 2 := (\<lambda>_. LNil)(LStr (const_name name) := LBool True)),
       metas = M(n := None, n + 1 := None, n + 2 := None), fresh = n + 3, gc_stopped = g\<rparr>"
proof -
  have "''tolua_super'' \<noteq> name" "''tolua_gc_event'' \<noteq> name" "''tolua_super'' \<noteq> const_name name"
    "''tolua_gc_event'' \<noteq> const_name name" "name \<noteq> const_name name"
    using assms(8-10) by auto
  then show ?thesis using assms by (simp add: tolua_usertype_def lua_ops fun_upd_twist)
qed


lemma cclass_eq [lua_ops]:
  assumes reg: "T 0 (LStr ''tolua_super'') = LTable sp" "T 0 (LStr ''tolua_commonclass'') = LTable cc"
      "T 0 (LStr name) = LTable a" "T 0 (LStr (const_name name)) = LTable c" "T 0 (LStr []) = LNil" "T 0 (LStr ''const '') = LNil"
    and tab: "T cc (LStr ''tolua_ubox'') = LNil" "T sp LNil = LNil" "M 0 = None" "M a = None"
      "T sp (LTable c) = LNil" "T sp (LTable a) = LTable sa"
    and ids: "0 < sp" "0 < m" "0 < cc" "0 < a" "0 < c" "0 < sa" "sp < n" "m < n" "cc < n" "a < n" "c < n" "sa < n"
      "sp \<noteq> m" "sp \<noteq> cc" "m \<noteq> cc" "a \<notin> {sp, m, cc, c, sa}" "c \<notin> {sp, m, cc, sa}" "sa \<notin> {sp, m, cc}"
    and names: "name \<noteq> []"
  shows "tolua_cclass ev lname name [] \<lparr>stk = s @ [LTable m], tables = T, metas = M, fresh = n, gc_stopped = g\<rparr> =
     Inr \<lparr>stk = s @ [LTable m],
       tables = T(n := \<lambda>_. LNil, n + 1 := (\<lambda>_. LNil)(LStr ''__mode'' := LStr ''v''),
         a := (T a)(LStr ''tolua_ubox'' := LTable n), c := (T c)(LStr ''tolua_ubox'' := LTable n),
         sp := (T sp)(LTable c := LTable (n + 2)), n + 2 := (\<lambda>_. LNil)(LStr ''const '' := LBool True),
         sa := (T sa)(LStr [] := LBool True), m := (T m)(LStr lname := LTable a)),
       metas = M(n := Some (n + 1), n + 1 := None, a := Some cc, c := Some a, n + 2 := None), fresh = n + 3, gc_stopped = g\<rparr>"
proof -
  have c: "const_name [] = ''const ''" by (simp add: const_name_def)
  have syms: "cc \<noteq> a" "cc \<noteq> c" "c \<noteq> a" "sp \<noteq> a" "sp \<noteq> c" "m \<noteq> a" "m \<noteq> c" "sp \<noteq> sa" "m \<noteq> sa" "cc \<noteq> sa" "m \<noteq> sp" "sa \<noteq> a" "sa \<noteq> c"
    using ids by auto
  show ?thesis
    using reg tab ids names syms
    by (simp add: tolua_cclass_def luaL_getmetatable_def REGISTRY_def key_def c lua_ops fun_upd_twist)
qed


text \<open>The entries the functions of a class get in its table.\<close>

definition with_functions :: "(string \<Rightarrow> nat) \<Rightarrow> (string \<times> string) list \<Rightarrow> (lval \<Rightarrow> lval) \<Rightarrow> lval \<Rightarrow> lval" where
  "with_functions cf fs tb = foldl (\<lambda>tb (m, f). tb(LStr m := LFun (cf f))) tb fs"

lemma with_functions_get:
  "(m, f) \<in> set fs \<Longrightarrow> distinct (map fst fs) \<Longrightarrow> with_functions cf fs tb (LStr m) = LFun (cf f)"
proof (induction fs rule: rev_induct)
  case (snoc x fs)
  then show ?case by (cases x) (auto simp: with_functions_def rev_image_eqI)
qed simp

text \<open>
  A class of the engine in the module at the top: its metatable becomes the entry of the module, and
  the registry knows it by its name.
\<close>

definition class_ops :: "events \<Rightarrow> (string \<Rightarrow> nat) \<Rightarrow> string \<Rightarrow> string \<Rightarrow> (string \<times> string) list \<Rightarrow> lop list" where
  "class_ops ev cf lname name fs =
     [tolua_usertype ev cf name, tolua_cclass ev lname name [], tolua_beginmodule (Some lname)] @
       map (\<lambda>(n, f). tolua_function n (cf f)) fs @ [tolua_endmodule]"

lemma register_class:
  assumes reg: "T 0 (LStr ''tolua_super'') = LTable sp" "T 0 (LStr ''tolua_commonclass'') = LTable cc"
      "T 0 (LStr name) = LNil" "T 0 (LStr (const_name name)) = LNil" "T 0 (LStr []) = LNil" "T 0 (LStr ''const '') = LNil"
    and tab: "T cc (LStr ''tolua_ubox'') = LNil" "T sp LNil = LNil" "M 0 = None" "\<And>k. n \<le> k \<Longrightarrow> T sp (LTable k) = LNil"
    and ids: "0 < sp" "0 < m" "0 < cc" "sp < n" "m < n" "cc < n" "sp \<noteq> m" "sp \<noteq> cc" "m \<noteq> cc"
    and names: "name \<noteq> []" "name \<noteq> ''const ''" "const_name name \<noteq> name" "const_name name \<noteq> ''const ''"
      "name \<notin> {''tolua_super'', ''tolua_commonclass'', ''tolua_gc_event''}"
      "const_name name \<notin> {''tolua_super'', ''tolua_commonclass'', ''tolua_gc_event''}"
  shows "\<exists>T' M'. run (class_ops ev cf lname name fs) \<lparr>stk = s @ [LTable m], tables = T, metas = M, fresh = n, gc_stopped = g\<rparr> =
      Inr \<lparr>stk = s @ [LTable m], tables = T', metas = M', fresh = n + 6, gc_stopped = g\<rparr> \<and>
    T' m = (T m)(LStr lname := LTable (n + 1)) \<and>
    (\<exists>tb. T' (n + 1) = with_functions cf fs tb) \<and>
    T' 0 = (T 0)(LStr (const_name name) := LTable n, LTable n := LStr (const_name name), LStr name := LTable (n + 1), LTable (n + 1) := LStr name) \<and>
    T' sp = (T sp)(LTable (n + 1) := LTable (n + 2), LTable n := LTable (n + 5)) \<and>
    (\<forall>t. t < n \<longrightarrow> t \<notin> {0, m, sp} \<longrightarrow> T' t = T t) \<and> (\<forall>t. t < n \<longrightarrow> M' t = M t)"
proof -
  have ne: "const_name name \<noteq> []" by (simp add: const_name_def)
  have syms: "''tolua_super'' \<noteq> name" "''tolua_gc_event'' \<noteq> name" "''tolua_super'' \<noteq> const_name name"
    "''tolua_gc_event'' \<noteq> const_name name" "name \<noteq> const_name name" "''tolua_commonclass'' \<noteq> name"
    "''tolua_commonclass'' \<noteq> const_name name" "''const '' \<noteq> name" "''const '' \<noteq> const_name name" "m \<noteq> sp" "cc \<noteq> sp" "cc \<noteq> m"
    using names ids by auto
  show ?thesis
    using reg tab ids names syms ne
    by (simp add: class_ops_def tolua_beginmodule_def tolua_endmodule_def lua_ops tolua_functions_eq[of _ _ "s @ [LTable m]", simplified] fun_upd_twist
        with_functions_def[symmetric])
      (auto simp: add.commute)
qed


section \<open>Opening tolua\<close>

lemma lua_settop_app [lua_ops]: "lua_settop (length s) (s @ ys) = s"
  by (simp add: lua_settop_def)

lemma tolua_open_again [lua_ops]:
  assumes "T 0 (LStr ''tolua_opened'') = LBool b"
  shows "tolua_open ev cf \<lparr>stk = s, tables = T, metas = M, fresh = n, gc_stopped = g\<rparr> =
     Inr \<lparr>stk = s, tables = T, metas = M, fresh = n, gc_stopped = g\<rparr>"
  using assms by (simp add: tolua_open_def lua_ops REGISTRY_def)

definition opened_registry :: "(string \<Rightarrow> nat) \<Rightarrow> nat \<Rightarrow> (lval \<Rightarrow> lval) \<Rightarrow> lval \<Rightarrow> lval" where
  "opened_registry cf n R =
     R(LStr ''tolua_opened'' := LBool True, LStr ''tolua_ubox'' := LTable n, LStr ''tolua_super'' := LTable (n + 2),
       LStr ''tolua_gc'' := LTable (n + 3), LStr ''tolua_gc_event'' := LFun (cf ''class_gc_event''),
       LStr ''tolua_commonclass'' := LTable (n + 4), LTable (n + 4) := LStr ''tolua_commonclass'')"

text \<open>The stack already holds the answer to the question whether tolua was opened.\<close>

lemma tolua_registry_eq:
  assumes "T 0 (LStr ''tolua_opened'') = LNil" "0 < n"
  shows "run (tolua_registry cf) \<lparr>stk = s @ [v], tables = T, metas = M, fresh = n, gc_stopped = g\<rparr> =
     Inr \<lparr>stk = s @ [v], tables = T(0 := (T 0)(LStr ''tolua_opened'' := LBool True, LStr ''tolua_ubox'' := LTable n,
           LStr ''tolua_super'' := LTable (n + 2), LStr ''tolua_gc'' := LTable (n + 3),
           LStr ''tolua_gc_event'' := LFun (cf ''class_gc_event'')),
         n := \<lambda>_. LNil, n + 1 := (\<lambda>_. LNil)(LStr ''__mode'' := LStr ''v''), n + 2 := \<lambda>_. LNil, n + 3 := \<lambda>_. LNil),
       metas = M(n := Some (n + 1), n + 1 := None, n + 2 := None, n + 3 := None), fresh = n + 4, gc_stopped = g\<rparr>"
  using assms
  by (simp add: tolua_registry_def lua_ops REGISTRY_def fun_upd_twist) (simp add: numeral_eq_Suc)

lemma tolua_names_eq:
  "run (map (\<lambda>e. tolua_function e (cf e)) es) \<lparr>stk = s @ [c, b, LTable t], tables = T, metas = M, fresh = n, gc_stopped = g\<rparr> =
     Inr \<lparr>stk = s @ [c, b, LTable t], tables = T(t := foldl (\<lambda>tb e. tb(LStr e := LFun (cf e))) (T t) es), metas = M,
       fresh = n, gc_stopped = g\<rparr>"
  using class_events_run[of cf es "s @ [c, b]"] by simp

lemma tolua_own_module_eq:
  assumes "T 0 (idx 2) = LTable G" "T G (LStr ''tolua'') = LNil" "0 < n" "G < n"
  shows "run (tolua_own_module cf) \<lparr>stk = s @ [v], tables = T, metas = M, fresh = n, gc_stopped = g\<rparr> =
     Inr \<lparr>stk = s @ [v], tables = T(G := (T G)(LStr ''tolua'' := LTable n),
           n := foldl (\<lambda>tb e. tb(LStr e := LFun (cf e))) (\<lambda>_. LNil) tolua_functions),
       metas = M(n := None), fresh = n + 1, gc_stopped = g\<rparr>"
  using assms
  by (simp add: tolua_own_module_def tolua_module_def tolua_beginmodule_def tolua_endmodule_def lua_ops REGISTRY_def
      tolua_names_eq fun_upd_twist)

lemma class_table_get:
  "x \<noteq> ''__name'' \<Longrightarrow> x \<noteq> ''__gc'' \<Longrightarrow> x \<notin> set class_event_names \<Longrightarrow> class_table cf gc name (LStr x) = LNil"
  by (auto simp: class_table_def class_event_names_def)

lemma idx_neq [simp]: "idx k \<noteq> LStr x" "idx k \<noteq> LTable t" "LStr x \<noteq> idx k" "LTable t \<noteq> idx k"
  by (simp_all add: idx_def)

lemma tolua_open_first:
  assumes "T 0 (LStr ''tolua_opened'') = LNil" "T 0 (LStr ''tolua_commonclass'') = LNil" "M 0 = None"
    and "T 0 (idx 2) = LTable G" "0 < G" "G < n" "T G (LStr ''tolua'') = LNil"
  shows "\<exists>T' M'. tolua_open ev cf \<lparr>stk = s, tables = T, metas = M, fresh = n, gc_stopped = g\<rparr> =
     Inr \<lparr>stk = s, tables = T', metas = M', fresh = n + 6, gc_stopped = g\<rparr> \<and>
     T' 0 = opened_registry cf n (T 0) \<and> T' (n + 2) = (\<lambda>_. LNil) \<and> T' (n + 4) (LStr ''tolua_ubox'') = LNil \<and>
     T' G = (T G)(LStr ''tolua'' := LTable (n + 5)) \<and>
     (\<forall>t. t < n \<longrightarrow> t \<notin> {0, G} \<longrightarrow> T' t = T t) \<and> (\<forall>t. t < n \<longrightarrow> M' t = M t)"
  using assms
  by (simp add: tolua_open_def lua_ops REGISTRY_def tolua_registry_eq tolua_own_module_eq opened_registry_def fun_upd_twist)
    (simp add: class_table_get class_event_names_def add.commute)

text \<open>A new module in the table at the top, and what is registered in it.\<close>

lemma tolua_module_new [lua_ops]:
  assumes "T t (LStr name) = LNil" "t < n"
  shows "tolua_module (Some name) \<lparr>stk = s @ [LTable t], tables = T, metas = M, fresh = n, gc_stopped = g\<rparr> =
     Inr \<lparr>stk = s @ [LTable t], tables = T(t := (T t)(LStr name := LTable n), n := \<lambda>_. LNil), metas = M(n := None),
       fresh = n + 1, gc_stopped = g\<rparr>"
  using assms by (simp add: tolua_module_def lua_ops fun_upd_twist)

lemma tolua_beginmodule_eq [lua_ops]:
  "tolua_beginmodule (Some name) \<lparr>stk = s @ [LTable t], tables = T, metas = M, fresh = n, gc_stopped = g\<rparr> =
     Inr \<lparr>stk = s @ [LTable t, T t (LStr name)], tables = T, metas = M, fresh = n, gc_stopped = g\<rparr>"
  by (simp add: tolua_beginmodule_def lua_ops)


text \<open>What the registration needs of the registry: the globals and the tables of tolua.\<close>

definition reg_ok :: "(nat \<Rightarrow> lval \<Rightarrow> lval) \<Rightarrow> (nat \<Rightarrow> nat option) \<Rightarrow> nat \<Rightarrow> nat \<Rightarrow> nat \<Rightarrow> nat \<Rightarrow> bool" where
  "reg_ok T M n G sp cc \<longleftrightarrow>
     T 0 (idx 2) = LTable G \<and> T 0 (LStr ''tolua_opened'') = LBool True \<and> T 0 (LStr ''tolua_super'') = LTable sp \<and>
     T 0 (LStr ''tolua_commonclass'') = LTable cc \<and> T 0 (LStr []) = LNil \<and> T 0 (LStr ''const '') = LNil \<and>
     T cc (LStr ''tolua_ubox'') = LNil \<and> T sp LNil = LNil \<and> M 0 = None \<and> (\<forall>k\<ge>n. T sp (LTable k) = LNil) \<and>
     0 < G \<and> 0 < sp \<and> 0 < cc \<and> G < n \<and> sp < n \<and> cc < n \<and> sp \<noteq> cc \<and> G \<noteq> sp \<and> G \<noteq> cc"

definition class_name_ok :: "string \<Rightarrow> bool" where
  "class_name_ok name \<longleftrightarrow>
     name \<noteq> [] \<and> name \<noteq> ''const '' \<and> const_name name \<noteq> name \<and> const_name name \<noteq> ''const '' \<and>
     name \<notin> {''tolua_opened'', ''tolua_super'', ''tolua_commonclass'', ''tolua_gc_event''} \<and>
     const_name name \<notin> {''tolua_opened'', ''tolua_super'', ''tolua_commonclass'', ''tolua_gc_event''}"

lemma register_module:
  assumes ok: "reg_ok T M n G sp cc" and nm: "class_name_ok name"
    and new: "T G (LStr mo) = LNil" "T 0 (LStr name) = LNil" "T 0 (LStr (const_name name)) = LNil"
  shows "\<exists>T' M'. run [tolua_module (Some mo), tolua_beginmodule (Some mo), run (class_ops ev cf lname name fs), tolua_endmodule]
        \<lparr>stk = s @ [LTable G], tables = T, metas = M, fresh = n, gc_stopped = g\<rparr> =
      Inr \<lparr>stk = s @ [LTable G], tables = T', metas = M', fresh = n + 7, gc_stopped = g\<rparr> \<and>
    reg_ok T' M' (n + 7) G sp cc \<and> T' G = (T G)(LStr mo := LTable n) \<and>
    T' n (LStr lname) = LTable (n + 2) \<and> (\<exists>tb. T' (n + 2) = with_functions cf fs tb) \<and>
    T' 0 = (T 0)(LStr (const_name name) := LTable (n + 1), LTable (n + 1) := LStr (const_name name),
      LStr name := LTable (n + 2), LTable (n + 2) := LStr name) \<and>
    (\<forall>t. t < n \<longrightarrow> t \<notin> {0, G, sp} \<longrightarrow> T' t = T t) \<and> (\<forall>t. t < n \<longrightarrow> M' t = M t)"
proof -
  let ?T = "T(G := (T G)(LStr mo := LTable n), n := \<lambda>_. LNil)" and ?M = "M(n := None)"
  obtain T' M' where T': "run (class_ops ev cf lname name fs)
        \<lparr>stk = (s @ [LTable G]) @ [LTable n], tables = ?T, metas = ?M, fresh = n + 1, gc_stopped = g\<rparr> =
      Inr \<lparr>stk = (s @ [LTable G]) @ [LTable n], tables = T', metas = M', fresh = n + 1 + 6, gc_stopped = g\<rparr>"
    and m: "T' n = (?T n)(LStr lname := LTable (n + 1 + 1))" and f: "\<exists>tb. T' (n + 1 + 1) = with_functions cf fs tb"
    and r: "T' 0 = (?T 0)(LStr (const_name name) := LTable (n + 1), LTable (n + 1) := LStr (const_name name),
      LStr name := LTable (n + 1 + 1), LTable (n + 1 + 1) := LStr name)"
    and sp: "T' sp = (?T sp)(LTable (n + 1 + 1) := LTable (n + 1 + 2), LTable (n + 1) := LTable (n + 1 + 5))"
    and rest: "\<forall>t. t < n + 1 \<longrightarrow> t \<notin> {0, n, sp} \<longrightarrow> T' t = ?T t" and M': "\<forall>t. t < n + 1 \<longrightarrow> M' t = ?M t"
    using register_class[where T="?T" and M="?M" and sp=sp and cc=cc and name=name and m=n and n="n + 1" and ev=ev and cf=cf
        and lname=lname and fs=fs and s="s @ [LTable G]" and g=g] ok nm new
    unfolding reg_ok_def class_name_ok_def by auto
  have "run [tolua_module (Some mo), tolua_beginmodule (Some mo), run (class_ops ev cf lname name fs), tolua_endmodule]
        \<lparr>stk = s @ [LTable G], tables = T, metas = M, fresh = n, gc_stopped = g\<rparr> =
      Inr \<lparr>stk = s @ [LTable G], tables = T', metas = M', fresh = n + 7, gc_stopped = g\<rparr>"
    using new ok T' by (simp add: lua_ops reg_ok_def tolua_endmodule_def)
  moreover have "reg_ok T' M' (n + 7) G sp cc"
  proof -
    have cc: "T' cc = T cc" and m0: "M' 0 = M 0" using rest M' ok by (auto simp: reg_ok_def)
    have sp': "T' sp = (T sp)(LTable (n + 1 + 1) := LTable (n + 1 + 2), LTable (n + 1) := LTable (n + 1 + 5))"
      using sp ok by (simp add: reg_ok_def)
    have keep: "T' 0 (LStr x) = T 0 (LStr x)" if "x \<noteq> name" "x \<noteq> const_name name" for x
      using r ok that by (simp add: reg_ok_def)
    have glob: "T' 0 (idx 2) = T 0 (idx 2)" using r ok by (simp add: reg_ok_def)
    have "x \<noteq> name \<and> x \<noteq> const_name name"
      if "x \<in> {''tolua_opened'', ''tolua_super'', ''tolua_commonclass'', [], ''const ''}" for x
      using nm that by (auto simp: class_name_ok_def const_name_def)
    then show ?thesis using ok unfolding reg_ok_def cc m0 sp' glob by (simp add: keep)
  qed
  moreover have "T' G = (T G)(LStr mo := LTable n)" using rest ok by (simp add: reg_ok_def)
  moreover have "T' n (LStr lname) = LTable (n + 2)" "\<exists>tb. T' (n + 2) = with_functions cf fs tb" using m f by simp_all
  moreover have "T' 0 = (T 0)(LStr (const_name name) := LTable (n + 1), LTable (n + 1) := LStr (const_name name),
      LStr name := LTable (n + 2), LTable (n + 2) := LStr name)" using r ok by (simp add: reg_ok_def)
  moreover have "\<forall>t. t < n \<longrightarrow> t \<notin> {0, G, sp} \<longrightarrow> T' t = T t" "\<forall>t. t < n \<longrightarrow> M' t = M t" using rest M' by simp_all
  ultimately show ?thesis by blast
qed


section \<open>Searchers\<close>

text \<open>The integer keys of a table as the sequence \<open>LuaStack\<close> works on.\<close>

definition entries :: "(lval \<Rightarrow> lval) \<Rightarrow> nat \<Rightarrow> lval" where
  "entries tb k = tb (idx k)"

fun shift_table :: "nat \<Rightarrow> (lval \<Rightarrow> lval) \<Rightarrow> lval \<Rightarrow> lval" where
  "shift_table i tb = (if i > 2 then shift_table (i - 1) (tb(idx i := tb (idx (i - 1)))) else tb)"

declare shift_table.simps [simp del]

lemma entries_upd: "entries (tb(idx i := v)) = (entries tb)(i := v)"
  by (auto simp: entries_def idx_def)

lemma entries_shift: "entries (shift_table i tb) = shift_searchers i (entries tb)"
proof (induction i tb rule: shift_table.induct)
  case (1 i tb)
  show ?case
  proof (cases "i > 2")
    case True
    have "entries (shift_table (i - 1) (tb(idx i := tb (idx (i - 1))))) = shift_searchers (i - 1) ((entries tb)(i := entries tb (i - 1)))"
      using 1[OF True] unfolding entries_upd entries_def[of tb "i - 1"] .
    then show ?thesis using True by (simp add: shift_table.simps[of i] shift_searchers.simps[of i])
  qed (simp add: shift_table.simps[of i] shift_searchers.simps[of i])
qed

lemma shift_ops_eq:
  "run (shift_ops i) \<lparr>stk = s @ [LTable t, v], tables = T, metas = M, fresh = n, gc_stopped = g\<rparr> =
     Inr \<lparr>stk = s @ [LTable t, v], tables = T(t := shift_table i (T t)), metas = M, fresh = n, gc_stopped = g\<rparr>"
proof (induction i arbitrary: T rule: shift_ops.induct)
  case (1 i)
  show ?case
  proof (cases "i > 2")
    case True
    then show ?thesis
      by (simp add: shift_ops.simps[of i] lua_ops 1[OF True, simplified] shift_table.simps[of i]) (simp add: fun_eq_iff)
  qed (simp add: shift_ops.simps[of i] shift_table.simps[of i])
qed

lemma addLoader_eq:
  assumes "T 0 (idx 2) = LTable G" "T G (LStr ''package'') = LTable pk" "T pk (LStr ''searchers'') = LTable se" "se \<noteq> pk"
  shows "\<exists>tb. luaStack_addLoader ev len (Some f) \<lparr>stk = s, tables = T, metas = M, fresh = n, gc_stopped = g\<rparr> =
      Inr \<lparr>stk = s, tables = T(se := tb), metas = M, fresh = n, gc_stopped = g\<rparr> \<and>
    entries tb = addLoader (len (T se)) (LFun f) (entries (T se))"
  using assms
  by (auto simp: luaStack_addLoader_def lua_ops REGISTRY_def key_def shift_ops_eq[of _ "s @ [LTable pk]", simplified]
      addLoader_def entries_upd entries_shift fun_upd_idem)


section \<open>The state of an actor\<close>

text \<open>
  What \<open>luaL_openlibs\<close> leaves: an empty stack, the table of globals \<open>G\<close>, the loaded modules \<open>ld\<close>, the
  module \<open>package\<close> at \<open>pk\<close> with its searchers \<open>se\<close>, and nothing under the names of tolua and of the engine.
\<close>

definition engine_names :: "string list" where
  "engine_names =
     [''tolua_opened'', ''tolua_commonclass'', [], ''const '', ''ccore.Actor'', ''const ccore.Actor'', ''cnet.Socket'',
      ''const cnet.Socket'', LUA_STACK_FIX_CALLBACK]"

definition libs_open :: "lua \<Rightarrow> nat \<Rightarrow> nat \<Rightarrow> nat \<Rightarrow> nat \<Rightarrow> bool" where
  "libs_open L G ld pk se \<longleftrightarrow>
     stk L = [] \<and> tables L 0 (idx 2) = LTable G \<and> tables L 0 (LStr ''_LOADED'') = LTable ld \<and>
     tables L ld (LStr ''_G'') = LTable G \<and> tables L G (LStr ''package'') = LTable pk \<and>
     tables L pk (LStr ''searchers'') = LTable se \<and>
     list_all (\<lambda>s. tables L 0 (LStr s) = LNil) engine_names \<and>
     list_all (\<lambda>s. tables L G (LStr s) = LNil) [''tolua'', ''ccore'', ''cnet''] \<and>
     metas L 0 = None \<and> metas L G = None \<and> distinct [0, G, ld, pk, se] \<and>
     list_all (\<lambda>t. t < fresh L) [0, G, ld, pk, se]"

lemma register_G [lua_ops]:
  assumes "T 0 (LStr ''_LOADED'') = LTable ld" "T ld (LStr ''_G'') = LTable G"
  shows "luaL_register_none ev ''_G'' \<lparr>stk = s, tables = T, metas = M, fresh = n, gc_stopped = g\<rparr> =
     Inr \<lparr>stk = s @ [LTable G], tables = T, metas = M, fresh = n, gc_stopped = g\<rparr>"
  using assms
  by (simp add: luaL_register_none_def luaL_pushmodule_def luaL_findtable_def lua_ops REGISTRY_def key_def)

lemma core_is_class: "register_core_actor ev cf = run (class_ops ev cf ''Actor'' ''ccore.Actor'' core_functions)"
  by (simp add: register_core_actor_def class_ops_def)

lemma socket_is_class: "register_network_socket ev cf = run (class_ops ev cf ''Socket'' ''cnet.Socket'' network_functions)"
  by (simp add: register_network_socket_def class_ops_def)

lemma class_names_ok: "class_name_ok ''ccore.Actor''" "class_name_ok ''cnet.Socket''"
  by (simp_all add: class_name_ok_def const_name_def)

text \<open>A module of the globals with a class: \<open>m\<close> is its table, \<open>c\<close> that of the class.\<close>

definition class_at :: "(string \<Rightarrow> nat) \<Rightarrow> (nat \<Rightarrow> lval \<Rightarrow> lval) \<Rightarrow> nat \<Rightarrow> string \<Rightarrow> string \<Rightarrow> string \<Rightarrow> (string \<times> string) list \<Rightarrow>
    nat \<Rightarrow> nat \<Rightarrow> bool" where
  "class_at cf T G mo lname name fs m c \<longleftrightarrow>
     T G (LStr mo) = LTable m \<and> T m (LStr lname) = LTable c \<and>
     T 0 (LTable c) = LStr name \<and> list_all (\<lambda>(k, f). T c (LStr k) = LFun (cf f)) fs"

lemma module_with_class:
  assumes ok: "reg_ok T M n G sp cc" and nm: "class_name_ok name" and dist: "distinct (map fst fs)"
    and new: "T G (LStr mo) = LNil" "T 0 (LStr name) = LNil" "T 0 (LStr (const_name name)) = LNil"
  shows "\<exists>T' M'. run [tolua_module (Some mo), tolua_beginmodule (Some mo), run (class_ops ev cf lname name fs), tolua_endmodule]
        \<lparr>stk = [LTable G], tables = T, metas = M, fresh = n, gc_stopped = g\<rparr> =
      Inr \<lparr>stk = [LTable G], tables = T', metas = M', fresh = n + 7, gc_stopped = g\<rparr> \<and>
    reg_ok T' M' (n + 7) G sp cc \<and> class_at cf T' G mo lname name fs n (n + 2) \<and> T' G = (T G)(LStr mo := LTable n) \<and>
    (\<forall>x. x \<notin> {name, const_name name} \<longrightarrow> T' 0 (LStr x) = T 0 (LStr x)) \<and>
    (\<forall>t<n. T' 0 (LTable t) = T 0 (LTable t)) \<and>
    (\<forall>t<n. t \<notin> {0, G, sp} \<longrightarrow> T' t = T t) \<and> (\<forall>t<n. M' t = M t)"
proof -
  obtain T' M' tb where *: "run [tolua_module (Some mo), tolua_beginmodule (Some mo), run (class_ops ev cf lname name fs), tolua_endmodule]
        \<lparr>stk = [] @ [LTable G], tables = T, metas = M, fresh = n, gc_stopped = g\<rparr> =
      Inr \<lparr>stk = [] @ [LTable G], tables = T', metas = M', fresh = n + 7, gc_stopped = g\<rparr>"
    "reg_ok T' M' (n + 7) G sp cc" "T' G = (T G)(LStr mo := LTable n)" "T' n (LStr lname) = LTable (n + 2)"
    "T' (n + 2) = with_functions cf fs tb"
    and r: "T' 0 = (T 0)(LStr (const_name name) := LTable (n + 1), LTable (n + 1) := LStr (const_name name),
      LStr name := LTable (n + 2), LTable (n + 2) := LStr name)"
    and keep: "\<forall>t. t < n \<longrightarrow> t \<notin> {0, G, sp} \<longrightarrow> T' t = T t" "\<forall>t. t < n \<longrightarrow> M' t = M t"
    using register_module[OF ok nm new, of ev cf lname fs "[]" g] by auto
  have "class_at cf T' G mo lname name fs n (n + 2)"
    using * r dist by (auto simp: class_at_def list_all_iff with_functions_get)
  then show ?thesis using * r keep by (intro exI[of _ T'] exI[of _ M']) simp
qed

text \<open>Both modules, from a registry in which tolua is open.\<close>

lemma class_at_keep:
  assumes "class_at cf T G mo lname name fs m c" and "T' G (LStr mo) = T G (LStr mo)" and "T' 0 (LTable c) = T 0 (LTable c)"
    and "T' m = T m" and "T' c = T c"
  shows "class_at cf T' G mo lname name fs m c"
  using assms by (simp add: class_at_def)

lemma both_modules:
  assumes ok: "reg_ok T M n G sp cc" and n: "G < n" "sp < n" "0 < n"
    and new: "T G (LStr ''ccore'') = LNil" "T G (LStr ''cnet'') = LNil"
      "T 0 (LStr ''ccore.Actor'') = LNil" "T 0 (LStr ''const ccore.Actor'') = LNil"
      "T 0 (LStr ''cnet.Socket'') = LNil" "T 0 (LStr ''const cnet.Socket'') = LNil"
  shows "\<exists>T' M'. run [tolua_module (Some ''ccore''), tolua_beginmodule (Some ''ccore''), register_core_actor ev cf, tolua_endmodule,
          registerAllNetwork ev cf] \<lparr>stk = [LTable G], tables = T, metas = M, fresh = n, gc_stopped = g\<rparr> =
      Inr \<lparr>stk = [LTable G], tables = T', metas = M', fresh = n + 14, gc_stopped = g\<rparr> \<and>
    reg_ok T' M' (n + 14) G sp cc \<and>
    class_at cf T' G ''ccore'' ''Actor'' ''ccore.Actor'' core_functions n (n + 2) \<and>
    class_at cf T' G ''cnet'' ''Socket'' ''cnet.Socket'' network_functions (n + 7) (n + 9) \<and>
    T' G = (T G)(LStr ''ccore'' := LTable n, LStr ''cnet'' := LTable (n + 7)) \<and>
    T' 0 (LStr LUA_STACK_FIX_ACTOR) = T 0 (LStr LUA_STACK_FIX_ACTOR) \<and>
    T' 0 (LStr LUA_STACK_FIX_CALLBACK) = T 0 (LStr LUA_STACK_FIX_CALLBACK) \<and>
    (\<forall>t<n. t \<notin> {0, G, sp} \<longrightarrow> T' t = T t) \<and> (\<forall>t<n. M' t = M t)"
proof -
  have cn: "const_name ''ccore.Actor'' = ''const ccore.Actor''" "const_name ''cnet.Socket'' = ''const cnet.Socket''"
    by (simp_all add: const_name_def)
  have dist: "distinct (map fst core_functions)" "distinct (map fst network_functions)"
    by (simp_all add: core_functions_def network_functions_def)
  obtain T1 M1 where o1: "run [tolua_module (Some ''ccore''), tolua_beginmodule (Some ''ccore''),
        run (class_ops ev cf ''Actor'' ''ccore.Actor'' core_functions), tolua_endmodule]
        \<lparr>stk = [LTable G], tables = T, metas = M, fresh = n, gc_stopped = g\<rparr> =
      Inr \<lparr>stk = [LTable G], tables = T1, metas = M1, fresh = n + 7, gc_stopped = g\<rparr>"
    and ok1: "reg_ok T1 M1 (n + 7) G sp cc" and c1: "class_at cf T1 G ''ccore'' ''Actor'' ''ccore.Actor'' core_functions n (n + 2)"
    and g1: "T1 G = (T G)(LStr ''ccore'' := LTable n)"
    and r1: "\<forall>x. x \<notin> {''ccore.Actor'', ''const ccore.Actor''} \<longrightarrow> T1 0 (LStr x) = T 0 (LStr x)"
    and k1: "\<forall>t<n. t \<notin> {0, G, sp} \<longrightarrow> T1 t = T t" "\<forall>t<n. M1 t = M t"
    using module_with_class[OF ok class_names_ok(1) dist(1), of "''ccore''" ev cf "''Actor''" g] new unfolding cn by blast
  have new1: "T1 G (LStr ''cnet'') = LNil" "T1 0 (LStr ''cnet.Socket'') = LNil" "T1 0 (LStr ''const cnet.Socket'') = LNil"
    using new g1 r1 by simp_all
  obtain T2 M2 where o2: "run [tolua_module (Some ''cnet''), tolua_beginmodule (Some ''cnet''),
        run (class_ops ev cf ''Socket'' ''cnet.Socket'' network_functions), tolua_endmodule]
        \<lparr>stk = [LTable G], tables = T1, metas = M1, fresh = n + 7, gc_stopped = g\<rparr> =
      Inr \<lparr>stk = [LTable G], tables = T2, metas = M2, fresh = n + 7 + 7, gc_stopped = g\<rparr>"
    and ok2: "reg_ok T2 M2 (n + 7 + 7) G sp cc"
    and c2: "class_at cf T2 G ''cnet'' ''Socket'' ''cnet.Socket'' network_functions (n + 7) (n + 7 + 2)"
    and g2: "T2 G = (T1 G)(LStr ''cnet'' := LTable (n + 7))"
    and r2: "\<forall>x. x \<notin> {''cnet.Socket'', ''const cnet.Socket''} \<longrightarrow> T2 0 (LStr x) = T1 0 (LStr x)"
      "\<forall>t<n + 7. T2 0 (LTable t) = T1 0 (LTable t)"
    and k2: "\<forall>t<n + 7. t \<notin> {0, G, sp} \<longrightarrow> T2 t = T1 t" "\<forall>t<n + 7. M2 t = M1 t"
    using module_with_class[OF ok1 class_names_ok(2) dist(2), of "''cnet''" ev cf "''Socket''" g] new1 unfolding cn by blast
  have "class_at cf T2 G ''ccore'' ''Actor'' ''ccore.Actor'' core_functions n (n + 2)"
    by (rule class_at_keep[OF c1]) (use g2 r2 k2 n in simp_all)
  moreover have "run [tolua_module (Some ''ccore''), tolua_beginmodule (Some ''ccore''), register_core_actor ev cf, tolua_endmodule,
          registerAllNetwork ev cf] \<lparr>stk = [LTable G], tables = T, metas = M, fresh = n, gc_stopped = g\<rparr> =
      Inr \<lparr>stk = [LTable G], tables = T2, metas = M2, fresh = n + 7 + 7, gc_stopped = g\<rparr>"
  proof -
    note split = run_append[of "[tolua_module (Some ''ccore''), tolua_beginmodule (Some ''ccore''),
        run (class_ops ev cf ''Actor'' ''ccore.Actor'' core_functions), tolua_endmodule]" "[registerAllNetwork ev cf]",
        unfolded append_Cons append_Nil]
    have "tolua_open ev cf \<lparr>stk = [LTable G], tables = T1, metas = M1, fresh = n + 7, gc_stopped = g\<rparr> =
        Inr \<lparr>stk = [LTable G], tables = T1, metas = M1, fresh = n + 7, gc_stopped = g\<rparr>"
      using ok1 by (intro tolua_open_again[of T1 True]) (simp add: reg_ok_def)
    then have "registerAllNetwork ev cf \<lparr>stk = [LTable G], tables = T1, metas = M1, fresh = n + 7, gc_stopped = g\<rparr> =
        Inr \<lparr>stk = [LTable G], tables = T2, metas = M2, fresh = n + 7 + 7, gc_stopped = g\<rparr>"
      unfolding registerAllNetwork_def socket_is_class run.simps(2)[of "tolua_open ev cf"] by (simp only: seqE.simps o2)
    then show ?thesis unfolding core_is_class split o1 seqE.simps run.simps(2)[of "registerAllNetwork ev cf"] run_done .
  qed
  ultimately show ?thesis
    using ok2 c2 g1 g2 r1 r2 k1 k2 by (intro exI[of _ T2] exI[of _ M2]) (simp add: LUA_STACK_FIX_ACTOR_def LUA_STACK_FIX_CALLBACK_def add.commute)
qed

text \<open>The whole of \<open>init\<close> after the libraries were opened.\<close>

lemma opened_state:
  fixes obj :: nat
  assumes libs: "libs_open L G ld pk se" and L: "L = \<lparr>stk = [], tables = T, metas = M, fresh = n, gc_stopped = g\<rparr>"
  defines "R \<equiv> T(0 := (T 0)(LStr LUA_STACK_FIX_ACTOR := LUser obj))"
  shows "\<exists>T' M'. tolua_open ev cf \<lparr>stk = [LTable G], tables = R, metas = M, fresh = n, gc_stopped = g\<rparr> =
      Inr \<lparr>stk = [LTable G], tables = T', metas = M', fresh = n + 6, gc_stopped = g\<rparr> \<and>
    reg_ok T' M' (n + 6) G (n + 2) (n + 4) \<and> T' G = (T G)(LStr ''tolua'' := LTable (n + 5)) \<and>
    T' 0 (LStr LUA_STACK_FIX_ACTOR) = LUser obj \<and> T' 0 (LStr LUA_STACK_FIX_CALLBACK) = LNil \<and>
    list_all (\<lambda>s. T' 0 (LStr s) = LNil) [''ccore.Actor'', ''const ccore.Actor'', ''cnet.Socket'', ''const cnet.Socket''] \<and>
    T' pk = T pk \<and> T' se = T se \<and> M' G = None"
proof -
  have "\<exists>T1 M1. tolua_open ev cf \<lparr>stk = [LTable G], tables = R, metas = M, fresh = n, gc_stopped = g\<rparr> =
     Inr \<lparr>stk = [LTable G], tables = T1, metas = M1, fresh = n + 6, gc_stopped = g\<rparr> \<and>
     T1 0 = opened_registry cf n (R 0) \<and> T1 (n + 2) = (\<lambda>_. LNil) \<and> T1 (n + 4) (LStr ''tolua_ubox'') = LNil \<and>
     T1 G = (R G)(LStr ''tolua'' := LTable (n + 5)) \<and>
     (\<forall>t. t < n \<longrightarrow> t \<notin> {0, G} \<longrightarrow> T1 t = R t) \<and> (\<forall>t. t < n \<longrightarrow> M1 t = M t)"
    by (rule tolua_open_first)
      (use libs in \<open>simp_all add: libs_open_def L R_def engine_names_def LUA_STACK_FIX_ACTOR_def\<close>)
  then obtain T1 M1 where o1: "tolua_open ev cf \<lparr>stk = [LTable G], tables = R, metas = M, fresh = n, gc_stopped = g\<rparr> =
     Inr \<lparr>stk = [LTable G], tables = T1, metas = M1, fresh = n + 6, gc_stopped = g\<rparr>"
    and r1: "T1 0 = opened_registry cf n (R 0)" and t1: "T1 (n + 2) = (\<lambda>_. LNil)" "T1 (n + 4) (LStr ''tolua_ubox'') = LNil"
    and g1: "T1 G = (R G)(LStr ''tolua'' := LTable (n + 5))" and k1: "\<And>t. t < n \<Longrightarrow> t \<notin> {0, G} \<Longrightarrow> T1 t = R t"
    and m1: "\<And>t. t < n \<Longrightarrow> M1 t = M t"
    by blast
  have R: "R G = T G" "R pk = T pk" "R se = T se" using libs by (auto simp: R_def libs_open_def)
  have ids: "G < n" "pk < n" "se < n" "0 < n" "pk \<notin> {0, G}" "se \<notin> {0, G}" "M G = None" "M 0 = None"
    using libs by (auto simp: libs_open_def L)
  have "reg_ok T1 M1 (n + 6) G (n + 2) (n + 4)"
    using libs r1 t1 m1[of 0] by (simp add: reg_ok_def libs_open_def L R_def opened_registry_def engine_names_def LUA_STACK_FIX_ACTOR_def)
  moreover have "list_all (\<lambda>s. T1 0 (LStr s) = LNil) [''ccore.Actor'', ''const ccore.Actor'', ''cnet.Socket'', ''const cnet.Socket'']"
    "T1 0 (LStr LUA_STACK_FIX_CALLBACK) = LNil" "T1 0 (LStr LUA_STACK_FIX_ACTOR) = LUser obj"
    using libs unfolding r1 by (simp_all add: libs_open_def L R_def opened_registry_def engine_names_def LUA_STACK_FIX_ACTOR_def
        LUA_STACK_FIX_CALLBACK_def)
  moreover have "T1 pk = T pk" "T1 se = T se" "M1 G = None" using k1 m1 ids R by simp_all
  ultimately show ?thesis using o1 g1 R(1) by (intro exI[of _ T1] exI[of _ M1]) simp
qed


lemma run_single: "run [f] = f"
  by (rule ext) (simp add: run_done)

lemma init_run:
  fixes obj :: nat
  assumes "T 0 (LStr ''_LOADED'') = LTable ld" and "T ld (LStr ''_G'') = LTable G" and "ld \<noteq> 0"
  defines "R \<equiv> T(0 := (T 0)(LStr LUA_STACK_FIX_ACTOR := LUser obj))"
  shows "run [push (LStr LUA_STACK_FIX_ACTOR), push (LUser obj), rawset_of REGISTRY,
            luaL_register_none ev ''_G'', registerAllCore ev cf, registerAllNetwork ev cf, luaStack_addLoader ev len f]
        \<lparr>stk = [], tables = T, metas = M, fresh = n, gc_stopped = g\<rparr> =
     seqE (tolua_open ev cf \<lparr>stk = [LTable G], tables = R, metas = M, fresh = n, gc_stopped = g\<rparr>) (\<lambda>L.
       seqE (run [tolua_module (Some ''ccore''), tolua_beginmodule (Some ''ccore''), register_core_actor ev cf, tolua_endmodule,
          registerAllNetwork ev cf] L) (luaStack_addLoader ev len f))"
proof -
  let ?R = "\<lparr>stk = [], tables = R, metas = M, fresh = n, gc_stopped = g\<rparr>"
  have set: "run [push (LStr LUA_STACK_FIX_ACTOR), push (LUser obj), rawset_of REGISTRY]
      \<lparr>stk = [], tables = T, metas = M, fresh = n, gc_stopped = g\<rparr> = Inr ?R"
    using lua_get_2(1)[of "[]"] lua_get_1(2)[of "[]"] lua_pop_2(1)[of "[]"] by (simp add: lua_ops REGISTRY_def R_def)
  have G: "luaL_register_none ev ''_G'' ?R = Inr \<lparr>stk = [LTable G], tables = R, metas = M, fresh = n, gc_stopped = g\<rparr>"
    using register_G[of R ld G ev "[]" M n g] assms(1-3) by (simp add: R_def LUA_STACK_FIX_ACTOR_def)
  let ?X = "\<lparr>stk = [LTable G], tables = R, metas = M, fresh = n, gc_stopped = g\<rparr>"
  let ?mods = "[tolua_module (Some ''ccore''), tolua_beginmodule (Some ''ccore''), register_core_actor ev cf, tolua_endmodule]"
  let ?net = "registerAllNetwork ev cf" and ?add = "luaStack_addLoader ev len f"
  have "run ([push (LStr LUA_STACK_FIX_ACTOR), push (LUser obj), rawset_of REGISTRY] @
      [luaL_register_none ev ''_G'', registerAllCore ev cf, ?net, ?add]) \<lparr>stk = [], tables = T, metas = M, fresh = n, gc_stopped = g\<rparr> =
      seqE (registerAllCore ev cf ?X) (run [?net, ?add])"
    unfolding run_append set seqE.simps run.simps(2)[of "luaL_register_none ev ''_G''"] G run.simps(2)[of "registerAllCore ev cf"] ..
  moreover have "seqE (registerAllCore ev cf ?X) (run [?net, ?add]) = seqE (tolua_open ev cf ?X) (\<lambda>L. seqE (run ?mods L) (run [?net, ?add]))"
    by (cases "tolua_open ev cf ?X") (simp_all add: registerAllCore_def run.simps(2)[of "tolua_open ev cf"] del: run.simps)
  moreover have "seqE (run ?mods L) (run [?net, ?add]) = seqE (run (?mods @ [?net]) L) ?add" for L
    using run_append[of "?mods" "[?net, ?add]" L] run_append[of "?mods @ [?net]" "[?add]" L]
    by (simp only: append_assoc append_Cons append_Nil run_single)
  ultimately show ?thesis by (simp only: append_Cons append_Nil)
qed

lemma init_state:
  assumes libs: "libs_open L G ld pk se"
  shows "\<exists>T M n m c m' c'. run [push (LStr LUA_STACK_FIX_ACTOR), push (LUser obj), rawset_of REGISTRY,
            luaL_register_none ev ''_G'', registerAllCore ev cf, registerAllNetwork ev cf,
            luaStack_addLoader ev len (Some f)] L =
      Inr \<lparr>stk = [LTable G], tables = T, metas = M, fresh = n, gc_stopped = gc_stopped L\<rparr> \<and>
    T 0 (idx 2) = LTable G \<and> M G = None \<and> 0 < G \<and> G \<noteq> pk \<and> G \<noteq> se \<and> G \<notin> {m, c, m', c'} \<and>
    T 0 (LStr LUA_STACK_FIX_ACTOR) = LUser obj \<and> T 0 (LStr LUA_STACK_FIX_CALLBACK) = LNil \<and>
    class_at cf T G ''ccore'' ''Actor'' ''ccore.Actor'' core_functions m c \<and>
    class_at cf T G ''cnet'' ''Socket'' ''cnet.Socket'' network_functions m' c' \<and>
    T pk = tables L pk \<and> entries (T se) = addLoader (len (tables L se)) (LFun f) (entries (tables L se))"
proof -
  obtain T M n g where L: "L = \<lparr>stk = [], tables = T, metas = M, fresh = n, gc_stopped = g\<rparr>"
    using libs by (cases L) (auto simp: libs_open_def)
  define R where "R = T(0 := (T 0)(LStr LUA_STACK_FIX_ACTOR := LUser obj))"
  have ids: "0 < G" "G < n" "pk < n" "se < n" "se \<noteq> G" "se \<noteq> pk" "G \<noteq> pk" "pk \<noteq> 0" "se \<noteq> 0"
    "T G (LStr ''package'') = LTable pk" "T pk (LStr ''searchers'') = LTable se"
    "T G (LStr ''ccore'') = LNil" "T G (LStr ''cnet'') = LNil"
    using libs by (auto simp: libs_open_def L)
  obtain T1 M1 where o1: "tolua_open ev cf \<lparr>stk = [LTable G], tables = R, metas = M, fresh = n, gc_stopped = g\<rparr> =
      Inr \<lparr>stk = [LTable G], tables = T1, metas = M1, fresh = n + 6, gc_stopped = g\<rparr>"
    and ok1: "reg_ok T1 M1 (n + 6) G (n + 2) (n + 4)" and g1: "T1 G = (T G)(LStr ''tolua'' := LTable (n + 5))"
    and s1: "T1 0 (LStr LUA_STACK_FIX_ACTOR) = LUser obj" "T1 0 (LStr LUA_STACK_FIX_CALLBACK) = LNil"
      "list_all (\<lambda>s. T1 0 (LStr s) = LNil) [''ccore.Actor'', ''const ccore.Actor'', ''cnet.Socket'', ''const cnet.Socket'']"
    and k1: "T1 pk = T pk" "T1 se = T se" "M1 G = None"
    using opened_state[OF libs L, where obj=obj and ev=ev and cf=cf] unfolding R_def by blast
  obtain T2 M2 where o2: "run [tolua_module (Some ''ccore''), tolua_beginmodule (Some ''ccore''), register_core_actor ev cf, tolua_endmodule,
          registerAllNetwork ev cf] \<lparr>stk = [LTable G], tables = T1, metas = M1, fresh = n + 6, gc_stopped = g\<rparr> =
      Inr \<lparr>stk = [LTable G], tables = T2, metas = M2, fresh = n + 6 + 14, gc_stopped = g\<rparr>"
    and ok2: "reg_ok T2 M2 (n + 6 + 14) G (n + 2) (n + 4)"
    and c2: "class_at cf T2 G ''ccore'' ''Actor'' ''ccore.Actor'' core_functions (n + 6) (n + 6 + 2)"
      "class_at cf T2 G ''cnet'' ''Socket'' ''cnet.Socket'' network_functions (n + 6 + 7) (n + 6 + 9)"
    and g2: "T2 G = (T1 G)(LStr ''ccore'' := LTable (n + 6), LStr ''cnet'' := LTable (n + 6 + 7))"
    and s2: "T2 0 (LStr LUA_STACK_FIX_ACTOR) = T1 0 (LStr LUA_STACK_FIX_ACTOR)"
      "T2 0 (LStr LUA_STACK_FIX_CALLBACK) = T1 0 (LStr LUA_STACK_FIX_CALLBACK)"
    and k2: "\<forall>t<n + 6. t \<notin> {0, G, n + 2} \<longrightarrow> T2 t = T1 t" "\<forall>t<n + 6. M2 t = M1 t"
    using both_modules[OF ok1, of ev cf g] ids g1 s1 by auto
  have keep: "T2 pk = T pk" "T2 se = T se" "M2 G = None" "T2 G (LStr ''package'') = LTable pk" "T2 0 (idx 2) = LTable G"
    using k1 k2 ids g1 g2 ok2 by (simp_all add: reg_ok_def)
  obtain tb where o3: "luaStack_addLoader ev len (Some f) \<lparr>stk = [LTable G], tables = T2, metas = M2, fresh = n + 6 + 14, gc_stopped = g\<rparr> =
      Inr \<lparr>stk = [LTable G], tables = T2(se := tb), metas = M2, fresh = n + 6 + 14, gc_stopped = g\<rparr>"
    and e3: "entries tb = addLoader (len (T se)) (LFun f) (entries (T se))"
    using addLoader_eq[of T2 G pk se ev len f "[LTable G]"] ids unfolding keep by blast
  have run: "run [push (LStr LUA_STACK_FIX_ACTOR), push (LUser obj), rawset_of REGISTRY,
            luaL_register_none ev ''_G'', registerAllCore ev cf, registerAllNetwork ev cf, luaStack_addLoader ev len (Some f)] L =
      Inr \<lparr>stk = [LTable G], tables = T2(se := tb), metas = M2, fresh = n + 6 + 14, gc_stopped = g\<rparr>"
    using init_run[of T ld G obj ev cf len "Some f" M n g] libs o1 o2 o3 unfolding R_def
    by (simp add: libs_open_def L del: run.simps)
  have "class_at cf (T2(se := tb)) G ''ccore'' ''Actor'' ''ccore.Actor'' core_functions (n + 6) (n + 6 + 2)"
    "class_at cf (T2(se := tb)) G ''cnet'' ''Socket'' ''cnet.Socket'' network_functions (n + 6 + 7) (n + 6 + 9)"
    using class_at_keep[OF c2(1), of "T2(se := tb)"] class_at_keep[OF c2(2), of "T2(se := tb)"] ids by simp_all
  then show ?thesis using run s1 s2 keep ids e3 L
    by (intro exI[of _ "T2(se := tb)"] exI[of _ M2] exI[of _ "n + 6 + 14"] exI[of _ "n + 6"] exI[of _ "n + 6 + 2"]
        exI[of _ "n + 6 + 7"] exI[of _ "n + 6 + 9"]) (simp del: run.simps)
qed


lemma set_global_eq:
  assumes "T 0 (idx 2) = LTable G" and "M G = None"
  shows "run [pushstring p, with_globals (setfield_of ev k)] \<lparr>stk = s, tables = T, metas = M, fresh = n, gc_stopped = g\<rparr> =
     Inr \<lparr>stk = s, tables = T(G := (T G)(LStr k := (case p of None \<Rightarrow> LNil | Some x \<Rightarrow> LStr x))), metas = M, fresh = n,
       gc_stopped = g\<rparr>"
  using assms by (simp add: lua_ops pushstring_def REGISTRY_def key_def)

lemma prepared_state:
  assumes libs: "libs_open (openlibs (L0\<lparr>gc_stopped := True\<rparr>)) G ld pk se"
  defines "L' \<equiv> openlibs (L0\<lparr>gc_stopped := True\<rparr>)"
  shows "\<exists>L m c m' c'. lnlua_prepare ev cf len openlibs (Some L0) obj path cpath preload = Inr L \<and>
    stk L = [LTable G] \<and> gc_stopped L = gc_stopped L' \<and>
    tables L 0 (LStr LUA_STACK_FIX_ACTOR) = LUser obj \<and> tables L 0 (LStr LUA_STACK_FIX_CALLBACK) = LNil \<and>
    class_at cf (tables L) G ''ccore'' ''Actor'' ''ccore.Actor'' core_functions m c \<and>
    class_at cf (tables L) G ''cnet'' ''Socket'' ''cnet.Socket'' network_functions m' c' \<and>
    tables L G (LStr ''LUA_PATH'') = (case path of None \<Rightarrow> LNil | Some p \<Rightarrow> LStr p) \<and> tables L pk = tables L' pk \<and>
    entries (tables L se) = addLoader (len (tables L' se)) (LFun (cf ''lua_loader'')) (entries (tables L' se))"
proof -
  obtain T M n m c m' c' where init: "luaStack_init ev cf len openlibs (Some L0) obj =
      Inr \<lparr>stk = [LTable G], tables = T, metas = M, fresh = n, gc_stopped = gc_stopped L'\<rparr>"
    and G: "T 0 (idx 2) = LTable G" "M G = None" "0 < G" "G \<noteq> pk" "G \<noteq> se" "G \<notin> {m, c, m', c'}"
    and keys: "T 0 (LStr LUA_STACK_FIX_ACTOR) = LUser obj" "T 0 (LStr LUA_STACK_FIX_CALLBACK) = LNil"
    and cls: "class_at cf T G ''ccore'' ''Actor'' ''ccore.Actor'' core_functions m c"
      "class_at cf T G ''cnet'' ''Socket'' ''cnet.Socket'' network_functions m' c'"
    and rest: "T pk = tables L' pk"
      "entries (T se) = addLoader (len (tables L' se)) (LFun (cf ''lua_loader'')) (entries (tables L' se))"
    using init_state[OF libs, of obj ev cf len "cf ''lua_loader''"]
    by (auto simp: luaStack_init_def L'_def simp del: run.simps)
  define v where "v = (\<lambda>p. case p of None \<Rightarrow> LNil | Some x \<Rightarrow> LStr x)"
  let ?T = "T(G := (T G)(LStr ''LUA_PATH'' := v path, LStr ''LUA_CPATH'' := v cpath, LStr ''LUA_PRELOAD'' := v preload))"
  have "lnlua_prepare ev cf len openlibs (Some L0) obj path cpath preload =
      Inr \<lparr>stk = [LTable G], tables = ?T, metas = M, fresh = n, gc_stopped = gc_stopped L'\<rparr>"
    using set_global_eq[of _ G M] G
    by (simp add: lnlua_prepare_def init setSearchPath_def setSearchCPath_def reload_def v_def del: run.simps(2))
      (simp add: v_def set_global_eq)
  moreover have "class_at cf ?T G ''ccore'' ''Actor'' ''ccore.Actor'' core_functions m c"
    "class_at cf ?T G ''cnet'' ''Socket'' ''cnet.Socket'' network_functions m' c'"
    using class_at_keep[OF cls(1), of ?T] class_at_keep[OF cls(2), of ?T] G by simp_all
  ultimately show ?thesis using G keys rest
    by (intro exI[of _ "\<lparr>stk = [LTable G], tables = ?T, metas = M, fresh = n, gc_stopped = gc_stopped L'\<rparr>"] exI[of _ m] exI[of _ c]
        exI[of _ m'] exI[of _ c']) (simp add: v_def)
qed


section \<open>Properties\<close>


text \<open>The libraries of a state with five tables, two of which are searchers.\<close>

definition example_libs :: "lua \<Rightarrow> lua" where
  "example_libs L =
     \<lparr>stk = [],
      tables = (\<lambda>_ _. LNil)(
        0 := (\<lambda>_. LNil)(idx 2 := LTable 1, LStr ''_LOADED'' := LTable 2),
        1 := (\<lambda>_. LNil)(LStr ''package'' := LTable 3),
        2 := (\<lambda>_. LNil)(LStr ''_G'' := LTable 1),
        3 := (\<lambda>_. LNil)(LStr ''searchers'' := LTable 4, LStr ''path'' := LStr ''./?.lua''),
        4 := (\<lambda>_. LNil)(idx 1 := LFun 100, idx 2 := LFun 101)),
      metas = (\<lambda>_. None), fresh = 5, gc_stopped = gc_stopped L\<rparr>"

lemma example_libs_open: "libs_open (example_libs L) 1 2 3 4"
  by (simp add: libs_open_def example_libs_def engine_names_def LUA_STACK_FIX_CALLBACK_def)

definition empty_lua :: lua where
  "empty_lua = \<lparr>stk = [], tables = (\<lambda>_ _. LNil), metas = (\<lambda>_. None), fresh = 1, gc_stopped = False\<rparr>"

definition no_events :: events where
  "no_events = \<lparr>index_event = (\<lambda>_ _ _. LNil), newindex_event = (\<lambda>_ _ _ L. Inr L)\<rparr>"


text \<open>C35: \<open>ccore.Actor:callback(f)\<close>, as the script of the repository calls it, puts \<open>f\<close> where the registry had
  the name of the class, and the messages for the actor do not reach Lua.  Were \<open>f\<close> stored where it is
  looked up, the first message that is handled would take the globals off the stack, and the next one
  would pop an empty stack.\<close>

theorem script_callback_lost:
  assumes "libs_open (openlibs (L0\<lparr>gc_stopped := True\<rparr>)) G ld pk se"
    and "length margs = 5" and "call (LFun f) margs = Inr rs"
  shows "\<exists>L m c reg. lnlua_prepare ev cf len openlibs (Some L0) obj path cpath preload = Inr L \<and>
    tables L G (LStr ''ccore'') = LTable m \<and> tables L m (LStr ''Actor'') = LTable c \<and>
    tables L 0 (LTable c) = LStr ''ccore.Actor'' \<and>
    lua_core_actor_callback [LTable c, LFun f] (tables L 0) = Inr (Some (reg, [])) \<and> reg (LTable c) = LFun f \<and>
    lnlua_unknownDispatch call handle reg margs (stk L) = Inr (False, stk L) \<and>
    lnlua_unknownDispatch call handle (reg(LStr LUA_STACK_FIX_CALLBACK := LFun f)) margs (stk L) = Inr (True, []) \<and>
    lnlua_unknownDispatch call handle (reg(LStr LUA_STACK_FIX_CALLBACK := LFun f)) margs [] = Inl OutOfBounds"
proof -
  obtain L m c where L: "lnlua_prepare ev cf len openlibs (Some L0) obj path cpath preload = Inr L" "stk L = [LTable G]"
    and none: "tables L 0 (LStr LUA_STACK_FIX_CALLBACK) = LNil"
    and cls: "class_at cf (tables L) G ''ccore'' ''Actor'' ''ccore.Actor'' core_functions m c"
    using prepared_state[where openlibs=openlibs and ?L0.0=L0, OF assms(1), of ev cf len obj path cpath preload] by blast
  have "\<exists>reg. lua_core_actor_callback [LTable c, LFun f] (tables L 0) = Inr (Some (reg, [])) \<and> reg (LTable c) = LFun f \<and>
      lnlua_unknownDispatch call handle reg margs [LTable G] = Inr (False, [LTable G]) \<and>
      lnlua_unknownDispatch call handle (reg(LStr LUA_STACK_FIX_CALLBACK := LFun f)) margs ([] @ [LTable G]) = Inr (True, []) \<and>
      lnlua_unknownDispatch call handle (reg(LStr LUA_STACK_FIX_CALLBACK := LFun f)) margs [] = Inl OutOfBounds"
    using callback_not_called[of "LFun f" "LTable c" "tables L 0" margs call "LFun f" rs handle "[LTable G]" "[]" "LTable G"]
      none assms(2,3) by (simp add: lua_isfunction_def)
  then show ?thesis using L cls by (auto simp: class_at_def)
qed

theorem script_callback_lost_witness:
  "\<exists>L m c reg. lnlua_prepare no_events length (\<lambda>_. 2) example_libs (Some empty_lua) 9 None None None = Inr L \<and>
    tables L 1 (LStr ''ccore'') = LTable m \<and> tables L m (LStr ''Actor'') = LTable c \<and>
    tables L 0 (LTable c) = LStr ''ccore.Actor'' \<and>
    lua_core_actor_callback [LTable c, LFun 7] (tables L 0) = Inr (Some (reg, [])) \<and> reg (LTable c) = LFun 7 \<and>
    lnlua_unknownDispatch (\<lambda>_ _. Inr []) (\<lambda>h e. e) reg [LNil, LNil, LNil, LNil, LNil] (stk L) = Inr (False, stk L) \<and>
    lnlua_unknownDispatch (\<lambda>_ _. Inr []) (\<lambda>h e. e) (reg(LStr LUA_STACK_FIX_CALLBACK := LFun 7)) [LNil, LNil, LNil, LNil, LNil] (stk L) =
      Inr (True, []) \<and>
    lnlua_unknownDispatch (\<lambda>_ _. Inr []) (\<lambda>h e. e) (reg(LStr LUA_STACK_FIX_CALLBACK := LFun 7)) [LNil, LNil, LNil, LNil, LNil] [] =
      Inl OutOfBounds"
  by (rule script_callback_lost[where openlibs=example_libs and ?L0.0=empty_lua, OF example_libs_open]) simp_all

end
