(* ===== verification/Singleton.thy ===== *)
theory Singleton
  imports WolfBase
begin

text \<open>
  The base class of the systems of the engine, \<open>engine/src/util/singleton.h\<close>, as the threads that call
  \<open>instance\<close> go through it, and the counter of identifiers \<open>util/counter.h\<close>.
\<close>

section \<open>The instance\<close>

text \<open>
  Objects are numbered as they are made.  A thread in \<open>instance\<close> has seen a null pointer, has built an
  object it has not stored, is about to read the pointer it returns, or has its result.
\<close>

datatype caller = Outside | SawNull | Built nat | Returning | Got nat

record single =
  m_inst :: "nat option"
  made :: nat
  caller :: "nat \<Rightarrow> caller"

definition at_caller :: "nat \<Rightarrow> caller \<Rightarrow> single \<Rightarrow> single" where
  "at_caller t c s = s\<lparr>caller := (caller s)(t := c)\<rparr>"

inductive instance_step :: "single \<Rightarrow> single \<Rightarrow> bool" where
  check_null: "caller s t = Outside \<Longrightarrow> m_inst s = None \<Longrightarrow> instance_step s (at_caller t SawNull s)"
| check_set: "caller s t = Outside \<Longrightarrow> m_inst s = Some p \<Longrightarrow> instance_step s (at_caller t Returning s)"
| build: "caller s t = SawNull \<Longrightarrow> instance_step s (at_caller t (Built (made s)) (s\<lparr>made := made s + 1\<rparr>))"
| store: "caller s t = Built p \<Longrightarrow> instance_step s (at_caller t Returning (s\<lparr>m_inst := Some p\<rparr>))"
| fetch: "caller s t = Returning \<Longrightarrow> m_inst s = Some p \<Longrightarrow> instance_step s (at_caller t (Got p) s)"
| leave: "caller s t = Got p \<Longrightarrow> instance_step s (at_caller t Outside s)"

inductive_cases instance_stepE: "instance_step s s'"

text \<open>\<open>instance\<close> called by one thread alone, from the pointer it finds: what it returns and leaves.\<close>

definition instance_alone :: "single \<Rightarrow> nat \<times> single" where
  "instance_alone s =
     (case m_inst s of
        Some p \<Rightarrow> (p, s)
      | None \<Rightarrow> (made s, s\<lparr>m_inst := Some (made s), made := made s + 1\<rparr>))"

text \<open>
  Destroying an object of a class \<open>T\<close> that derives from \<open>singleton<T>\<close> runs this destructor, and so does
  the \<open>delete\<close> in it; the pointer is reset only after the \<open>delete\<close>.
\<close>

partial_function (option) singleton_dtor :: "nat option \<Rightarrow> nat option option" where
  "singleton_dtor inst =
     (if inst = None then Some None
      else Option.bind (singleton_dtor inst) (\<lambda>_. Some None))"


section \<open>Identifiers\<close>

text \<open>An object with an identifier: made anew, copied and moved alike, it takes the next number.\<close>

definition new_id :: "64 word \<Rightarrow> 64 word \<times> 64 word" where
  "new_id c = (c + 1, c + 1)"

fun new_ids :: "nat \<Rightarrow> 64 word \<Rightarrow> 64 word list" where
  "new_ids 0 c = []"
| "new_ids (Suc n) c = (let (i, c) = new_id c in i # new_ids n c)"


section \<open>Invariant\<close>

text \<open>With an object in place nobody builds another; \<open>n\<close> objects were made before.\<close>

definition all_share :: "nat \<Rightarrow> nat \<Rightarrow> single \<Rightarrow> bool" where
  "all_share p n s \<longleftrightarrow>
     m_inst s = Some p \<and> made s = n \<and> (\<forall>t. caller s t \<in> {Outside, Returning, Got p})"

definition in_place :: "nat \<Rightarrow> nat \<Rightarrow> single \<Rightarrow> bool" where
  "in_place p n s \<longleftrightarrow> s = \<lparr>m_inst = Some p, made = n, caller = (\<lambda>_. Outside)\<rparr>"

lemma all_share_step: "all_share p n s \<Longrightarrow> instance_step s s' \<Longrightarrow> all_share p n s'"
  by (erule instance_stepE, auto simp: all_share_def at_caller_def) (metis caller.distinct)+

interpretation shared: invariant_machine "in_place p n" instance_step "all_share p n" for p n
  by unfold_locales (simp add: in_place_def all_share_def, rule all_share_step)

definition no_object :: "single \<Rightarrow> bool" where
  "no_object s \<longleftrightarrow> s = \<lparr>m_inst = None, made = 0, caller = (\<lambda>_. Outside)\<rparr>"

text \<open>The steps of one thread alone are the call.\<close>

lemma alone_steps:
  assumes "caller s t = Outside"
  shows "instance_step\<^sup>*\<^sup>* s (at_caller t (Got (fst (instance_alone s))) (snd (instance_alone s)))"
proof (cases "m_inst s")
  case (Some p)
  have "instance_step s (at_caller t Returning s)" using assms Some by (rule check_set)
  moreover have "instance_step (at_caller t Returning s) (at_caller t (Got p) (at_caller t Returning s))"
    by (rule fetch) (simp_all add: at_caller_def Some)
  ultimately show ?thesis using Some by (simp add: instance_alone_def at_caller_def)
next
  case None
  let ?a = "at_caller t SawNull s"
  let ?b = "at_caller t (Built (made ?a)) (?a\<lparr>made := made ?a + 1\<rparr>)"
  let ?c = "at_caller t Returning (?b\<lparr>m_inst := Some (made ?a)\<rparr>)"
  have "instance_step s ?a" using assms None by (rule check_null)
  moreover have "instance_step ?a ?b" by (rule build) (simp add: at_caller_def)
  moreover have "instance_step ?b ?c" by (rule store) (simp add: at_caller_def)
  moreover have "instance_step ?c (at_caller t (Got (made ?a)) ?c)" by (rule fetch) (simp_all add: at_caller_def)
  ultimately have "instance_step\<^sup>*\<^sup>* s (at_caller t (Got (made ?a)) ?c)"
    by (intro rtranclp.rtrancl_into_rtrancl[OF rtranclp.rtrancl_into_rtrancl[OF rtranclp.rtrancl_into_rtrancl[OF
          rtranclp.rtrancl_into_rtrancl[OF rtranclp.rtrancl_refl]]]])
  moreover have "at_caller t (Got (made ?a)) ?c = at_caller t (Got (made s)) (s\<lparr>m_inst := Some (made s), made := made s + 1\<rparr>)"
    by (cases s) (simp add: at_caller_def)
  ultimately show ?thesis using None by (simp add: instance_alone_def)
qed

text \<open>Two threads that both see the null pointer.\<close>

definition after_race :: single where
  "after_race = \<lparr>m_inst = Some 1, made = 2, caller = (\<lambda>_. Outside)(0 := Got 0, 1 := Got 1)\<rparr>"

lemma race_reachable: "reach no_object instance_step after_race"
proof -
  let ?s = "\<lambda>i n a b. \<lparr>m_inst = i, made = n, caller = (\<lambda>_ :: nat. Outside)(0 := a, 1 := b)\<rparr>"
  have start: "reach no_object instance_step (?s None 0 Outside Outside)"
    by (rule reach_init) (simp add: no_object_def fun_upd_idem)
  have 1: "instance_step (?s None 0 Outside Outside) (?s None 0 SawNull Outside)"
    using check_null[of "?s None 0 Outside Outside" 0] by (simp add: at_caller_def fun_upd_twist)
  have 2: "instance_step (?s None 0 SawNull Outside) (?s None 0 SawNull SawNull)"
    using check_null[of "?s None 0 SawNull Outside" 1] by (simp add: at_caller_def fun_upd_twist)
  have 3: "instance_step (?s None 0 SawNull SawNull) (?s None 1 (Built 0) SawNull)"
    using build[of "?s None 0 SawNull SawNull" 0] by (simp add: at_caller_def fun_upd_twist)
  have 4: "instance_step (?s None 1 (Built 0) SawNull) (?s (Some 0) 1 Returning SawNull)"
    using store[of "?s None 1 (Built 0) SawNull" 0 0] by (simp add: at_caller_def fun_upd_twist)
  have 5: "instance_step (?s (Some 0) 1 Returning SawNull) (?s (Some 0) 1 (Got 0) SawNull)"
    using fetch[of "?s (Some 0) 1 Returning SawNull" 0 0] by (simp add: at_caller_def fun_upd_twist)
  have 6: "instance_step (?s (Some 0) 1 (Got 0) SawNull) (?s (Some 0) 2 (Got 0) (Built 1))"
    using build[of "?s (Some 0) 1 (Got 0) SawNull" 1] by (simp add: at_caller_def fun_upd_twist numeral_2_eq_2)
  have 7: "instance_step (?s (Some 0) 2 (Got 0) (Built 1)) (?s (Some 1) 2 (Got 0) Returning)"
    using store[of "?s (Some 0) 2 (Got 0) (Built 1)" 1 1] by (simp add: at_caller_def fun_upd_twist)
  have 8: "instance_step (?s (Some 1) 2 (Got 0) Returning) (?s (Some 1) 2 (Got 0) (Got 1))"
    using fetch[of "?s (Some 1) 2 (Got 0) Returning" 1 1] by (simp add: at_caller_def fun_upd_twist)
  from reach_step[OF reach_step[OF reach_step[OF reach_step[OF reach_step[OF reach_step[OF reach_step[OF reach_step[OF
    start 1] 2] 3] 4] 5] 6] 7] 8]
  show ?thesis by (simp add: after_race_def)
qed

lemma dtor_diverges: "singleton_dtor (Some p) = None"
proof (cases "singleton_dtor (Some p)")
  case (Some r)
  have "\<forall>q. Some p = Some q \<longrightarrow> False"
    by (rule singleton_dtor.raw_induct[OF _ Some, of "\<lambda>i r. \<forall>q. i = Some q \<longrightarrow> False"])
      (auto simp: Option.bind_eq_Some_conv split: if_splits)
  then show ?thesis by simp
qed

lemma new_ids_eq: "new_ids n c = map (\<lambda>k. c + of_nat (Suc k)) [0..<n]"
proof (induction n arbitrary: c)
  case (Suc n)
  have "new_ids (Suc n) c = (c + 1) # map (\<lambda>k. c + 1 + of_nat (Suc k)) [0..<n]" by (simp add: new_id_def Suc)
  also have "\<dots> = (c + of_nat (Suc 0)) # map (\<lambda>k. c + of_nat (Suc k)) (map Suc [0..<n])" by (simp add: ac_simps)
  also have "\<dots> = map (\<lambda>k. c + of_nat (Suc k)) [0..<Suc n]" by (simp only: map_Suc_upt upt_conv_Cons zero_less_Suc list.map)
  finally show ?case .
qed simp

text \<open>Identifiers are all different as long as fewer than \<open>2 ^ 64\<close> are given out.\<close>

lemma new_ids_distinct: "n \<le> 2 ^ 64 \<Longrightarrow> distinct (new_ids n c)"
proof -
  assume n: "n \<le> 2 ^ 64"
  have "inj_on (\<lambda>k. c + of_nat (Suc k) :: 64 word) {0..<n}"
  proof (rule inj_onI)
    fix i j assume ij: "i \<in> {0..<n}" "j \<in> {0..<n}" "c + of_nat (Suc i) = c + (of_nat (Suc j) :: 64 word)"
    then have "(of_nat i :: 64 word) = of_nat j" by simp
    then show "i = j" using ij n by (simp add: word_of_nat_eq_iff take_bit_nat_eq_self)
  qed
  then show ?thesis by (simp add: new_ids_eq distinct_map)
qed


section \<open>Properties\<close>

text \<open>Once an instance is in place before the threads start, every call of \<open>instance\<close> in every reachable state
  returns it and no other is made.  Without that, two threads that call it for the first time can
  come away with two objects, one of which nobody can reach through the class any more.  Deleting an
  instance that is in place never returns, because its destructor deletes it again.\<close>

theorem singleton_shared_or_raced:
  assumes "reach (in_place p n) instance_step s"
  shows "made s = n \<and> (caller s t = Got q \<longrightarrow> q = p) \<and> singleton_dtor (m_inst s) = None \<and>
    (\<exists>s'. reach no_object instance_step s' \<and> caller s' 0 = Got 0 \<and> caller s' 1 = Got 1 \<and> m_inst s' = Some 1)"
proof (intro conjI impI)
  have inv: "all_share p n s" using assms by (rule shared.reach_inv)
  then show "made s = n" "caller s t = Got q \<Longrightarrow> q = p"
    unfolding all_share_def by (auto, metis caller.distinct caller.inject(2))
  show "singleton_dtor (m_inst s) = None" using inv by (simp add: all_share_def dtor_diverges)
  show "\<exists>s'. reach no_object instance_step s' \<and> caller s' 0 = Got 0 \<and> caller s' 1 = Got 1 \<and> m_inst s' = Some 1"
    using race_reachable by (intro exI[of _ after_race]) (simp add: after_race_def)
qed

text \<open>Thread 3 calls it, with the object 4 in place.\<close>

theorem singleton_shared_or_raced_witness:
  "made \<lparr>m_inst = Some 4, made = 5, caller = (\<lambda>_. Outside)(3 := Got 4)\<rparr> = 5 \<and>
    (caller \<lparr>m_inst = Some 4, made = 5, caller = (\<lambda>_. Outside)(3 := Got 4)\<rparr> 3 = Got 4 \<longrightarrow> (4 :: nat) = 4) \<and>
    singleton_dtor (m_inst \<lparr>m_inst = Some 4, made = 5, caller = (\<lambda>_. Outside)(3 := Got 4)\<rparr>) = None \<and>
    (\<exists>s'. reach no_object instance_step s' \<and> caller s' 0 = Got 0 \<and> caller s' 1 = Got 1 \<and> m_inst s' = Some 1)"
proof (rule singleton_shared_or_raced)
  let ?s = "\<lparr>m_inst = Some 4, made = 5, caller = (\<lambda>_. Outside)\<rparr>"
  have "instance_step\<^sup>*\<^sup>* ?s (at_caller 3 (Got (fst (instance_alone ?s))) (snd (instance_alone ?s)))"
    by (rule alone_steps) simp
  then have "reach (in_place 4 5) instance_step (at_caller 3 (Got (fst (instance_alone ?s))) (snd (instance_alone ?s)))"
    by (rule reach_steps) (rule reach_init, simp add: in_place_def)
  then show "reach (in_place 4 5) instance_step \<lparr>m_inst = Some 4, made = 5, caller = (\<lambda>_. Outside)(3 := Got 4)\<rparr>"
    by (simp add: instance_alone_def at_caller_def)
qed

end
