(* ===== verification/CoreDump.thy ===== *)
theory CoreDump
  imports Launcher
begin

text \<open>
  What happens when the process crashes: \<open>engine/src/coreDump.cc\<close>, with the times of
  \<open>engine/src/util/timestamp.h\<close> it uses and the dispositions of signals the daemon sets
  (\<open>launcher/src/daemonOption.cc\<close>).  The operating system's answers (the path of the program, the frames
  of the stack, whether a file can be opened) are parameters.
\<close>

section \<open>Times\<close>

text \<open>\<open>getTimeSec\<close>, which counts nanoseconds, computes with signed 64-bit numbers.\<close>

definition getTimeSec :: "int \<Rightarrow> int \<Rightarrow> int res" where
  "getTimeSec sec nsec =
     seqE (checkE (\<bar>1000000000 * sec\<bar> < 2 ^ 63 \<and> \<bar>1000000000 * sec + nsec\<bar> < 2 ^ 63) SignedOverflow)
       (\<lambda>_. Inr (1000000000 * sec + nsec))"

text \<open>Microseconds of the thread.\<close>

definition getThreadTime :: "64 word \<Rightarrow> 64 word \<Rightarrow> 64 word" where
  "getThreadTime sec nsec = sec * 1000000 + nsec div 1000"

definition getSystemTime :: "64 word \<Rightarrow> int \<Rightarrow> 32 word \<times> 32 word" where
  "getSystemTime sec nsec = (ucast sec, word_of_int (nsec div 10000000))"

text \<open>\<open>%02d\<close> of a number that is not negative.\<close>

definition pad2 :: "nat \<Rightarrow> string" where
  "pad2 n = (if n < 10 then ''0'' @ nat_digits n else nat_digits n)"

definition getTimeLocal :: "local_time \<Rightarrow> string" where
  "getTimeLocal t =
     nat_digits (tm_year t + 1900) @ ''-'' @ pad2 (tm_mon t + 1) @ ''-'' @ pad2 (tm_mday t) @ '' '' @
     pad2 (tm_hour t) @ '':'' @ pad2 (tm_min t) @ '':'' @ pad2 (tm_sec t)"


section \<open>The dump\<close>

definition MAX_CORE_SIZE :: nat where "MAX_CORE_SIZE = 512"

definition MAX_CORE_BUFFER_SIZE :: nat where "MAX_CORE_BUFFER_SIZE = 4096"

definition DUMP_DEFAULT_DIR :: string where "DUMP_DEFAULT_DIR = ''./dump''"

definition dump_name :: "local_time \<Rightarrow> string option" where
  "dump_name t =
     Option.bind (replace_text (DUMP_DEFAULT_DIR @ ''/core.'' @ getTimeLocal t) '' '' ''_'') (\<lambda>s. replace_text s '':'' ''_'')"

text \<open>
  What a crash finds: the time, the answer of \<open>readlink\<close>, which cuts at the size of the buffer, the number
  of the thread, the frames and their symbols, if there is memory for them, and the files that can be
  opened.
\<close>

record crash =
  now :: local_time
  exe :: "string option"
  thread_id :: nat
  frames :: nat
  symbols :: "string list option"
  can_open :: "string \<Rightarrow> bool"

text \<open>The line of the program: \<open>buffer[count]\<close> and \<open>buffer[count + 1]\<close> are written.\<close>

definition exe_line :: "string option \<Rightarrow> string res" where
  "exe_line path =
     (case path of
        None \<Rightarrow> Inr []
      | Some p \<Rightarrow>
          (let count = min (length p) MAX_CORE_BUFFER_SIZE in
           if count > 0
           then seqE (checkE (count + 1 < MAX_CORE_BUFFER_SIZE) OutOfBounds) (\<lambda>_. Inr (take count p @ [CHR 0x0A]))
           else Inr []))"

definition dump_text :: "crash \<Rightarrow> nat \<Rightarrow> string res" where
  "dump_text c sig =
     seqE (exe_line (exe c)) (\<lambda>line.
       let n = min (frames c) MAX_CORE_SIZE in
       Inr (line @ ''Dump Time: '' @ getTimeLocal (now c) @ [CHR 0x0A] @
         ''Curr thread: '' @ nat_digits (thread_id c mod 2 ^ 32) @ '', Catch signal:'' @ nat_digits sig @ [CHR 0x0A] @
         ''backtrace rank = '' @ nat_digits n @ [CHR 0x0A] @
         (if n > 0 then (case symbols c of None \<Rightarrow> [] | Some ss \<Rightarrow> concat (map (\<lambda>s. s @ [CHR 0x0A]) (take n ss))) else [])))"


section \<open>Signals\<close>

datatype disposition = SigDfl | SigIgn | SigCore

record process =
  disp :: "nat \<Rightarrow> disposition"
  files :: "string \<rightharpoonup> string"
  log_up :: bool
  logged :: "string list"
  ended :: bool

definition SIGHUP :: nat where "SIGHUP = 1"
definition SIGINT :: nat where "SIGINT = 2"
definition SIGQUIT :: nat where "SIGQUIT = 3"
definition SIGABRT :: nat where "SIGABRT = 6"
definition SIGSEGV :: nat where "SIGSEGV = 11"
definition SIGPIPE :: nat where "SIGPIPE = 13"
definition SIGTERM :: nat where "SIGTERM = 15"
definition SIGTTIN :: nat where "SIGTTIN = 21"
definition SIGTTOU :: nat where "SIGTTOU = 22"

definition daemon_signals :: "process \<Rightarrow> process" where
  "daemon_signals p =
     p\<lparr>disp := (disp p)(SIGINT := SigIgn, SIGHUP := SigIgn, SIGQUIT := SigIgn, SIGPIPE := SigIgn, SIGTTOU := SigIgn,
          SIGTTIN := SigIgn, SIGTERM := SigIgn)\<rparr>"

definition doListen :: "process \<Rightarrow> process" where
  "doListen p = p\<lparr>disp := (disp p)(SIGABRT := SigCore, SIGSEGV := SigCore)\<rparr>"

text \<open>\<open>signal(dunno, SIG_DFL); raise(dunno)\<close>: the default of the two signals ends the process.\<close>

definition raise_default :: "nat \<Rightarrow> process \<Rightarrow> process" where
  "raise_default sig p = p\<lparr>disp := (disp p)(sig := SigDfl), ended := True\<rparr>"

text \<open>
  A signal of the process itself reaches \<open>coreSignal\<close>.  When the file cannot be opened, \<open>outStack\<close> logs a
  line; a log that is not up asserts, and \<open>abort\<close> unblocks \<open>SIGABRT\<close> and raises it.
\<close>

partial_function (option) deliver :: "crash \<Rightarrow> nat \<Rightarrow> process \<Rightarrow> process res option" where
  "deliver c sig p =
     (if disp p sig = SigIgn then Some (Inr p)
      else if disp p sig = SigDfl then Some (Inr (p\<lparr>ended := True\<rparr>))
      else Option.bind (dump_name (now c)) (\<lambda>name.
        if can_open c name then
          Some (seqE (dump_text c sig) (\<lambda>txt.
            Inr (raise_default sig (p\<lparr>files := (files p)(name \<mapsto> (case files p name of None \<Rightarrow> [] | Some old \<Rightarrow> old) @ txt)\<rparr>))))
        else if log_up p then
          Some (Inr (raise_default sig (p\<lparr>logged := logged p @ [''make core file fail['' @ name @ ''].'']\<rparr>)))
        else deliver c SIGABRT p))"


section \<open>Names of dumps\<close>

lemma replace_char:
  assumes "x \<noteq> y"
  shows "replace_text s [x] [y] = Some (map (\<lambda>c. if c = x then y else c) s)"
proof (induction "count_list s x" arbitrary: s rule: less_induct)
  case less
  show ?case
  proof (cases "find_str [x] s")
    case None
    then have "x \<notin> set s"
      by (induction "[x]" s rule: find_str.induct) (auto split: if_splits)
    then have "map (\<lambda>c. if c = x then y else c) s = s" by (auto intro: map_idI)
    then show ?thesis using None by (simp add: replace_text.simps)
  next
    case (Some k)
    have k: "k < length s" "s ! k = x"
      using find_str_Some[OF Some] by (auto simp: take_Suc_conv_app_nth dest: Suc_le_lessD)
    have s: "s = take k s @ x # drop (Suc k) s" using id_take_nth_drop[OF k(1)] unfolding k(2) .
    have r: "replace_at s k (length [x]) [y] = take k s @ y # drop (Suc k) s" by (simp add: replace_at_def)
    have "count_list (take k s @ y # drop (Suc k) s) x < count_list s x"
      using assms by (subst (3) s) simp
    from less[OF this] have "replace_text (take k s @ y # drop (Suc k) s) [x] [y] =
        Some (map (\<lambda>c. if c = x then y else c) (take k s @ y # drop (Suc k) s))" .
    also have "map (\<lambda>c. if c = x then y else c) (take k s @ y # drop (Suc k) s) =
        map (\<lambda>c. if c = x then y else c) (take k s @ x # drop (Suc k) s)" by simp
    also have "\<dots> = map (\<lambda>c. if c = x then y else c) s" by (rule arg_cong[OF s[symmetric]])
    finally show ?thesis using Some r by (subst replace_text.simps) simp
  qed
qed


lemma nat_digits_plain: "c \<in> set (nat_digits n) \<Longrightarrow> c \<notin> {CHR '' '', CHR '':'', CHR ''-''}"
  using nat_digits_chars[of c n] by auto

lemma map_digits: "map (\<lambda>c. if c = CHR '' '' then y else c) (nat_digits n) = nat_digits n"
  "map (\<lambda>c. if c = CHR '':'' then y else c) (nat_digits n) = nat_digits n"
  using nat_digits_plain[of _ n] by (auto intro!: map_idI)

lemma map_pad2: "map (\<lambda>c. if c = CHR '' '' then y else c) (pad2 n) = pad2 n"
  "map (\<lambda>c. if c = CHR '':'' then y else c) (pad2 n) = pad2 n"
  by (simp_all add: pad2_def map_digits)

lemma dump_name_eq:
  "dump_name t = Some (''./dump/core.'' @ nat_digits (tm_year t + 1900) @ ''-'' @ pad2 (tm_mon t + 1) @ ''-'' @ pad2 (tm_mday t) @ ''_'' @
     pad2 (tm_hour t) @ ''_'' @ pad2 (tm_min t) @ ''_'' @ pad2 (tm_sec t))"
  by (simp add: dump_name_def replace_char DUMP_DEFAULT_DIR_def getTimeLocal_def map_digits map_pad2)

lemma pad2_value: "digits_value (pad2 n) = n"
  by (simp add: pad2_def digits_value_digits) (simp add: digits_value_def digits_value_digits[unfolded digits_value_def])

lemma nat_digits_length1: "n < 10 \<Longrightarrow> length (nat_digits n) = 1"
  by (simp add: nat_digits.simps)

lemma pad2_length: "n < 100 \<Longrightarrow> length (pad2 n) = 2"
  by (simp add: pad2_def nat_digits_length1 nat_digits.simps[of n])

text \<open>The fields \<open>localtime\<close> gives; a leap second is 60.\<close>

definition valid_time :: "local_time \<Rightarrow> bool" where
  "valid_time t \<longleftrightarrow> tm_mon t < 12 \<and> tm_mday t \<le> 31 \<and> tm_hour t < 24 \<and> tm_min t < 60 \<and> tm_sec t \<le> 60"

lemma dump_name_inj:
  assumes "valid_time t" and "valid_time t'" and "dump_name t = dump_name t'"
  shows "t = t'"
proof -
  let ?l = "\<lambda>t. [tm_mon t + 1, tm_mday t, tm_hour t, tm_min t, tm_sec t]"
  have len: "length (pad2 n) = 2" if "n \<in> set (?l t) \<union> set (?l t')" for n
    using that assms(1,2) by (intro pad2_length) (auto simp: valid_time_def)
  have "nat_digits (tm_year t + 1900) = nat_digits (tm_year t' + 1900) \<and> map pad2 (?l t) = map pad2 (?l t')"
    using assms(3) len by (simp add: dump_name_eq append_eq_append_conv)
  then have "digits_value (nat_digits (tm_year t + 1900)) = digits_value (nat_digits (tm_year t' + 1900)) \<and>
      map digits_value (map pad2 (?l t)) = map digits_value (map pad2 (?l t'))" by simp
  then show ?thesis by (cases t; cases t') (simp add: digits_value_digits pad2_value)
qed

lemma deliver_diverges:
  assumes "disp p SIGABRT = SigCore" and "disp p sig = SigCore" and "dump_name (now c) = Some name" and "\<not> can_open c name"
    and "\<not> log_up p"
  shows "deliver c sig p = None"
proof (cases "deliver c sig p")
  case (Some r)
  have "disp p SIGABRT = SigCore \<and> disp p sig = SigCore \<and> dump_name (now c) = Some name \<and> \<not> can_open c name \<and> \<not> log_up p \<longrightarrow> False"
    by (rule deliver.raw_induct[OF _ Some, of "\<lambda>c sig p r. disp p SIGABRT = SigCore \<and> disp p sig = SigCore \<and>
        dump_name (now c) = Some name \<and> \<not> can_open c name \<and> \<not> log_up p \<longrightarrow> False"])
      (auto simp: Option.bind_eq_Some_conv split: if_splits)
  then show ?thesis using assms by simp
qed

lemma exe_line_fault: "exe_line path = Inl e \<longleftrightarrow> e = OutOfBounds \<and> (\<exists>p. path = Some p \<and> 4095 \<le> length p)"
  by (auto simp: exe_line_def MAX_CORE_BUFFER_SIZE_def Let_def res_simps split: option.splits if_splits)


section \<open>Properties\<close>



text \<open>A daemon ignores the signals that ask it to end, and still dumps when it crashes.\<close>

lemma daemon_dispositions:
  "disp (doListen (daemon_signals p)) SIGTERM = SigIgn" "disp (doListen (daemon_signals p)) SIGINT = SigIgn"
  "deliver c SIGTERM (doListen (daemon_signals p)) = Some (Inr (doListen (daemon_signals p)))"
  "disp (doListen (daemon_signals p)) SIGSEGV = SigCore"
  by (simp_all add: daemon_signals_def doListen_def deliver.simps SIGTERM_def SIGINT_def SIGSEGV_def SIGABRT_def SIGHUP_def
      SIGQUIT_def SIGPIPE_def SIGTTOU_def SIGTTIN_def)

text \<open>The clock of the engine and the nanoseconds of \<open>getTimeSec\<close> agree.\<close>

lemma getTime_of_nanoseconds:
  assumes "getTimeSec (int sec) (int nsec) = Inr ns" and "nsec < 1000000000"
  shows "getTime (of_nat sec) (of_nat nsec) = of_int (ns div 10000000)"
proof -
  have ns: "ns = 1000000000 * int sec + int nsec"
    using assms(1) by (simp add: getTimeSec_def res_simps)
  have "unat (of_nat nsec :: 64 word) = nsec" using assms(2) by (simp add: unat_of_nat take_bit_nat_eq_self)
  then have "(of_nat nsec :: 64 word) div 10000000 = of_nat (nsec div 10000000)"
    by (simp add: word_arith_nat_div)
  moreover have "ns div 10000000 = 100 * int sec + int (nsec div 10000000)"
    unfolding ns by (simp add: zdiv_int)
  ultimately show ?thesis by (simp add: getTime_def)
qed

end
