(* ===== verification/SharedPtr.thy ===== *)
theory SharedPtr
  imports RefCount
begin

text \<open>
  Pointers as variables: the constructors, assignments, moves and swaps of \<open>incursivePtr\<close> and
  \<open>weakPtr\<close> and the references taken by hand (\<open>engine/src/util/shared_ptr.h\<close>), over the counts of
  \<open>RefCount\<close>.  What a variable holds is a position of a list; a variable that is not constructed, or
  destroyed, holds null.  The machine of holders of \<open>RefCount\<close> is what the variables implement.
\<close>

section \<open>Variables\<close>

text \<open>
  \<open>raw a\<close> are the references to \<open>a\<close> outside \<open>incursivePtr\<close>: that of the creator, those the queues take,
  and one for every \<open>std::shared_ptr\<close> made by \<open>makeShared\<close> or \<open>sharedFromThis\<close>, whose copies share it.
\<close>

record ptrs =
  pheap :: rc_heap
  sv :: "ptr list"
  wv :: "ptr list"
  raw :: "nat \<Rightarrow> nat"

text \<open>\<open>incursivePtr\<close>.\<close>

definition sp_reset :: "nat \<Rightarrow> ptrs \<Rightarrow> ptrs res" where
  "sp_reset x s = seqE (ip_reset (pheap s) (sv s ! x)) (\<lambda>(h, p). Inr (s\<lparr>pheap := h, sv := (sv s)[x := p]\<rparr>))"

definition sp_from :: "nat \<Rightarrow> ptr \<Rightarrow> ptrs \<Rightarrow> ptrs res" where
  "sp_from x p s = seqE (ip_of (pheap s) p) (\<lambda>(h, p). Inr (s\<lparr>pheap := h, sv := (sv s)[x := p]\<rparr>))"

definition sp_copy :: "nat \<Rightarrow> nat \<Rightarrow> ptrs \<Rightarrow> ptrs res" where
  "sp_copy x y s = sp_from x (sv s ! y) s"

definition sp_move :: "nat \<Rightarrow> nat \<Rightarrow> ptrs \<Rightarrow> ptrs res" where
  "sp_move x y s = Inr (s\<lparr>sv := (sv s)[x := sv s ! y, y := None]\<rparr>)"

definition sp_swap :: "nat \<Rightarrow> nat \<Rightarrow> ptrs \<Rightarrow> ptrs res" where
  "sp_swap x y s = Inr (s\<lparr>sv := (sv s)[x := sv s ! y, y := sv s ! x]\<rparr>)"

definition sp_copy_assign :: "nat \<Rightarrow> nat \<Rightarrow> ptrs \<Rightarrow> ptrs res" where
  "sp_copy_assign x y s = (if x = y then Inr s else seqE (sp_reset x s) (sp_copy x y))"

definition sp_move_assign :: "nat \<Rightarrow> nat \<Rightarrow> ptrs \<Rightarrow> ptrs res" where
  "sp_move_assign x y s = (if x = y then Inr s else seqE (sp_reset x s) (sp_swap x y))"

definition sp_unique :: "nat \<Rightarrow> ptrs \<Rightarrow> bool" where
  "sp_unique x s = (ip_useCount (pheap s) (sv s ! x) = 1)"

text \<open>\<open>weakPtr\<close>; moving swaps, also in an assignment.\<close>

definition wk_reset :: "nat \<Rightarrow> ptrs \<Rightarrow> ptrs res" where
  "wk_reset w s = seqE (wp_reset (pheap s) (wv s ! w)) (\<lambda>(h, p). Inr (s\<lparr>pheap := h, wv := (wv s)[w := p]\<rparr>))"

definition wk_from :: "nat \<Rightarrow> nat \<Rightarrow> ptrs \<Rightarrow> ptrs res" where
  "wk_from w x s = seqE (wp_of_ptr (pheap s) (wv s ! w) (sv s ! x)) (\<lambda>(h, p). Inr (s\<lparr>pheap := h, wv := (wv s)[w := p]\<rparr>))"

definition wk_copy :: "nat \<Rightarrow> nat \<Rightarrow> ptrs \<Rightarrow> ptrs res" where
  "wk_copy w v s = seqE (wp_of_weak (pheap s) (wv s ! v)) (\<lambda>(h, p). Inr (s\<lparr>pheap := h, wv := (wv s)[w := p]\<rparr>))"

definition wk_swap :: "nat \<Rightarrow> nat \<Rightarrow> ptrs \<Rightarrow> ptrs res" where
  "wk_swap w v s = Inr (s\<lparr>wv := (wv s)[w := wv s ! v, v := wv s ! w]\<rparr>)"

definition wk_copy_assign :: "nat \<Rightarrow> nat \<Rightarrow> ptrs \<Rightarrow> ptrs res" where
  "wk_copy_assign w v s = (if w = v then Inr s else seqE (wk_reset w s) (wk_copy w v))"

text \<open>\<open>lock\<close>, whose result becomes the strong pointer \<open>x\<close>.\<close>

definition wk_lock :: "nat \<Rightarrow> nat \<Rightarrow> ptrs \<Rightarrow> ptrs res" where
  "wk_lock x w s = seqE (wp_lock (pheap s) (wv s ! w)) (\<lambda>(h, p). Inr (s\<lparr>pheap := h, sv := (sv s)[x := p]\<rparr>))"

definition wk_useCount :: "nat \<Rightarrow> ptrs \<Rightarrow> int res" where
  "wk_useCount w s =
     (case wv s ! w of
        None \<Rightarrow> Inr 0
      | Some a \<Rightarrow> if r_block (pheap s a) then Inr (r_reference (pheap s a)) else Inl UseAfterFree)"

text \<open>References by hand.\<close>

definition sharedFromThis :: "nat \<Rightarrow> ptrs \<Rightarrow> ptrs res" where
  "sharedFromThis a s = seqE (at_obj (pheap s) a object_increment) (\<lambda>h. Inr (s\<lparr>pheap := h, raw := (raw s)(a := raw s a + 1)\<rparr>))"

definition raw_drop :: "nat \<Rightarrow> ptrs \<Rightarrow> ptrs res" where
  "raw_drop a s = seqE (object_decrement (pheap s a)) (\<lambda>(_, c).
     Inr (s\<lparr>pheap := (pheap s)(a := c), raw := (raw s)(a := raw s a - 1)\<rparr>))"


section \<open>The machine\<close>

datatype ptr_op =
    FromRaw nat nat | CopyNew nat nat | MoveNew nat nat | CopyAssign nat nat | MoveAssign nat nat | Swap nat nat | Reset nat
  | WeakFrom nat nat | WeakCopyNew nat nat | WeakCopyAssign nat nat | WeakMove nat nat | WeakReset nat | Lock nat nat
  | Share nat | Drop nat

fun perform :: "ptr_op \<Rightarrow> ptrs \<Rightarrow> ptrs res" where
  "perform (FromRaw x a) = sp_from x (Some a)"
| "perform (CopyNew x y) = sp_copy x y"
| "perform (MoveNew x y) = sp_move x y"
| "perform (CopyAssign x y) = sp_copy_assign x y"
| "perform (MoveAssign x y) = sp_move_assign x y"
| "perform (Swap x y) = sp_swap x y"
| "perform (Reset x) = sp_reset x"
| "perform (WeakFrom w x) = wk_from w x"
| "perform (WeakCopyNew w v) = wk_copy w v"
| "perform (WeakCopyAssign w v) = wk_copy_assign w v"
| "perform (WeakMove w v) = wk_swap w v"
| "perform (WeakReset w) = wk_reset w"
| "perform (Lock x w) = wk_lock x w"
| "perform (Share a) = sharedFromThis a"
| "perform (Drop a) = raw_drop a"

definition holders :: "ptrs \<Rightarrow> nat \<Rightarrow> nat" where
  "holders s a = raw s a + count_list (sv s) (Some a)"

text \<open>
  What a caller must respect: its variables exist, what it constructs is not alive yet, an object
  it takes a reference to is held by somebody, and nobody drops a reference that was not taken.
\<close>

fun allowed :: "ptr_op \<Rightarrow> ptrs \<Rightarrow> bool" where
  "allowed (FromRaw x a) s = (x < length (sv s) \<and> sv s ! x = None \<and> 0 < holders s a)"
| "allowed (CopyNew x y) s = (x < length (sv s) \<and> y < length (sv s) \<and> sv s ! x = None)"
| "allowed (MoveNew x y) s = (x < length (sv s) \<and> y < length (sv s) \<and> sv s ! x = None \<and> x \<noteq> y)"
| "allowed (CopyAssign x y) s = (x < length (sv s) \<and> y < length (sv s))"
| "allowed (MoveAssign x y) s = (x < length (sv s) \<and> y < length (sv s))"
| "allowed (Swap x y) s = (x < length (sv s) \<and> y < length (sv s))"
| "allowed (Reset x) s = (x < length (sv s))"
| "allowed (WeakFrom w x) s = (w < length (wv s) \<and> x < length (sv s))"
| "allowed (WeakCopyNew w v) s = (w < length (wv s) \<and> v < length (wv s) \<and> wv s ! w = None)"
| "allowed (WeakCopyAssign w v) s = (w < length (wv s) \<and> v < length (wv s))"
| "allowed (WeakMove w v) s = (w < length (wv s) \<and> v < length (wv s))"
| "allowed (WeakReset w) s = (w < length (wv s))"
| "allowed (Lock x w) s = (x < length (sv s) \<and> w < length (wv s) \<and> sv s ! x = None)"
| "allowed (Share a) s = (0 < holders s a)"
| "allowed (Drop a) s = (0 < raw s a)"

inductive ptr_step :: "ptrs \<Rightarrow> ptrs \<Rightarrow> bool" where
  "allowed p s \<Longrightarrow> perform p s = Inr t \<Longrightarrow> ptr_step s t"

inductive_simps ptr_step_iff: "ptr_step s t"

text \<open>Every object begins with the reference of its creator and no pointer to it.\<close>

definition ptrs_init :: "ptrs \<Rightarrow> bool" where
  "ptrs_init s \<longleftrightarrow> pheap s = (\<lambda>_. new_shared_ref) \<and> raw s = (\<lambda>_. 1) \<and>
     (\<forall>a. count_list (sv s) (Some a) = 0) \<and> (\<forall>a. count_list (wv s) (Some a) = 0)"

definition counts_of :: "ptrs \<Rightarrow> rc_state" where
  "counts_of s = \<lparr>rc_heap = pheap s, strong = holders s, weak = (\<lambda>a. count_list (wv s) (Some a))\<rparr>"


section \<open>Counting\<close>

lemma count_list_update:
  "i < length xs \<Longrightarrow> count_list (xs[i := v]) a + (if xs ! i = a then 1 else 0) = count_list xs a + (if v = a then 1 else 0)"
proof (induction xs arbitrary: i)
  case (Cons x xs)
  show ?case
  proof (cases i)
    case (Suc k)
    then show ?thesis using Cons.IH[of k] Cons.prems by (cases "v = a") auto
  qed simp
qed simp

lemma count_list_nth: "i < length xs \<Longrightarrow> 0 < count_list xs (xs ! i)"
  by (metis count_list_0_iff nth_mem neq0_conv)

lemma count_list_set_None:
  "i < length xs \<Longrightarrow> xs ! i = Some a \<Longrightarrow>
    (\<lambda>b. count_list (xs[i := None]) (Some b)) = (\<lambda>b. count_list xs (Some b))(a := count_list xs (Some a) - 1)"
proof (rule ext)
  fix b assume "i < length xs" "xs ! i = Some a"
  then show "count_list (xs[i := None]) (Some b) = ((\<lambda>b. count_list xs (Some b))(a := count_list xs (Some a) - 1)) b"
    using count_list_update[of i xs None "Some b"] by (auto split: if_splits)
qed

lemma count_list_set_Some:
  "i < length xs \<Longrightarrow> xs ! i = None \<Longrightarrow>
    (\<lambda>b. count_list (xs[i := Some a]) (Some b)) = (\<lambda>b. count_list xs (Some b))(a := count_list xs (Some a) + 1)"
proof (rule ext)
  fix b assume "i < length xs" "xs ! i = None"
  then show "count_list (xs[i := Some a]) (Some b) = ((\<lambda>b. count_list xs (Some b))(a := count_list xs (Some a) + 1)) b"
    using count_list_update[of i xs "Some a" "Some b"] by (auto split: if_splits)
qed

lemma count_list_swap:
  assumes "i < length xs" and "j < length xs"
  shows "count_list (xs[i := xs ! j, j := xs ! i]) a = count_list xs a"
proof -
  have "count_list (xs[i := xs ! j]) a + (if xs ! i = a then 1 else 0) = count_list xs a + (if xs ! j = a then 1 else 0)"
    using count_list_update[OF assms(1)] .
  moreover have "count_list (xs[i := xs ! j, j := xs ! i]) a + (if xs[i := xs ! j] ! j = a then 1 else 0) =
      count_list (xs[i := xs ! j]) a + (if xs ! i = a then 1 else 0)"
    using count_list_update[of j "xs[i := xs ! j]"] assms by simp
  moreover have "xs[i := xs ! j] ! j = xs ! j" using assms by (cases "i = j") simp_all
  ultimately show ?thesis by simp
qed


section \<open>Each operation as steps of the holders\<close>

lemma drop_returns: "counted_inv (h a) n w \<Longrightarrow> 0 < n \<Longrightarrow> \<exists>h'. ip_reset h (Some a) = Inr (h', None)"
  using holder_ops(2,3)[of h a n w] by (cases "n = 1") auto

lemma holders_counted: "rc_inv (counts_of s) \<Longrightarrow> counted_inv (pheap s a) (holders s a) (count_list (wv s) (Some a))"
  using rc_invD[of "counts_of s" a] by (simp add: counts_of_def)

lemma held_by_variable: "x < length (sv s) \<Longrightarrow> sv s ! x = Some a \<Longrightarrow> 0 < holders s a"
  using count_list_nth[of x "sv s"] by (simp add: holders_def)

lemma held_weakly: "w < length (wv s) \<Longrightarrow> wv s ! w = Some a \<Longrightarrow> 0 < count_list (wv s) (Some a)"
  using count_list_nth[of w "wv s"] by simp

lemma counts_of_drop:
  assumes "x < length (sv s)" "sv s ! x = Some a"
  shows "counts_of (s\<lparr>pheap := h, sv := (sv s)[x := None]\<rparr>) =
    (counts_of s)\<lparr>rc_heap := h, strong := (strong (counts_of s))(a := strong (counts_of s) a - 1)\<rparr>"
  using fun_cong[OF count_list_set_None[OF assms]] held_by_variable[OF assms] count_list_nth[OF assms(1)] assms(2)
  by (auto simp: counts_of_def holders_def fun_eq_iff)

lemma counts_of_take:
  assumes "x < length (sv s)" "sv s ! x = None"
  shows "counts_of (s\<lparr>pheap := h, sv := (sv s)[x := Some a]\<rparr>) =
    (counts_of s)\<lparr>rc_heap := h, strong := (strong (counts_of s))(a := strong (counts_of s) a + 1)\<rparr>"
  using fun_cong[OF count_list_set_Some[OF assms]] by (auto simp: counts_of_def holders_def fun_eq_iff)

lemma counts_of_weak_drop:
  assumes "w < length (wv s)" "wv s ! w = Some a"
  shows "counts_of (s\<lparr>pheap := h, wv := (wv s)[w := None]\<rparr>) =
    (counts_of s)\<lparr>rc_heap := h, weak := (weak (counts_of s))(a := weak (counts_of s) a - 1)\<rparr>"
  using count_list_set_None[OF assms] by (simp add: counts_of_def holders_def[abs_def])

lemma counts_of_weak_take:
  assumes "w < length (wv s)" "wv s ! w = None"
  shows "counts_of (s\<lparr>pheap := h, wv := (wv s)[w := Some a]\<rparr>) =
    (counts_of s)\<lparr>rc_heap := h, weak := (weak (counts_of s))(a := weak (counts_of s) a + 1)\<rparr>"
  using count_list_set_Some[OF assms, of a] by (simp add: counts_of_def holders_def[abs_def])

text \<open>Dropping what a variable holds, and taking a reference into one that holds nothing.\<close>

lemma sp_reset_refines:
  assumes "rc_inv (counts_of s)" "x < length (sv s)"
  shows "\<exists>h. sp_reset x s = Inr (s\<lparr>pheap := h, sv := (sv s)[x := None]\<rparr>) \<and>
    rc_step\<^sup>*\<^sup>* (counts_of s) (counts_of (s\<lparr>pheap := h, sv := (sv s)[x := None]\<rparr>))"
proof (cases "sv s ! x")
  case None
  then have "s\<lparr>pheap := pheap s, sv := (sv s)[x := None]\<rparr> = s" by (metis list_update_id ptrs.surjective ptrs.update_convs(1,2))
  then show ?thesis using None by (intro exI[of _ "pheap s"]) (simp add: sp_reset_def ip_reset_def)
next
  case (Some a)
  obtain h where h: "ip_reset (pheap s) (Some a) = Inr (h, None)"
    using drop_returns[of "pheap s" a, OF holders_counted[OF assms(1)]] held_by_variable[OF assms(2) Some] by blast
  have "rc_step (counts_of s) (counts_of (s\<lparr>pheap := h, sv := (sv s)[x := None]\<rparr>))"
    unfolding counts_of_drop[OF assms(2) Some]
    by (rule rc_drop[of _ _ h None]) (use h held_by_variable[OF assms(2) Some] in \<open>simp_all add: counts_of_def\<close>)
  then show ?thesis using h Some by (intro exI[of _ h]) (simp add: sp_reset_def)
qed

lemma sp_from_refines:
  assumes "rc_inv (counts_of s)" "x < length (sv s)" "sv s ! x = None" "\<And>a. p = Some a \<Longrightarrow> 0 < holders s a"
  shows "\<exists>h. sp_from x p s = Inr (s\<lparr>pheap := h, sv := (sv s)[x := p]\<rparr>) \<and>
    rc_step\<^sup>*\<^sup>* (counts_of s) (counts_of (s\<lparr>pheap := h, sv := (sv s)[x := p]\<rparr>))"
proof (cases p)
  case None
  then have "s\<lparr>pheap := pheap s, sv := (sv s)[x := None]\<rparr> = s" using assms(3) by (metis list_update_id ptrs.surjective ptrs.update_convs(1,2))
  then show ?thesis using None by (intro exI[of _ "pheap s"]) (simp add: sp_from_def ip_of_def)
next
  case (Some a)
  obtain h where h: "ip_of (pheap s) (Some a) = Inr (h, Some a)"
    using holder_ops(1)[of "pheap s" a, OF holders_counted[OF assms(1)]] assms(4)[OF Some] by blast
  have "rc_step (counts_of s) (counts_of (s\<lparr>pheap := h, sv := (sv s)[x := Some a]\<rparr>))"
    unfolding counts_of_take[OF assms(2,3)]
    by (rule rc_copy[of _ _ h "Some a"]) (use h assms(4)[OF Some] in \<open>simp_all add: counts_of_def\<close>)
  then show ?thesis using h Some by (intro exI[of _ h]) (simp add: sp_from_def)
qed

lemma wk_reset_refines:
  assumes "rc_inv (counts_of s)" "w < length (wv s)"
  shows "\<exists>h. wk_reset w s = Inr (s\<lparr>pheap := h, wv := (wv s)[w := None]\<rparr>) \<and>
    rc_step\<^sup>*\<^sup>* (counts_of s) (counts_of (s\<lparr>pheap := h, wv := (wv s)[w := None]\<rparr>))"
proof (cases "wv s ! w")
  case None
  then have "s\<lparr>pheap := pheap s, wv := (wv s)[w := None]\<rparr> = s" by (metis list_update_id ptrs.surjective ptrs.update_convs(1,3))
  then show ?thesis using None by (intro exI[of _ "pheap s"]) (simp add: wk_reset_def wp_reset_def)
next
  case (Some a)
  obtain h where h: "wp_reset (pheap s) (Some a) = Inr (h, None)"
    using holder_ops(6)[of "pheap s" a, OF holders_counted[OF assms(1)]] held_weakly[OF assms(2) Some] by blast
  have "rc_step (counts_of s) (counts_of (s\<lparr>pheap := h, wv := (wv s)[w := None]\<rparr>))"
    unfolding counts_of_weak_drop[OF assms(2) Some]
    by (rule rc_weak_drop[of _ _ h None]) (use h held_weakly[OF assms(2) Some] in \<open>simp_all add: counts_of_def\<close>)
  then show ?thesis using h Some by (intro exI[of _ h]) (simp add: wk_reset_def)
qed

lemma wk_copy_refines:
  assumes "rc_inv (counts_of s)" "w < length (wv s)" "v < length (wv s)" "wv s ! w = None"
  shows "\<exists>h. wk_copy w v s = Inr (s\<lparr>pheap := h, wv := (wv s)[w := wv s ! v]\<rparr>) \<and>
    rc_step\<^sup>*\<^sup>* (counts_of s) (counts_of (s\<lparr>pheap := h, wv := (wv s)[w := wv s ! v]\<rparr>))"
proof (cases "wv s ! v")
  case None
  then have "s\<lparr>pheap := pheap s, wv := (wv s)[w := None]\<rparr> = s" using assms(4) by (metis list_update_id ptrs.surjective ptrs.update_convs(1,3))
  then show ?thesis using None by (intro exI[of _ "pheap s"]) (simp add: wk_copy_def wp_of_weak_def)
next
  case (Some a)
  obtain h where h: "wp_of_weak (pheap s) (Some a) = Inr (h, Some a)"
    using holder_ops(5)[of "pheap s" a, OF holders_counted[OF assms(1)]] held_weakly[OF assms(3) Some] by blast
  have "rc_step (counts_of s) (counts_of (s\<lparr>pheap := h, wv := (wv s)[w := Some a]\<rparr>))"
    unfolding counts_of_weak_take[OF assms(2,4)]
    by (rule rc_weak_copy[of _ _ h "Some a"]) (use h held_weakly[OF assms(3) Some] in \<open>simp_all add: counts_of_def\<close>)
  then show ?thesis using h Some by (intro exI[of _ h]) (simp add: wk_copy_def)
qed

text \<open>One operation is a sequence of steps of the holders, and returns.\<close>

definition refines :: "ptr_op \<Rightarrow> ptrs \<Rightarrow> bool" where
  "refines p s \<longleftrightarrow> (\<exists>t. perform p s = Inr t \<and> rc_step\<^sup>*\<^sup>* (counts_of s) (counts_of t))"

lemma refinesI: "perform p s = Inr t \<Longrightarrow> rc_step\<^sup>*\<^sup>* (counts_of s) (counts_of t) \<Longrightarrow> refines p s"
  by (auto simp: refines_def)

lemma same_counts: "pheap t = pheap s \<Longrightarrow> raw t = raw s \<Longrightarrow> (\<And>a. count_list (sv t) a = count_list (sv s) a) \<Longrightarrow>
    (\<And>a. count_list (wv t) a = count_list (wv s) a) \<Longrightarrow> counts_of t = counts_of s"
  by (simp add: counts_of_def holders_def[abs_def])

lemma refines_swap: "x < length (sv s) \<Longrightarrow> y < length (sv s) \<Longrightarrow>
    counts_of (s\<lparr>sv := (sv s)[x := sv s ! y, y := sv s ! x]\<rparr>) = counts_of s"
  by (rule same_counts) (simp_all add: count_list_swap)

lemma refines_assign:
  assumes inv: "rc_inv (counts_of s)" and al: "allowed (CopyAssign x y) s" and ne: "x \<noteq> y"
  shows "refines (CopyAssign x y) s" and "refines (MoveAssign x y) s"
proof -
  obtain h where r: "sp_reset x s = Inr (s\<lparr>pheap := h, sv := (sv s)[x := None]\<rparr>)"
    and st: "rc_step\<^sup>*\<^sup>* (counts_of s) (counts_of (s\<lparr>pheap := h, sv := (sv s)[x := None]\<rparr>))"
    using sp_reset_refines[OF inv, of x] al by auto
  let ?t = "s\<lparr>pheap := h, sv := (sv s)[x := None]\<rparr>"
  have inv': "rc_inv (counts_of ?t)" by (rule rc.steps_inv[OF st inv])
  have y: "x < length (sv ?t)" "y < length (sv ?t)" "sv ?t ! x = None" using al by simp_all
  obtain h' where c: "sp_copy x y ?t = Inr (?t\<lparr>pheap := h', sv := (sv ?t)[x := sv ?t ! y]\<rparr>)"
    and su: "rc_step\<^sup>*\<^sup>* (counts_of ?t) (counts_of (?t\<lparr>pheap := h', sv := (sv ?t)[x := sv ?t ! y]\<rparr>))"
    using sp_from_refines[OF inv' y(1,3), of "sv ?t ! y"] held_by_variable[OF y(2)] unfolding sp_copy_def by blast
  let ?u = "?t\<lparr>pheap := h', sv := (sv ?t)[x := sv ?t ! y]\<rparr>"
  show "refines (CopyAssign x y) s"
    by (rule refinesI[of _ _ ?u]) (use r c ne rtranclp_trans[OF st su] in \<open>simp_all add: sp_copy_assign_def\<close>)
  show "refines (MoveAssign x y) s"
    by (rule refinesI[of _ _ "?t\<lparr>sv := (sv ?t)[x := sv ?t ! y, y := sv ?t ! x]\<rparr>"])
      (use r ne st refines_swap[OF y(1,2)] in \<open>simp_all add: sp_move_assign_def sp_swap_def\<close>)
qed

lemma refines_weak_from:
  assumes inv: "rc_inv (counts_of s)" and al: "allowed (WeakFrom w x) s"
  shows "refines (WeakFrom w x) s"
proof -
  obtain h where r: "wk_reset w s = Inr (s\<lparr>pheap := h, wv := (wv s)[w := None]\<rparr>)"
    and st: "rc_step\<^sup>*\<^sup>* (counts_of s) (counts_of (s\<lparr>pheap := h, wv := (wv s)[w := None]\<rparr>))"
    using wk_reset_refines[OF inv, of w] al by auto
  let ?t = "s\<lparr>pheap := h, wv := (wv s)[w := None]\<rparr>"
  have inv': "rc_inv (counts_of ?t)" by (rule rc.steps_inv[OF st inv])
  have h: "wp_reset (pheap s) (wv s ! w) = Inr (h, None)"
    using r by (cases "wv s ! w") (auto simp: wk_reset_def wp_reset_def res_simps dest: arg_cong[where f=pheap])
  show ?thesis
  proof (cases "sv s ! x")
    case None
    then show ?thesis using h st by (intro refinesI[of _ _ ?t]) (simp_all add: wk_from_def wp_of_ptr_def)
  next
    case (Some a)
    have held: "0 < holders ?t a" using held_by_variable[of x s a] al Some by (simp add: holders_def)
    obtain h' where w: "wp_of_ptr h None (Some a) = Inr (h', Some a)"
      using holder_ops(4)[of h a, OF holders_counted[OF inv', of a, simplified]] held by (auto simp: holders_def)
    then have "perform (WeakFrom w x) s = Inr (?t\<lparr>pheap := h', wv := (wv ?t)[w := Some a]\<rparr>)"
      using h Some by (auto simp: wk_from_def wp_of_ptr_def wp_reset_def res_simps)
    moreover have "rc_step (counts_of ?t) (counts_of (?t\<lparr>pheap := h', wv := (wv ?t)[w := Some a]\<rparr>))"
      using counts_of_weak_take[of w ?t a h'] rc_weaken[of "counts_of ?t" a h' "Some a"] w held al by (simp add: counts_of_def)
    ultimately show ?thesis by (rule refinesI[OF _ rtranclp.rtrancl_into_rtrancl[OF st]])
  qed
qed

lemma refines_weak_assign:
  assumes inv: "rc_inv (counts_of s)" and al: "allowed (WeakCopyAssign w v) s" and ne: "w \<noteq> v"
  shows "refines (WeakCopyAssign w v) s"
proof -
  obtain h where r: "wk_reset w s = Inr (s\<lparr>pheap := h, wv := (wv s)[w := None]\<rparr>)"
    and st: "rc_step\<^sup>*\<^sup>* (counts_of s) (counts_of (s\<lparr>pheap := h, wv := (wv s)[w := None]\<rparr>))"
    using wk_reset_refines[OF inv, of w] al by auto
  let ?t = "s\<lparr>pheap := h, wv := (wv s)[w := None]\<rparr>"
  have inv': "rc_inv (counts_of ?t)" by (rule rc.steps_inv[OF st inv])
  have v: "w < length (wv ?t)" "v < length (wv ?t)" "wv ?t ! w = None" using al by simp_all
  obtain h' where c: "wk_copy w v ?t = Inr (?t\<lparr>pheap := h', wv := (wv ?t)[w := wv ?t ! v]\<rparr>)"
    and su: "rc_step\<^sup>*\<^sup>* (counts_of ?t) (counts_of (?t\<lparr>pheap := h', wv := (wv ?t)[w := wv ?t ! v]\<rparr>))"
    using wk_copy_refines[OF inv' v] by blast
  let ?u = "?t\<lparr>pheap := h', wv := (wv ?t)[w := wv ?t ! v]\<rparr>"
  show ?thesis
    by (rule refinesI[of _ _ ?u]) (use r c ne rtranclp_trans[OF st su] in \<open>simp_all add: wk_copy_assign_def\<close>)
qed

lemma refines_lock:
  assumes inv: "rc_inv (counts_of s)" and al: "allowed (Lock x w) s"
  shows "refines (Lock x w) s"
proof (cases "wv s ! w")
  case None
  have "perform (Lock x w) s = Inr s"
    using None al by (simp add: wk_lock_def wp_lock_def) (metis list_update_id ptrs.surjective ptrs.update_convs(1,2))
  then show ?thesis by (rule refinesI) simp
next
  case (Some a)
  note ops = holder_ops(7,8)[of "pheap s" a, OF holders_counted[OF inv]]
  have held: "0 < count_list (wv s) (Some a)" using held_weakly[of w s a] al Some by simp
  show ?thesis
  proof (cases "holders s a = 0")
    case True
    have "perform (Lock x w) s = Inr s"
      using ops(2)[OF held True] Some al
      by (simp add: wk_lock_def) (metis list_update_id ptrs.surjective ptrs.update_convs(1,2))
    then show ?thesis by (rule refinesI) simp
  next
    case False
    obtain h where h: "wp_lock (pheap s) (Some a) = Inr (h, Some a)" using ops(1)[OF held] False by blast
    then have p: "perform (Lock x w) s = Inr (s\<lparr>pheap := h, sv := (sv s)[x := Some a]\<rparr>)" using Some by (simp add: wk_lock_def)
    have "rc_step (counts_of s) (counts_of (s\<lparr>pheap := h, sv := (sv s)[x := Some a]\<rparr>))"
      using counts_of_take[of x s a h] rc_lock[of "counts_of s" a h "Some a"] h held al by (simp add: counts_of_def)
    then show ?thesis by (rule refinesI[OF p r_into_rtranclp])
  qed
qed

lemma refines_hand:
  assumes inv: "rc_inv (counts_of s)"
  shows "allowed (Share a) s \<Longrightarrow> refines (Share a) s" and "allowed (Drop a) s \<Longrightarrow> refines (Drop a) s"
proof -
  note counted = holders_counted[OF inv, of a]
  {
    assume al: "allowed (Share a) s"
    let ?h = "(pheap s)(a := (pheap s a)\<lparr>r_reference := int (holders s a) + 1\<rparr>)"
    have ip: "ip_of (pheap s) (Some a) = Inr (?h, Some a)" using holder_ops(1)[of "pheap s" a, OF counted] al by simp
    then have "perform (Share a) s = Inr (s\<lparr>pheap := ?h, raw := (raw s)(a := raw s a + 1)\<rparr>)"
      by (auto simp: ip_of_def sharedFromThis_def res_simps)
    moreover have "rc_step (counts_of s) (counts_of (s\<lparr>pheap := ?h, raw := (raw s)(a := raw s a + 1)\<rparr>))"
    proof -
      have "counts_of (s\<lparr>pheap := ?h, raw := (raw s)(a := raw s a + 1)\<rparr>) =
          (counts_of s)\<lparr>rc_heap := ?h, strong := (strong (counts_of s))(a := strong (counts_of s) a + 1)\<rparr>"
        by (simp add: counts_of_def holders_def[abs_def] fun_eq_iff)
      then show ?thesis using rc_copy[of "counts_of s" a ?h "Some a"] ip al by (simp add: counts_of_def)
    qed
    ultimately show "refines (Share a) s" by (rule refinesI[OF _ r_into_rtranclp])
  next
    assume al: "allowed (Drop a) s"
    then have held: "0 < holders s a" by (simp add: holders_def)
    obtain h where ip: "ip_reset (pheap s) (Some a) = Inr (h, None)"
      using drop_returns[of "pheap s" a, OF counted held] by blast
    then have "perform (Drop a) s = Inr (s\<lparr>pheap := h, raw := (raw s)(a := raw s a - 1)\<rparr>)"
      by (auto simp: ip_reset_def raw_drop_def res_simps)
    moreover have "rc_step (counts_of s) (counts_of (s\<lparr>pheap := h, raw := (raw s)(a := raw s a - 1)\<rparr>))"
    proof -
      have "counts_of (s\<lparr>pheap := h, raw := (raw s)(a := raw s a - 1)\<rparr>) =
          (counts_of s)\<lparr>rc_heap := h, strong := (strong (counts_of s))(a := strong (counts_of s) a - 1)\<rparr>"
        using al by (simp add: counts_of_def holders_def[abs_def] fun_eq_iff)
      then show ?thesis using rc_drop[of "counts_of s" a h None] ip held by (simp add: counts_of_def)
    qed
    ultimately show "refines (Drop a) s" by (rule refinesI[OF _ r_into_rtranclp])
  }
qed

text \<open>The operations that move or exchange pointers, or make one.\<close>

lemma refines_simple:
  assumes inv: "rc_inv (counts_of s)"
  shows "allowed (FromRaw x a) s \<Longrightarrow> refines (FromRaw x a) s" and "allowed (CopyNew x y) s \<Longrightarrow> refines (CopyNew x y) s"
    and "allowed (MoveNew x y) s \<Longrightarrow> refines (MoveNew x y) s" and "allowed (Swap x y) s \<Longrightarrow> refines (Swap x y) s"
    and "allowed (Reset x) s \<Longrightarrow> refines (Reset x) s" and "allowed (WeakCopyNew w v) s \<Longrightarrow> refines (WeakCopyNew w v) s"
    and "allowed (WeakMove w v) s \<Longrightarrow> refines (WeakMove w v) s" and "allowed (WeakReset w) s \<Longrightarrow> refines (WeakReset w) s"
proof -
  show "allowed (FromRaw x a) s \<Longrightarrow> refines (FromRaw x a) s" using sp_from_refines[OF inv, of x "Some a"] by (auto simp: refines_def)
  show "allowed (CopyNew x y) s \<Longrightarrow> refines (CopyNew x y) s"
    using sp_from_refines[OF inv, of x "sv s ! y"] held_by_variable[of y s] by (auto simp: refines_def sp_copy_def)
  show "allowed (Swap x y) s \<Longrightarrow> refines (Swap x y) s" using refines_swap[of x s y] by (simp add: refines_def sp_swap_def)
  show "allowed (MoveNew x y) s \<Longrightarrow> refines (MoveNew x y) s"
    using refines_swap[of x s y] by (auto simp: refines_def sp_move_def)
  show "allowed (Reset x) s \<Longrightarrow> refines (Reset x) s" using sp_reset_refines[OF inv, of x] by (auto simp: refines_def)
  show "allowed (WeakCopyNew w v) s \<Longrightarrow> refines (WeakCopyNew w v) s" using wk_copy_refines[OF inv, of w v] by (auto simp: refines_def)
  show "allowed (WeakReset w) s \<Longrightarrow> refines (WeakReset w) s" using wk_reset_refines[OF inv, of w] by (auto simp: refines_def)
  assume "allowed (WeakMove w v) s"
  then have "counts_of (s\<lparr>wv := (wv s)[w := wv s ! v, v := wv s ! w]\<rparr>) = counts_of s"
    by (intro same_counts) (simp_all add: count_list_swap)
  then show "refines (WeakMove w v) s" by (simp add: refines_def wk_swap_def)
qed

lemma refines_all: "rc_inv (counts_of s) \<Longrightarrow> allowed p s \<Longrightarrow> refines p s"
proof (cases p)
  case (CopyAssign x y)
  assume "rc_inv (counts_of s)" "allowed p s"
  then show ?thesis using refines_assign(1)[of s x y] CopyAssign
    by (cases "x = y") (auto simp: refines_def sp_copy_assign_def)
next
  case (MoveAssign x y)
  assume "rc_inv (counts_of s)" "allowed p s"
  then show ?thesis using refines_assign(2)[of s x y] MoveAssign
    by (cases "x = y") (auto simp: refines_def sp_move_assign_def)
next
  case (WeakCopyAssign w v)
  assume "rc_inv (counts_of s)" "allowed p s"
  then show ?thesis using refines_weak_assign[of s w v] WeakCopyAssign
    by (cases "w = v") (auto simp: refines_def wk_copy_assign_def)
qed (auto simp del: allowed.simps intro: refines_simple refines_weak_from refines_lock refines_hand)


interpretation variables: invariant_machine ptrs_init ptr_step "\<lambda>s. rc_inv (counts_of s)"
proof
  show "ptrs_init s \<Longrightarrow> rc_inv (counts_of s)" for s
    by (simp add: ptrs_init_def counts_of_def holders_def[abs_def] rc_inv_def counted_inv_def new_shared_ref_def)
  fix s t assume inv: "rc_inv (counts_of s)" and step: "ptr_step s t"
  obtain p where p: "allowed p s" "perform p s = Inr t" using step by (auto simp: ptr_step_iff)
  have "refines p s" by (rule refines_all[OF inv p(1)])
  then have "rc_step\<^sup>*\<^sup>* (counts_of s) (counts_of t)" using p(2) by (simp add: refines_def)
  then show "rc_inv (counts_of t)" using inv by (rule rc.steps_inv)
qed

text \<open>
  A pointer assigned from a member of the object it holds (\<open>p = p->next\<close>): the assignment drops the
  object first and reads the member then.
\<close>

definition sp_assign_member :: "nat \<Rightarrow> ptr \<Rightarrow> ptrs \<Rightarrow> ptrs res" where
  "sp_assign_member x m s =
     (case sv s ! x of
        None \<Rightarrow> Inl NullDeref
      | Some a \<Rightarrow> seqE (sp_reset x s) (\<lambda>s'. if r_object (pheap s' a) then sp_from x m s' else Inl UseAfterFree))"

lemma member_assign_faults:
  assumes "rc_inv (counts_of s)" and "x < length (sv s)" and "sv s ! x = Some a" and "holders s a = 1"
  shows "sp_assign_member x m s = Inl UseAfterFree"
  using holder_ops(3)[of "pheap s" a, OF holders_counted[OF assms(1)]] assms(2-4) by (simp add: sp_assign_member_def sp_reset_def)

section \<open>Properties\<close>

text \<open>C7: In every reachable state every operation on pointer variables that its caller may perform returns, is a
  sequence of steps of the holders of \<open>RefCount\<close>, and leaves every object with as many references as
  there are variables and hands that hold it, alive exactly while there are any, and every weak
  count that reads it right.\<close>

theorem pointers_refine_counts:
  assumes "reach ptrs_init ptr_step s" and "allowed p s"
  shows "\<exists>t. perform p s = Inr t \<and> rc_step\<^sup>*\<^sup>* (counts_of s) (counts_of t) \<and>
    (\<forall>a. r_reference (pheap t a) = int (raw t a + count_list (sv t) (Some a)) \<and>
         (r_object (pheap t a) \<longleftrightarrow> 0 < raw t a + count_list (sv t) (Some a))) \<and>
    (\<forall>w a. w < length (wv t) \<and> wv t ! w = Some a \<longrightarrow> wk_useCount w t = Inr (int (raw t a + count_list (sv t) (Some a))))"
proof -
  have inv: "rc_inv (counts_of s)" using assms(1) by (rule variables.reach_inv)
  obtain t where t: "perform p s = Inr t" "rc_step\<^sup>*\<^sup>* (counts_of s) (counts_of t)"
    using refines_all[OF inv assms(2)] by (auto simp: refines_def)
  have inv': "rc_inv (counts_of t)" by (rule rc.steps_inv[OF t(2) inv])
  have counted: "counted_inv (pheap t a) (holders t a) (count_list (wv t) (Some a))" for a by (rule holders_counted[OF inv'])
  have "wk_useCount w t = Inr (int (raw t a + count_list (sv t) (Some a)))" if "w < length (wv t)" "wv t ! w = Some a" for w a
    using counted[of a] held_weakly[OF that] that(2) by (simp add: wk_useCount_def counted_inv_def holders_def)
  then show ?thesis using t counted
    by (intro exI[of _ t]) (auto simp: counted_inv_def holders_def)
qed

definition example_ptrs :: ptrs where
  "example_ptrs = \<lparr>pheap = (\<lambda>_. new_shared_ref), sv = [None, None], wv = [None], raw = (\<lambda>_. 1)\<rparr>"

theorem pointers_refine_counts_witness:
  "\<exists>t. perform (FromRaw 1 5) example_ptrs = Inr t \<and> rc_step\<^sup>*\<^sup>* (counts_of example_ptrs) (counts_of t) \<and>
    (\<forall>a. r_reference (pheap t a) = int (raw t a + count_list (sv t) (Some a)) \<and>
         (r_object (pheap t a) \<longleftrightarrow> 0 < raw t a + count_list (sv t) (Some a))) \<and>
    (\<forall>w a. w < length (wv t) \<and> wv t ! w = Some a \<longrightarrow> wk_useCount w t = Inr (int (raw t a + count_list (sv t) (Some a))))"
  by (rule pointers_refine_counts) (auto intro!: reach_init simp: ptrs_init_def example_ptrs_def holders_def)

end
