(* ===== verification/LogThread.thy ===== *)
theory LogThread
  imports LogSystem
begin

text \<open>
  The log at work: the threads that log, the thread of \<open>LogSystem\<close> that writes the lines, and the
  shutdown (\<open>engine/src/log/logSystem.cc\<close> over \<open>engine/src/util/post.cc\<close>), as one machine.  Every push and
  pop of the queue, every block under the mutex of the posted thread and every line written is a
  step; the messages that were pushed are kept as a history.
\<close>

section \<open>The machine\<close>

text \<open>A thread in \<open>doLog\<close> has found a logger and is about to push, or has pushed and is about to post.\<close>

datatype log_client = Quiet | Pushing logLevel string | Posting

datatype log_phase = Up | Joining | Down

text \<open>
  \<open>w_hand\<close> is the message between \<open>pop\<close> and \<open>m_log->doLog\<close>, \<open>w_out\<close> what a deleted logger had written.
\<close>

record log_world =
  w_sys :: logSystem
  w_pc :: post_pc
  w_hand :: "(int \<times> string) option"
  w_client :: "nat \<Rightarrow> log_client"
  w_phase :: log_phase
  w_out :: "(spd_level \<times> string) list"
  w_pushed :: "(logLevel \<times> string) list"

definition console :: "log_world \<Rightarrow> (spd_level \<times> string) list" where
  "console w = (case l_log (w_sys w) of None \<Rightarrow> w_out w | Some lg \<Rightarrow> lg_lines lg)"

text \<open>The steps of the thread: the loop of \<open>defaultExecute\<close> and in it \<open>logSystem::doDispatch\<close>.\<close>

inductive writer_step :: "log_world \<Rightarrow> log_world \<Rightarrow> bool" where
  w_top: "w_pc w = PTop \<Longrightarrow> writer_step w (w\<lparr>w_pc := (if m_shutdown (l_pid (w_sys w)) then PDone else PEnter)\<rparr>)"
| w_enter: "w_pc w = PEnter \<Longrightarrow> post_enter (l_pid (w_sys w)) = (m, p) \<Longrightarrow>
    writer_step w (w\<lparr>w_sys := (w_sys w)\<lparr>l_pid := m\<rparr>, w_pc := p\<rparr>)"
| w_wake: "w_pc w = PWoken \<Longrightarrow> post_wake (l_pid (w_sys w)) = (m, p) \<Longrightarrow>
    writer_step w (w\<lparr>w_sys := (w_sys w)\<lparr>l_pid := m\<rparr>, w_pc := p\<rparr>)"
| w_check: "w_pc w = PCheck \<Longrightarrow> writer_step w (w\<lparr>w_pc := (if m_shutdown (l_pid (w_sys w)) then PTop else PRun)\<rparr>)"
| w_pop: "w_pc w = PRun \<Longrightarrow> w_hand w = None \<Longrightarrow> local_pop (l_mqs (w_sys w)) = Inr (r, q) \<Longrightarrow>
    writer_step w (w\<lparr>w_sys := (w_sys w)\<lparr>l_mqs := q\<rparr>, w_hand := r, w_pc := (if r = None then PTop else PRun)\<rparr>)"
| w_line: "w_pc w = PRun \<Longrightarrow> w_hand w = Some m \<Longrightarrow> log_one m (Inr (l_log (w_sys w))) = Inr lg \<Longrightarrow>
    writer_step w (w\<lparr>w_sys := (w_sys w)\<lparr>l_log := lg\<rparr>, w_hand := None\<rparr>)"

text \<open>
  The steps of the others: \<open>doLog\<close> in three parts, which asserts without a logger, the shutdown up to
  \<open>join\<close> and after it, and the wake-ups of the condition variable that nobody asked for.
\<close>

inductive log_step :: "log_world \<Rightarrow> log_world \<Rightarrow> bool" where
  l_writer: "writer_step w w' \<Longrightarrow> log_step w w'"
| l_spurious: "w_pc w = PWaiting \<Longrightarrow> log_step w (w\<lparr>w_pc := PWoken\<rparr>)"
| l_found: "w_client w c = Quiet \<Longrightarrow> l_log (w_sys w) \<noteq> None \<Longrightarrow>
    log_step w (w\<lparr>w_client := (w_client w)(c := Pushing l msg)\<rparr>)"
| l_push: "w_client w c = Pushing l msg \<Longrightarrow>
    local_push (l_mqs (w_sys w)) (level_code l, takeWhile (\<lambda>c. c \<noteq> CHR 0x00) msg) = Inr q \<Longrightarrow>
    log_step w (w\<lparr>w_sys := (w_sys w)\<lparr>l_mqs := q\<rparr>, w_client := (w_client w)(c := Posting),
      w_pushed := w_pushed w @ [(l, msg)]\<rparr>)"
| l_post: "w_client w c = Posting \<Longrightarrow>
    log_step w (w\<lparr>w_client := (w_client w)(c := Quiet), w_pc := doPost (l_pid (w_sys w)) (w_pc w)\<rparr>)"
| l_shutdown: "w_phase w = Up \<Longrightarrow> post_doShutdown (l_pid (w_sys w)) (w_pc w) = (m, p) \<Longrightarrow>
    log_step w (w\<lparr>w_sys := (w_sys w)\<lparr>l_pid := m\<rparr>, w_pc := p, w_phase := Joining\<rparr>)"
| l_delete: "w_phase w = Joining \<Longrightarrow> w_pc w = PDone \<Longrightarrow>
    log_step w (w\<lparr>w_sys := log_doShutdown (w_sys w), w_phase := Down, w_out := console w\<rparr>)"

text \<open>The log after its start with some options.\<close>

definition log_world_start :: "logSystem \<Rightarrow> log_world" where
  "log_world_start s =
     \<lparr>w_sys = s, w_pc = PTop, w_hand = None, w_client = (\<lambda>_. Quiet), w_phase = Up, w_out = [], w_pushed = []\<rparr>"

definition log_world_init :: "coroutineOptions \<Rightarrow> log_world \<Rightarrow> bool" where
  "log_world_init opt w \<longleftrightarrow>
     opt_logPath opt = None \<and> (\<exists>s. log_doStart opt new_logSystem = Inr (0, s) \<and> w = log_world_start s)"


section \<open>Invariant\<close>

text \<open>
  The messages that were pushed are those on the console, the one in hand and the queued ones, in
  this order; only a thread that has ended is without its logger.
\<close>

definition waiting_entries :: "log_world \<Rightarrow> (int \<times> string) list" where
  "waiting_entries w = (case w_hand w of None \<Rightarrow> [] | Some m \<Rightarrow> [m]) @ contents (l_mqs (w_sys w))"

definition history_kept :: "spd_level \<Rightarrow> log_world \<Rightarrow> bool" where
  "history_kept lv w \<longleftrightarrow> (\<exists>ws rs. w_pushed w = ws @ rs \<and> console w = visible lv ws \<and> map log_entry rs = waiting_entries w)"

definition logger_there :: "spd_level \<Rightarrow> log_world \<Rightarrow> bool" where
  "logger_there lv w \<longleftrightarrow> (case l_log (w_sys w) of None \<Rightarrow> w_phase w = Down | Some lg \<Rightarrow> w_phase w \<noteq> Down \<and> lg_level lg = lv)"

definition log_kept :: "spd_level \<Rightarrow> log_world \<Rightarrow> bool" where
  "log_kept lv w \<longleftrightarrow> history_kept lv w \<and> logger_there lv w"

lemmas kept_defs = log_kept_def history_kept_def logger_there_def console_def

lemma history_keptI: "w_pushed w = ws @ rs \<Longrightarrow> console w = visible lv ws \<Longrightarrow> map log_entry rs = waiting_entries w \<Longrightarrow> history_kept lv w"
  by (auto simp: history_kept_def)

definition log_control :: "log_world \<Rightarrow> bool" where
  "log_control w \<longleftrightarrow>
     queue_inv (l_mqs (w_sys w)) \<and> (w_hand w \<noteq> None \<longrightarrow> w_pc w = PRun) \<and>
     (w_phase w = Down \<longrightarrow> w_pc w = PDone) \<and> (w_pc w = PDone \<longrightarrow> m_shutdown (l_pid (w_sys w))) \<and>
     (m_shutdown (l_pid (w_sys w)) \<longleftrightarrow> w_phase w \<noteq> Up) \<and>
     (m_shutdown (l_pid (w_sys w)) \<longrightarrow> w_pc w \<noteq> PWaiting) \<and>
     m_sleep (l_pid (w_sys w)) = (if w_pc w = PWaiting \<or> w_pc w = PWoken then 1 else 0)"

lemmas log_step_defs = post_defs log_doShutdown_def

text \<open>Below \<open>2 ^ 29\<close> waiting messages a push keeps the queue well formed.\<close>

definition queue_small :: "log_world \<Rightarrow> bool" where
  "queue_small w \<longleftrightarrow> length (contents (l_mqs (w_sys w))) < 2 ^ 29"

definition small_step :: "log_world \<Rightarrow> log_world \<Rightarrow> bool" where
  "small_step w w' \<longleftrightarrow> log_step w w' \<and> queue_small w"

text \<open>\<open>doLog\<close> called by a thread alone is its three steps.\<close>

lemma doLog_steps:
  assumes "log_doLog l msg (w_sys w) = Inr s" and "w_client w c = Quiet"
    and "queue_small w" and "length (contents (l_mqs s)) < 2 ^ 29"
  shows "small_step\<^sup>*\<^sup>* w (w\<lparr>w_sys := s, w_pushed := w_pushed w @ [(l, msg)], w_pc := doPost (l_pid s) (w_pc w)\<rparr>)"
proof -
  obtain q where log: "l_log (w_sys w) \<noteq> None" and s: "s = (w_sys w)\<lparr>l_mqs := q\<rparr>"
      and q: "local_push (l_mqs (w_sys w)) (level_code l, takeWhile (\<lambda>c. c \<noteq> CHR 0x00) msg) = Inr q"
    using assms(1) by (auto simp: log_doLog_def res_simps)
  let ?a = "w\<lparr>w_client := (w_client w)(c := Pushing l msg)\<rparr>"
  let ?b = "?a\<lparr>w_sys := s, w_client := (w_client w)(c := Posting), w_pushed := w_pushed w @ [(l, msg)]\<rparr>"
  have "small_step w ?a" using l_found[of w c] assms(2,3) log by (simp add: small_step_def)
  moreover have "small_step ?a ?b"
    using l_push[of ?a c l msg q] q s assms(3) by (simp add: small_step_def queue_small_def)
  moreover have "small_step ?b (w\<lparr>w_sys := s, w_pushed := w_pushed w @ [(l, msg)], w_pc := doPost (l_pid s) (w_pc w)\<rparr>)"
    using l_post[of ?b c] assms(2,4) s by (simp add: fun_upd_idem small_step_def queue_small_def)
  ultimately show ?thesis by (meson converse_rtranclp_into_rtranclp rtranclp.rtrancl_refl)
qed

lemma pop_cases:
  assumes "queue_inv q" and "local_pop q = Inr (r, q')"
  shows "queue_inv q' \<and> r = hd_opt (contents q) \<and> contents q' = tl (contents q)"
  using rq.deq_hd_tl[OF assms(1)] assms(2) by auto

lemma writer_control:
  assumes "writer_step w w'" and "log_control w"
  shows "log_control w'"
  using assms
proof (cases rule: writer_step.cases)
  case (w_pop r q)
  then show ?thesis using assms(2) pop_cases[of "l_mqs (w_sys w)" r q] by (auto simp: log_control_def)
qed (auto simp: log_control_def log_step_defs split: if_splits)

lemma step_control:
  assumes "log_step w w'" and "log_control w" and "queue_small w"
  shows "log_control w'"
  using assms(1)
proof (cases rule: log_step.cases)
  case l_writer
  then show ?thesis using assms(2) by (rule writer_control)
next
  case (l_push c l msg q)
  then show ?thesis
    using assms(2,3) rq.enq_ok[of "l_mqs (w_sys w)" "(level_code l, takeWhile (\<lambda>c. c \<noteq> CHR 0x00) msg)"]
      rq.room_lim[of "l_mqs (w_sys w)"]
    by (auto simp: log_control_def queue_small_def)
qed (use assms(2) in \<open>auto simp: log_control_def log_step_defs split: if_splits\<close>)


lemma visible_append: "visible lv (ms @ ns) = visible lv ms @ visible lv ns"
  by (simp add: visible_def)

lemma log_one_logger:
  "log_one (log_entry m) (Inr (Some lg)) = Inr r \<longleftrightarrow> r = Some (lg\<lparr>lg_lines := lg_lines lg @ visible (lg_level lg) [m]\<rparr>)"
  by (auto simp: log_one_entry)

text \<open>What does not touch the history, the logger and the waiting messages keeps them.\<close>

lemma log_kept_same:
  "w_pushed w' = w_pushed w \<Longrightarrow> w_out w' = w_out w \<Longrightarrow> l_log (w_sys w') = l_log (w_sys w) \<Longrightarrow> w_phase w' = w_phase w \<Longrightarrow>
     waiting_entries w' = waiting_entries w \<Longrightarrow> log_kept lv w' \<longleftrightarrow> log_kept lv w"
  by (cases "l_log (w_sys w)") (simp_all add: kept_defs)

text \<open>Taking a message off the queue and writing it.\<close>

lemma writer_kept:
  assumes "writer_step w w'" and "log_control w" and "log_kept lv w"
  shows "log_kept lv w'"
  using assms(1)
proof (cases rule: writer_step.cases)
  case (w_pop r q)
  then have "waiting_entries w' = waiting_entries w"
    using assms(2) pop_cases[of "l_mqs (w_sys w)" r q]
    by (cases "contents (l_mqs (w_sys w))") (auto simp: log_control_def waiting_entries_def)
  then show ?thesis using assms(3) w_pop(1) log_kept_same[of w' w] by (simp add: console_def)
next
  case (w_line m lg)
  obtain ws rs where rs: "w_pushed w = ws @ rs" "console w = visible lv ws" "map log_entry rs = m # contents (l_mqs (w_sys w))"
    using assms(3) w_line by (auto simp: kept_defs waiting_entries_def)
  obtain old where old: "l_log (w_sys w) = Some old" "lg_level old = lv" "w_phase w \<noteq> Down"
    using assms(2,3) w_line by (auto simp: kept_defs log_control_def split: option.splits)
  obtain x xs where x: "rs = x # xs" "m = log_entry x" "map log_entry xs = contents (l_mqs (w_sys w))" using rs(3) by auto
  have lg: "lg = Some (old\<lparr>lg_lines := lg_lines old @ visible lv [x]\<rparr>)"
    using w_line(4) old x(2) log_one_logger[of x old lg] by simp
  have "history_kept lv w'"
    using rs(1,2) x old(1) w_line(1) lg
    by (intro history_keptI[of _ "ws @ [x]" xs]) (simp_all add: console_def waiting_entries_def visible_append)
  then show ?thesis using w_line(1) old lg by (simp add: log_kept_def logger_there_def)
qed (use assms(3) log_kept_same[of w' w lv] in \<open>simp_all add: waiting_entries_def\<close>)

lemma step_kept:
  assumes "log_step w w'" and "log_control w" and "log_kept lv w" and "queue_small w"
  shows "log_kept lv w'"
  using assms(1)
proof (cases rule: log_step.cases)
  case l_writer
  then show ?thesis using assms(2,3) by (rule writer_kept)
next
  case (l_push c l msg q)
  have "contents q = contents (l_mqs (w_sys w)) @ [log_entry (l, msg)]"
    using assms(2,4) l_push(3) rq.enq_ok[of "l_mqs (w_sys w)" "log_entry (l, msg)"] rq.room_lim[of "l_mqs (w_sys w)"]
    by (auto simp: log_control_def queue_small_def log_entry_def c_str_def)
  then have entries: "waiting_entries w' = waiting_entries w @ [log_entry (l, msg)]"
    using l_push(1) by (simp add: waiting_entries_def)
  obtain ws rs where rs: "w_pushed w = ws @ rs" "console w = visible lv ws" "map log_entry rs = waiting_entries w"
    using assms(3) by (auto simp: log_kept_def history_kept_def)
  have "console w' = console w" using l_push(1) by (cases "l_log (w_sys w)") (simp_all add: console_def)
  then have "history_kept lv w'"
    using l_push(1) entries rs by (intro history_keptI[of _ ws "rs @ [(l, msg)]"]) simp_all
  moreover have "logger_there lv w'"
    using assms(3) l_push(1) by (cases "l_log (w_sys w)") (simp_all add: log_kept_def logger_there_def)
  ultimately show ?thesis by (simp add: log_kept_def)
next
  case l_delete
  then show ?thesis
    using assms(3) by (cases "l_log (w_sys w)") (simp_all add: kept_defs waiting_entries_def log_doShutdown_def)
next
  case (l_shutdown m p)
  then show ?thesis using assms(3) by (cases "l_log (w_sys w)") (auto simp: kept_defs waiting_entries_def)
qed (use assms(3) log_kept_same[of w' w lv] in \<open>auto simp: waiting_entries_def\<close>)

definition configured_level :: "coroutineOptions \<Rightarrow> spd_level" where
  "configured_level opt = toLevel (getLevel (sint (opt_logLevel opt)))"

interpretation log_thread: invariant_machine "log_world_init opt" small_step
    "\<lambda>w. log_control w \<and> log_kept (configured_level opt) w" for opt
proof
  fix w assume "log_world_init opt w"
  then have "w = log_world_start (new_logSystem\<lparr>l_log := Some (new_logConsole (sint (opt_logLevel opt)))\<rparr>)"
    by (auto simp: log_world_init_def log_doStart_def new_logSystem_def)
  then show "log_control w \<and> log_kept (configured_level opt) w"
    using new_queue_inv
    by (auto simp: log_control_def kept_defs log_world_start_def new_logSystem_def new_post_def
        waiting_entries_def configured_level_def new_logConsole_def visible_def)
next
  fix w w' assume "log_control w \<and> log_kept (configured_level opt) w" and "small_step w w'"
  then show "log_control w' \<and> log_kept (configured_level opt) w'"
    using step_control step_kept by (auto simp: small_step_def)
qed



section \<open>What is written and what is lost\<close>

text \<open>A thread that has ended writes nothing any more, whatever the others do.\<close>

lemma done_step: "log_step w w' \<Longrightarrow> w_pc w = PDone \<Longrightarrow> w_pc w' = PDone \<and> console w' = console w"
proof (induction rule: log_step.induct)
  case (l_writer w w')
  then show ?case by (auto elim: writer_step.cases)
qed (auto simp: log_step_defs console_def split: option.splits)

lemma done_steps: "log_step\<^sup>*\<^sup>* w w' \<Longrightarrow> w_pc w = PDone \<Longrightarrow> w_pc w' = PDone \<and> console w' = console w"
  by (induction rule: rtranclp_induct) (auto dest: done_step)

text \<open>Nor does a thread that is on its way into the wait, as long as nobody posts.\<close>

definition before_wait :: "log_world \<Rightarrow> bool" where
  "before_wait w \<longleftrightarrow> w_pc w \<in> {PTop, PEnter, PWaiting} \<and> \<not> m_shutdown (l_pid (w_sys w)) \<and> w_hand w = None"

lemma idle_step: "writer_step w w' \<Longrightarrow> before_wait w \<Longrightarrow> before_wait w' \<and> console w' = console w"
  by (erule writer_step.cases) (auto simp: before_wait_def console_def post_enter_def split: option.splits)

lemma idle_steps: "writer_step\<^sup>*\<^sup>* w w' \<Longrightarrow> before_wait w \<Longrightarrow> console w' = console w"
proof -
  have "writer_step\<^sup>*\<^sup>* w w' \<Longrightarrow> before_wait w \<Longrightarrow> before_wait w' \<and> console w' = console w"
    by (induction rule: rtranclp_induct) (auto dest: idle_step)
  then show "writer_step\<^sup>*\<^sup>* w w' \<Longrightarrow> before_wait w \<Longrightarrow> console w' = console w" by blast
qed

text \<open>A thread in its function empties the queue.\<close>

lemma write_hand:
  assumes "log_kept lv w" and "log_control w" and "w_pc w = PRun" and "w_hand w = Some m"
  shows "\<exists>w'. writer_step w w' \<and> w_pc w' = PRun \<and> w_hand w' = None \<and> w_pushed w' = w_pushed w \<and> l_mqs (w_sys w') = l_mqs (w_sys w)"
proof -
  obtain lg where lg: "l_log (w_sys w) = Some lg"
    using assms by (auto simp: log_kept_def logger_there_def log_control_def split: option.splits)
  obtain x where "m = log_entry x" using assms(1,4) by (auto simp: log_kept_def history_kept_def waiting_entries_def)
  then obtain r where "log_one m (Inr (l_log (w_sys w))) = Inr r" using lg log_one_entry by simp
  then show ?thesis using w_line[OF assms(3,4)] assms(3) by fastforce
qed

lemma pop_one:
  assumes "log_control w" and "w_pc w = PRun" and "w_hand w = None"
  shows "\<exists>w'. writer_step w w' \<and> w_hand w' = hd_opt (contents (l_mqs (w_sys w))) \<and> contents (l_mqs (w_sys w')) = tl (contents (l_mqs (w_sys w))) \<and>
    w_pc w' = (if contents (l_mqs (w_sys w)) = [] then PTop else PRun) \<and> w_pushed w' = w_pushed w"
proof -
  obtain q where q: "local_pop (l_mqs (w_sys w)) = Inr (hd_opt (contents (l_mqs (w_sys w))), q)" "contents q = tl (contents (l_mqs (w_sys w)))"
    using rq.deq_hd_tl[of "l_mqs (w_sys w)"] assms(1) by (auto simp: log_control_def)
  show ?thesis using w_pop[OF assms(2,3) q(1)] q(2) by (fastforce intro!: exI conjI)
qed

lemma writer_drains:
  "log_control w \<Longrightarrow> log_kept lv w \<Longrightarrow> w_pc w = PRun \<Longrightarrow>
     \<exists>w'. writer_step\<^sup>*\<^sup>* w w' \<and> log_kept lv w' \<and> waiting_entries w' = [] \<and> w_pushed w' = w_pushed w"
proof (induction "2 * length (contents (l_mqs (w_sys w))) + (if w_hand w = None then 0 else 1)" arbitrary: w rule: less_induct)
  case less
  show ?case
  proof (cases "w_hand w")
    case (Some m)
    obtain w1 where w1: "writer_step w w1" "w_pc w1 = PRun" "w_hand w1 = None" "w_pushed w1 = w_pushed w" "l_mqs (w_sys w1) = l_mqs (w_sys w)"
      using write_hand[OF less.prems(2,1,3) Some] by blast
    then show ?thesis
      using less.hyps[of w1] Some writer_control[OF w1(1)] writer_kept[OF w1(1)] less.prems
      by (auto intro: converse_rtranclp_into_rtranclp[where r=writer_step, OF w1(1)])
  next
    case None
    obtain w1 where w1: "writer_step w w1" "w_hand w1 = hd_opt (contents (l_mqs (w_sys w)))"
      "contents (l_mqs (w_sys w1)) = tl (contents (l_mqs (w_sys w)))"
      "w_pc w1 = (if contents (l_mqs (w_sys w)) = [] then PTop else PRun)" "w_pushed w1 = w_pushed w"
      using pop_one[OF less.prems(1,3) None] by blast
    have kept: "log_control w1" "log_kept lv w1" using writer_control[OF w1(1)] writer_kept[OF w1(1)] less.prems by auto
    show ?thesis
    proof (cases "contents (l_mqs (w_sys w))")
      case Nil
      then show ?thesis using w1 kept by (intro exI[of _ w1]) (auto simp: waiting_entries_def)
    next
      case (Cons x xs)
      then show ?thesis
        using less.hyps[of w1] w1 kept None by (auto intro: converse_rtranclp_into_rtranclp[where r=writer_step, OF w1(1)])
    qed
  qed
qed

lemma notified_runs:
  assumes "log_control w" and "log_kept lv w" and "w_pc w \<in> {PWoken, PCheck, PRun}" and "w_phase w = Up"
  shows "\<exists>w'. writer_step\<^sup>*\<^sup>* w w' \<and> console w' = visible lv (w_pushed w)"
proof -
  have run: "\<exists>w'. writer_step\<^sup>*\<^sup>* u w' \<and> console w' = visible lv (w_pushed u)"
    if u: "log_control u" "log_kept lv u" "w_pc u = PRun" for u
  proof -
    obtain w' where w': "writer_step\<^sup>*\<^sup>* u w'" "log_kept lv w'" "waiting_entries w' = []" "w_pushed w' = w_pushed u"
      using writer_drains[OF u] by blast
    then show ?thesis by (auto simp: log_kept_def history_kept_def)
  qed
  have check: "\<exists>w'. writer_step\<^sup>*\<^sup>* u w' \<and> console w' = visible lv (w_pushed u)"
    if u: "log_control u" "log_kept lv u" "w_pc u = PCheck" "w_phase u = Up" for u
  proof -
    have step: "writer_step u (u\<lparr>w_pc := PRun\<rparr>)" using w_check[OF u(3)] u(1,4) by (simp add: log_control_def)
    then show ?thesis
      using run[of "u\<lparr>w_pc := PRun\<rparr>"] writer_control[OF step u(1)] writer_kept[OF step u(1,2)]
      by (auto intro: converse_rtranclp_into_rtranclp[where r=writer_step, OF step])
  qed
  show ?thesis
  proof (cases "w_pc w = PWoken")
    case True
    let ?u = "w\<lparr>w_sys := (w_sys w)\<lparr>l_pid := (l_pid (w_sys w))\<lparr>m_sleep := m_sleep (l_pid (w_sys w)) - 1\<rparr>\<rparr>, w_pc := PCheck\<rparr>"
    have step: "writer_step w ?u" using True by (rule w_wake) (simp add: post_wake_def)
    have "\<exists>w'. writer_step\<^sup>*\<^sup>* ?u w' \<and> console w' = visible lv (w_pushed w)"
      using check[of ?u] writer_control[OF step assms(1)] writer_kept[OF step assms(1,2)] assms(4) by simp
    then show ?thesis using step by (meson converse_rtranclp_into_rtranclp)
  qed (use assms run[of w] check[of w] in auto)
qed

text \<open>One message, logged and posted before the thread first looks: posting finds nobody asleep, and the
  shutdown that follows ends the thread.  The message is never written.\<close>

lemma logged_line_lost:
  assumes "opt_logPath opt = None"
  shows "\<exists>u w. reach (log_world_init opt) small_step u \<and> w_pushed u = [(l, msg)] \<and> w_client u = (\<lambda>_. Quiet) \<and> w_phase u = Up \<and>
    small_step\<^sup>*\<^sup>* u w \<and> w_pushed w = [(l, msg)] \<and> w_pc w = PDone \<and> console w = []"
proof -
  define s where "s = new_logSystem\<lparr>l_log := Some (new_logConsole (sint (opt_logLevel opt)))\<rparr>"
  define w0 where "w0 = log_world_start s"
  have start: "log_world_init opt w0"
    using assms by (simp add: log_world_init_def w0_def s_def log_doStart_def new_logSystem_def)
  obtain q where q: "local_push new_queue (log_entry (l, msg)) = Inr q" "contents q = [log_entry (l, msg)]"
    using rq.enq_ok[OF new_queue_inv rq.room_lim[OF new_queue_inv], of "log_entry (l, msg)"] by auto
  have "log_doLog l msg (w_sys w0) = Inr (s\<lparr>l_mqs := q\<rparr>)"
    using q(1) by (simp add: log_doLog_def w0_def log_world_start_def s_def new_logSystem_def log_entry_def c_str_def checkE_def)
  then have "small_step\<^sup>*\<^sup>* w0 (w0\<lparr>w_sys := s\<lparr>l_mqs := q\<rparr>, w_pushed := w_pushed w0 @ [(l, msg)],
      w_pc := doPost (l_pid (s\<lparr>l_mqs := q\<rparr>)) (w_pc w0)\<rparr>)"
    by (rule doLog_steps[of _ _ _ _ 0]) (simp_all add: w0_def log_world_start_def s_def new_logSystem_def queue_small_def q(2))
  moreover define u where "u = w0\<lparr>w_sys := s\<lparr>l_mqs := q\<rparr>, w_pushed := [(l, msg)], w_pc := PTop\<rparr>"
  ultimately have u: "small_step\<^sup>*\<^sup>* w0 u"
    by (simp add: w0_def log_world_start_def s_def new_logSystem_def new_post_def doPost_def)
  define v where "v = u\<lparr>w_sys := (w_sys u)\<lparr>l_pid := (l_pid (w_sys u))\<lparr>m_shutdown := True\<rparr>\<rparr>, w_pc := PTop, w_phase := Joining\<rparr>"
  have small: "queue_small u" "queue_small v" using q(2) by (simp_all add: v_def u_def queue_small_def)
  have "small_step u v"
    using l_shutdown[of u] small by (simp add: small_step_def v_def u_def w0_def log_world_start_def post_doShutdown_def notify_one_def)
  moreover have "small_step v (v\<lparr>w_pc := PDone\<rparr>)"
    using l_writer[OF w_top[of v]] small by (simp add: small_step_def v_def)
  ultimately have "small_step\<^sup>*\<^sup>* u (v\<lparr>w_pc := PDone\<rparr>)" by (meson converse_rtranclp_into_rtranclp rtranclp.rtrancl_refl)
  moreover have "reach (log_world_init opt) small_step u" by (rule reach_steps[OF u reach_init]) (rule start)
  ultimately show ?thesis
    by (intro exI[of _ u] exI[of _ "v\<lparr>w_pc := PDone\<rparr>"])
      (simp add: v_def u_def w0_def log_world_start_def console_def s_def new_logConsole_def)
qed


section \<open>Properties\<close>



end
