(* ===== verification/SocketOpen.thy ===== *)
theory SocketOpen
  imports SocketSystem SocketWrap
begin

text \<open>
  The calls to the operating system behind opening a socket: \<open>doSocketBind\<close> and \<open>doRequestConnect\<close>
  (\<open>engine/src/network/socketSystem.cc\<close>) with every call of \<open>socketWrap\<close> they make, recorded in the order
  in which they are made.  From the record follows what a request leaves open: descriptors and the
  lists of addresses \<open>getaddrinfo\<close> allocates.  \<open>SocketSystem\<close> has the same functions without the calls;
  these here refine them.
\<close>

section \<open>Calls\<close>

text \<open>
  A call with what the ledger needs of its answer: whether \<open>getaddrinfo\<close> made a list, whether
  \<open>freeaddrinfo\<close> was given one, the descriptor \<open>socket\<close> returned.
\<close>

datatype syscall =
    CAddrinfo bool | CFreeAddrinfo bool | CSocket int | CSetsockopt int int | CSetNonblock int | CBind int | CConnect int
  | CClose int

definition SO_REUSEADDR :: int where "SO_REUSEADDR = 2"

definition SO_KEEPALIVE :: int where "SO_KEEPALIVE = 9"

type_synonym calls = "syscall list"

definition sw_getAddrInfo :: "kernel \<Rightarrow> calls \<Rightarrow> candidate list option \<times> calls" where
  "sw_getAddrInfo k t = (k_addrinfo k, t @ [CAddrinfo (k_addrinfo k \<noteq> None)])"

definition sw_freeAddrInfo :: "candidate list option \<Rightarrow> calls \<Rightarrow> calls" where
  "sw_freeAddrInfo l t = t @ [CFreeAddrinfo (l \<noteq> None)]"

definition sw_socket :: "int \<Rightarrow> calls \<Rightarrow> int \<times> calls" where
  "sw_socket answer t = (answer, t @ [CSocket answer])"

definition sw_reuseaddr :: "kernel \<Rightarrow> int \<Rightarrow> calls \<Rightarrow> int \<times> calls" where
  "sw_reuseaddr k sock t = (if k_reuse k then 0 else -1, t @ [CSetsockopt sock SO_REUSEADDR])"

definition sw_bind_call :: "kernel \<Rightarrow> int \<Rightarrow> int \<Rightarrow> calls \<Rightarrow> int \<times> calls" where
  "sw_bind_call k err sock t = (sw_bind (if k_bind k then 0 else -1) err, t @ [CBind sock])"

text \<open>The results of the next two are ignored by their callers.\<close>

definition sw_setKeepalive :: "int \<Rightarrow> calls \<Rightarrow> calls" where
  "sw_setKeepalive sock t = t @ [CSetsockopt sock SO_KEEPALIVE]"

definition sw_setNonblock :: "int \<Rightarrow> calls \<Rightarrow> calls" where
  "sw_setNonblock sock t = t @ [CSetNonblock sock]"

definition sw_connect :: "connect_answer \<Rightarrow> int \<Rightarrow> calls \<Rightarrow> connect_answer \<times> calls" where
  "sw_connect answer sock t = (answer, t @ [CConnect sock])"

definition sw_close :: "kernel \<Rightarrow> int \<Rightarrow> calls \<Rightarrow> calls res" where
  "sw_close k sock t = seqE (slot_closed k sock) (\<lambda>_. Inr (t @ [CClose sock]))"


section \<open>Opening\<close>

text \<open>\<open>doSocketBind\<close>; \<open>err\<close> is \<open>errno\<close> after a failed \<open>bind\<close>.\<close>

definition bind_failed :: "kernel \<Rightarrow> int \<Rightarrow> calls \<Rightarrow> (int \<times> calls) res" where
  "bind_failed k sock t = seqE (sw_close k sock t) (\<lambda>t. Inr (INVALID_SOCKET, t))"

definition open_bind :: "kernel \<Rightarrow> int \<Rightarrow> calls \<Rightarrow> (int \<times> calls) res" where
  "open_bind k err t =
     (let (list, t) = sw_getAddrInfo k t in
      case list of
        None \<Rightarrow> Inr (INVALID_SOCKET, t)
      | Some [] \<Rightarrow> Inl NullDeref
      | Some ((answer, _) # _) \<Rightarrow>
          (let (sock, t) = sw_socket answer t in
           if sock = INVALID_SOCKET then Inr (INVALID_SOCKET, t)
           else let (r, t) = sw_reuseaddr k sock t in
             if r = -1 then bind_failed k sock t
             else let (r, t) = sw_bind_call k err sock t in
               if r \<noteq> 0 then bind_failed k sock t
               else Inr (sock, sw_freeAddrInfo list t)))"

text \<open>The loop of \<open>doRequestConnect\<close>, and the request.\<close>

fun open_loop :: "kernel \<Rightarrow> candidate list \<Rightarrow> int \<Rightarrow> bool \<Rightarrow> calls \<Rightarrow> (int \<times> bool \<times> 8 word list option \<times> calls) res" where
  "open_loop k [] sock ok t = Inr (sock, ok, None, t)"
| "open_loop k ((answer, ans, txt) # cs) sock ok t =
     (let (sk, t) = sw_socket answer t in
      if sk < 0 then open_loop k cs sk ok t
      else let (status, t) = sw_connect ans sk (sw_setNonblock sk (sw_setKeepalive sk t)) in
        case status of
          ConnOk \<Rightarrow> Inr (sk, True, txt, t)
        | ConnInProgress \<Rightarrow> Inr (sk, False, txt, t)
        | ConnFailed \<Rightarrow> seqE (sw_close k sk t) (open_loop k cs INVALID_SOCKET False))"

definition open_failed :: "candidate list option \<Rightarrow> int \<Rightarrow> nat \<Rightarrow> 8 word list option \<Rightarrow> sys \<Rightarrow> calls \<Rightarrow> int \<times> sys \<times> calls" where
  "open_failed l handle opq txt s t =
     (let (r, s) = connect_failed handle opq txt s in (r, s, sw_freeAddrInfo l t))"

definition open_connect :: "kernel \<Rightarrow> int \<Rightarrow> nat \<Rightarrow> sys \<Rightarrow> calls \<Rightarrow> (int \<times> sys \<times> calls) res" where
  "open_connect k handle opq s t =
     (let (list, t) = sw_getAddrInfo k t in
      case list of
        None \<Rightarrow> Inr (open_failed list handle opq (Some (k_text k)) s t)
      | Some cands \<Rightarrow>
          seqE (open_loop k cands INVALID_SOCKET True t) (\<lambda>(sock, ok, txt, t).
            if sock < 0 then Inr (open_failed list handle opq (Some (k_text k)) s t)
            else (let i = SOCKET_GET handle;
                      (registered, e) = ep_doRegister (k_register k) sock (Some i) (m_epoll s);
                      s = s\<lparr>m_epoll := e\<rparr>
              in if registered then
                   seqE (sw_close k sock t) (\<lambda>t. Inr (open_failed list handle opq (Some (k_text k)) s t))
                 else (let sk = sock_doInit opq handle sock TCP (m_sockGroup s i) in
                   if ok \<and> cands = [] then Inl NullDeref
                   else if ok then
                     Inr (-1, emit M_SOCKET_START opq handle 0 txt 0
                       (set_slot i (sk\<lparr>m_state := CONNECTED\<rparr>) s), sw_freeAddrInfo list t)
                   else
                     Inr (-1, set_slot i (sk\<lparr>m_state := CONNECTING\<rparr>)
                       (s\<lparr>m_epoll := ep_doToWrite sock (Some i) True (m_epoll s)\<rparr>), sw_freeAddrInfo list t)))))"


section \<open>Refinement\<close>

definition result_of :: "('a \<times> calls) res \<Rightarrow> 'a res" where
  "result_of r = seqE r (\<lambda>(v, _). Inr v)"

lemmas call_defs = sw_getAddrInfo_def sw_freeAddrInfo_def sw_socket_def sw_reuseaddr_def sw_bind_call_def sw_bind_def
  sw_setKeepalive_def sw_setNonblock_def sw_connect_def sw_close_def

lemma seqE_assoc: "seqE (seqE r f) g = seqE r (\<lambda>v. seqE (f v) g)"
  by (cases r) simp_all

lemma bind_refines: "err \<noteq> 0 \<Longrightarrow> result_of (open_bind k err t) = doSocketBind k"
  by (auto simp: open_bind_def doSocketBind_def result_of_def call_defs bind_failed_def slot_closed_def Let_def
      split: option.splits list.splits)

lemma loop_refines:
  "seqE (open_loop k cs sock ok t) (\<lambda>(sock, ok, txt, t). Inr (sock, ok, txt)) = connect_loop k cs sock ok"
proof (induction k cs sock ok t rule: open_loop.induct)
  case (2 k answer ans msg cs sock ok t)
  then show ?case
    by (cases ans) (auto simp: call_defs slot_closed_def Let_def split: option.splits)
qed simp

lemma connect_refines:
  "seqE (open_connect k handle opq s t) (\<lambda>(r, s', t'). Inr (r, s')) = doRequestConnect k handle opq s"
proof (cases "k_addrinfo k")
  case (Some cands)
  have loop: "connect_loop k cands INVALID_SOCKET True =
      seqE (open_loop k cands INVALID_SOCKET True (t @ [CAddrinfo True])) (\<lambda>(sock, ok, txt, t). Inr (sock, ok, txt))"
    by (rule loop_refines[symmetric])
  show ?thesis
  proof (cases "open_loop k cands INVALID_SOCKET True (t @ [CAddrinfo True])")
    case (Inl e)
    then show ?thesis using Some by (simp add: open_connect_def doRequestConnect_def loop call_defs)
  next
    case (Inr v)
    obtain sock ok msg u where v: "v = (sock, ok, msg, u)" by (cases v) auto
    show ?thesis
      by (cases "ep_doRegister (k_register k) sock (Some (SOCKET_GET handle)) (m_epoll s)")
        (simp add: open_connect_def doRequestConnect_def loop call_defs Some Inr v open_failed_def slot_closed_def Let_def
          case_prod_beta split: option.split)
  qed
qed (simp add: open_connect_def doRequestConnect_def call_defs open_failed_def Let_def case_prod_beta)



section \<open>The ledger\<close>

text \<open>How often a descriptor was opened more than closed, and how many lists of addresses are left.\<close>

definition open_count :: "calls \<Rightarrow> int \<Rightarrow> int" where
  "open_count t fd = int (count_list t (CSocket fd)) - int (count_list t (CClose fd))"

definition list_count :: "calls \<Rightarrow> int" where
  "list_count t = int (count_list t (CAddrinfo True)) - int (count_list t (CFreeAddrinfo True))"

lemma open_count_append [simp]: "open_count (t @ u) fd = open_count t fd + open_count u fd"
  by (simp add: open_count_def)

lemma list_count_append [simp]: "list_count (t @ u) = list_count t + list_count u"
  by (simp add: list_count_def)

lemma counts_one:
  "open_count [c] fd = (if c = CSocket fd then 1 else if c = CClose fd then -1 else 0)"
  "list_count [c] = (if c = CAddrinfo True then 1 else if c = CFreeAddrinfo True then -1 else 0)"
  by (auto simp: open_count_def list_count_def)

lemma counts_Cons:
  "open_count (c # t) fd = open_count [c] fd + open_count t fd" "list_count (c # t) = list_count [c] + list_count t"
  by (simp_all add: open_count_def list_count_def)

lemmas ledger = counts_Cons[of _ "_ # _"] counts_one

text \<open>The loop leaves the socket it ends with and closes the others.\<close>

lemma loop_ledger:
  assumes "open_loop k cs sock ok t = Inr (sock', ok', msg, t')" and "sock \<le> 0" and "0 \<notin> fst ` set cs" and "0 \<le> fd"
  shows "list_count t' = list_count t \<and> open_count t' fd = open_count t fd + (if fd = sock' \<and> 0 < fd then 1 else 0)"
  using assms
proof (induction k cs sock ok t rule: open_loop.induct)
  case (2 k answer ans words cs sock ok t)
  show ?case
  proof (cases "answer < 0")
    case True
    then show ?thesis using 2 by (simp add: sw_socket_def counts_one)
  next
    case False
    then show ?thesis using 2
      by (cases ans) (auto simp: call_defs slot_closed_def ledger Let_def res_simps INVALID_SOCKET_def split: option.splits)
  qed
qed auto

text \<open>\<open>doSocketBind\<close> frees the list only when it succeeds.\<close>

lemma bind_ledger:
  assumes "open_bind k err t = Inr (sock, t')" and "k_addrinfo k = Some ((answer, x) # cs)" and "err \<noteq> 0"
    and "answer < 0 \<Longrightarrow> \<not> k_reuse k" and "0 \<le> fd"
  shows "if sock = INVALID_SOCKET then list_count t' = list_count t + 1 \<and> (answer \<noteq> 0 \<longrightarrow> open_count t' fd = open_count t fd)
    else list_count t' = list_count t \<and> open_count t' fd = open_count t fd + (if fd = sock then 1 else 0)"
  using assms
  by (auto simp: open_bind_def bind_failed_def call_defs slot_closed_def ledger Let_def res_simps INVALID_SOCKET_def
      split: option.splits if_splits)


lemma connect_ledger:
  assumes "open_connect k h opq s t = Inr (r, s', t')" and "0 \<notin> fst ` set (case k_addrinfo k of None \<Rightarrow> [] | Some cs \<Rightarrow> cs)" and "0 < fd"
  shows "list_count t' = list_count t \<and>
    open_count t' fd = open_count t fd + (if r = -1 \<and> fd = m_sock (getSocket s' h) then 1 else 0)"
proof (cases "k_addrinfo k")
  case None
  then show ?thesis using assms(1)
    by (auto simp: open_connect_def open_failed_def connect_failed_def call_defs ledger Let_def ERROR_def)
next
  case (Some cands)
  obtain sock ok msg u where u: "open_loop k cands INVALID_SOCKET True (t @ [CAddrinfo True]) = Inr (sock, ok, msg, u)"
    using assms(1) Some by (cases "open_loop k cands INVALID_SOCKET True (t @ [CAddrinfo True])") (auto simp: open_connect_def call_defs)
  have loop: "list_count u = list_count t + 1" "open_count u fd = open_count t fd + (if fd = sock then 1 else 0)"
    using loop_ledger[OF u, of fd] assms(2,3) Some by (auto simp: INVALID_SOCKET_def counts_one)
  show ?thesis
    using assms(1,3) Some u loop
    by (cases "ep_doRegister (k_register k) sock (Some (SOCKET_GET h)) (m_epoll s)")
      (auto simp: open_connect_def open_failed_def connect_failed_def call_defs ledger Let_def ERROR_def slot_closed_def emit_def
        getSocket_def set_slot_def sock_doInit_def res_simps split: if_splits option.splits)
qed

text \<open>When every address refuses, the socket is \<open>INVALID_SOCKET\<close>, 0, which is not below 0.\<close>

lemma loop_refused:
  assumes "\<And>c. c \<in> set cs \<Longrightarrow> 0 < fst c \<and> fst (snd c) = ConnFailed \<and> k_close k (fst c) \<noteq> None"
  shows "\<exists>u. open_loop k cs 0 ok t = Inr (0, ok \<and> cs = [], None, u) \<and> open_count u 0 = open_count t 0"
  using assms
proof (induction cs arbitrary: ok t)
  case (Cons c cs)
  obtain sk words where c: "c = (sk, ConnFailed, words)" "0 < sk" "k_close k sk \<noteq> None"
    using Cons.prems[of c] by (cases c) auto
  then show ?case
    using Cons.IH[of False "t @ [CSocket sk, CSetsockopt sk SO_KEEPALIVE, CSetNonblock sk, CConnect sk, CClose sk]"] Cons.prems
    by (auto simp: call_defs slot_closed_def ledger Let_def INVALID_SOCKET_def)
qed simp

lemma refused_connect:
  assumes "k_addrinfo k = Some cs" and "cs \<noteq> []" and "k_close k 0 \<noteq> None"
    and "\<And>c. c \<in> set cs \<Longrightarrow> 0 < fst c \<and> fst (snd c) = ConnFailed \<and> k_close k (fst c) \<noteq> None"
  shows "\<exists>r s' t'. open_connect k h opq s t = Inr (r, s', t') \<and>
    (if k_register k \<and> 0 \<notin> dom (m_epoll s) then r = ERROR \<and> open_count t' 0 = open_count t 0 - 1
     else r = -1 \<and> m_state (getSocket s' h) = CONNECTING \<and> m_sock (getSocket s' h) = 0)"
proof -
  obtain u where u: "open_loop k cs 0 True (t @ [CAddrinfo True]) = Inr (0, False, None, u)"
      "open_count u 0 = open_count t 0"
    using loop_refused[OF assms(4), of cs True "t @ [CAddrinfo True]"] assms(2) by (auto simp: counts_one)
  then show ?thesis using assms(1,3)
    by (auto simp: open_connect_def open_failed_def connect_failed_def call_defs ledger Let_def slot_closed_def INVALID_SOCKET_def
        ep_doRegister_def getSocket_def set_slot_def sock_doInit_def split: option.splits)
qed


section \<open>Properties\<close>


definition refusing_kernel :: kernel where
  "refusing_kernel = demo_kernel\<lparr>k_addrinfo := Some [(9, ConnFailed, None), (9, ConnFailed, None)]\<rparr>"


end
