(* ===== verification/EngineLife.thy ===== *)
theory EngineLife
  imports SocketLife ActorLife Scheduler Clock LogSystem LuaLoader Launcher
begin

text \<open>
  The end of the engine, \<open>framework::doUnInit\<close> (\<open>engine/src/framework.cc\<close>), over the states of its parts:
  the socket system, the actor system with its collector, the scheduler with its clock, the log and
  the cache of files, stopped in this order.  \<open>Launcher\<close> has the order alone; here every part is
  the one of its own theory, and a part that is not done keeps the later ones running.
\<close>

section \<open>The parts\<close>

record ('d, 'w, 'm) engine =
  en_net :: sys
  en_idx :: int
  en_n :: int
  en_work :: "post \<times> post_pc"
  en_gcc :: "'m gcc_state"
  en_sched :: scheduler
  en_clock :: "'d clock \<times> 'w"
  en_log :: logSystem
  en_files :: ofile
  en_mem :: mem

text \<open>
  What the end finds: the operating system for the exit command, the rounds the poll thread still
  makes, the options of the collector and the suspended sessions of the actors, the time of the last
  tick of the clock's thread with the callbacks of its timers, and whether the dispatcher and the
  workers, which run the code of the actors, come to an end.
\<close>

record ('d, 'w) end_env =
  v_kernel :: kernel
  v_rounds :: "poll_env list"
  v_sleep :: "32 word"
  v_timeout :: "32 word"
  v_susp :: "nat \<Rightarrow> nat option"
  v_ct :: "64 word"
  v_cb :: "'d \<Rightarrow> 'd clock \<times> 'w \<Rightarrow> 'd clock \<times> 'w"
  v_joined :: bool

text \<open>
  \<open>scheduler::doShutdown\<close> sets the flag, wakes the workers and joins the thread of the dispatcher, which
  joins the workers, and the thread of the clock, which may be in its last tick.
\<close>

definition stop_scheduler :: "('d, 'w) end_env \<Rightarrow> ('d, 'w, 'm) engine \<Rightarrow> bool \<times> ('d, 'w, 'm) engine" where
  "stop_scheduler v e =
     (let e = e\<lparr>en_sched := scheduler_doShutdown (en_sched e)\<rparr> in
      case tick (v_cb v) (v_ct v) (en_clock e) of
        None \<Rightarrow> (False, e)
      | Some c \<Rightarrow> (v_joined v, e\<lparr>en_clock := c\<rparr>))"

text \<open>
  \<open>actorSystem::doShutdown\<close>; the thread that hands out messages is stopped first.
\<close>

definition stop_actors :: "('d, 'w) end_env \<Rightarrow> ('d, 'w, 'm) engine \<Rightarrow> bool \<times> ('d, 'w, 'm) engine" where
  "stop_actors v e =
     (case system_doShutdown (v_sleep v) (v_timeout v) (v_susp v) (en_work e) (en_gcc e) of
        None \<Rightarrow> (False, e\<lparr>en_work := post_doShutdown (fst (en_work e)) (snd (en_work e))\<rparr>)
      | Some (work, g) \<Rightarrow> (True, e\<lparr>en_work := work, en_gcc := g\<rparr>))"

definition stop_log_and_files :: "('d, 'w, 'm) engine \<Rightarrow> ('d, 'w, 'm) engine res" where
  "stop_log_and_files e =
     seqE (ofile_clear (en_files e) (en_mem e)) (\<lambda>(f, m).
       Inr (e\<lparr>en_log := log_doShutdown (en_log e), en_files := f, en_mem := m\<rparr>))"

text \<open>
  \<open>doUnInit\<close> after \<open>finalize\<close> and up to the options, whose map is cleared last: the part it waits for when it
  does not return, and the engine then.
\<close>

definition engine_doUnInit :: "('d, 'w) end_env \<Rightarrow> ('d, 'w, 'm) engine \<Rightarrow> (part option \<times> ('d, 'w, 'm) engine) res" where
  "engine_doUnInit v e =
     seqE (socketSystem_doShutdown (v_kernel v) (v_rounds v) (en_idx e) (en_n e) (en_net e)) (\<lambda>(ended, net).
       let e = e\<lparr>en_net := net\<rparr> in
       if \<not> ended then Inr (Some SocketPart, e)
       else let (ended, e) = stop_actors v e in
         if \<not> ended then Inr (Some ActorPart, e)
         else let (ended, e) = stop_scheduler v e in
           if \<not> ended then Inr (Some SchedulerPart, e)
           else seqE (stop_log_and_files e) (\<lambda>e. Inr (None, e)))"


section \<open>When it ends\<close>

text \<open>An exit command that is read: the channel listens, its pipe is empty, and the first round finds it.\<close>

definition exit_in_time :: "('d, 'w) end_env \<Rightarrow> ('d, 'w, 'm) engine \<Rightarrow> bool" where
  "exit_in_time v e \<longleftrightarrow> m_controlCtrl (m_channel (en_net e)) \<noteq> 0 \<and> pipe_bytes (m_channel (en_net e)) = [] \<and>
     length (k_pad (v_kernel v)) = 6 \<and> length (k_union (v_kernel v)) = 256 \<and> k_write (v_kernel v) = [Wrote 10] \<and>
     (\<exists>w ws. v_rounds v = w # ws \<and> e_sent w = [] \<and> \<not> e_select_intr w \<and> e_reads w = [ReadData, ReadData])"

text \<open>An exit command that is not: the poll thread has once looked when there was no request.\<close>

definition gone_deaf :: "('d, 'w) end_env \<Rightarrow> ('d, 'w, 'm) engine \<Rightarrow> bool" where
  "gone_deaf v e \<longleftrightarrow> (\<exists>s0 i m w us. pipe_bytes (m_channel s0) = [] \<and> e_sent w = [] \<and> list_all poller_works (w # us @ v_rounds v) \<and>
     doPoll (w # us) i m s0 = Inr (PollGo (en_idx e) (en_n e), en_net e))"

definition end_options_ok :: "('d, 'w) end_env \<Rightarrow> ('d, 'w, 'm) engine \<Rightarrow> bool" where
  "end_options_ok v e \<longleftrightarrow> v_sleep v \<noteq> 0 \<and> unat (v_timeout v) + unat (v_sleep v) < 2 ^ 32 \<and>
     deaths_ok (v_timeout v) (en_gcc e) \<and> g_quit (en_gcc e) = [] \<and> ofile_ok (en_files e) (en_mem e)"

lemma deaf_end:
  assumes "gone_deaf v e" and "engine_doUnInit v e = Inr (w, e')"
  shows "w = Some SocketPart \<and> (\<exists>net. e' = e\<lparr>en_net := net\<rparr>)"
proof -
  obtain ended net where s: "socketSystem_doShutdown (v_kernel v) (v_rounds v) (en_idx e) (en_n e) (en_net e) = Inr (ended, net)"
    using assms(2) by (auto simp: engine_doUnInit_def res_simps)
  have "\<not> ended" using assms(1) exit_unread[OF _ _ _ _ s] unfolding gone_deaf_def by blast
  then show ?thesis using assms(2) s by (auto simp: engine_doUnInit_def)
qed


lemma stop_actors_cases:
  assumes "end_options_ok v e"
  shows "if nobody_suspended (v_susp v) (en_gcc e)
    then \<exists>g. stop_actors v e = (True, e\<lparr>en_work := post_doShutdown (fst (en_work e)) (snd (en_work e)), en_gcc := g\<rparr>) \<and> m_qGcc g = [] \<and>
      {h \<in> set (m_qGcc (en_gcc e)). dying (en_gcc e) h} \<subseteq> set (g_quit g)
    else stop_actors v e = (False, e\<lparr>en_work := post_doShutdown (fst (en_work e)) (snd (en_work e))\<rparr>)"
  using shutdown_waits[of "v_sleep v" "v_timeout v" "en_gcc e" "v_susp v" "fst (en_work e)" "snd (en_work e)"] assms
  by (auto simp: end_options_ok_def stop_actors_def split: if_splits)

lemma stop_files:
  assumes "ofile_ok (en_files e) (en_mem e)"
  shows "\<exists>m. stop_log_and_files e = Inr (e\<lparr>en_log := log_doShutdown (en_log e), en_files := (en_files e)\<lparr>f_data := []\<rparr>, en_mem := m\<rparr>) \<and>
    mb_sizes m = (\<lambda>a. if a \<in> set (file_blocks (f_data (en_files e))) then None else mb_sizes (en_mem e) a)"
  using clear_data_frees[of "f_data (en_files e)" "en_mem e"] assms
  by (auto simp: stop_log_and_files_def ofile_clear_def ofile_ok_def)

text \<open>What is left running: the log, with its file cache, and the scheduler.\<close>

definition still_up :: "('d, 'w, 'm) engine \<Rightarrow> ('d, 'w, 'm) engine \<Rightarrow> bool" where
  "still_up e e' \<longleftrightarrow> en_log e' = en_log e \<and> en_files e' = en_files e \<and> en_mem e' = en_mem e"

definition all_down :: "('d, 'w, 'm) engine \<Rightarrow> ('d, 'w, 'm) engine \<Rightarrow> bool" where
  "all_down e e' \<longleftrightarrow> l_log (en_log e') = None \<and> m_shutdown_flag (en_sched e') \<and> m_qGcc (en_gcc e') = [] \<and>
     {h \<in> set (m_qGcc (en_gcc e)). dying (en_gcc e) h} \<subseteq> set (g_quit (en_gcc e')) \<and> m_shutdown (fst (en_work e')) \<and>
     f_data (en_files e') = [] \<and>
     mb_sizes (en_mem e') = (\<lambda>a. if a \<in> set (file_blocks (f_data (en_files e))) then None else mb_sizes (en_mem e) a)"

lemma timely_end:
  assumes "exit_in_time v e" and "end_options_ok v e"
  shows "\<exists>w e'. engine_doUnInit v e = Inr (w, e') \<and>
    w = (if \<not> nobody_suspended (v_susp v) (en_gcc e) then Some ActorPart
         else if tick (v_cb v) (v_ct v) (en_clock e) = None \<or> \<not> v_joined v then Some SchedulerPart else None) \<and>
    (if w = None then all_down e e' else still_up e e')"
proof -
  obtain w ws where ws: "v_rounds v = w # ws" "e_sent w = []" "\<not> e_select_intr w" "e_reads w = [ReadData, ReadData]"
    using assms(1) by (auto simp: exit_in_time_def)
  obtain net where net: "socketSystem_doShutdown (v_kernel v) (v_rounds v) (en_idx e) (en_n e) (en_net e) = Inr (True, net)"
    using exit_read[of "en_net e" "v_kernel v" w ws "en_idx e" "en_n e"] assms(1) ws by (auto simp: exit_in_time_def)
  let ?e = "e\<lparr>en_net := net\<rparr>"
  have opts: "end_options_ok v ?e" using assms(2) by (simp add: end_options_ok_def)
  note actors = stop_actors_cases[OF opts]
  show ?thesis
  proof (cases "nobody_suspended (v_susp v) (en_gcc e)")
    case False
    then show ?thesis using net actors by (simp add: engine_doUnInit_def still_up_def Let_def)
  next
    case True
    obtain g where g: "stop_actors v ?e = (True, ?e\<lparr>en_work := post_doShutdown (fst (en_work e)) (snd (en_work e)), en_gcc := g\<rparr>)"
        "m_qGcc g = []" "{h \<in> set (m_qGcc (en_gcc e)). dying (en_gcc e) h} \<subseteq> set (g_quit g)"
      using actors True by auto
    show ?thesis
    proof (cases "tick (v_cb v) (v_ct v) (en_clock e)")
      case None
      then show ?thesis using net g(1) True
        by (simp add: engine_doUnInit_def stop_scheduler_def still_up_def Let_def)
    next
      case (Some c)
      define e2 where "e2 = ?e\<lparr>en_work := post_doShutdown (fst (en_work e)) (snd (en_work e)), en_gcc := g,
        en_sched := scheduler_doShutdown (en_sched e), en_clock := c\<rparr>"
      have sched: "stop_scheduler v (?e\<lparr>en_work := post_doShutdown (fst (en_work e)) (snd (en_work e)), en_gcc := g\<rparr>) = (v_joined v, e2)"
        using Some by (simp add: stop_scheduler_def e2_def Let_def)
      have end_is: "engine_doUnInit v e = (if \<not> v_joined v then Inr (Some SchedulerPart, e2) else seqE (stop_log_and_files e2) (\<lambda>e. Inr (None, e)))"
        using net g(1) sched by (simp add: engine_doUnInit_def Let_def)
      obtain m where "stop_log_and_files e2 = Inr (e2\<lparr>en_log := log_doShutdown (en_log e2), en_files := (en_files e2)\<lparr>f_data := []\<rparr>, en_mem := m\<rparr>)"
          "mb_sizes m = (\<lambda>a. if a \<in> set (file_blocks (f_data (en_files e2))) then None else mb_sizes (en_mem e2) a)"
        using stop_files[of e2] assms(2) by (auto simp: end_options_ok_def e2_def)
      then show ?thesis using end_is True Some g(2,3)
        by (auto simp: e2_def still_up_def all_down_def log_doShutdown_def scheduler_doShutdown_def post_doShutdown_def)
    qed
  qed
qed


section \<open>Properties\<close>


text \<open>An engine that was just started, with dying actors, of which actor 3 has a suspended session.\<close>

definition example_engine :: "nat list \<Rightarrow> (nat, unit, unit) engine" where
  "example_engine q =
     \<lparr>en_net = fresh_sys, en_idx = 0, en_n = 7, en_work = (new_post, PTop), en_gcc = dying_actors q, en_sched = new_scheduler,
      en_clock = (new_clock 0 0 0, ()), en_log = new_logSystem, en_files = \<lparr>f_data = [], f_dir = []\<rparr>,
      en_mem = \<lparr>mb_sizes = (\<lambda>_. None), mb_used = 0\<rparr>\<rparr>"

definition example_env :: "(nat, unit) end_env" where
  "example_env =
     \<lparr>v_kernel = demo_kernel\<lparr>k_write := [Wrote 10]\<rparr>, v_rounds = [demo_env], v_sleep = 1000, v_timeout = 100000,
      v_susp = (\<lambda>h. Some (if h = 3 then 1 else 0)), v_ct = 0, v_cb = (\<lambda>_ cw. cw), v_joined = True\<rparr>"


end
