(* ===== verification/Spec2Isabelle.thy ===== *)
theory Spec2Isabelle
  imports RingQueue TaskChain RefCount RwMutex PostThread Clock ActorTable ActorMail
    ActorComponent Worker Scheduler SocketHandle SocketChannel SocketSystem SocketBuffer SocketApi
    TextUtil ComponentGroup Memory LuaStack LuaLoader LogSystem Launcher Kqueue Delivery
    SysLog LuaCore SocketWrap Coroutine ActorRun ActorTimer ActorLife SocketLife SocketTest
    LuaState Singleton CoreDump SharedPtr LogThread SocketOpen EngineLife
begin

text \<open>
  Verification of the wolf engine, an actor framework with coroutines, sockets and Lua scripts.

  The engine.  An actor (\<open>module/actor.cc\<close>) has a handle in the table of the actor system, a mailbox
  and a component, which is loaded from a shared library.  Sending puts a message into the mailbox
  and posts the actor to the queue of work; a posted thread (\<open>module/actorWorker.cc\<close>) makes a task of
  every posted actor, and the scheduler (\<open>operation/\<close>) runs the tasks as coroutines on its workers;
  a task takes one message and hands it to the component, which may suspend the coroutine until an
  answer, a timeout or a socket event wakes it.  The poll thread of the socket system (\<open>network/\<close>)
  takes requests from a pipe and events from epoll or kqueue, and turns what happens on a socket
  into messages for the actor that owns it; the socket interface of the actors (\<open>api/socket.cc\<close>)
  buffers the bytes and wakes the readers.  Log lines go through a queue to a thread that writes
  them.  The component \<open>lnlua\<close> runs a Lua script as an actor.  All paths below are relative to
  \<open>src/engine/src\<close> unless they begin with another directory of \<open>src\<close>.

  How the code is modelled.  An operation of the code is a function that takes the state it reads
  and returns the one it leaves; a class is a record with its members.  \<open>WolfBase\<close> has the results:
  \<open>'a res = fault + 'a\<close>, where a fault is a place the C++ code has no defined continuation (a failed
  assertion, a null or dangling pointer, an index out of bounds, a signed overflow, a read of
  uninitialised memory, a call that does not return, an exception nothing catches).  Loops that may
  not end are \<open>partial_function (option)\<close>, so that \<open>None\<close> is the endless loop and a statement that a
  call returns is one of the form \<open>= Some\<close>; all other loops are total functions with their measures.
  Fixed-width integers are words where they wrap and integers with range checks where the code
  computes with signed ones.  Threads are step relations: every block under a lock is one step, and
  what the other threads do is part of the relation.  \<open>WolfBase\<close> also has the locale
  \<open>invariant_machine\<close>, which every step relation interprets, the locale \<open>keyed_table\<close>, and the list
  lemmas.

  Containers and memory.
    \<open>RingQueue\<close>: \<open>util/queue.h\<close>, the ring buffer under every mailbox, with wrap-around, expansion and
      overload; locale \<open>fifo\<close> is its contract, and draining loops are proved from it.
    \<open>TaskChain\<close>: \<open>util/list.h\<close>, \<open>util/deque.h\<close> over a store of linked tasks with reference counts;
      a segment predicate relates the store to a list; locale \<open>splice_op\<close> for both classes.
    \<open>RefCount\<close>, \<open>SharedPtr\<close>: \<open>util/shared_ptr.h\<close>; strong and weak pointers as a machine of holders, and
      the pointer variables, with their assignments, moves and locks, that implement it.
    \<open>Memory\<close>: \<open>util/memory.cc\<close>, the counting allocation hooks, and \<open>luaStack::alloc\<close> with its limit.
    \<open>TextUtil\<close>: \<open>util/stringUtil\<close>, \<open>config\<close>, \<open>commandLineOption\<close>, the options of \<open>framework.cc\<close>.
  Locks and threads.
    \<open>RwMutex\<close>: \<open>util/mutex.h\<close>, \<open>util/spinlock.h\<close>; exclusion and no unnoticed waiting.
    \<open>PostThread\<close>: \<open>util/post.cc\<close>, its dispatching loops and its shutdown.
    \<open>Clock\<close>: \<open>operation/clock.cc\<close>, the timer wheel with 256 near slots and levels of 64.
    \<open>Worker\<close>, \<open>Scheduler\<close>: \<open>operation/worker.cc\<close>, \<open>task.cc\<close>, \<open>scheduler.cc\<close>; queues, stealing,
      suspension, the rounds of the dispatcher; what is conserved and who is notified.
    \<open>Coroutine\<close>: \<open>operation/context.h\<close>, \<open>fcontext.cc\<close>; the contexts of the tasks, the pool of workers
      that switch into them, and the variable of the thread that names the running worker.
    \<open>Singleton\<close>: \<open>util/singleton.h\<close>, the instance of a system and the threads that ask for it first;
      \<open>util/counter.h\<close>.
  Actors.
    \<open>ActorTable\<close>: \<open>module/actorSystem.cc\<close>, handles, growth, removal; refinement of a finite map.
    \<open>ActorMail\<close>: \<open>module/message.h\<close>, \<open>actor.cc\<close>, \<open>actorGcc.cc\<close>; message layout, mailboxes, collector.
    \<open>ActorComponent\<close>: \<open>module/actorComponent.cc\<close>; sessions, suspensions, protocols, dispatch.
    \<open>ActorRun\<close>: the machine of mailboxes, components and coroutines together: sending, posting, the
      task that takes a message, the handler that waits and the answer that wakes it.
    \<open>ActorTimer\<close>: \<open>doTimeOut\<close> of the actor system over \<open>Clock\<close>, and the timers of a component.
    \<open>ActorLife\<close>: \<open>doStart\<close> and \<open>doShutdown\<close> of the actor system, and the loop of the collector.
    \<open>ComponentGroup\<close>: \<open>module/componentGroup.cc\<close>; search path, symbols, table of libraries.
  Network.
    \<open>SocketHandle\<close>: \<open>network/socketHandle.cc\<close>, one socket and its send queue.
    \<open>SocketChannel\<close>: \<open>network/socketChannel.cc\<close>, the pipe with its frames, byte by byte; locale
      \<open>byte_store\<close> for the fields of a frame.
    \<open>SocketSystem\<close>: \<open>network/socketSystem.cc\<close>, \<open>iocpEpoll.cc\<close>; the slots, the requests, the events
      of a poll, as a step relation with an invariant of all slots.
    \<open>Kqueue\<close>: \<open>network/iocpKqueue.cc\<close>; locale \<open>event_poller\<close> is the contract of \<open>iocpWrap.h\<close>, which
      epoll and kqueue interpret.
    \<open>SocketWrap\<close>: \<open>network/socketWrap.cc\<close>; ports, addresses and guards around the system calls.
    \<open>SocketOpen\<close>: the system calls behind binding and connecting, in their order; refinement of the functions
      of \<open>SocketSystem\<close>, and the descriptors and lists of addresses that stay open.
    \<open>SocketBuffer\<close>, \<open>SocketApi\<close>: \<open>api/socket.cc\<close>; the chain of received chunks (locale \<open>byte_source\<close>,
      abstraction \<open>stream\<close>) and the sockets of the actors with their suspended callers.
    \<open>SocketLife\<close>: making, starting, polling and shutting down the socket channel.
    \<open>SocketTest\<close>: \<open>component/SocketTest\<close>, a client of the components and of the socket interface.
    \<open>Delivery\<close>: \<open>forwardMessage\<close>, and the way of received bytes from \<open>recv\<close> to the stream of the socket.
  Lua, log and life of the process.
    \<open>LuaStack\<close>, \<open>LuaLoader\<close>, \<open>LuaCore\<close>: \<open>lualib/\<close> and \<open>component/lnlua\<close>; the stack discipline of calls,
      the searcher and the file cache (\<open>util/ofile.cc\<close>), the functions scripts call.
    \<open>LuaState\<close>: \<open>luaStack::init\<close>, \<open>registerAllCore\<close> and \<open>registerAllNetwork\<close>, with the functions of Lua and tolua
      they call, as operations on stack, tables and registry; the state a script starts in.
    \<open>LogSystem\<close>, \<open>SysLog\<close>: \<open>log/\<close> and the macros of \<open>base.h\<close>; levels, queue, lines, formats.
    \<open>LogThread\<close>: the threads that log, the thread that writes and the shutdown of \<open>log/logSystem.cc\<close> as one
      machine; what is on the console, what waits, and what is lost.
    \<open>Launcher\<close>: \<open>launcher/src\<close>, \<open>framework.cc\<close>; start, loop and end, the daemon and its file.
    \<open>EngineLife\<close>: \<open>framework::doUnInit\<close> over the states of all parts; where the end of the engine waits.
    \<open>CoreDump\<close>: \<open>coreDump.cc\<close>, \<open>util/timestamp.h\<close>; what a crash writes and how it ends, and the signals.

  What the properties show.  Refinements: the ring queue, the deque and list, the actor table, the
  receive buffer, kqueue and the pointer variables do to their abstract counterparts (a list, a list of
  tasks, a finite map, a stream of bytes, epoll, counted holders) what their operations say.  Invariants of reachable states: counts of
  pointers, the read-write lock, the timer wheel, the tasks of the scheduler, the sessions of a
  component, the states of all socket slots, the memory of a Lua state, the lines of the log between
  the threads that log and the one that writes.  Functional behaviour on
  every branch: sending and receiving on a socket, closing and connecting, with what a
  connect leaves open, script and log lines, running Lua functions, the state a script starts in.  Composition: bytes that arrive on a socket are appended to the stream its
  owner reads (\<open>Delivery\<close>), and the line of a script is written (\<open>LuaCore\<close>, \<open>SysLog\<close>,
  \<open>LogSystem\<close>, \<open>PostThread\<close>, \<open>RingQueue\<close>).  In the machine of \<open>ActorRun\<close> a launch that waits is
  answered, and a handler that waits for a message to its own actor never returns; \<open>ActorTimer\<close> follows
  a timer of a component through the wheel to its callback; \<open>ActorLife\<close> and \<open>SocketLife\<close> say when the
  two shutdowns return, and \<open>EngineLife\<close> where the end of the whole engine waits.  Errors: where the code does not do what it means to, the
  property states what it does instead, on all inputs that lead there: an idle actor that is never
  posted again, table growth and timers that loop for ever, requests that are misread or not read
  at all, sends that are lost, bytes dropped by kqueue and by an exact read, scripts that cannot
  send text, callbacks that are never called, files loaded twice, a crash that never ends.

  Bounds and fuel.  \<open>getReserve\<close> of the socket system tries all 65536 slots, as the code does.  The
  statements on queues assume at most \<open>2 ^ 29\<close> elements, below which the doubled capacity of an
  \<open>int\<close> does not overflow; receive buffers are \<open>128 * 2 ^ j\<close> bytes; the received bytes of one socket
  stay below \<open>2 ^ 32\<close>, where the code's counter wraps.  No loop is cut short by fuel; the loop of the poll
  thread runs over a list of rounds of any length, each with what the operating system answers in it.

  Parameters of the model.  The answers of the operating system (sockets, pipe, epoll, kqueue, files,
  time, the table of processes), of the dynamic linker, of the allocation library and of a called
  Lua function; the Lua state after its libraries are opened, the numbers of the C functions and the events
  of tables with metatables; the text of a configuration file as the XML reader gives it; the number a Lua value
  converts to; the callbacks of timers and sockets; the order in which threads take their steps; the
  junk in memory that is read but was never written; the layout of a \<open>socketMessage\<close> in memory.

  Not modelled.  The bundled libraries (\<open>src/3rd\<close>), except the functions of Lua, tolua, spdlog and
  cppformat whose result the engine relies on (the operations on stack and tables, the registration of
  classes, the filter on levels, the check of the rotation time, the format of a text without
  arguments).  The assembly that switches stacks: its two
  functions are parameters of \<open>Coroutine\<close>, where a switch together with the statements after it, up to
  the end of the function that switched, is one step; the deletion of finished tasks is not in that
  machine.  Base classes and macros without state, the branches for Windows.  The example programs,
  and of \<open>SocketTest\<close> the log lines and the exported functions that make and delete it.  Two threads inside one operation that takes a lock for its whole length
  are not interleaved.

  Open points.  The checks of the type of \<open>self\<close> in the Lua functions, which are compiled only with
  \<open>WOLF_DEBUG\<close>, a macro no build file sets.  In \<open>ActorRun\<close> the callbacks of timers do not wait
  (\<open>callback_ok\<close>), a push into a mailbox and the setting of its flag are two steps as in the code, and
  the queues of the workers are a set of tasks that may run; \<open>Worker\<close> and \<open>Scheduler\<close> have the queues.
\<close>

end
